(* ===== verification/Prelude.thy ===== *)
theory Prelude
  imports Main "HOL-Library.Word"
begin

text \<open>
  Shared vocabulary of the development.  It names the integer types of
  \<^verbatim>\<open>common.h\<close>, the ways a piece of kernel code can stop
  (\<open>fault\<close>), the sequencing of fallible operations (\<open>bindE\<close>), and the
  generic facts about lists, options and words that the component theories share.

  A C function that may fail an \<^verbatim>\<open>assert\<close> (which ends in the endless
  loop \<^verbatim>\<open>exit_all\<close> of \<^verbatim>\<open>boot.S\<close>), follow a null
  pointer, leave an array or loop for ever is modelled with the result type
  \<open>'a res\<close>: \<open>Inl\<close> says how it stopped, \<open>Inr\<close> carries
  the new state and the returned value.
\<close>

subsection \<open>Integer types\<close>

type_synonym u8 = "8 word"
type_synonym u16 = "16 word"
type_synonym u32 = "32 word"
type_synonym u64 = "64 word"
type_synonym i32 = "32 word" \<comment> \<open>two's complement, read with \<open>sint\<close>\<close>
type_synonym i64 = "64 word" \<comment> \<open>two's complement, read with \<open>sint\<close>\<close>
type_synonym usize = "64 word"

type_synonym mem = "u64 \<Rightarrow> u8" \<comment> \<open>byte-addressed memory of the machine\<close>

subsection \<open>Faults and fallible operations\<close>

datatype fault =
    Assertion      \<comment> \<open>an \<^verbatim>\<open>assert\<close> failed: the kernel stops in \<^verbatim>\<open>exit_all\<close>\<close>
  | NullDeref      \<comment> \<open>a null pointer is followed\<close>
  | OutOfBounds    \<comment> \<open>an array is indexed outside its extent\<close>
  | Overflow       \<comment> \<open>a signed operation overflows or a division has no result\<close>
  | Diverges       \<comment> \<open>the loop never ends\<close>

type_synonym 'a res = "fault + 'a"

definition bindE :: "'a res \<Rightarrow> ('a \<Rightarrow> 'b res) \<Rightarrow> 'b res" where
  "bindE m f = (case m of Inl e \<Rightarrow> Inl e | Inr x \<Rightarrow> f x)"

definition assertE :: "bool \<Rightarrow> unit res" where
  "assertE b = (if b then Inr () else Inl Assertion)"

definition derefE :: "'a option \<Rightarrow> 'a res" where
  "derefE p = (case p of None \<Rightarrow> Inl NullDeref | Some a \<Rightarrow> Inr a)"

definition the_res :: "'a res \<Rightarrow> 'a" where
  "the_res r = projr r"

named_theorems res_simps "evaluation of fallible operations"

lemma bindE_Inr [simp, res_simps]: "bindE (Inr x) f = f x"
  by (simp add: bindE_def)

lemma bindE_Inl [simp, res_simps]: "bindE (Inl e) f = Inl e"
  by (simp add: bindE_def)

lemma bindE_eq_Inr_iff: "bindE m f = Inr y \<longleftrightarrow> (\<exists>x. m = Inr x \<and> f x = Inr y)"
  by (cases m) simp_all

lemma bindE_assoc: "bindE (bindE m f) g = bindE m (\<lambda>x. bindE (f x) g)"
  by (cases m) simp_all

lemma assertE_True [simp, res_simps]: "assertE True = Inr ()"
  by (simp add: assertE_def)

lemma assertE_False [simp, res_simps]: "assertE False = Inl Assertion"
  by (simp add: assertE_def)

lemma bindE_assertE: "bindE (assertE b) f = (if b then f () else Inl Assertion)"
  by (simp add: assertE_def)

lemma derefE_Some [simp, res_simps]: "derefE (Some a) = Inr a"
  by (simp add: derefE_def)

lemma derefE_None [simp, res_simps]: "derefE None = Inl NullDeref"
  by (simp add: derefE_def)

lemma derefE_Inr_iff [simp]: "derefE p = Inr a \<longleftrightarrow> p = Some a"
  by (auto simp: derefE_def split: option.splits)

lemma the_res_Inr [simp]: "the_res (Inr x) = x"
  by (simp add: the_res_def)

text \<open>Reading and writing an array element.\<close>

definition nthE :: "'a list \<Rightarrow> nat \<Rightarrow> 'a res" where
  "nthE xs i = (if i < length xs then Inr (xs ! i) else Inl OutOfBounds)"

definition updE :: "'a list \<Rightarrow> nat \<Rightarrow> 'a \<Rightarrow> 'a list res" where
  "updE xs i v = (if i < length xs then Inr (xs[i := v]) else Inl OutOfBounds)"

lemma nthE_Inr [simp, res_simps]: "i < length xs \<Longrightarrow> nthE xs i = Inr (xs ! i)"
  by (simp add: nthE_def)

lemma updE_Inr [simp, res_simps]: "i < length xs \<Longrightarrow> updE xs i v = Inr (xs[i := v])"
  by (simp add: updE_def)

lemma fill_loop:
  assumes "n \<le> length xs"
  shows "fold (\<lambda>i r. bindE r (\<lambda>xs. updE xs i v)) [0..<n] (Inr xs) = Inr (replicate n v @ drop n xs)"
  using assms
proof (induction n)
  case (Suc n)
  then have "replicate n v @ drop n xs = (replicate n v @ [xs ! n]) @ drop (Suc n) xs"
    by (simp add: Cons_nth_drop_Suc)
  with Suc show ?case by (simp add: list_update_append replicate_append_same)
qed simp

subsection \<open>Lists\<close>

lemma map_eq_Some_conv:
  "map f xs = map Some ys \<longleftrightarrow> length xs = length ys \<and> (\<forall>i < length xs. f (xs ! i) = Some (ys ! i))"
  by (auto simp: list_eq_iff_nth_eq)

lemma distinct_remove_middle:
  "distinct (xs @ n # ys) \<Longrightarrow> distinct (xs @ ys) \<and> n \<notin> set (xs @ ys)"
  by auto

lemma distinct_split_eq:
  assumes "xs @ n # ys = xs' @ n # ys'" and "distinct (xs @ n # ys)"
  shows "xs = xs' \<and> ys = ys'"
  using assms by (auto simp: append_eq_append_conv2 Cons_eq_append_conv append_eq_Cons_conv)

lemma take_Suc_snoc: "i < length xs \<Longrightarrow> take (Suc i) xs = take i xs @ [xs ! i]"
  by (rule take_Suc_conv_app_nth)

lemma subset_card_full: "finite B \<Longrightarrow> A \<subseteq> B \<Longrightarrow> card B \<le> card A \<Longrightarrow> A = B"
  by (rule card_seteq)

lemma card_bounded_distinct: "distinct xs \<Longrightarrow> set xs \<subseteq> {0..<(n::nat)} \<Longrightarrow> length xs \<le> n"
  by (metis card_mono distinct_card finite_atLeastLessThan card_atLeastLessThan diff_zero)

lemma UN_split: "k \<in> K \<Longrightarrow> (\<Union>j\<in>K. f (N j)) = f (N k) \<union> (\<Union>j\<in>K - {k}. f (N j))"
  by blast

lemma UN_fun_upd:
  assumes "k \<in> K"
  shows "(\<Union>j\<in>K. f ((N(k := v)) j)) = f v \<union> (\<Union>j\<in>K - {k}. f (N j))"
proof -
  have "(\<Union>j\<in>K. f ((N(k := v)) j)) = f ((N(k := v)) k) \<union> (\<Union>j\<in>K - {k}. f ((N(k := v)) j))"
    using assms by blast
  then show ?thesis by simp
qed

subsection \<open>Words\<close>

lemma word_of_nat_less_inj:
  assumes "a < 2 ^ 31" and "b < 2 ^ 31"
  shows "(word_of_nat a :: u32) = word_of_nat b \<longleftrightarrow> a = b"
  using assms by (simp add: word_of_nat_eq_iff take_bit_nat_eq_self)

lemma unat_of_nat_small32: "n < 2 ^ 32 \<Longrightarrow> unat (word_of_nat n :: u32) = n"
  by (simp add: unat_of_nat take_bit_nat_eq_self)

lemma unat_of_nat_small64: "n < 2 ^ 64 \<Longrightarrow> unat (word_of_nat n :: u64) = n"
  by (simp add: unat_of_nat take_bit_nat_eq_self)

lemma word_of_nat_0_iff32: "n < 2 ^ 32 \<Longrightarrow> (word_of_nat n :: u32) = 0 \<longleftrightarrow> n = 0"
  by (simp add: word_of_nat_eq_0_iff dvd_def) (metis mult_0_right mult_Suc_right linorder_not_less le_add1 not0_implies_Suc)

lemma sint_of_nat_small32: "n < 2 ^ 31 \<Longrightarrow> sint (word_of_nat n :: u32) = int n"
  by (simp add: signed_of_nat signed_take_bit_int_eq_self)

lemma join_words: "or (ucast (ucast w :: u32)) (push_bit 32 (ucast (ucast (drop_bit 32 w) :: u32))) = (w :: u64)"
  by (rule bit_word_eqI) (auto simp: bit_simps)

end
