(* ===== verification/Conversions.thy ===== *)
theory Conversions
  imports Prelude "HOL-Library.Signed_Division"
begin

text \<open>
  Numbers, strings and tokens of \<^verbatim>\<open>utilities.c\<close>.  A string is the list of its bytes; the
  writers yield the bytes they store from the start of the buffer, the null byte included.
  The four writers share their loops, which are defined once, on the values of the numbers.
\<close>

type_synonym bytes = "u8 list"

definition CHAR_0 :: int where "CHAR_0 = 48"
definition CHAR_A :: int where "CHAR_A = 65"
definition MINUS :: u8 where "MINUS = 45"
definition SPACE :: u8 where "SPACE = 32"

subsection \<open>Writing numbers\<close>

definition digit_char :: "int \<Rightarrow> u8" where
  "digit_char remainder = word_of_int (if remainder > 9 then (remainder - 10) + CHAR_A else remainder + CHAR_0)"

text \<open>
  The digits of a number, the last one first.  Division truncates.  A number of 64 bits has
  at most 64 digits in a base of absolute value two or more; in the bases \<open>1\<close> and \<open>- 1\<close> the loop never
  ends.
\<close>

definition DIGIT_FUEL :: nat where "DIGIT_FUEL = 64"

fun digit_loop :: "nat \<Rightarrow> int \<Rightarrow> int \<Rightarrow> bytes \<Rightarrow> bytes res" where
  "digit_loop 0 base number str = (if number = 0 then Inr str else Inl Diverges)"
| "digit_loop (Suc fuel) base number str =
     (if number = 0 then Inr str
      else if base = 0 then Inl Overflow
      else digit_loop fuel base (number sdiv base) (str @ [digit_char (number smod base)]))"

function reverse_loop :: "nat \<Rightarrow> nat \<Rightarrow> 'a list \<Rightarrow> 'a list" where
  "reverse_loop front back str =
     (if front < back
      then let tmp = str ! front;
               str = str[front := str ! back];
               str = str[back := tmp]
           in reverse_loop (front + 1) (back - 1) str
      else str)"
  by auto
termination by (relation "measure (\<lambda>(front, back, str). back - front)") auto

declare reverse_loop.simps [simp del]

definition write_digits :: "bool \<Rightarrow> int \<Rightarrow> int \<Rightarrow> bytes res" where
  "write_digits negative number base =
     bindE (digit_loop DIGIT_FUEL base number []) (\<lambda>str.
     let str = (if negative then str @ [MINUS] else str)
     in Inr (reverse_loop 0 (length str - 1) str @ [0]))"

definition zero_string :: bytes where
  "zero_string = [word_of_int CHAR_0, 0]"

definition i32_to_cstring :: "i32 \<Rightarrow> i32 \<Rightarrow> bytes res" where
  "i32_to_cstring number base =
     (if number = 0 then Inr zero_string
      else if sint number < 0 \<and> base = 10 then
        if sint number = - (2 ^ 31) then Inl Overflow
        else write_digits True (- sint number) (sint base)
      else write_digits False (sint number) (sint base))"

definition u32_to_cstring :: "u32 \<Rightarrow> u32 \<Rightarrow> bytes res" where
  "u32_to_cstring number base =
     (if number = 0 then Inr zero_string else write_digits False (uint number) (uint base))"

definition i64_to_cstring :: "i64 \<Rightarrow> i32 \<Rightarrow> bytes res" where
  "i64_to_cstring number base =
     (if number = 0 then Inr zero_string
      else if sint number < 0 \<and> base = 10 then
        if sint number = - (2 ^ 63) then Inl Overflow
        else write_digits True (- sint number) (sint base)
      else write_digits False (sint number) (sint base))"

definition u64_to_cstring :: "u64 \<Rightarrow> u32 \<Rightarrow> bytes res" where
  "u64_to_cstring number base =
     (if number = 0 then Inr zero_string else write_digits False (uint number) (uint base))"

subsection \<open>Reading numbers\<close>

text \<open>
  A string argument may be null.  The length of a null string is not defined, so the two
  readers that measure their string first stop there.  Signed overflow stops the reader,
  unsigned arithmetic wraps.
\<close>

definition i32_ok :: "int \<Rightarrow> int res" where
  "i32_ok v = (if - (2 ^ 31) \<le> v \<and> v < 2 ^ 31 then Inr v else Inl Overflow)"

definition char_value :: "u8 \<Rightarrow> int" where
  "char_value c = uint c - CHAR_0"

fun i32_digits :: "int \<Rightarrow> bytes \<Rightarrow> int res" where
  "i32_digits v [] = Inr v"
| "i32_digits v (c # cs) =
     bindE (i32_ok (v * 10)) (\<lambda>t. bindE (i32_ok (t + char_value c)) (\<lambda>v. i32_digits v cs))"

definition i32_of_bytes :: "bytes \<Rightarrow> u8 \<Rightarrow> i32 res" where
  "i32_of_bytes str first =
     bindE (i32_digits 0 (if first = MINUS then drop 1 str else str)) (\<lambda>v.
     if first = MINUS then bindE (i32_ok (v * - 1)) (\<lambda>v. Inr (word_of_int v)) else Inr (word_of_int v))"

fun u32_digits :: "u32 \<Rightarrow> bytes \<Rightarrow> u32" where
  "u32_digits v [] = v"
| "u32_digits v (c # cs) = u32_digits (v * 10 + word_of_int (char_value c)) cs"

definition cstring_to_i32 :: "bytes option \<Rightarrow> i32 res" where
  "cstring_to_i32 str = bindE (derefE str) (\<lambda>s. i32_of_bytes s (if s = [] then 0 else hd s))"

definition cstring_to_u32 :: "bytes option \<Rightarrow> u32 res" where
  "cstring_to_u32 str = bindE (derefE str) (\<lambda>s. Inr (u32_digits 0 s))"

definition cstring_len_to_i32 :: "bytes option \<Rightarrow> usize \<Rightarrow> i32 res" where
  "cstring_len_to_i32 str str_len =
     (case str of
        None \<Rightarrow> Inr 0
      | Some s \<Rightarrow> bindE (nthE s 0) (\<lambda>first.
          if unat str_len \<le> length s then i32_of_bytes (take (unat str_len) s) first else Inl OutOfBounds))"

definition cstring_len_to_u32 :: "bytes option \<Rightarrow> usize \<Rightarrow> u32 res" where
  "cstring_len_to_u32 str str_len =
     (case str of
        None \<Rightarrow> Inr 0
      | Some s \<Rightarrow> if unat str_len \<le> length s then Inr (u32_digits 0 (take (unat str_len) s)) else Inl OutOfBounds)"

subsection \<open>Tokens and random numbers\<close>

text \<open>
  A token is given by its offset in the line and its size.  The loop runs over the bytes of the line;
  its state is the index, the number of the current token and where it starts.
\<close>

fun token_loop :: "nat \<Rightarrow> bytes \<Rightarrow> nat \<Rightarrow> nat \<Rightarrow> nat \<Rightarrow> nat option \<times> nat" where
  "token_loop idx [] i token_idx ptr_idx =
     (if token_idx = idx then (Some ptr_idx, i - ptr_idx) else (None, 0))"
| "token_loop idx (c # cs) i token_idx ptr_idx =
     (if c = SPACE then
        if token_idx = idx then (Some ptr_idx, i - ptr_idx)
        else token_loop idx cs (i + 1) (token_idx + 1) (i + 1)
      else token_loop idx cs (i + 1) token_idx ptr_idx)"

definition cstring_get_token :: "bytes \<Rightarrow> nat \<Rightarrow> nat \<Rightarrow> nat option \<times> nat" where
  "cstring_get_token line line_len idx = token_loop idx (take line_len line) 0 0 0"

definition get_random_u32 :: "u32 \<Rightarrow> u32 \<Rightarrow> u32 \<Rightarrow> u32 res" where
  "get_random_u32 clo lo hi =
     (if hi - lo = 0 then Inl Overflow else Inr (clo mod (hi - lo) + lo))"

subsection \<open>The digits of a number\<close>

definition char_digit :: "u8 \<Rightarrow> int" where
  "char_digit c = (if uint c < CHAR_A then uint c - CHAR_0 else uint c - CHAR_A + 10)"

definition accumulate :: "int \<Rightarrow> int \<Rightarrow> int list \<Rightarrow> int" where
  "accumulate b v ds = foldl (\<lambda>v d. v * b + d) v ds"

text \<open>The number a string denotes in a base.\<close>

definition string_value :: "int \<Rightarrow> bytes \<Rightarrow> int" where
  "string_value b s = accumulate b 0 (map char_digit s)"

definition digit_list :: "int \<Rightarrow> int list \<Rightarrow> bool" where
  "digit_list b ds \<longleftrightarrow> (\<forall>d\<in>set ds. 0 \<le> d \<and> d < b)"

definition string_of_base :: "int \<Rightarrow> bytes \<Rightarrow> bool" where
  "string_of_base b s \<longleftrightarrow> digit_list b (map char_digit s)"

lemma accumulate_simps [simp]:
  "accumulate b v [] = v" "accumulate b v (d # ds) = accumulate b (v * b + d) ds"
  "accumulate b v (ds @ [d]) = accumulate b v ds * b + d"
  by (simp_all add: accumulate_def)

lemma digit_list_simps [simp]:
  "digit_list b []" "digit_list b (d # ds) \<longleftrightarrow> 0 \<le> d \<and> d < b \<and> digit_list b ds"
  "digit_list b (ds @ es) \<longleftrightarrow> digit_list b ds \<and> digit_list b es"
  by (auto simp: digit_list_def)

lemma uint_digit_char:
  assumes "0 \<le> d" and "d < 36"
  shows "uint (digit_char d) = (if d > 9 then d + 55 else d + 48)"
proof -
  have "uint (word_of_int v :: u8) = v" if "0 \<le> v" "v < 256" for v
    using that by (simp add: unsigned_of_int take_bit_int_eq_self)
  then show ?thesis using assms by (simp add: digit_char_def CHAR_0_def CHAR_A_def)
qed

lemma char_digit_char: "0 \<le> d \<Longrightarrow> d < 36 \<Longrightarrow> char_digit (digit_char d) = d"
  by (simp add: char_digit_def uint_digit_char CHAR_0_def CHAR_A_def)

lemma digit_chars_nonzero:
  assumes "digit_list b ds" and "b \<le> 36"
  shows "0 \<notin> set (map digit_char ds)"
proof
  assume "0 \<in> set (map digit_char ds)"
  then obtain d where "d \<in> set ds" "digit_char d = 0" by auto
  with assms uint_digit_char [of d] show False by (auto simp: digit_list_def split: if_splits)
qed

lemma char_value_char: "0 \<le> d \<Longrightarrow> d < 10 \<Longrightarrow> char_value (digit_char d) = d"
  by (simp add: char_value_def uint_digit_char CHAR_0_def)

lemma map_char_digit:
  assumes "digit_list b ds" and "b \<le> 36"
  shows "map char_digit (map digit_char ds) = ds"
  using assms by (induction ds) (auto simp: char_digit_char)

lemma digit_loop_ok:
  assumes "2 \<le> b" and "0 \<le> n" and "n < 2 ^ fuel"
  shows "\<exists>ds. digit_loop fuel b n str = Inr (str @ map digit_char (rev ds)) \<and> digit_list b ds
    \<and> accumulate b 0 ds = n \<and> (if n = 0 then ds = [] else ds \<noteq> [] \<and> hd ds \<noteq> 0)"
  using assms(2,3)
proof (induction fuel arbitrary: n str)
  case 0
  then show ?case by (intro exI [of _ "[]"]) auto
next
  case (Suc fuel)
  show ?case
  proof (cases "n = 0")
    case True
    then show ?thesis by (intro exI [of _ "[]"]) simp
  next
    case False
    with Suc.prems assms(1) have sd: "n sdiv b = n div b" "n smod b = n mod b"
      by (simp_all add: signed_divide_int_def signed_modulo_int_def)
    have "n div b \<le> n div 2" using assms(1) Suc.prems(1) by (intro zdiv_mono2) auto
    also have "n div 2 < 2 ^ fuel" using Suc.prems by auto
    finally have lt: "n div b < 2 ^ fuel" .
    have "0 \<le> n div b" using assms(1) Suc.prems(1) by (simp add: pos_imp_zdiv_nonneg_iff)
    from Suc.IH [OF this lt, of "str @ [digit_char (n mod b)]"] obtain ds where ds:
      "digit_loop fuel b (n div b) (str @ [digit_char (n mod b)]) = Inr (str @ digit_char (n mod b) # map digit_char (rev ds))"
      "digit_list b ds" "accumulate b 0 ds = n div b" "if n div b = 0 then ds = [] else ds \<noteq> [] \<and> hd ds \<noteq> 0" by auto
    have "n mod b \<noteq> 0" if "n div b = 0" using False that by (metis mult_div_mod_eq add_0 mult_zero_right)
    then have first: "hd (ds @ [n mod b]) \<noteq> 0" using ds(4) by (cases "n div b = 0") simp_all
    have acc: "accumulate b 0 (ds @ [n mod b]) = n" using ds(3) by simp
    have dl: "digit_list b (ds @ [n mod b])" using ds(2) assms(1) by simp
    have "digit_loop (Suc fuel) b n str = Inr (str @ map digit_char (rev (ds @ [n mod b])))"
      using False assms(1) ds(1) sd by simp
    with False first acc dl show ?thesis
      by (intro exI [of _ "ds @ [n mod b]"] conjI) (simp_all del: digit_loop.simps accumulate_simps digit_list_simps)
  qed
qed

lemma reverse_loop_ok:
  "reverse_loop (length p) (length p + length m - 1) (p @ m @ s) = p @ rev m @ s"
proof (induction "length m" arbitrary: p m s rule: less_induct)
  case less
  show ?case
  proof (cases "length m < 2")
    case True
    then have "rev m = m" by (cases m) (auto simp: less_Suc_eq)
    moreover have "\<not> length p < length p + length m - 1" using True by linarith
    ultimately show ?thesis by (subst reverse_loop.simps) (simp only: if_False)
  next
    case False
    then obtain a z m' where m: "m = a # m' @ [z]"
      by (cases m; cases "tl m" rule: rev_cases) auto
    have "reverse_loop (length p) (length p + length m - 1) (p @ m @ s)
        = reverse_loop (length (p @ [z])) (length (p @ [z]) + length m' - 1) ((p @ [z]) @ m' @ (a # s))"
      by (subst reverse_loop.simps) (simp add: m nth_append list_update_append Let_def)
    also have "\<dots> = (p @ [z]) @ rev m' @ (a # s)" by (rule less) (simp add: m)
    finally show ?thesis by (simp add: m)
  qed
qed

lemma reverse_whole: "reverse_loop 0 (length str - 1) str = rev str"
  using reverse_loop_ok [of "[]" str "[]"] by simp

lemma write_digits_ok:
  assumes "2 \<le> b" and "0 < n" and "n < 2 ^ 64"
  shows "\<exists>ds. write_digits negative n b = Inr ((if negative then [MINUS] else []) @ map digit_char ds @ [0])
    \<and> digit_list b ds \<and> accumulate b 0 ds = n \<and> ds \<noteq> [] \<and> hd ds \<noteq> 0"
proof -
  obtain ds where "digit_loop DIGIT_FUEL b n [] = Inr (map digit_char (rev ds))" "digit_list b ds"
    "accumulate b 0 ds = n" "ds \<noteq> []" "hd ds \<noteq> 0"
    using digit_loop_ok [of b n DIGIT_FUEL "[]"] assms by (auto simp: DIGIT_FUEL_def)
  then show ?thesis
    by (intro exI [of _ ds]) (simp add: write_digits_def reverse_whole rev_map Let_def del: length_append One_nat_def)
qed

subsection \<open>What the writers write\<close>

lemma write_positive_ok:
  assumes "2 \<le> b" and "b \<le> 36" and "0 < n" and "n < 2 ^ 64"
  shows "\<exists>s. write_digits False n b = Inr (s @ [0]) \<and> string_of_base b s \<and> string_value b s = n
    \<and> s \<noteq> [] \<and> char_digit (hd s) \<noteq> 0 \<and> 0 \<notin> set s"
proof -
  obtain ds where ds: "write_digits False n b = Inr (map digit_char ds @ [0])" "digit_list b ds"
    "accumulate b 0 ds = n" "ds \<noteq> []" "hd ds \<noteq> 0"
    using write_digits_ok [OF assms(1,3,4), of False] by auto
  note m = map_char_digit [OF ds(2) assms(2)]
  have "char_digit (hd (map digit_char ds)) = hd ds" using m ds(4) by (metis list.map_sel(1) map_is_Nil_conv)
  then show ?thesis using ds m digit_chars_nonzero [OF ds(2) assms(2)]
    by (intro exI [of _ "map digit_char ds"]) (simp add: string_of_base_def string_value_def del: map_map set_map)
qed

lemma uint_pos: "w \<noteq> 0 \<Longrightarrow> 0 < uint w"
  by (metis order_le_less unsigned_greater_eq unsigned_eq_0_iff)

lemma u64_to_cstring_ok:
  assumes "2 \<le> base" and "base \<le> 36" and "number \<noteq> 0"
  shows "\<exists>s. u64_to_cstring number base = Inr (s @ [0]) \<and> string_of_base (uint base) s
    \<and> string_value (uint base) s = uint number \<and> char_digit (hd s) \<noteq> 0 \<and> 0 \<notin> set s"
proof -
  have "2 \<le> uint base" "uint base \<le> 36" using assms(1,2) by (simp_all add: word_le_def)
  moreover have "0 < uint number" using assms(3) by (rule uint_pos)
  moreover have "uint number < 2 ^ 64" using unsigned_less [of number, where 'a = int] by simp
  ultimately show ?thesis using write_positive_ok [of "uint base" "uint number"] assms(3)
    by (auto simp: u64_to_cstring_def)
qed

subsection \<open>Reading back\<close>

lemma u32_digits_ok:
  "digit_list 10 ds \<Longrightarrow> u32_digits (word_of_int v) (map digit_char ds) = word_of_int (accumulate 10 v ds)"
proof (induction ds arbitrary: v)
  case (Cons d ds)
  have "(word_of_int v * 10 + word_of_int d :: u32) = word_of_int (v * 10 + d)" by simp
  with Cons show ?case by (simp add: char_value_char del: of_int_add of_int_mult)
qed simp

lemma accumulate_mono: "digit_list b ds \<Longrightarrow> 1 \<le> b \<Longrightarrow> 0 \<le> v \<Longrightarrow> v \<le> accumulate b v ds"
proof (induction ds arbitrary: v)
  case (Cons d ds)
  have "v * 1 \<le> v * b" using Cons.prems by (intro mult_left_mono) auto
  moreover have "v * b + d \<le> accumulate b (v * b + d) ds" using Cons by simp
  ultimately show ?case using Cons.prems by simp
qed simp

lemma i32_digits_ok:
  "digit_list 10 ds \<Longrightarrow> 0 \<le> v \<Longrightarrow> accumulate 10 v ds < 2 ^ 31 \<Longrightarrow>
     i32_digits v (map digit_char ds) = Inr (accumulate 10 v ds)"
proof (induction ds arbitrary: v)
  case (Cons d ds)
  have "v * 10 + d \<le> accumulate 10 (v * 10 + d) ds" using Cons.prems by (intro accumulate_mono) auto
  then have "v * 10 + d < 2 ^ 31" using Cons.prems(3) by simp
  then show ?case using Cons by (simp add: i32_ok_def char_value_char)
qed simp

lemma digit_not_minus:
  assumes "0 \<le> d" and "d < 10"
  shows "digit_char d \<noteq> MINUS"
proof
  assume "digit_char d = MINUS"
  then have "uint (digit_char d) = uint MINUS" by simp
  with assms show False by (simp add: uint_digit_char MINUS_def)
qed

lemma u32_round_trip:
  "\<exists>s. u32_to_cstring number 10 = Inr (s @ [0]) \<and> 0 \<notin> set s \<and> cstring_to_u32 (Some s) = Inr number"
proof (cases "number = 0")
  case True
  then show ?thesis
    by (intro exI [of _ "[word_of_int CHAR_0]"])
      (simp add: u32_to_cstring_def zero_string_def cstring_to_u32_def char_value_def CHAR_0_def)
next
  case False
  then have "0 < uint number" by (rule uint_pos)
  moreover have "uint number < 2 ^ 64" using unsigned_less [of number, where 'a = int] by simp
  ultimately obtain ds where "write_digits False (uint number) 10 = Inr (map digit_char ds @ [0])"
    "digit_list 10 ds" "accumulate 10 0 ds = uint number"
    using write_digits_ok [of 10 "uint number" False] by auto
  then show ?thesis using False u32_digits_ok [of ds 0] digit_chars_nonzero [of 10 ds]
    by (intro exI [of _ "map digit_char ds"]) (simp add: u32_to_cstring_def cstring_to_u32_def)
qed

lemma i32_round_trip:
  assumes "sint number \<noteq> - (2 ^ 31)"
  shows "\<exists>s. i32_to_cstring number 10 = Inr (s @ [0]) \<and> 0 \<notin> set s \<and> cstring_to_i32 (Some s) = Inr number"
proof (cases "number = 0")
  case True
  then show ?thesis
    by (intro exI [of _ "[word_of_int CHAR_0]"])
      (simp add: i32_to_cstring_def zero_string_def cstring_to_i32_def i32_of_bytes_def char_value_def CHAR_0_def
        MINUS_def i32_ok_def)
next
  case False
  have range: "- (2 ^ 31) \<le> sint number" "sint number < 2 ^ 31"
    using sint_greater_eq [of number] sint_less [of number] by simp_all
  have n0: "sint number \<noteq> 0" using False by (simp only: signed_eq_0_iff not_False_eq_True)
  let ?n = "\<bar>sint number\<bar>"
  have n: "0 < ?n" "?n < 2 ^ 31" "?n < 2 ^ 64" using n0 range assms by auto
  obtain ds where ds: "write_digits (sint number < 0) ?n 10
      = Inr ((if sint number < 0 then [MINUS] else []) @ map digit_char ds @ [0])"
    "digit_list 10 ds" "accumulate 10 0 ds = ?n" "ds \<noteq> []"
    using write_digits_ok [of 10 ?n "sint number < 0"] n by auto
  note nz = digit_chars_nonzero [OF ds(2), simplified]
  have minus: "MINUS \<noteq> 0" by (simp add: MINUS_def)
  have first: "digit_char (hd ds) \<noteq> MINUS"
    using ds(2,4) by (intro digit_not_minus) (cases ds; simp)+
  have read: "i32_digits 0 (map digit_char ds) = Inr ?n"
    using i32_digits_ok [OF ds(2), of 0] ds(3) n(2) by simp
  show ?thesis
  proof (cases "sint number < 0")
    case True
    have "i32_ok (- ?n) = Inr (- ?n)" using n by (simp add: i32_ok_def)
    then show ?thesis using True ds(1) read False assms nz minus
      by (intro exI [of _ "MINUS # map digit_char ds"])
        (simp add: i32_to_cstring_def cstring_to_i32_def i32_of_bytes_def)
  next
    case nonneg: False
    then show ?thesis using ds(1,4) read False first nz
      by (intro exI [of _ "map digit_char ds"])
        (simp add: i32_to_cstring_def cstring_to_i32_def i32_of_bytes_def hd_map)
  qed
qed

subsection \<open>Tokens\<close>

text \<open>The pieces of a line between its spaces.\<close>

fun split_spaces :: "bytes \<Rightarrow> bytes list" where
  "split_spaces [] = [[]]"
| "split_spaces (c # cs) =
     (if c = SPACE then [] # split_spaces cs
      else case split_spaces cs of t # ts \<Rightarrow> (c # t) # ts | [] \<Rightarrow> [[c]])"

lemma split_spaces_nonempty [simp]: "split_spaces s \<noteq> []"
  by (induction s) (auto split: list.split)

lemma split_spaces_prefix:
  assumes "SPACE \<notin> set p"
  shows "split_spaces (p @ s) = (p @ hd (split_spaces s)) # tl (split_spaces s)"
  using assms by (induction p) auto

definition token_ok :: "bytes \<Rightarrow> bytes list \<Rightarrow> nat \<Rightarrow> nat option \<times> nat \<Rightarrow> bool" where
  "token_ok line tokens k r \<longleftrightarrow>
     (if k < length tokens then \<exists>p. r = (Some p, length (tokens ! k)) \<and> take (length (tokens ! k)) (drop p line) = tokens ! k
      else r = (None, 0))"

lemma token_loop_ok:
  assumes "length pre = ptr" and "SPACE \<notin> set cur" and "ti \<le> idx"
  shows "token_ok (pre @ cur @ cs) (split_spaces (cur @ cs)) (idx - ti)
    (token_loop idx cs (ptr + length cur) ti ptr)"
  using assms
proof (induction cs arbitrary: pre cur ptr ti)
  case Nil
  then show ?case using split_spaces_prefix [of cur "[]"] by (auto simp: token_ok_def)
next
  case (Cons c cs)
  show ?case
  proof (cases "c = SPACE")
    case False
    have "token_ok (pre @ (cur @ [c]) @ cs) (split_spaces ((cur @ [c]) @ cs)) (idx - ti)
      (token_loop idx cs (ptr + length (cur @ [c])) ti ptr)"
      by (rule Cons.IH) (use Cons.prems False in auto)
    with False show ?thesis by simp
  next
    case True
    have split: "split_spaces (cur @ c # cs) = cur # split_spaces cs"
      using split_spaces_prefix [OF Cons.prems(2), of "c # cs"] True by simp
    show ?thesis
    proof (cases "ti = idx")
      case here: True
      with split Cons.prems True show ?thesis by (auto simp: token_ok_def)
    next
      case later: False
      have "token_ok ((pre @ cur @ [c]) @ [] @ cs) (split_spaces ([] @ cs)) (idx - Suc ti)
        (token_loop idx cs (Suc (ptr + length cur) + length ([] :: bytes)) (Suc ti) (Suc (ptr + length cur)))"
        by (rule Cons.IH) (use Cons.prems later in auto)
      moreover have "idx - ti = Suc (idx - Suc ti)" using Cons.prems(3) later by simp
      ultimately show ?thesis using later True split by (simp add: token_ok_def del: take_append drop_append)
    qed
  qed
qed

lemma cstring_get_token_ok:
  "token_ok (take n line) (split_spaces (take n line)) idx (cstring_get_token line n idx)"
  using token_loop_ok [of "[]" 0 "[]" 0 idx "take n line"] by (simp add: cstring_get_token_def)

lemma get_random_range:
  assumes "lo < hi"
  shows "\<exists>r. get_random_u32 clo lo hi = Inr r \<and> lo \<le> r \<and> r < hi"
proof -
  have d: "0 < hi - lo" using assms by (simp add: word_less_def uint_sub_if')
  define x where "x = clo mod (hi - lo)"
  have "x < hi - lo" using d by (simp add: x_def word_mod_less_divisor)
  then have x: "unat x + unat lo < unat hi" using assms by (simp add: word_less_nat_alt unat_sub)
  then have "unat (x + lo) = unat x + unat lo" using unsigned_less [of hi, where 'a = nat] by (simp add: unat_word_ariths)
  with x d show ?thesis by (auto simp: get_random_u32_def word_less_nat_alt word_le_nat_alt x_def)
qed

end
