(* ===== verification/Spi.thy ===== *)
theory Spi
  imports Conversions
begin

text \<open>
  The lower half of \<^verbatim>\<open>rpi.c\<close>: the function and resistor registers of the pins, and the
  transfers on the serial bus.  The bus is modelled by what the code sees of it: the words
  written to a channel, each with the mark whether the transfer goes on (the register
  \<^verbatim>\<open>TXHOLD_REGa\<close>) or ends (\<^verbatim>\<open>IO_REGa\<close>), and the words that will be read from it.  A wait
  for a word that never comes is endless.
\<close>

subsection \<open>Pins\<close>

definition GPIO_ALTFN4 :: u32 where "GPIO_ALTFN4 = 0x03"
definition GPIO_NONE :: u32 where "GPIO_NONE = 0x00"

record GPIO =
  gp_fsel :: "u32 list"
  gp_pup_pdn :: "u32 list"

definition setup_gpio :: "GPIO \<Rightarrow> u32 \<Rightarrow> u32 \<Rightarrow> u32 \<Rightarrow> GPIO res" where
  "setup_gpio gpio pin setting resistor =
     (let reg = unat (pin div 10); shift = unat ((pin mod 10) * 3)
      in bindE (nthE (gp_fsel gpio) reg) (\<lambda>status.
         let status = and status (not (push_bit shift 7));
             status = or status (push_bit shift setting)
         in bindE (updE (gp_fsel gpio) reg status) (\<lambda>fsel.
         let gpio = gpio\<lparr>gp_fsel := fsel\<rparr>;
             reg = unat (pin div 16); shift = unat ((pin mod 16) * 2)
         in bindE (nthE (gp_pup_pdn gpio) reg) (\<lambda>status.
            let status = and status (not (push_bit shift 3));
                status = or status (push_bit shift resistor)
            in bindE (updE (gp_pup_pdn gpio) reg status) (\<lambda>pup. Inr (gpio\<lparr>gp_pup_pdn := pup\<rparr>))))))"

definition init_gpio :: "GPIO \<Rightarrow> GPIO res" where
  "init_gpio gpio =
     bindE (setup_gpio gpio 18 GPIO_ALTFN4 GPIO_NONE) (\<lambda>gpio.
     bindE (setup_gpio gpio 19 GPIO_ALTFN4 GPIO_NONE) (\<lambda>gpio.
     bindE (setup_gpio gpio 20 GPIO_ALTFN4 GPIO_NONE) (\<lambda>gpio.
     setup_gpio gpio 21 GPIO_ALTFN4 GPIO_NONE)))"

subsection \<open>The bus\<close>

definition SPI_CNTL0_SPEED_SHIFT :: nat where "SPI_CNTL0_SPEED_SHIFT = 20"
definition SPI_CNTL0_VAR_WIDTH :: u32 where "SPI_CNTL0_VAR_WIDTH = 0x00004000"
definition SPI_CNTL0_Enable :: u32 where "SPI_CNTL0_Enable = 0x00000800"
definition SPI_CNTL0_In_Rising :: u32 where "SPI_CNTL0_In_Rising = 0x00000400"
definition SPI_CNTL0_Clear_FIFOs :: u32 where "SPI_CNTL0_Clear_FIFOs = 0x00000200"
definition SPI_CNTL0_SO_MSB_FST :: u32 where "SPI_CNTL0_SO_MSB_FST = 0x00000040"
definition SPI_CNTL1_SI_MSB_FST :: u32 where "SPI_CNTL1_SI_MSB_FST = 0x00000002"

record SPI =
  sp_cntl0 :: u32
  sp_cntl1 :: u32
  sp_tx :: "(bool \<times> u32) list"
  sp_rx :: "u32 list"

record AUX =
  ax_enables :: u32
  ax_spi :: "SPI list"

definition init_spi :: "AUX \<Rightarrow> u32 \<Rightarrow> AUX res" where
  "init_spi aux channel =
     (let aux = aux\<lparr>ax_enables := or (ax_enables aux) (push_bit (unat channel) 2)\<rparr>
      in bindE (nthE (ax_spi aux) (unat channel)) (\<lambda>spi.
         let spi = spi\<lparr>sp_cntl0 := SPI_CNTL0_Clear_FIFOs\<rparr>;
             speed = (700000000 div (2 * 0x400000)) - 1;
             spi = spi\<lparr>sp_cntl0 := or (push_bit SPI_CNTL0_SPEED_SHIFT speed) (or SPI_CNTL0_VAR_WIDTH
                         (or SPI_CNTL0_Enable (or SPI_CNTL0_In_Rising SPI_CNTL0_SO_MSB_FST)))\<rparr>;
             spi = spi\<lparr>sp_cntl1 := SPI_CNTL1_SI_MSB_FST\<rparr>
         in bindE (updE (ax_spi aux) (unat channel) spi) (\<lambda>spis. Inr (aux\<lparr>ax_spi := spis\<rparr>))))"

text \<open>One word out and one word in.\<close>

definition spi_exchange :: "SPI \<Rightarrow> bool \<Rightarrow> u32 \<Rightarrow> (SPI \<times> u32) res" where
  "spi_exchange spi hold data =
     (case sp_rx spi of
        [] \<Rightarrow> Inl Diverges
      | w # ws \<Rightarrow> Inr (spi\<lparr>sp_tx := sp_tx spi @ [(hold, data)], sp_rx := ws\<rparr>, w))"

fun spi_pack :: "bytes \<Rightarrow> nat \<Rightarrow> u32 \<Rightarrow> u32 \<times> nat \<times> bytes" where
  "spi_pack [] count data = (data, count, [])"
| "spi_pack (c # cs) count data =
     (if count < 24 then spi_pack cs (count + 8) (or data (push_bit (16 - count) (ucast c)))
      else (data, count, c # cs))"

fun spi_unpack :: "u32 \<Rightarrow> nat \<Rightarrow> bytes" where
  "spi_unpack data count =
     (if count > 0 then ucast (and (drop_bit (count - 8) data) 0xFF) # spi_unpack data (count - 8) else [])"

declare spi_unpack.simps [simp del]

lemma spi_unpack_0 [simp]: "spi_unpack data 0 = []"
  by (subst spi_unpack.simps) simp

text \<open>
  The loop of a transfer, on the bytes still to send and the number of bytes still to receive.
  Every round but an empty one sends a byte, so as many rounds as bytes are enough, unless more
  is to be received than sent: then the loop never ends.
\<close>

fun spi_loop :: "nat \<Rightarrow> SPI \<Rightarrow> bytes \<Rightarrow> nat \<Rightarrow> (SPI \<times> bytes) res" where
  "spi_loop 0 spi s r = (if s = [] \<and> r = 0 then Inr (spi, []) else Inl Diverges)"
| "spi_loop (Suc fuel) spi s r =
     (if s = [] \<and> r = 0 then Inr (spi, [])
      else
        let (data, count, rest) = spi_pack s 0 0;
            data = or data (push_bit 24 (word_of_nat count))
        in bindE (spi_exchange spi (rest \<noteq> []) data) (\<lambda>(spi, data).
           let count = (if count > r * 8 then r * 8 else count);
               recv = spi_unpack data count
           in bindE (spi_loop fuel spi rest (r - length recv)) (\<lambda>(spi, more). Inr (spi, recv @ more))))"

definition spi_send_recv :: "SPI \<Rightarrow> bytes \<Rightarrow> nat \<Rightarrow> (SPI \<times> bytes) res" where
  "spi_send_recv spi sendbuf recvlen = spi_loop (length sendbuf) spi sendbuf recvlen"

subsection \<open>Setting a field of a register\<close>

lemma field_update:
  fixes s v :: u32
  assumes v: "unat v < 2 ^ w" and w: "k + w \<le> 32"
  shows "take_bit w (drop_bit k (or (and s (not (push_bit k (mask w)))) (push_bit k v))) = v"
    and "k' + w \<le> k \<or> k + w \<le> k' \<Longrightarrow>
      take_bit w (drop_bit k' (or (and s (not (push_bit k (mask w)))) (push_bit k v))) = take_bit w (drop_bit k' s)"
proof -
  have t: "take_bit w v = v" using v by (simp add: word_unat_eq_iff unsigned_take_bit_eq take_bit_nat_eq_self)
  have high: "\<not> bit v j" if "w \<le> j" for j
    using that by (subst t [symmetric]) (simp add: bit_take_bit_iff)
  show "take_bit w (drop_bit k (or (and s (not (push_bit k (mask w)))) (push_bit k v))) = v"
    by (rule bit_word_eqI) (use high w in \<open>auto simp: bit_simps not_le\<close>)
  show "take_bit w (drop_bit k' (or (and s (not (push_bit k (mask w)))) (push_bit k v))) = take_bit w (drop_bit k' s)"
    if "k' + w \<le> k \<or> k + w \<le> k'"
    by (rule bit_word_eqI) (use high that bit_imp_le_length [of s] in \<open>auto simp: bit_simps\<close>)
qed

definition pin_function :: "GPIO \<Rightarrow> nat \<Rightarrow> u32" where
  "pin_function g p = take_bit 3 (drop_bit ((p mod 10) * 3) (gp_fsel g ! (p div 10)))"

definition pin_resistor :: "GPIO \<Rightarrow> nat \<Rightarrow> u32" where
  "pin_resistor g p = take_bit 2 (drop_bit ((p mod 16) * 2) (gp_pup_pdn g ! (p div 16)))"

definition gpio_inv :: "GPIO \<Rightarrow> bool" where
  "gpio_inv g \<longleftrightarrow> length (gp_fsel g) = 6 \<and> length (gp_pup_pdn g) = 4"

lemma same_cell: "0 < n \<Longrightarrow> (p div n = q div n \<and> p mod n = q mod n) \<longleftrightarrow> p = (q :: nat)"
  by (metis div_mult_mod_eq)

lemma setup_gpio_ok:
  assumes inv: "gpio_inv g" and pin: "pin < 60" and f: "unat setting < 8" and r: "unat resistor < 4"
  shows "\<exists>g'. setup_gpio g (word_of_nat pin) setting resistor = Inr g' \<and> gpio_inv g'
    \<and> (\<forall>p. pin_function g' p = (if p = pin then setting else pin_function g p))
    \<and> (\<forall>p. pin_resistor g' p = (if p = pin then resistor else pin_resistor g p))"
proof -
  have u: "unat (word_of_nat pin :: u32) = pin" using pin by (simp add: unat_of_nat_small32)
  have k: "unat (word_of_nat pin div 10 :: u32) = pin div 10" "unat (word_of_nat pin div 16 :: u32) = pin div 16"
    "unat (word_of_nat pin mod 10 * 3 :: u32) = (pin mod 10) * 3" "unat (word_of_nat pin mod 16 * 2 :: u32) = (pin mod 16) * 2"
    using u pin by (simp_all add: unat_div unat_mod unat_word_ariths)
  have m: "(7 :: u32) = mask 3" "(3 :: u32) = mask 2" by (simp_all add: mask_eq_exp_minus_1)
  let ?i = "pin div 10" and ?j = "pin div 16" and ?a = "(pin mod 10) * 3" and ?b = "(pin mod 16) * 2"
  let ?x = "or (and (gp_fsel g ! ?i) (not (push_bit ?a 7))) (push_bit ?a setting)"
  let ?y = "or (and (gp_pup_pdn g ! ?j) (not (push_bit ?b 3))) (push_bit ?b resistor)"
  let ?g = "g\<lparr>gp_fsel := (gp_fsel g)[?i := ?x], gp_pup_pdn := (gp_pup_pdn g)[?j := ?y]\<rparr>"
  have i: "?i < 6" "?j < 4" using pin by auto
  have len: "length (gp_fsel g) = 6" "length (gp_pup_pdn g) = 4" using inv by (simp_all add: gpio_inv_def)
  have "setup_gpio g (word_of_nat pin) setting resistor = Inr ?g"
    using i len unfolding setup_gpio_def k Let_def by simp
  moreover have "pin_function ?g p = (if p = pin then setting else pin_function g p)" for p
  proof (cases "p div 10 = ?i")
    case True
    have "pin mod 10 < 10" "p mod 10 < 10" by simp_all
    then have "(p mod 10) * 3 + 3 \<le> ?a \<or> ?a + 3 \<le> (p mod 10) * 3 \<or> p mod 10 = pin mod 10" "?a + 3 \<le> 32" by linarith+
    with field_update [of setting 3 ?a, folded m] f True i len same_cell [of 10 p pin] show ?thesis
      by (auto simp: pin_function_def)
  next
    case False
    then show ?thesis by (auto simp: pin_function_def)
  qed
  moreover have "pin_resistor ?g p = (if p = pin then resistor else pin_resistor g p)" for p
  proof (cases "p div 16 = ?j")
    case True
    have "pin mod 16 < 16" "p mod 16 < 16" by simp_all
    then have "(p mod 16) * 2 + 2 \<le> ?b \<or> ?b + 2 \<le> (p mod 16) * 2 \<or> p mod 16 = pin mod 16" "?b + 2 \<le> 32" by linarith+
    with field_update [of resistor 2 ?b, folded m] r True i len same_cell [of 16 p pin] show ?thesis
      by (auto simp: pin_resistor_def)
  next
    case False
    then show ?thesis by (auto simp: pin_resistor_def)
  qed
  ultimately show ?thesis using len by (intro exI [of _ ?g]) (simp add: gpio_inv_def)
qed

lemma init_gpio_ok:
  assumes "gpio_inv g"
  shows "\<exists>g'. init_gpio g = Inr g' \<and> gpio_inv g'
    \<and> (\<forall>p. pin_function g' p = (if p \<in> {18, 19, 20, 21} then GPIO_ALTFN4 else pin_function g p))
    \<and> (\<forall>p. pin_resistor g' p = (if p \<in> {18, 19, 20, 21} then GPIO_NONE else pin_resistor g p))"
proof -
  have v: "unat GPIO_ALTFN4 < 8" "unat GPIO_NONE < 4" by (simp_all add: GPIO_ALTFN4_def GPIO_NONE_def)
  obtain g1 where 1: "setup_gpio g 18 GPIO_ALTFN4 GPIO_NONE = Inr g1" "gpio_inv g1"
    "\<forall>p. pin_function g1 p = (if p = 18 then GPIO_ALTFN4 else pin_function g p)"
    "\<forall>p. pin_resistor g1 p = (if p = 18 then GPIO_NONE else pin_resistor g p)"
    using setup_gpio_ok [of g 18, OF assms _ v] by auto
  obtain g2 where 2: "setup_gpio g1 19 GPIO_ALTFN4 GPIO_NONE = Inr g2" "gpio_inv g2"
    "\<forall>p. pin_function g2 p = (if p = 19 then GPIO_ALTFN4 else pin_function g1 p)"
    "\<forall>p. pin_resistor g2 p = (if p = 19 then GPIO_NONE else pin_resistor g1 p)"
    using setup_gpio_ok [of g1 19, OF 1(2) _ v] by auto
  obtain g3 where 3: "setup_gpio g2 20 GPIO_ALTFN4 GPIO_NONE = Inr g3" "gpio_inv g3"
    "\<forall>p. pin_function g3 p = (if p = 20 then GPIO_ALTFN4 else pin_function g2 p)"
    "\<forall>p. pin_resistor g3 p = (if p = 20 then GPIO_NONE else pin_resistor g2 p)"
    using setup_gpio_ok [of g2 20, OF 2(2) _ v] by auto
  obtain g4 where 4: "setup_gpio g3 21 GPIO_ALTFN4 GPIO_NONE = Inr g4" "gpio_inv g4"
    "\<forall>p. pin_function g4 p = (if p = 21 then GPIO_ALTFN4 else pin_function g3 p)"
    "\<forall>p. pin_resistor g4 p = (if p = 21 then GPIO_NONE else pin_resistor g3 p)"
    using setup_gpio_ok [of g3 21, OF 3(2) _ v] by auto
  have "init_gpio g = Inr g4" using 1(1) 2(1) 3(1) 4(1) by (simp add: init_gpio_def)
  then show ?thesis using 1(3,4) 2(3,4) 3(3,4) 4(2-4) by (intro exI [of _ g4]) simp
qed

subsection \<open>What a transfer puts on the bus\<close>

text \<open>The bytes of a word: the top byte is their number in bits, they follow from bit 23 down.\<close>

definition word_bytes :: "u32 \<Rightarrow> bytes" where
  "word_bytes w = map (\<lambda>i. ucast (drop_bit (16 - 8 * i) w)) [0..<unat (drop_bit 24 w) div 8]"

lemma bit_u8: "bit (a :: u8) n \<Longrightarrow> n < 8"
  using bit_imp_le_length [of a n] by simp

lemma u8_zeros: "(2048 :: u8) = 0" "(4096 :: u8) = 0" "(1048576 :: u8) = 0" "(6144 :: u8) = 0" "(1572864 :: u8) = 0"
    "(402653184 :: u8) = 0"
  by simp_all

lemma byte_at:
  fixes a :: u8
  assumes "j \<le> 24" and "k \<le> 24" and "j = k \<or> j + 8 \<le> k \<or> k + 8 \<le> j"
  shows "(ucast (drop_bit k (push_bit j (ucast a :: u32))) :: u8) = (if j = k then a else 0)"
  by (rule bit_word_eqI) (use assms in \<open>auto simp: bit_simps dest: bit_u8\<close>)

lemma byte_above:
  fixes a :: u8
  assumes "j + 8 \<le> k"
  shows "drop_bit k (push_bit j (ucast a :: u32)) = 0"
  by (rule bit_word_eqI) (use assms in \<open>auto simp: bit_simps dest: bit_u8\<close>)

lemma spi_pack_chunk:
  assumes "s \<noteq> []"
  shows "\<exists>d. spi_pack s 0 0 = (d, 8 * min 3 (length s), drop 3 s)
    \<and> word_bytes (or d (push_bit 24 (word_of_nat (8 * min 3 (length s))))) = take 3 s"
proof -
  consider a where "s = [a]" | a b where "s = [a, b]" | a b c r where "s = a # b # c # r"
    using assms by (metis list.exhaust)
  then show ?thesis
  proof cases
    case (1 a)
    have "unat (drop_bit 24 (or (push_bit 16 (ucast a)) 0x8000000 :: u32)) = 8" by (simp add: byte_above)
    with 1 show ?thesis by (simp add: word_bytes_def byte_at unsigned_or_eq u8_zeros push_bit_eq_mult [of 24 8])
  next
    case (2 a b)
    have "unat (drop_bit 24 (or (or (push_bit 16 (ucast a)) (push_bit 8 (ucast b))) 0x10000000 :: u32)) = 16"
      by (simp add: byte_above)
    with 2 show ?thesis
      by (simp add: word_bytes_def byte_at unsigned_or_eq u8_zeros push_bit_eq_mult [of 24 16] upt_rec)
  next
    case (3 a b c r)
    have "unat (drop_bit 24 (or (or (or (push_bit 16 (ucast a)) (push_bit 8 (ucast b))) (ucast c)) 0x18000000 :: u32)) = 24"
      using byte_above [of 0 24 c] by (simp add: byte_above)
    moreover have "spi_pack s 0 0 = (or (or (push_bit 16 (ucast a)) (push_bit 8 (ucast b))) (ucast c), 24, r)"
      using 3 by (cases r) simp_all
    ultimately show ?thesis using 3 byte_at [of 0 0 c] byte_at [of 0 8 c] byte_at [of 0 16 c] byte_at [of 16 0 a] byte_at [of 8 0 b]
      by (simp add: word_bytes_def byte_at unsigned_or_eq u8_zeros push_bit_eq_mult [of 24 24] upt_rec)
  qed
qed

text \<open>The words \<open>ws\<close> are one whole transfer of the bytes \<open>s\<close>.\<close>

definition carries :: "(bool \<times> u32) list \<Rightarrow> bytes \<Rightarrow> bool" where
  "carries ws s \<longleftrightarrow> concat (map (word_bytes \<circ> snd) ws) = s
     \<and> map fst ws = replicate (length ws - 1) True @ [False] \<and> length ws = (length s + 2) div 3"

lemma carries_Cons:
  assumes "carries ws (drop 3 s)" and "drop 3 s \<noteq> []" and "word_bytes w = take 3 s"
  shows "carries ((True, w) # ws) s"
proof -
  have "ws \<noteq> []" using assms(1,2) by (auto simp: carries_def)
  then obtain n where n: "length ws = Suc n" by (cases ws) auto
  have "3 < length s" using assms(2) by simp
  then have "(length s + 2) div 3 = Suc ((length (drop 3 s) + 2) div 3)" by simp
  moreover have c: "concat (map (word_bytes \<circ> snd) ws) = drop 3 s" "map fst ws = replicate n True @ [False]"
    "(length (drop 3 s) + 2) div 3 = Suc n" using assms(1) n by (simp_all add: carries_def)
  ultimately have "(length s + 2) div 3 = Suc (Suc n)" by (simp only:)
  with c(1,2) n assms(3) show ?thesis unfolding carries_def by simp
qed

lemma spi_loop_sends:
  assumes "s \<noteq> []" and "length s \<le> fuel" and "(length s + 2) div 3 \<le> length (sp_rx spi)"
  shows "\<exists>ws. spi_loop fuel spi s 0 = Inr (spi\<lparr>sp_tx := sp_tx spi @ ws, sp_rx := drop (length ws) (sp_rx spi)\<rparr>, [])
    \<and> carries ws s"
  using assms
proof (induction fuel arbitrary: s spi)
  case (Suc fuel)
  obtain d where d: "spi_pack s 0 0 = (d, 8 * min 3 (length s), drop 3 s)"
    "word_bytes (or d (push_bit 24 (word_of_nat (8 * min 3 (length s))))) = take 3 s"
    using spi_pack_chunk [OF Suc.prems(1)] by blast
  let ?w = "or d (push_bit 24 (word_of_nat (8 * min 3 (length s))))"
  have "0 < length s" using Suc.prems(1) by simp
  then have "0 < (length s + 2) div 3" using Suc.prems(1) by (cases s) (simp_all add: div_greater_zero_iff)
  then obtain x xs where rx: "sp_rx spi = x # xs" using Suc.prems(3) by (cases "sp_rx spi") simp_all
  let ?spi = "spi\<lparr>sp_tx := sp_tx spi @ [(drop 3 s \<noteq> [], ?w)], sp_rx := xs\<rparr>"
  have step: "spi_loop (Suc fuel) spi s 0 = bindE (spi_loop fuel ?spi (drop 3 s) 0) (\<lambda>(spi, more). Inr (spi, more))"
    using Suc.prems(1) d(1) rx by (simp add: spi_exchange_def Let_def)
  show ?case
  proof (cases "drop 3 s = []")
    case True
    then have l: "length s \<le> 3" by simp
    then have "length s = 1 \<or> length s = 2 \<or> length s = 3" using Suc.prems(1) length_greater_0_conv [of s] by linarith
    then have "(length s + 2) div 3 = 1" by auto
    then have "carries [(False, ?w)] s" using d(2) l by (simp add: carries_def)
    moreover have "spi_loop fuel ?spi (drop 3 s) 0 = Inr (?spi, [])" using True by (cases fuel) simp_all
    ultimately show ?thesis using step rx True by (intro exI [of _ "[(False, ?w)]"]) simp
  next
    case False
    then have l: "3 < length s" by simp
    then have "(length s + 2) div 3 = Suc ((length (drop 3 s) + 2) div 3)" by simp
    then have "(length (drop 3 s) + 2) div 3 \<le> length (sp_rx ?spi)" using Suc.prems(3) rx by simp
    moreover have "length (drop 3 s) \<le> fuel" using Suc.prems(2) l by simp
    ultimately obtain ws where ws: "spi_loop fuel ?spi (drop 3 s) 0
        = Inr (?spi\<lparr>sp_tx := sp_tx ?spi @ ws, sp_rx := drop (length ws) (sp_rx ?spi)\<rparr>, [])" "carries ws (drop 3 s)"
      using Suc.IH [OF False, of ?spi] by blast
    have "carries ((True, ?w) # ws) s" by (rule carries_Cons [OF ws(2) False d(2)])
    with step ws(1) rx False show ?thesis by (intro exI [of _ "(True, ?w) # ws"]) simp
  qed
qed simp

lemma spi_send_ok:
  assumes "s \<noteq> []" and "(length s + 2) div 3 \<le> length (sp_rx spi)"
  shows "\<exists>ws. spi_send_recv spi s 0 = Inr (spi\<lparr>sp_tx := sp_tx spi @ ws, sp_rx := drop (length ws) (sp_rx spi)\<rparr>, [])
    \<and> carries ws s"
  unfolding spi_send_recv_def by (rule spi_loop_sends [OF assms(1) order_refl assms(2)])

subsection \<open>What a transfer takes from the bus\<close>

text \<open>The words a device answers with: three bytes each, the last one in the low byte.\<close>

definition answer_word :: "bytes \<Rightarrow> u32" where
  "answer_word c = foldl (\<lambda>w b. or (push_bit 8 w) (ucast b)) 0 c"

function answer_words :: "bytes \<Rightarrow> u32 list" where
  "answer_words t = (if t = [] then [] else answer_word (take 3 t) # answer_words (drop 3 t))"
  by auto
termination by (relation "measure length") auto

declare answer_words.simps [simp del]

lemma answer_words_simps [simp]:
  "answer_words [] = []" "t \<noteq> [] \<Longrightarrow> answer_words t = answer_word (take 3 t) # answer_words (drop 3 t)"
  by (simp_all add: answer_words.simps)

lemma low_byte: "(ucast (and w 0xFF) :: u8) = ucast (w :: u32)"
proof -
  have m: "(0xFF :: u32) = mask 8" by (simp add: mask_eq_exp_minus_1)
  show ?thesis unfolding m by (rule bit_word_eqI) (simp add: bit_and_iff bit_mask_iff bit_ucast_iff)
qed

lemma byte_outside:
  fixes a :: u8
  shows "8 \<le> k \<Longrightarrow> (ucast (drop_bit k (ucast a :: u32)) :: u8) = 0"
    and "8 \<le> j \<Longrightarrow> (ucast (push_bit j (ucast a :: u32)) :: u8) = 0"
    and "(ucast (ucast a :: u32) :: u8) = a"
  by (rule bit_word_eqI, auto simp: bit_simps dest: bit_u8)+

lemma spi_unpack_answer:
  assumes "c \<noteq> []" and "length c \<le> 3"
  shows "spi_unpack (answer_word c) (8 * length c) = c"
proof -
  consider x where "c = [x]" | x y where "c = [x, y]" | x y z where "c = [x, y, z]"
    using assms by (cases c; cases "tl c"; cases "tl (tl c)") auto
  then show ?thesis
    by cases (simp_all add: answer_word_def spi_unpack.simps low_byte unsigned_or_eq byte_at byte_outside)
qed

lemma spi_loop_exchanges:
  assumes "s \<noteq> []" and "length s \<le> fuel" and "length t = length s" and "sp_rx spi = answer_words t @ rest"
  shows "\<exists>ws. spi_loop fuel spi s (length s) = Inr (spi\<lparr>sp_tx := sp_tx spi @ ws, sp_rx := rest\<rparr>, t) \<and> carries ws s"
  using assms
proof (induction fuel arbitrary: s t spi)
  case (Suc fuel)
  obtain d where d: "spi_pack s 0 0 = (d, 8 * min 3 (length s), drop 3 s)"
    "word_bytes (or d (push_bit 24 (word_of_nat (8 * min 3 (length s))))) = take 3 s"
    using spi_pack_chunk [OF Suc.prems(1)] by blast
  let ?w = "or d (push_bit 24 (word_of_nat (8 * min 3 (length s))))"
  have t: "t \<noteq> []" using Suc.prems(1,3) by auto
  let ?spi = "spi\<lparr>sp_tx := sp_tx spi @ [(drop 3 s \<noteq> [], ?w)], sp_rx := answer_words (drop 3 t) @ rest\<rparr>"
  have "spi_unpack (answer_word (take 3 t)) (8 * min 3 (length s)) = take 3 t"
    using spi_unpack_answer [of "take 3 t"] t Suc.prems(3) by (simp add: min.commute)
  then have step: "spi_loop (Suc fuel) spi s (length s)
      = bindE (spi_loop fuel ?spi (drop 3 s) (length (drop 3 s))) (\<lambda>(spi, more). Inr (spi, take 3 t @ more))"
    using Suc.prems(1,3,4) d(1) t by (simp add: spi_exchange_def Let_def min_def)
  show ?case
  proof (cases "drop 3 s = []")
    case True
    then have l: "length s \<le> 3" by simp
    then have "length s = 1 \<or> length s = 2 \<or> length s = 3" using Suc.prems(1) length_greater_0_conv [of s] by linarith
    then have "(length s + 2) div 3 = 1" by auto
    then have "carries [(False, ?w)] s" using d(2) l by (simp add: carries_def)
    moreover have "spi_loop fuel ?spi (drop 3 s) (length (drop 3 s)) = Inr (?spi, [])" using True by (cases fuel) simp_all
    ultimately show ?thesis using step True l Suc.prems(3) by (intro exI [of _ "[(False, ?w)]"]) simp
  next
    case False
    have "length (drop 3 s) \<le> fuel" "length (drop 3 t) = length (drop 3 s)" using Suc.prems(1-3) by (cases s, simp_all)
    moreover have "sp_rx ?spi = answer_words (drop 3 t) @ rest" by simp
    ultimately obtain ws where ws: "spi_loop fuel ?spi (drop 3 s) (length (drop 3 s))
        = Inr (?spi\<lparr>sp_tx := sp_tx ?spi @ ws, sp_rx := rest\<rparr>, drop 3 t)" "carries ws (drop 3 s)"
      using Suc.IH [OF False, of "drop 3 t" ?spi] by blast
    have "carries ((True, ?w) # ws) s" by (rule carries_Cons [OF ws(2) False d(2)])
    with step ws(1) False show ?thesis by (intro exI [of _ "(True, ?w) # ws"]) simp
  qed
qed simp

lemma spi_exchange_ok:
  assumes "s \<noteq> []" and "length t = length s" and "sp_rx spi = answer_words t @ rest"
  shows "\<exists>ws. spi_send_recv spi s (length s) = Inr (spi\<lparr>sp_tx := sp_tx spi @ ws, sp_rx := rest\<rparr>, t) \<and> carries ws s"
  unfolding spi_send_recv_def by (rule spi_loop_exchanges [OF assms(1) order_refl assms(2,3)])

text \<open>Receiving more than is sent never ends.\<close>

lemma spi_loop_starved: "0 < r \<Longrightarrow> spi_loop fuel spi [] r = Inl Diverges"
proof (induction fuel arbitrary: spi)
  case (Suc fuel)
  then show ?case by (cases "sp_rx spi") (simp_all add: spi_exchange_def)
qed simp

end
