(* ===== verification/Uart.thy ===== *)
theory Uart
  imports Spi
begin

text \<open>
  The upper half of \<^verbatim>\<open>rpi.c\<close>: the serial lines behind the bus.  The operations work on the
  state of the bus channel they are given.  The delay loops have no effect on it.
\<close>

definition UART_RHR :: u8 where "UART_RHR = 0x00"
definition UART_THR :: u8 where "UART_THR = 0x00"
definition UART_FCR :: u8 where "UART_FCR = 0x02"
definition UART_LCR :: u8 where "UART_LCR = 0x03"
definition UART_TXLVL :: u8 where "UART_TXLVL = 0x08"
definition UART_RXLVL :: u8 where "UART_RXLVL = 0x09"
definition UART_IOControl :: u8 where "UART_IOControl = 0x0E"
definition UART_DLL :: u8 where "UART_DLL = 0x00"
definition UART_DLH :: u8 where "UART_DLH = 0x01"
definition UART_CHANNEL_SHIFT :: nat where "UART_CHANNEL_SHIFT = 1"
definition UART_ADDR_SHIFT :: nat where "UART_ADDR_SHIFT = 3"
definition UART_READ_ENABLE :: u8 where "UART_READ_ENABLE = 0x80"
definition UART_FCR_TX_FIFO_RESET :: u8 where "UART_FCR_TX_FIFO_RESET = 0x04"
definition UART_FCR_RX_FIFO_RESET :: u8 where "UART_FCR_RX_FIFO_RESET = 0x02"
definition UART_FCR_FIFO_EN :: u8 where "UART_FCR_FIFO_EN = 0x01"
definition UART_LCR_DIV_LATCH_EN :: u8 where "UART_LCR_DIV_LATCH_EN = 0x80"
definition UART_LCR_1_STOP_BITS :: u64 where "UART_LCR_1_STOP_BITS = 0x00"
definition UART_LCR_2_STOP_BITS :: u64 where "UART_LCR_2_STOP_BITS = 0x04"
definition UART_IOControl_RESET :: u8 where "UART_IOControl_RESET = 0x08"

subsection \<open>Registers\<close>

definition uart_header :: "usize \<Rightarrow> u8 \<Rightarrow> u8" where
  "uart_header uart_channel reg =
     ucast (or (push_bit UART_CHANNEL_SHIFT uart_channel) (push_bit UART_ADDR_SHIFT (ucast reg)))"

definition uart_write_register :: "SPI \<Rightarrow> usize \<Rightarrow> u8 \<Rightarrow> u8 \<Rightarrow> SPI res" where
  "uart_write_register spi uart_channel reg data =
     bindE (spi_send_recv spi [uart_header uart_channel reg, data] 0) (\<lambda>(spi, _). Inr spi)"

definition uart_read_register :: "SPI \<Rightarrow> usize \<Rightarrow> u8 \<Rightarrow> (SPI \<times> u8) res" where
  "uart_read_register spi uart_channel reg =
     bindE (spi_send_recv spi [or (uart_header uart_channel reg) UART_READ_ENABLE, 0] 2) (\<lambda>(spi, res).
     bindE (nthE res 1) (\<lambda>c. Inr (spi, c)))"

definition uart_init_channel :: "SPI \<Rightarrow> usize \<Rightarrow> usize \<Rightarrow> usize \<Rightarrow> SPI res" where
  "uart_init_channel spi uart_channel baud_rate stop_bits =
     bindE (uart_write_register spi uart_channel UART_LCR UART_LCR_DIV_LATCH_EN) (\<lambda>spi.
     if baud_rate * 16 = 0 then Inl Overflow
     else
       let bauddiv = ucast (14745600 div (baud_rate * 16)) :: u32
       in bindE (uart_write_register spi uart_channel UART_DLH (ucast (drop_bit 8 (and bauddiv 0xFF00)))) (\<lambda>spi.
          bindE (uart_write_register spi uart_channel UART_DLL (ucast (and bauddiv 0x00FF))) (\<lambda>spi.
          bindE (uart_write_register spi uart_channel UART_LCR (ucast (or stop_bits 0x3))) (\<lambda>spi.
          uart_write_register spi uart_channel UART_FCR
            (or UART_FCR_RX_FIFO_RESET (or UART_FCR_TX_FIFO_RESET UART_FCR_FIFO_EN))))))"

definition init_uart :: "SPI \<Rightarrow> SPI res" where
  "init_uart spi =
     bindE (uart_write_register spi 0 UART_IOControl UART_IOControl_RESET) (\<lambda>spi.
     bindE (uart_init_channel spi 0 115200 UART_LCR_1_STOP_BITS) (\<lambda>spi.
     uart_init_channel spi 1 2400 UART_LCR_2_STOP_BITS))"

subsection \<open>Characters and strings\<close>

text \<open>
  Waiting until a level register is not zero.  Each read takes a word off the bus, so the
  number of words that will come bounds the rounds.
\<close>

fun uart_wait_level :: "nat \<Rightarrow> SPI \<Rightarrow> usize \<Rightarrow> u8 \<Rightarrow> SPI res" where
  "uart_wait_level 0 spi uart_channel reg = Inl Diverges"
| "uart_wait_level (Suc fuel) spi uart_channel reg =
     bindE (uart_read_register spi uart_channel reg) (\<lambda>(spi, level).
     if level = 0 then uart_wait_level fuel spi uart_channel reg else Inr spi)"

definition uart_getc :: "SPI \<Rightarrow> usize \<Rightarrow> (SPI \<times> u8) res" where
  "uart_getc spi uart_channel =
     bindE (uart_wait_level (length (sp_rx spi) + 1) spi uart_channel UART_RXLVL) (\<lambda>spi.
     uart_read_register spi uart_channel UART_RHR)"

definition uart_putc :: "SPI \<Rightarrow> usize \<Rightarrow> u8 \<Rightarrow> SPI res" where
  "uart_putc spi uart_channel c =
     bindE (uart_wait_level (length (sp_rx spi) + 1) spi uart_channel UART_TXLVL) (\<lambda>spi.
     uart_write_register spi uart_channel UART_THR c)"

definition UART_MAX :: nat where "UART_MAX = 32"

definition uart_room :: "SPI \<Rightarrow> usize \<Rightarrow> (SPI \<times> nat) res" where
  "uart_room spi uart_channel =
     bindE (uart_read_register spi uart_channel UART_TXLVL) (\<lambda>(spi, level).
     Inr (spi, if unat level > UART_MAX then UART_MAX else unat level))"

text \<open>
  The loop of \<^verbatim>\<open>uart_puts\<close>: \<open>temp\<close> holds the header and the bytes copied so far, \<open>buffer\<close> what
  is left.  A round copies a byte or sends what was copied.
\<close>

fun uart_puts_loop :: "nat \<Rightarrow> SPI \<Rightarrow> usize \<Rightarrow> nat \<Rightarrow> bytes \<Rightarrow> bytes \<Rightarrow> SPI res" where
  "uart_puts_loop 0 spi uart_channel tlen temp buffer = Inl Diverges"
| "uart_puts_loop (Suc fuel) spi uart_channel tlen temp buffer =
     (if length temp < tlen \<and> buffer \<noteq> []
      then uart_puts_loop fuel spi uart_channel tlen (temp @ [hd buffer]) (tl buffer)
      else
        bindE (spi_send_recv spi temp 0) (\<lambda>(spi, _).
        if buffer = [] then Inr spi
        else bindE (uart_room spi uart_channel) (\<lambda>(spi, tlen).
             uart_puts_loop fuel spi uart_channel tlen (take 1 temp) buffer)))"

definition uart_puts :: "SPI \<Rightarrow> usize \<Rightarrow> bytes \<Rightarrow> SPI res" where
  "uart_puts spi uart_channel buffer =
     bindE (uart_room spi uart_channel) (\<lambda>(spi, tlen).
     uart_puts_loop (length buffer + length (sp_rx spi) + 1) spi uart_channel tlen
       [uart_header uart_channel UART_THR] buffer)"

subsection \<open>Formatted output\<close>

text \<open>The arguments after the format, and the calls a format makes.\<close>

datatype va_arg = Va_string bytes | Va_int i32 | Va_pointer u64 | Va_unsigned u32

datatype uart_op = Puts bytes | Putc u8

definition PERCENT :: u8 where "PERCENT = 37"

text \<open>A string argument and a written number end at their null byte, as \<^verbatim>\<open>strlen\<close> sees them.\<close>

definition until_null :: "bytes \<Rightarrow> bytes" where
  "until_null s = takeWhile (\<lambda>c. c \<noteq> 0) s"

definition format_arg :: "u8 \<Rightarrow> va_arg list \<Rightarrow> (uart_op list \<times> va_arg list) res" where
  "format_arg c args =
     (if c = 115 then case args of Va_string s # as \<Rightarrow> Inr ([Puts (until_null s)], as) | _ \<Rightarrow> Inl OutOfBounds
      else if c = 99 then case args of Va_int n # as \<Rightarrow> Inr ([Putc (ucast n)], as) | _ \<Rightarrow> Inl OutOfBounds
      else if c = 100 then case args of
          Va_int n # as \<Rightarrow> bindE (i32_to_cstring n 10) (\<lambda>s. Inr ([Puts (until_null s)], as)) | _ \<Rightarrow> Inl OutOfBounds
      else if c = 112 then case args of
          Va_pointer n # as \<Rightarrow> bindE (u64_to_cstring n 16) (\<lambda>s. Inr ([Puts (until_null s)], as)) | _ \<Rightarrow> Inl OutOfBounds
      else if c = 117 then case args of
          Va_unsigned n # as \<Rightarrow> bindE (u32_to_cstring n 10) (\<lambda>s. Inr ([Puts (until_null s)], as)) | _ \<Rightarrow> Inl OutOfBounds
      else if c = PERCENT then Inr ([Putc PERCENT], args)
      else Inr ([], args))"

text \<open>A format that ends with \<^verbatim>\<open>%\<close> makes the loop step over its null byte.\<close>

fun format_ops :: "bytes \<Rightarrow> va_arg list \<Rightarrow> uart_op list res" where
  "format_ops [] args = Inr []"
| "format_ops [c] args = (if c = PERCENT then Inl OutOfBounds else Inr [Putc c])"
| "format_ops (c # d # fmt) args =
     (if c = PERCENT
      then bindE (format_arg d args) (\<lambda>(ops, args). bindE (format_ops fmt args) (\<lambda>more. Inr (ops @ more)))
      else bindE (format_ops (d # fmt) args) (\<lambda>more. Inr (Putc c # more)))"

fun run_ops :: "SPI \<Rightarrow> usize \<Rightarrow> uart_op list \<Rightarrow> SPI res" where
  "run_ops spi uart_channel [] = Inr spi"
| "run_ops spi uart_channel (Puts s # ops) = bindE (uart_puts spi uart_channel s) (\<lambda>spi. run_ops spi uart_channel ops)"
| "run_ops spi uart_channel (Putc c # ops) = bindE (uart_putc spi uart_channel c) (\<lambda>spi. run_ops spi uart_channel ops)"

definition uart_printf :: "SPI \<Rightarrow> usize \<Rightarrow> bytes \<Rightarrow> va_arg list \<Rightarrow> SPI res" where
  "uart_printf spi uart_channel fmt args = bindE (format_ops fmt args) (run_ops spi uart_channel)"

end
