(* ===== verification/Printf.thy ===== *)
theory Printf
  imports Uart
begin

text \<open>
  \<^verbatim>\<open>printf.c\<close>, as \<^verbatim>\<open>printf.h\<close> configures it: without floating point and without \<^verbatim>\<open>long long\<close>.
  Every call of an output function is at the next index, so a formatting function is given by
  the characters it puts out, in order; what the output functions do with them follows at the
  end.  A string is the list of its bytes before the null byte; the number buffer \<^verbatim>\<open>buf\<close> is the
  list of its first \<^verbatim>\<open>len\<close> bytes, the last digit first.
\<close>

definition PRINTF_NTOA_BUFFER_SIZE :: nat where "PRINTF_NTOA_BUFFER_SIZE = 32"

definition FLAGS_ZEROPAD :: u32 where "FLAGS_ZEROPAD = 0x1"
definition FLAGS_LEFT :: u32 where "FLAGS_LEFT = 0x2"
definition FLAGS_PLUS :: u32 where "FLAGS_PLUS = 0x4"
definition FLAGS_SPACE :: u32 where "FLAGS_SPACE = 0x8"
definition FLAGS_HASH :: u32 where "FLAGS_HASH = 0x10"
definition FLAGS_UPPERCASE :: u32 where "FLAGS_UPPERCASE = 0x20"
definition FLAGS_CHAR :: u32 where "FLAGS_CHAR = 0x40"
definition FLAGS_SHORT :: u32 where "FLAGS_SHORT = 0x80"
definition FLAGS_LONG :: u32 where "FLAGS_LONG = 0x100"
definition FLAGS_LONG_LONG :: u32 where "FLAGS_LONG_LONG = 0x200"
definition FLAGS_PRECISION :: u32 where "FLAGS_PRECISION = 0x400"

lemmas flags_defs = FLAGS_ZEROPAD_def FLAGS_LEFT_def FLAGS_PLUS_def FLAGS_SPACE_def FLAGS_HASH_def FLAGS_UPPERCASE_def
  FLAGS_CHAR_def FLAGS_SHORT_def FLAGS_LONG_def FLAGS_LONG_LONG_def FLAGS_PRECISION_def

definition has :: "u32 \<Rightarrow> u32 \<Rightarrow> bool" where
  "has flags f \<longleftrightarrow> and flags f \<noteq> 0"

subsection \<open>Helpers\<close>

fun strnlen_s :: "bytes \<Rightarrow> nat \<Rightarrow> nat" where
  "strnlen_s [] maxsize = 0"
| "strnlen_s (c # s) maxsize = (if c \<noteq> 0 \<and> maxsize \<noteq> 0 then Suc (strnlen_s s (maxsize - 1)) else 0)"

definition is_digit :: "u8 \<Rightarrow> bool" where
  "is_digit ch \<longleftrightarrow> 48 \<le> ch \<and> ch \<le> 57"

text \<open>The number at the start of a string, and the rest of the string.\<close>

fun pf_atoi :: "u32 \<Rightarrow> bytes \<Rightarrow> u32 \<times> bytes" where
  "pf_atoi i [] = (i, [])"
| "pf_atoi i (c # s) = (if is_digit c then pf_atoi (i * 10 + (ucast c - 48)) s else (i, c # s))"

text \<open>The loops that put out or store a character until a length is reached.\<close>

function pad :: "u8 \<Rightarrow> nat \<Rightarrow> nat \<Rightarrow> bytes" where
  "pad c len width = (if len < width then c # pad c (len + 1) width else [])"
  by auto
termination by (relation "measure (\<lambda>(c, len, width). width - len)") auto

declare pad.simps [simp del]

definition out_rev :: "bytes \<Rightarrow> u32 \<Rightarrow> u32 \<Rightarrow> bytes" where
  "out_rev buf width flags =
     (let out = (if \<not> has flags FLAGS_LEFT \<and> \<not> has flags FLAGS_ZEROPAD then pad SPACE (length buf) (unat width) else []);
          out = out @ rev buf
      in if has flags FLAGS_LEFT then out @ pad SPACE (length out) (unat width) else out)"

subsection \<open>Numbers\<close>

definition buf_add :: "bytes \<Rightarrow> u8 \<Rightarrow> bytes" where
  "buf_add buf c = (if length buf < PRINTF_NTOA_BUFFER_SIZE then buf @ [c] else buf)"

definition ntoa_format :: "bytes \<Rightarrow> bool \<Rightarrow> u32 \<Rightarrow> u32 \<Rightarrow> u32 \<Rightarrow> u32 \<Rightarrow> bytes" where
  "ntoa_format buf negative base prec width flags =
     (let (buf, width) =
        (if \<not> has flags FLAGS_LEFT
         then
           let width = (if width \<noteq> 0 \<and> has flags FLAGS_ZEROPAD \<and> (negative \<or> has flags (or FLAGS_PLUS FLAGS_SPACE))
                        then width - 1 else width);
               buf = buf @ pad 48 (length buf) (min (unat prec) PRINTF_NTOA_BUFFER_SIZE);
               buf = (if has flags FLAGS_ZEROPAD
                      then buf @ pad 48 (length buf) (min (unat width) PRINTF_NTOA_BUFFER_SIZE) else buf)
           in (buf, width)
         else (buf, width));
        buf =
        (if has flags FLAGS_HASH
         then
           let buf = (if \<not> has flags FLAGS_PRECISION \<and> buf \<noteq> [] \<and> (length buf = unat prec \<or> length buf = unat width)
                      then let buf = butlast buf in if buf \<noteq> [] \<and> base = 16 then butlast buf else buf
                      else buf);
               buf = (if base = 16 \<and> \<not> has flags FLAGS_UPPERCASE then buf_add buf 120
                      else if base = 16 \<and> has flags FLAGS_UPPERCASE then buf_add buf 88
                      else if base = 2 then buf_add buf 98 else buf)
           in buf_add buf 48
         else buf);
        buf =
        (if negative then buf_add buf MINUS
         else if has flags FLAGS_PLUS then buf_add buf 43
         else if has flags FLAGS_SPACE then buf_add buf SPACE
         else buf)
      in out_rev buf width flags)"

definition ntoa_digit :: "u32 \<Rightarrow> u8 \<Rightarrow> u8" where
  "ntoa_digit flags digit = (if digit < 10 then 48 + digit else (if has flags FLAGS_UPPERCASE then 65 else 97) + digit - 10)"

text \<open>The digits; the first argument is the room left in the buffer.\<close>

fun ntoa_loop :: "nat \<Rightarrow> u64 \<Rightarrow> u64 \<Rightarrow> u32 \<Rightarrow> bytes \<Rightarrow> bytes" where
  "ntoa_loop 0 value base flags buf = buf"
| "ntoa_loop (Suc room) value base flags buf =
     (let buf = buf @ [ntoa_digit flags (ucast (value mod base))];
          value = value div base
      in if value \<noteq> 0 then ntoa_loop room value base flags buf else buf)"

definition ntoa_long :: "u64 \<Rightarrow> bool \<Rightarrow> u64 \<Rightarrow> u32 \<Rightarrow> u32 \<Rightarrow> u32 \<Rightarrow> bytes" where
  "ntoa_long value negative base prec width flags =
     (let flags = (if value = 0 then and flags (not FLAGS_HASH) else flags);
          buf = (if \<not> has flags FLAGS_PRECISION \<or> value \<noteq> 0
                 then ntoa_loop PRINTF_NTOA_BUFFER_SIZE value base flags [] else [])
      in ntoa_format buf negative (ucast base) prec width flags)"

subsection \<open>Directives\<close>

text \<open>
  The arguments after the format.  An \<^verbatim>\<open>int\<close> is read back as signed or unsigned; an argument of the
  wrong kind has no defined value.
\<close>

datatype pf_arg = A_int u32 | A_long u64 | A_string bytes

fun arg_int :: "pf_arg list \<Rightarrow> (u32 \<times> pf_arg list) res" where
  "arg_int (A_int n # va) = Inr (n, va)"
| "arg_int va = Inl OutOfBounds"

fun arg_long :: "pf_arg list \<Rightarrow> (u64 \<times> pf_arg list) res" where
  "arg_long (A_long n # va) = Inr (n, va)"
| "arg_long va = Inl OutOfBounds"

fun arg_string :: "pf_arg list \<Rightarrow> (bytes \<times> pf_arg list) res" where
  "arg_string (A_string s # va) = Inr (s, va)"
| "arg_string va = Inl OutOfBounds"

fun vs_flags :: "u32 \<Rightarrow> bytes \<Rightarrow> u32 \<times> bytes" where
  "vs_flags flags [] = (flags, [])"
| "vs_flags flags (c # fmt) =
     (if c = 48 then vs_flags (or flags FLAGS_ZEROPAD) fmt
      else if c = 45 then vs_flags (or flags FLAGS_LEFT) fmt
      else if c = 43 then vs_flags (or flags FLAGS_PLUS) fmt
      else if c = 32 then vs_flags (or flags FLAGS_SPACE) fmt
      else if c = 35 then vs_flags (or flags FLAGS_HASH) fmt
      else (flags, c # fmt))"

definition vs_width :: "u32 \<Rightarrow> bytes \<Rightarrow> pf_arg list \<Rightarrow> (u32 \<times> u32 \<times> bytes \<times> pf_arg list) res" where
  "vs_width flags fmt va =
     (if fmt \<noteq> [] \<and> is_digit (hd fmt)
      then case pf_atoi 0 fmt of (width, fmt) \<Rightarrow> Inr (flags, width, fmt, va)
      else if fmt \<noteq> [] \<and> hd fmt = 42
      then bindE (arg_int va) (\<lambda>(w, va).
           if sint w = - (2 ^ 31) then Inl Overflow
           else if sint w < 0 then Inr (or flags FLAGS_LEFT, - w, tl fmt, va)
           else Inr (flags, w, tl fmt, va))
      else Inr (flags, 0, fmt, va))"

definition vs_precision :: "u32 \<Rightarrow> bytes \<Rightarrow> pf_arg list \<Rightarrow> (u32 \<times> u32 \<times> bytes \<times> pf_arg list) res" where
  "vs_precision flags fmt va =
     (if fmt \<noteq> [] \<and> hd fmt = 46
      then
        let flags = or flags FLAGS_PRECISION; fmt = tl fmt
        in if fmt \<noteq> [] \<and> is_digit (hd fmt)
           then case pf_atoi 0 fmt of (precision, fmt) \<Rightarrow> Inr (flags, precision, fmt, va)
           else if fmt \<noteq> [] \<and> hd fmt = 42
           then bindE (arg_int va) (\<lambda>(prec, va). Inr (flags, if sint prec > 0 then prec else 0, tl fmt, va))
           else Inr (flags, 0, fmt, va)
      else Inr (flags, 0, fmt, va))"

text \<open>The types of \<^verbatim>\<open>t\<close>, \<^verbatim>\<open>j\<close> and \<^verbatim>\<open>z\<close> are as long as \<^verbatim>\<open>long\<close>.\<close>

definition vs_length :: "u32 \<Rightarrow> bytes \<Rightarrow> u32 \<times> bytes" where
  "vs_length flags fmt =
     (case fmt of
        [] \<Rightarrow> (flags, [])
      | c # s \<Rightarrow>
          if c = 108 then
            let flags = or flags FLAGS_LONG
            in if s \<noteq> [] \<and> hd s = 108 then (or flags FLAGS_LONG_LONG, tl s) else (flags, s)
          else if c = 104 then
            let flags = or flags FLAGS_SHORT
            in if s \<noteq> [] \<and> hd s = 104 then (or flags FLAGS_CHAR, tl s) else (flags, s)
          else if c = 116 \<or> c = 106 \<or> c = 122 then (or flags FLAGS_LONG, s)
          else (flags, c # s))"

text \<open>Without \<^verbatim>\<open>long long\<close>, its conversions print nothing and leave the argument unread.\<close>

definition vs_signed :: "u32 \<Rightarrow> u32 \<Rightarrow> u32 \<Rightarrow> u64 \<Rightarrow> pf_arg list \<Rightarrow> (bytes \<times> pf_arg list) res" where
  "vs_signed flags width precision base va =
     (if has flags FLAGS_LONG_LONG then Inr ([], va)
      else if has flags FLAGS_LONG then
        bindE (arg_long va) (\<lambda>(value, va).
        if sint value = - (2 ^ 63) then Inl Overflow
        else Inr (ntoa_long (if sint value > 0 then value else - value) (sint value < 0) base precision width flags, va))
      else
        bindE (arg_int va) (\<lambda>(n, va).
        let value = (if has flags FLAGS_CHAR then ucast (ucast n :: u8)
                     else if has flags FLAGS_SHORT then scast (ucast n :: 16 word) else n) :: i32
        in if sint value = - (2 ^ 31) then Inl Overflow
           else Inr (ntoa_long (ucast (if sint value > 0 then value else - value)) (sint value < 0) base precision width flags, va)))"

definition vs_unsigned :: "u32 \<Rightarrow> u32 \<Rightarrow> u32 \<Rightarrow> u64 \<Rightarrow> pf_arg list \<Rightarrow> (bytes \<times> pf_arg list) res" where
  "vs_unsigned flags width precision base va =
     (if has flags FLAGS_LONG_LONG then Inr ([], va)
      else if has flags FLAGS_LONG then
        bindE (arg_long va) (\<lambda>(value, va). Inr (ntoa_long value False base precision width flags, va))
      else
        bindE (arg_int va) (\<lambda>(n, va).
        let value = (if has flags FLAGS_CHAR then ucast (ucast n :: u8)
                     else if has flags FLAGS_SHORT then ucast (ucast n :: u16) else n)
        in Inr (ntoa_long (ucast value) False base precision width flags, va)))"

definition vs_integer :: "u8 \<Rightarrow> u32 \<Rightarrow> u32 \<Rightarrow> u32 \<Rightarrow> pf_arg list \<Rightarrow> (bytes \<times> pf_arg list) res" where
  "vs_integer c flags width precision va =
     (let base = (if c = 120 \<or> c = 88 then 16 else if c = 111 then 8 else if c = 98 then 2 else 10);
          flags = (if base = 10 then and flags (not FLAGS_HASH) else flags);
          flags = (if c = 88 then or flags FLAGS_UPPERCASE else flags);
          flags = (if c \<noteq> 105 \<and> c \<noteq> 100 then and flags (not (or FLAGS_PLUS FLAGS_SPACE)) else flags);
          flags = (if has flags FLAGS_PRECISION then and flags (not FLAGS_ZEROPAD) else flags)
      in if c = 105 \<or> c = 100 then vs_signed flags width precision base va
         else vs_unsigned flags width precision base va)"

text \<open>
  A character and a string.  The counter of the padding loops starts at the length and is
  incremented once more than it pads; it is of 32 bits.
\<close>

definition vs_char :: "u32 \<Rightarrow> u32 \<Rightarrow> pf_arg list \<Rightarrow> (bytes \<times> pf_arg list) res" where
  "vs_char flags width va =
     (let pre = (if \<not> has flags FLAGS_LEFT then pad SPACE 1 (unat width) else [])
      in bindE (arg_int va) (\<lambda>(n, va).
         let post = (if has flags FLAGS_LEFT then pad SPACE 1 (unat width) else [])
         in Inr (pre @ [ucast n] @ post, va)))"

definition vs_string :: "u32 \<Rightarrow> u32 \<Rightarrow> u32 \<Rightarrow> pf_arg list \<Rightarrow> (bytes \<times> pf_arg list) res" where
  "vs_string flags width precision va =
     bindE (arg_string va) (\<lambda>(p, va).
     let l = strnlen_s p (if precision \<noteq> 0 then unat precision else 2 ^ 64 - 1);
         l = (if has flags FLAGS_PRECISION then (if l < unat precision then l else unat precision) else l);
         pre = (if \<not> has flags FLAGS_LEFT then pad SPACE l (unat width) else []);
         str = (if has flags FLAGS_PRECISION then take (unat precision) (until_null p) else until_null p);
         post = (if has flags FLAGS_LEFT then pad SPACE l (unat width) else [])
     in Inr (pre @ str @ post, va))"

definition vs_pointer :: "u32 \<Rightarrow> u32 \<Rightarrow> pf_arg list \<Rightarrow> (bytes \<times> pf_arg list) res" where
  "vs_pointer flags precision va =
     (let width = 16; flags = or flags (or FLAGS_ZEROPAD FLAGS_UPPERCASE)
      in bindE (arg_long va) (\<lambda>(value, va). Inr (ntoa_long value False 16 precision width flags, va)))"

definition vs_specifier :: "u8 \<Rightarrow> u32 \<Rightarrow> u32 \<Rightarrow> u32 \<Rightarrow> pf_arg list \<Rightarrow> (bytes \<times> pf_arg list) res" where
  "vs_specifier c flags width precision va =
     (if c \<in> {100, 105, 117, 120, 88, 111, 98} then vs_integer c flags width precision va
      else if c = 99 then vs_char flags width va
      else if c = 115 then vs_string flags width precision va
      else if c = 112 then vs_pointer flags precision va
      else Inr ([c], va))"

text \<open>
  The loop over the format.  Each round takes at least one byte of it.  A format that ends
  within a directive makes the loop step over its null byte.
\<close>

fun vs_loop :: "nat \<Rightarrow> bytes \<Rightarrow> pf_arg list \<Rightarrow> bytes res" where
  "vs_loop fuel [] va = Inr []"
| "vs_loop 0 (c # fmt) va = Inl Diverges"
| "vs_loop (Suc fuel) (c # fmt) va =
     (if c \<noteq> PERCENT then bindE (vs_loop fuel fmt va) (\<lambda>more. Inr (c # more))
      else
        case vs_flags 0 fmt of (flags, fmt) \<Rightarrow>
        bindE (vs_width flags fmt va) (\<lambda>(flags, width, fmt, va).
        bindE (vs_precision flags fmt va) (\<lambda>(flags, precision, fmt, va).
        case vs_length flags fmt of (flags, fmt) \<Rightarrow>
        (case fmt of
           [] \<Rightarrow> Inl OutOfBounds
         | c # fmt \<Rightarrow>
             bindE (vs_specifier c flags width precision va) (\<lambda>(out, va).
             bindE (vs_loop fuel fmt va) (\<lambda>more. Inr (out @ more)))))))"

definition vs_text :: "bytes \<Rightarrow> pf_arg list \<Rightarrow> bytes res" where
  "vs_text fmt va = vs_loop (length fmt) fmt va"

subsection \<open>The output functions\<close>

definition out_buffer :: "u8 \<Rightarrow> bytes \<Rightarrow> nat \<Rightarrow> nat \<Rightarrow> bytes res" where
  "out_buffer character buffer idx maxlen = (if idx < maxlen then updE buffer idx character else Inr buffer)"

fun out_all :: "bytes \<Rightarrow> bytes \<Rightarrow> nat \<Rightarrow> nat \<Rightarrow> bytes res" where
  "out_all [] buffer idx maxlen = Inr buffer"
| "out_all (c # cs) buffer idx maxlen = bindE (out_buffer c buffer idx maxlen) (\<lambda>buffer. out_all cs buffer (idx + 1) maxlen)"

text \<open>Into a buffer, which may be null: then nothing is stored.\<close>

definition vsnprintf :: "bytes option \<Rightarrow> usize \<Rightarrow> bytes \<Rightarrow> pf_arg list \<Rightarrow> (bytes option \<times> i32) res" where
  "vsnprintf buffer count fmt va =
     bindE (vs_text fmt va) (\<lambda>text.
     let maxlen = unat count; idx = length text
     in case buffer of
          None \<Rightarrow> Inr (None, word_of_nat idx)
        | Some buf \<Rightarrow>
            bindE (out_all text buf 0 maxlen) (\<lambda>buf.
            bindE (out_buffer 0 buf (if idx < maxlen then idx else unat (count - 1)) maxlen) (\<lambda>buf.
            Inr (Some buf, word_of_nat idx))))"

definition snprintf :: "bytes option \<Rightarrow> usize \<Rightarrow> bytes \<Rightarrow> pf_arg list \<Rightarrow> (bytes option \<times> i32) res" where
  "snprintf buffer count fmt va = vsnprintf buffer count fmt va"

definition sprintf :: "bytes option \<Rightarrow> bytes \<Rightarrow> pf_arg list \<Rightarrow> (bytes option \<times> i32) res" where
  "sprintf buffer fmt va = vsnprintf buffer (- 1) fmt va"

text \<open>To the console: \<^verbatim>\<open>_out_char\<close> drops null bytes and \<^verbatim>\<open>_putchar\<close> prints on line 0.\<close>

fun out_chars :: "SPI \<Rightarrow> bytes \<Rightarrow> SPI res" where
  "out_chars spi [] = Inr spi"
| "out_chars spi (c # cs) = bindE (if c \<noteq> 0 then uart_putc spi 0 c else Inr spi) (\<lambda>spi. out_chars spi cs)"

definition vprintf :: "SPI \<Rightarrow> bytes \<Rightarrow> pf_arg list \<Rightarrow> (SPI \<times> i32) res" where
  "vprintf spi fmt va =
     bindE (vs_text fmt va) (\<lambda>text. bindE (out_chars spi (text @ [0])) (\<lambda>spi. Inr (spi, word_of_nat (length text))))"

definition printf :: "SPI \<Rightarrow> bytes \<Rightarrow> pf_arg list \<Rightarrow> (SPI \<times> i32) res" where
  "printf spi fmt va = vprintf spi fmt va"

text \<open>To a function of the caller, as the list of the characters it is called with.\<close>

definition fctprintf :: "bytes \<Rightarrow> pf_arg list \<Rightarrow> (bytes \<times> i32) res" where
  "fctprintf fmt va = bindE (vs_text fmt va) (\<lambda>text. Inr (filter (\<lambda>c. c \<noteq> 0) (text @ [0]), word_of_nat (length text)))"

end
