(* ===== verification/Number_Text.thy ===== *)
theory Number_Text
  imports Conversions
begin

text \<open>
  The reference for both printers: the digits of a number as a list, the most significant one first,
  and their characters.  The writers of \<^verbatim>\<open>utilities.c\<close>, which collect the digits from the
  other end and reverse them, write this text.
\<close>

subsection \<open>Digits\<close>

fun digits_of :: "nat \<Rightarrow> nat \<Rightarrow> nat list" where
  "digits_of b n = (if b < 2 \<or> n < b then [n] else digits_of b (n div b) @ [n mod b])"

declare digits_of.simps [simp del]

definition number_text :: "bool \<Rightarrow> nat \<Rightarrow> nat \<Rightarrow> bytes" where
  "number_text upper b n = map (\<lambda>d. word_of_nat (if d < 10 then 48 + d else (if upper then 55 else 87) + d)) (digits_of b n)"

lemma digits_of_bound: "2 \<le> b \<Longrightarrow> \<forall>d\<in>set (digits_of b n). d < b"
proof (induction b n rule: digits_of.induct)
  case (1 b n)
  then show ?case by (subst digits_of.simps) auto
qed

lemma digits_of_length: "2 \<le> b \<Longrightarrow> n < b ^ k \<Longrightarrow> 0 < k \<Longrightarrow> length (digits_of b n) \<le> k"
proof (induction k arbitrary: n)
  case (Suc k)
  show ?case
  proof (cases "n < b")
    case True
    then show ?thesis by (subst digits_of.simps) simp
  next
    case False
    then have "n div b < b ^ k" using Suc.prems by (simp add: less_mult_imp_div_less mult.commute)
    moreover have "0 < k" using False Suc.prems(2) by (cases k) auto
    ultimately have "length (digits_of b (n div b)) \<le> k" using Suc by blast
    then show ?thesis using False by (subst digits_of.simps) simp
  qed
qed simp

lemma digits_of_hd:
  assumes "2 \<le> b" and "0 < n"
  shows "digits_of b n \<noteq> [] \<and> hd (digits_of b n) \<noteq> 0"
  using assms(2)
proof (induction n rule: less_induct)
  case (less n)
  show ?case
  proof (cases "n < b")
    case True
    then show ?thesis using less.prems by (subst (1 2) digits_of.simps) simp
  next
    case False
    then have "n div b < n" "0 < n div b" using assms(1) less.prems by (simp_all add: div_greater_zero_iff)
    with less.IH [of "n div b"] False assms(1) show ?thesis by (subst (1 2) digits_of.simps) simp
  qed
qed

lemma number_text_length: "2 \<le> b \<Longrightarrow> n < b ^ k \<Longrightarrow> 0 < k \<Longrightarrow> length (number_text upper b n) \<le> k"
  by (simp add: number_text_def digits_of_length)

subsection \<open>The writers write the digits\<close>

lemma digit_text: "d < 36 \<Longrightarrow> digit_char (int d) = word_of_nat (if d < 10 then 48 + d else 55 + d)"
  by (simp add: digit_char_def CHAR_0_def CHAR_A_def)

lemma accumulate_pos:
  assumes "digit_list b ds" and "ds \<noteq> []" and "hd ds \<noteq> 0" and "1 \<le> b"
  shows "0 < accumulate b 0 ds"
proof -
  from assms(2) obtain d es where ds: "ds = d # es" by (cases ds) auto
  with assms have "0 < d" by simp
  moreover have "d \<le> accumulate b d es" using assms(1,4) ds by (intro accumulate_mono) auto
  ultimately show ?thesis using ds by simp
qed

lemma digits_unique:
  assumes "2 \<le> b" and "digit_list (int b) ds" and "ds \<noteq> []" and "hd ds \<noteq> 0"
  shows "ds = map int (digits_of b (nat (accumulate (int b) 0 ds)))"
  using assms(2-4)
proof (induction ds rule: rev_induct)
  case (snoc d es)
  from snoc.prems have d: "0 \<le> d" "d < int b" "digit_list (int b) es" by simp_all
  show ?case
  proof (cases "es = []")
    case True
    then show ?thesis using d by (subst digits_of.simps) (simp add: nat_less_iff)
  next
    case False
    let ?a = "accumulate (int b) 0 es"
    have h: "hd es \<noteq> 0" using snoc.prems(3) False by simp
    have a: "0 < ?a" by (rule accumulate_pos [OF d(3) False h]) (use assms(1) in simp)
    define n where "n = nat (accumulate (int b) 0 (es @ [d]))"
    have n: "n = nat ?a * b + nat d" using a d(1) by (simp add: n_def nat_add_distrib nat_mult_distrib)
    have db: "nat d < b" using d by (simp add: nat_less_iff)
    have "n div b = nat ?a" "n mod b = nat d" using db by (simp_all add: n)
    moreover have "\<not> n < b" using a assms(1) by (simp add: n) (use a in \<open>simp add: not_less trans_le_add1 Suc_leI\<close>)
    ultimately have "digits_of b n = digits_of b (nat ?a) @ [nat d]" using assms(1) by (subst digits_of.simps) simp
    then show ?thesis using snoc.IH [OF d(3) False h] d(1) by (simp add: n_def del: accumulate_simps)
  qed
qed simp

lemma write_digits_text:
  assumes "2 \<le> b" and "b \<le> 36" and "0 < n" and "n < 2 ^ 64"
  shows "write_digits negative (int n) (int b) = Inr ((if negative then [MINUS] else []) @ number_text True b n @ [0])"
proof -
  obtain ds where ds: "write_digits negative (int n) (int b) = Inr ((if negative then [MINUS] else []) @ map digit_char ds @ [0])"
    "digit_list (int b) ds" "accumulate (int b) 0 ds = int n" "ds \<noteq> []" "hd ds \<noteq> 0"
    using write_digits_ok [of "int b" "int n" negative] assms by auto
  have "ds = map int (digits_of b n)" using digits_unique [OF assms(1) ds(2,4,5)] ds(3) by simp
  moreover have "digit_char (int d) = word_of_nat (if d < 10 then 48 + d else 55 + d)" if "d \<in> set (digits_of b n)" for d
    using digits_of_bound [OF assms(1), of n] that assms(2) by (intro digit_text) (meson order_less_le_trans)
  ultimately have "map digit_char ds = number_text True b n" by (simp add: number_text_def del: of_nat_add)
  with ds(1) show ?thesis by simp
qed

lemma decimal_case: "number_text True 10 n = number_text False 10 n"
  using digits_of_bound [of 10 n] by (auto simp: number_text_def)

lemma number_text_nonzero:
  assumes "2 \<le> b" and "b \<le> 36"
  shows "0 \<notin> set (number_text upper b n)"
proof -
  have "(word_of_nat c :: u8) \<noteq> 0" if "0 < c" "c < 256" for c
    using that by (simp add: word_unat_eq_iff unsigned_of_nat take_bit_nat_eq_self)
  then show ?thesis using digits_of_bound [OF assms(1), of n] assms(2) by (fastforce simp: number_text_def)
qed

lemma number_text_0: "2 \<le> b \<Longrightarrow> number_text upper b 0 = [48]"
  by (simp add: number_text_def digits_of.simps)

lemma u32_writer: "u32_to_cstring n 10 = Inr (number_text False 10 (unat n) @ [0])"
proof (cases "n = 0")
  case False
  have "uint n = int (unat n)" "unat n < 2 ^ 64" using unsigned_less [of n, where 'a = nat] by simp_all
  moreover have "0 < unat n" using False by (simp add: unat_gt_0)
  ultimately show ?thesis using False write_digits_text [of 10 "unat n" False]
    by (simp add: u32_to_cstring_def decimal_case)
qed (simp add: u32_to_cstring_def zero_string_def CHAR_0_def number_text_0)

lemma u64_hex_writer: "u64_to_cstring n 16 = Inr (number_text True 16 (unat n) @ [0])"
proof (cases "n = 0")
  case False
  have "uint n = int (unat n)" "unat n < 2 ^ 64" using unsigned_less [of n, where 'a = nat] by simp_all
  moreover have "0 < unat n" using False by (simp add: unat_gt_0)
  ultimately show ?thesis using False write_digits_text [of 16 "unat n" False] by (simp add: u64_to_cstring_def)
qed (simp add: u64_to_cstring_def zero_string_def CHAR_0_def number_text_0)

lemma i32_writer:
  assumes "sint n \<noteq> - (2 ^ 31)"
  shows "i32_to_cstring n 10 = Inr ((if sint n < 0 then [MINUS] else []) @ number_text False 10 (nat \<bar>sint n\<bar>) @ [0])"
proof (cases "n = 0")
  case False
  have r: "- (2 ^ 31) \<le> sint n" "sint n < 2 ^ 31" using sint_greater_eq [of n] sint_less [of n] by simp_all
  have n0: "sint n \<noteq> 0" using False by (simp only: signed_eq_0_iff not_False_eq_True)
  have "0 < nat \<bar>sint n\<bar>" "nat \<bar>sint n\<bar> < 2 ^ 64" using n0 r by auto
  from write_digits_text [of 10 _ "sint n < 0", OF _ _ this] False assms n0 show ?thesis
    by (auto simp: i32_to_cstring_def decimal_case)
qed (simp add: i32_to_cstring_def zero_string_def CHAR_0_def number_text_0)

end
