(* ===== verification/Uart_Facts.thy ===== *)
theory Uart_Facts
  imports Uart Number_Text
begin

text \<open>
  What the serial lines see of the bus: the transfers.  A transfer is the bytes of the words up
  to the first that ends it; its first byte is the header, which names the register.  The facts
  here give the transfers of each operation and the words it takes from the bus.
\<close>

fun transfers :: "bytes \<Rightarrow> (bool \<times> u32) list \<Rightarrow> bytes list" where
  "transfers acc [] = []"
| "transfers acc ((hold, w) # ws) =
     (if hold then transfers (acc @ word_bytes w) ws else (acc @ word_bytes w) # transfers [] ws)"

lemma transfers_held:
  "map fst ws = replicate n True @ [False] \<Longrightarrow>
   transfers acc (ws @ vs) = (acc @ concat (map (word_bytes \<circ> snd) ws)) # transfers [] vs"
proof (induction ws arbitrary: acc n)
  case (Cons a ws)
  then show ?case by (cases n; cases a; cases ws) auto
qed simp

lemma transfers_carries [simp]: "carries ws s \<Longrightarrow> transfers [] (ws @ vs) = s # transfers [] vs"
  using transfers_held [of ws "length ws - 1" "[]" vs] by (simp add: carries_def)

lemma carries_length: "carries ws s \<Longrightarrow> length ws = (length s + 2) div 3"
  by (simp add: carries_def)

text \<open>One word that carries a transfer of two bytes.\<close>

definition reg_word :: "u8 \<Rightarrow> u8 \<Rightarrow> u32" where
  "reg_word h d = or (or (push_bit 16 (ucast h)) (push_bit 8 (ucast d))) 0x10000000"

lemma word_bytes_reg_word [simp]: "word_bytes (reg_word h d) = [h, d]"
proof -
  have "unat (drop_bit 24 (reg_word h d)) = 16" by (simp add: byte_above reg_word_def)
  then show ?thesis
    by (simp add: word_bytes_def byte_at unsigned_or_eq u8_zeros push_bit_eq_mult [of 24 16] upt_rec reg_word_def)
qed

abbreviation level :: "u32 \<Rightarrow> nat" where "level w \<equiv> unat (ucast w :: u8)"

lemma uart_write_ok [simp]:
  "sp_rx spi = x # xs \<Longrightarrow> uart_write_register spi ch reg d
     = Inr (spi\<lparr>sp_tx := sp_tx spi @ [(False, reg_word (uart_header ch reg) d)], sp_rx := xs\<rparr>)"
  by (simp add: uart_write_register_def spi_send_recv_def spi_exchange_def reg_word_def numeral_2_eq_2 push_bit_eq_mult [of 24 16])

lemma uart_read_ok [simp]:
  "sp_rx spi = x # xs \<Longrightarrow> uart_read_register spi ch reg
     = Inr (spi\<lparr>sp_tx := sp_tx spi @ [(False, reg_word (or (uart_header ch reg) UART_READ_ENABLE) 0)], sp_rx := xs\<rparr>, ucast x)"
  by (simp add: uart_read_register_def spi_send_recv_def spi_exchange_def reg_word_def numeral_2_eq_2 push_bit_eq_mult [of 24 16]
      spi_unpack.simps low_byte)


subsection \<open>Initialisation\<close>

lemma transfers_registers [simp]:
  "transfers [] (map (\<lambda>(h, d). (False, reg_word h d)) rs @ vs) = map (\<lambda>(h, d). [h, d]) rs @ transfers [] vs"
  by (induction rs) auto

text \<open>
  The registers that are written, with the two divisors of the baud rate.  The channel is in
  bits 1 and 2 of the header, the register above it.
\<close>

definition uart_setup :: "(u8 \<times> u8) list" where
  "uart_setup = [(0x70, 0x08),
     (0x18, 0x80), (0x08, 0), (0x00, 8), (0x18, 0x03), (0x10, 0x07),
     (0x1A, 0x80), (0x0A, 1), (0x02, 0x80), (0x1A, 0x07), (0x12, 0x07)]"

lemmas uart_registers = UART_RHR_def UART_THR_def UART_FCR_def UART_LCR_def UART_TXLVL_def UART_RXLVL_def
  UART_IOControl_def UART_DLL_def UART_DLH_def UART_CHANNEL_SHIFT_def UART_ADDR_SHIFT_def UART_READ_ENABLE_def
  UART_FCR_TX_FIFO_RESET_def UART_FCR_RX_FIFO_RESET_def UART_FCR_FIFO_EN_def UART_LCR_DIV_LATCH_EN_def
  UART_LCR_1_STOP_BITS_def UART_LCR_2_STOP_BITS_def UART_IOControl_RESET_def

lemma list_of_length_Suc: "Suc n \<le> length xs \<Longrightarrow> \<exists>y ys. xs = y # ys \<and> n \<le> length ys"
  by (cases xs) auto

definition write_all :: "SPI \<Rightarrow> (u8 \<times> u8) list \<Rightarrow> SPI" where
  "write_all spi rs = spi\<lparr>sp_tx := sp_tx spi @ map (\<lambda>(h, d). (False, reg_word h d)) rs, sp_rx := drop (length rs) (sp_rx spi)\<rparr>"

lemma uart_write_all:
  "length rs < length (sp_rx spi) \<Longrightarrow> uart_write_register (write_all spi rs) ch reg d
     = Inr (write_all spi (rs @ [(uart_header ch reg, d)]))"
  by (subst uart_write_ok [of _ "sp_rx spi ! length rs" "drop (Suc (length rs)) (sp_rx spi)"])
    (simp_all add: write_all_def Cons_nth_drop_Suc)

lemma uart_init_channel_ok:
  assumes "length rs + 5 \<le> length (sp_rx spi)" and "baud * 16 \<noteq> 0"
    and "dv = (ucast (14745600 div (baud * 16)) :: u32)"
  shows "uart_init_channel (write_all spi rs) ch baud stop = Inr (write_all spi (rs @
    [(uart_header ch UART_LCR, 0x80), (uart_header ch UART_DLH, ucast (drop_bit 8 (and dv 0xFF00))),
     (uart_header ch UART_DLL, ucast (and dv 0xFF)), (uart_header ch UART_LCR, ucast (or stop 0x3)),
     (uart_header ch UART_FCR, 7)]))"
  using assms by (simp add: uart_init_channel_def uart_write_all UART_LCR_DIV_LATCH_EN_def UART_FCR_TX_FIFO_RESET_def
      UART_FCR_RX_FIFO_RESET_def UART_FCR_FIFO_EN_def Let_def)

lemma init_uart_ok:
  assumes "11 \<le> length (sp_rx spi)"
  shows "init_uart spi = Inr (write_all spi uart_setup)"
proof -
  have "spi = write_all spi []" by (simp add: write_all_def)
  moreover have "sp_rx spi \<noteq> []" using assms by auto
  ultimately have "uart_write_register spi 0 UART_IOControl UART_IOControl_RESET = Inr (write_all spi [(0x70, 8)])"
    using uart_write_all [of "[]" spi 0 UART_IOControl UART_IOControl_RESET] assms
    by (simp add: uart_header_def UART_CHANNEL_SHIFT_def UART_ADDR_SHIFT_def UART_IOControl_def UART_IOControl_RESET_def)
  then show ?thesis using assms unfolding init_uart_def
    by (simp add: uart_init_channel_ok uart_setup_def uart_header_def uart_registers)
qed

subsection \<open>Waiting, reading and writing a character\<close>

text \<open>A status read, and the words it takes: \<open>zs\<close> say that there is nothing yet, \<open>l\<close> that there is.\<close>

abbreviation status_read :: "usize \<Rightarrow> u8 \<Rightarrow> bytes" where
  "status_read ch reg \<equiv> [or (uart_header ch reg) UART_READ_ENABLE, 0]"

definition read_word :: "usize \<Rightarrow> u8 \<Rightarrow> bool \<times> u32" where
  "read_word ch reg = (False, reg_word (or (uart_header ch reg) UART_READ_ENABLE) 0)"

lemma transfers_read_word [simp]: "transfers [] (read_word ch reg # ws) = status_read ch reg # transfers [] ws"
  by (simp add: read_word_def)

lemma transfers_read_words [simp]:
  "transfers [] (replicate n (read_word ch reg) @ ws) = replicate n (status_read ch reg) @ transfers [] ws"
  by (induction n) simp_all

lemma uart_wait_ok:
  assumes "sp_rx spi = zs @ l # xs" and "\<forall>z\<in>set zs. level z = 0" and "level l \<noteq> 0" and "length zs < fuel"
  shows "uart_wait_level fuel spi ch reg
    = Inr (spi\<lparr>sp_tx := sp_tx spi @ replicate (length zs) (read_word ch reg) @ [read_word ch reg], sp_rx := xs\<rparr>)"
  using assms
proof (induction zs arbitrary: spi fuel)
  case Nil
  then show ?case by (cases fuel) (auto simp: read_word_def unsigned_eq_0_iff)
next
  case (Cons z zs)
  then obtain f where "fuel = Suc f" by (cases fuel) auto
  with Cons show ?case by (simp add: read_word_def unsigned_eq_0_iff)
qed

lemma uart_getc_ok:
  assumes "sp_rx spi = zs @ l # x # xs" and "\<forall>z\<in>set zs. level z = 0" and "level l \<noteq> 0"
  shows "\<exists>ws. uart_getc spi ch = Inr (spi\<lparr>sp_tx := sp_tx spi @ ws, sp_rx := xs\<rparr>, ucast x)
    \<and> transfers [] ws = replicate (Suc (length zs)) (status_read ch UART_RXLVL) @ [status_read ch UART_RHR]"
  using uart_wait_ok [OF assms(1-3), of "length (sp_rx spi) + 1" ch UART_RXLVL] assms(1)
  by (intro exI [of _ "replicate (length zs) (read_word ch UART_RXLVL) @ [read_word ch UART_RXLVL, read_word ch UART_RHR]"])
    (simp add: uart_getc_def replicate_append_same [symmetric] del: replicate_append_same, simp add: read_word_def)

lemma uart_putc_ok:
  assumes "sp_rx spi = zs @ l # x # xs" and "\<forall>z\<in>set zs. level z = 0" and "level l \<noteq> 0"
  shows "\<exists>ws. uart_putc spi ch c = Inr (spi\<lparr>sp_tx := sp_tx spi @ ws, sp_rx := xs\<rparr>)
    \<and> (\<forall>vs. transfers [] (ws @ vs) = replicate (Suc (length zs)) (status_read ch UART_TXLVL)
         @ [uart_header ch UART_THR, c] # transfers [] vs)"
  using uart_wait_ok [OF assms(1-3), of "length (sp_rx spi) + 1" ch UART_TXLVL] assms(1)
  by (intro exI [of _ "replicate (length zs) (read_word ch UART_TXLVL)
      @ [read_word ch UART_TXLVL, (False, reg_word (uart_header ch UART_THR) c)]"])
    (simp add: uart_putc_def replicate_append_same [symmetric] del: replicate_append_same)


subsection \<open>Strings\<close>

text \<open>
  A round of \<^verbatim>\<open>uart_puts\<close> reads how much room the line has and sends a chunk of the buffer behind
  the header.  It is given by the word the room was read from, the words that came back while
  the chunk was sent, and the chunk.
\<close>

type_synonym puts_round = "u32 \<times> u32 list \<times> bytes"

fun round_words :: "puts_round \<Rightarrow> u32 list" where "round_words (l, fs, c) = l # fs"
fun round_chunk :: "puts_round \<Rightarrow> bytes" where "round_chunk (l, fs, c) = c"

fun round_transfers :: "usize \<Rightarrow> puts_round \<Rightarrow> bytes list" where
  "round_transfers ch (l, fs, c) = [status_read ch UART_TXLVL, uart_header ch UART_THR # c]"

text \<open>With its header, the chunk is no longer than the room.\<close>

fun round_fits :: "puts_round \<Rightarrow> bool" where
  "round_fits (l, fs, c) \<longleftrightarrow> length c < min UART_MAX (level l) \<and> length fs = (length c + 3) div 3"

lemma uart_puts_copy:
  "n = min (tlen - length temp) (length buffer) \<Longrightarrow>
   uart_puts_loop (fuel + n) spi ch tlen temp buffer
     = uart_puts_loop fuel spi ch tlen (temp @ take n buffer) (drop n buffer)"
proof (induction n arbitrary: temp buffer)
  case (Suc n)
  then obtain c cs where b: "buffer = c # cs" by (cases buffer) auto
  from Suc.prems b have "length temp < tlen" "n = min (tlen - length (temp @ [c])) (length cs)" by auto
  with Suc.IH [of "temp @ [c]" cs] b show ?case by simp
qed simp

text \<open>One round, from the point where the room is read, and the whole loop from there.\<close>

abbreviation puts_from :: "nat \<Rightarrow> SPI \<Rightarrow> usize \<Rightarrow> bytes \<Rightarrow> SPI res" where
  "puts_from fuel spi ch buffer \<equiv>
     bindE (uart_room spi ch) (\<lambda>(spi, tlen). uart_puts_loop fuel spi ch tlen [uart_header ch UART_THR] buffer)"

lemma uart_puts_round:
  assumes rx: "sp_rx spi = l # rx" and l: "2 \<le> level l" and n: "n = min (min UART_MAX (level l) - 1) (length buffer)"
    and enough: "(n + 3) div 3 \<le> length rx"
  shows "\<exists>vs. carries vs (uart_header ch UART_THR # take n buffer) \<and> length vs = (n + 3) div 3
    \<and> round_fits (l, take (length vs) rx, take n buffer)
    \<and> (\<forall>f. puts_from (Suc f + n) spi ch buffer =
         (let spi' = spi\<lparr>sp_tx := sp_tx spi @ read_word ch UART_TXLVL # vs, sp_rx := drop (length vs) rx\<rparr>
          in if drop n buffer = [] then Inr spi' else puts_from f spi' ch (drop n buffer)))"
proof -
  let ?h = "uart_header ch UART_THR"
  let ?t = "min UART_MAX (level l)" and ?spi = "spi\<lparr>sp_tx := sp_tx spi @ [read_word ch UART_TXLVL], sp_rx := rx\<rparr>"
  let ?s = "?h # take n buffer"
  have t: "2 \<le> ?t" using l by (simp add: UART_MAX_def)
  have room: "uart_room spi ch = Inr (?spi, ?t)" using rx by (auto simp: uart_room_def read_word_def)
  have ls: "length ?s = n + 1" using n by simp
  have "(length ?s + 2) div 3 \<le> length (sp_rx ?spi)" using enough ls by simp
  then obtain vs where vs: "spi_send_recv ?spi ?s 0
      = Inr (?spi\<lparr>sp_tx := sp_tx ?spi @ vs, sp_rx := drop (length vs) (sp_rx ?spi)\<rparr>, [])" "carries vs ?s"
    using spi_send_ok [of ?s ?spi] by auto
  have lv: "length vs = (n + 3) div 3" using carries_length [OF vs(2), unfolded ls] by simp
  have stop: "\<not> (length ?s < ?t \<and> drop n buffer \<noteq> [])" unfolding ls using n by auto
  have "uart_puts_loop (Suc f + n) ?spi ch ?t [?h] buffer = uart_puts_loop (Suc f) ?spi ch ?t ?s (drop n buffer)" for f
    by (subst uart_puts_copy) (use n in simp_all)
  moreover have "uart_puts_loop (Suc f) ?spi ch ?t ?s (drop n buffer) =
      (let spi' = spi\<lparr>sp_tx := sp_tx spi @ read_word ch UART_TXLVL # vs, sp_rx := drop (length vs) rx\<rparr>
       in if drop n buffer = [] then Inr spi' else puts_from f spi' ch (drop n buffer))" for f
    by (simp only: uart_puts_loop.simps if_not_P [OF stop] vs(1)) simp
  moreover have "round_fits (l, take (length vs) rx, take n buffer)" using n t enough lv by (auto simp: min_def)
  ultimately show ?thesis using vs(2) lv room by (intro exI [of _ vs]) simp
qed

lemma uart_puts_rounds:
  assumes "2 * max 1 (length buffer) \<le> length (sp_rx spi)" and "\<forall>w\<in>set (sp_rx spi). 2 \<le> level w"
    and "length buffer + length (sp_rx spi) \<le> fuel"
  shows "\<exists>ps ws xs. puts_from fuel spi ch buffer = Inr (spi\<lparr>sp_tx := sp_tx spi @ ws, sp_rx := xs\<rparr>)
    \<and> sp_rx spi = concat (map round_words ps) @ xs \<and> length (concat (map round_words ps)) \<le> 2 * max 1 (length buffer)
    \<and> (\<forall>vs. transfers [] (ws @ vs) = concat (map (round_transfers ch) ps) @ transfers [] vs)
    \<and> concat (map round_chunk ps) = buffer \<and> (\<forall>p\<in>set ps. round_fits p)"
  using assms
proof (induction buffer arbitrary: spi fuel rule: length_induct)
  case (1 buffer)
  from 1(2) obtain l rx where rx: "sp_rx spi = l # rx" by (cases "sp_rx spi") auto
  have l: "2 \<le> level l" using 1(3) rx by simp
  define n where "n = min (min UART_MAX (level l) - 1) (length buffer)"
  have n: "n \<le> length buffer" "buffer \<noteq> [] \<Longrightarrow> 1 \<le> n" using l by (auto simp: n_def UART_MAX_def Suc_le_eq)
  have k: "(n + 3) div 3 \<le> max 1 n" by (cases "n = 0") auto
  have enough: "(n + 3) div 3 \<le> length rx" using 1(2) rx n(1) k by auto
  obtain vs where vs: "carries vs (uart_header ch UART_THR # take n buffer)" "length vs = (n + 3) div 3"
      "round_fits (l, take (length vs) rx, take n buffer)"
      "\<forall>f. puts_from (Suc f + n) spi ch buffer =
         (let spi' = spi\<lparr>sp_tx := sp_tx spi @ read_word ch UART_TXLVL # vs, sp_rx := drop (length vs) rx\<rparr>
          in if drop n buffer = [] then Inr spi' else puts_from f spi' ch (drop n buffer))"
    using uart_puts_round [OF rx l n_def enough] by metis
  let ?p = "(l, take (length vs) rx, take n buffer)"
  let ?spi' = "spi\<lparr>sp_tx := sp_tx spi @ read_word ch UART_TXLVL # vs, sp_rx := drop (length vs) rx\<rparr>"
  obtain f where f: "fuel = Suc f + n" using 1(4) n(1) rx by (intro that [of "fuel - n - 1"]) simp
  show ?case
  proof (cases "drop n buffer = []")
    case True
    have "1 + length vs \<le> 2 * max 1 (length buffer)" using vs(2) k n(1) by (auto simp: max_def split: if_splits)
    with True rx vs enough show ?thesis unfolding f
      by (intro exI [of _ "[?p]"] exI [of _ "read_word ch UART_TXLVL # vs"] exI [of _ "drop (length vs) rx"])
        (simp del: round_fits.simps add: Let_def)
  next
    case False
    then have ne: "buffer \<noteq> []" by auto
    with n(2) have rest: "length (drop n buffer) < length buffer" "1 \<le> n" by (cases buffer, simp_all)
    have cost: "2 * length (drop n buffer) + length vs + 1 \<le> 2 * length buffer" using vs(2) k rest n(1) by (simp add: max_def)
    have "2 * max 1 (length (drop n buffer)) \<le> length (sp_rx ?spi')" using cost 1(2) rx False by (auto simp: max_def)
    moreover have "\<forall>w\<in>set (sp_rx ?spi'). 2 \<le> level w" using 1(3) rx by (auto dest: in_set_dropD)
    moreover have "length (drop n buffer) + length (sp_rx ?spi') \<le> f" using f 1(4) rx rest n(1) by simp
    ultimately obtain ps ws xs where IH:
      "puts_from f ?spi' ch (drop n buffer) = Inr (?spi'\<lparr>sp_tx := sp_tx ?spi' @ ws, sp_rx := xs\<rparr>)"
      "sp_rx ?spi' = concat (map round_words ps) @ xs"
      "length (concat (map round_words ps)) \<le> 2 * max 1 (length (drop n buffer))"
      "\<forall>vs. transfers [] (ws @ vs) = concat (map (round_transfers ch) ps) @ transfers [] vs"
      "concat (map round_chunk ps) = drop n buffer" "\<forall>p\<in>set ps. round_fits p"
      using 1(1) rest(1) by meson
    have "puts_from fuel spi ch buffer
        = Inr (spi\<lparr>sp_tx := sp_tx spi @ (read_word ch UART_TXLVL # vs @ ws), sp_rx := xs\<rparr>)"
      using IH(1) False vs(4) unfolding f by (simp add: Let_def)
    moreover have "sp_rx spi = concat (map round_words (?p # ps)) @ xs"
      using rx IH(2) append_take_drop_id [of "length vs" rx] by simp
    moreover have "length (concat (map round_words (?p # ps))) \<le> 2 * max 1 (length buffer)"
      using cost IH(3) False by (auto simp: max_def min_def split: if_splits)
    moreover have "concat (map round_chunk (?p # ps)) = buffer" using IH(5) by simp
    moreover have "\<forall>us. transfers [] ((read_word ch UART_TXLVL # vs @ ws) @ us)
        = concat (map (round_transfers ch) (?p # ps)) @ transfers [] us"
      using IH(4) vs(1) by simp
    moreover have "\<forall>p\<in>set (?p # ps). round_fits p" using IH(6) vs(3) by simp
    ultimately show ?thesis by blast
  qed
qed

lemma uart_puts_ok:
  assumes "2 * max 1 (length buffer) \<le> length (sp_rx spi)" and "\<forall>w\<in>set (sp_rx spi). 2 \<le> level w"
  shows "\<exists>ps ws xs. uart_puts spi ch buffer = Inr (spi\<lparr>sp_tx := sp_tx spi @ ws, sp_rx := xs\<rparr>)
    \<and> sp_rx spi = concat (map round_words ps) @ xs \<and> length (concat (map round_words ps)) \<le> 2 * max 1 (length buffer)
    \<and> (\<forall>vs. transfers [] (ws @ vs) = concat (map (round_transfers ch) ps) @ transfers [] vs)
    \<and> concat (map round_chunk ps) = buffer \<and> (\<forall>p\<in>set ps. round_fits p)"
proof -
  obtain l rx where rx: "sp_rx spi = l # rx" using assms(1) by (cases "sp_rx spi") auto
  have fuel: "length buffer + length (sp_rx spi) \<le> length buffer + length rx + 1" using rx by simp
  have "uart_puts spi ch buffer = puts_from (length buffer + length rx + 1) spi ch buffer"
    using rx by (simp add: uart_puts_def uart_room_def del: uart_puts_loop.simps)
  with uart_puts_rounds [OF assms fuel, of ch] show ?thesis by simp
qed

subsection \<open>What a line transmits\<close>

text \<open>The bytes written to the transmit register of a channel, in order.\<close>

definition sent :: "usize \<Rightarrow> bytes list \<Rightarrow> bytes" where
  "sent ch ts = concat (map tl (filter (\<lambda>t. hd t = uart_header ch UART_THR) ts))"

lemma sent_simps [simp]:
  "sent ch [] = []"
  "sent ch (ts @ us) = sent ch ts @ sent ch us"
  "sent ch ((uart_header ch UART_THR # c) # ts) = c @ sent ch ts"
  by (simp_all add: sent_def)

lemma sent_status_read [simp]:
  assumes "ch < 2"
  shows "sent ch (status_read ch UART_TXLVL # ts) = sent ch ts"
proof -
  have "ch = 0 \<or> ch = 1"
    using assms unfolding word_less_nat_alt word_unat_eq_iff by auto
  then show ?thesis by (auto simp: sent_def uart_header_def uart_registers)
qed

lemma sent_rounds: "ch < 2 \<Longrightarrow> sent ch (concat (map (round_transfers ch) ps)) = concat (map round_chunk ps)"
proof (induction ps)
  case (Cons p ps)
  then show ?case by (cases p) simp
qed simp

text \<open>One call of a format: it transmits its bytes, if the line always has room for some.\<close>

fun op_bytes :: "uart_op \<Rightarrow> bytes" where
  "op_bytes (Puts s) = s"
| "op_bytes (Putc c) = [c]"

definition op_cost :: "uart_op \<Rightarrow> nat" where
  "op_cost x = 2 * max 1 (length (op_bytes x))"

definition run_op :: "SPI \<Rightarrow> usize \<Rightarrow> uart_op \<Rightarrow> SPI res" where
  "run_op spi ch x = (case x of Puts s \<Rightarrow> uart_puts spi ch s | Putc c \<Rightarrow> uart_putc spi ch c)"

lemma run_ops_Cons: "run_ops spi ch (x # xs) = bindE (run_op spi ch x) (\<lambda>spi. run_ops spi ch xs)"
  by (cases x) (simp_all add: run_op_def)

lemma run_op_ok:
  assumes "op_cost x \<le> length (sp_rx spi)" and "\<forall>w\<in>set (sp_rx spi). 2 \<le> level w" and "ch < 2"
  shows "\<exists>ws n. run_op spi ch x = Inr (spi\<lparr>sp_tx := sp_tx spi @ ws, sp_rx := drop n (sp_rx spi)\<rparr>)
    \<and> n \<le> op_cost x \<and> (\<exists>ts. \<forall>vs. transfers [] (ws @ vs) = ts @ transfers [] vs \<and> sent ch ts = op_bytes x)"
proof (cases x)
  case (Puts s)
  with assms obtain ps ws xs where p: "uart_puts spi ch s = Inr (spi\<lparr>sp_tx := sp_tx spi @ ws, sp_rx := xs\<rparr>)"
    "sp_rx spi = concat (map round_words ps) @ xs" "length (concat (map round_words ps)) \<le> op_cost x"
    "\<forall>vs. transfers [] (ws @ vs) = concat (map (round_transfers ch) ps) @ transfers [] vs"
    "concat (map round_chunk ps) = s"
    using uart_puts_ok [of s spi ch] by (auto simp: op_cost_def)
  then have "xs = drop (length (concat (map round_words ps))) (sp_rx spi)" by simp
  with p Puts sent_rounds [OF assms(3), of ps] show ?thesis unfolding run_op_def by (metis op_bytes.simps(1) uart_op.simps(5))
next
  case (Putc c)
  with assms(1) obtain l w xs where rx: "sp_rx spi = l # w # xs"
    by (cases "sp_rx spi"; cases "tl (sp_rx spi)") (auto simp: op_cost_def)
  with assms(2) have "level l \<noteq> 0" by auto
  with uart_putc_ok [of spi "[]" l w xs ch c] rx obtain ws where
    "uart_putc spi ch c = Inr (spi\<lparr>sp_tx := sp_tx spi @ ws, sp_rx := xs\<rparr>)"
    "\<forall>vs. transfers [] (ws @ vs) = status_read ch UART_TXLVL # [uart_header ch UART_THR, c] # transfers [] vs" by auto
  with rx Putc assms(3) show ?thesis
    by (intro exI [of _ ws] exI [of _ 2] conjI exI [of _ "[status_read ch UART_TXLVL, [uart_header ch UART_THR, c]]"])
      (simp_all add: run_op_def op_cost_def)
qed

lemma run_ops_ok:
  assumes "sum_list (map op_cost xs) \<le> length (sp_rx spi)" and "\<forall>w\<in>set (sp_rx spi). 2 \<le> level w" and "ch < 2"
  shows "\<exists>ws n. run_ops spi ch xs = Inr (spi\<lparr>sp_tx := sp_tx spi @ ws, sp_rx := drop n (sp_rx spi)\<rparr>)
    \<and> sent ch (transfers [] ws) = concat (map op_bytes xs)"
  using assms
proof (induction xs arbitrary: spi)
  case Nil
  then show ?case by (intro exI [of _ "[]"] exI [of _ 0]) simp
next
  case (Cons x xs)
  then obtain ws n ts where x: "run_op spi ch x = Inr (spi\<lparr>sp_tx := sp_tx spi @ ws, sp_rx := drop n (sp_rx spi)\<rparr>)"
    "n \<le> op_cost x" "\<forall>vs. transfers [] (ws @ vs) = ts @ transfers [] vs" "sent ch ts = op_bytes x"
    using run_op_ok [of x spi ch] by auto
  let ?spi = "spi\<lparr>sp_tx := sp_tx spi @ ws, sp_rx := drop n (sp_rx spi)\<rparr>"
  have "sum_list (map op_cost xs) \<le> length (sp_rx ?spi)" using Cons.prems(1) x(2) by simp
  moreover have "\<forall>w\<in>set (sp_rx ?spi). 2 \<le> level w" using Cons.prems(2) by (auto dest: in_set_dropD)
  ultimately obtain vs m where "run_ops ?spi ch xs = Inr (?spi\<lparr>sp_tx := sp_tx ?spi @ vs, sp_rx := drop m (sp_rx ?spi)\<rparr>)"
    "sent ch (transfers [] vs) = concat (map op_bytes xs)"
    using Cons.IH [of ?spi] Cons.prems(3) by blast
  with x show ?case
    by (intro exI [of _ "ws @ vs"] exI [of _ "m + n"]) (simp add: run_ops_Cons)
qed


subsection \<open>Formats\<close>

text \<open>A format is a sequence of pieces: plain text, or a directive with its argument.\<close>

datatype piece = Text bytes | Str bytes | Chr i32 | Dec i32 | Ptr u64 | Uns u32 | Percent

fun piece_format :: "piece \<Rightarrow> bytes" where
  "piece_format (Text s) = s"
| "piece_format (Str s) = [PERCENT, 115]"
| "piece_format (Chr n) = [PERCENT, 99]"
| "piece_format (Dec n) = [PERCENT, 100]"
| "piece_format (Ptr n) = [PERCENT, 112]"
| "piece_format (Uns n) = [PERCENT, 117]"
| "piece_format Percent = [PERCENT, PERCENT]"

fun piece_args :: "piece \<Rightarrow> va_arg list" where
  "piece_args (Text s) = []"
| "piece_args (Str s) = [Va_string s]"
| "piece_args (Chr n) = [Va_int n]"
| "piece_args (Dec n) = [Va_int n]"
| "piece_args (Ptr n) = [Va_pointer n]"
| "piece_args (Uns n) = [Va_unsigned n]"
| "piece_args Percent = []"

text \<open>The smallest signed number cannot be written.\<close>

fun piece_ok :: "piece \<Rightarrow> bool" where
  "piece_ok (Text s) \<longleftrightarrow> PERCENT \<notin> set s"
| "piece_ok (Str s) \<longleftrightarrow> 0 \<notin> set s"
| "piece_ok (Dec n) \<longleftrightarrow> sint n \<noteq> - (2 ^ 31)"
| "piece_ok _ \<longleftrightarrow> True"

text \<open>What a piece prints.\<close>

fun piece_text :: "piece \<Rightarrow> bytes" where
  "piece_text (Text s) = s"
| "piece_text (Str s) = s"
| "piece_text (Chr n) = [ucast n]"
| "piece_text (Dec n) = (if sint n < 0 then [MINUS] else []) @ number_text False 10 (nat \<bar>sint n\<bar>)"
| "piece_text (Ptr n) = number_text True 16 (unat n)"
| "piece_text (Uns n) = number_text False 10 (unat n)"
| "piece_text Percent = [PERCENT]"

lemma until_null [simp]: "0 \<notin> set s \<Longrightarrow> until_null (s @ [0]) = s" "0 \<notin> set s \<Longrightarrow> until_null s = s"
  by (auto simp: until_null_def takeWhile_append takeWhile_eq_all_conv)

lemma format_ops_plain:
  "c \<noteq> PERCENT \<Longrightarrow> format_ops (c # fmt) args = bindE (format_ops fmt args) (\<lambda>more. Inr (Putc c # more))"
  by (cases fmt) auto

lemma format_ops_text:
  "PERCENT \<notin> set s \<Longrightarrow> format_ops (s @ fmt) args = bindE (format_ops fmt args) (\<lambda>more. Inr (map Putc s @ more))"
  by (cases "format_ops fmt args"; induction s) (auto simp: format_ops_plain)

text \<open>The calls that a piece makes.\<close>

fun piece_ops :: "piece \<Rightarrow> uart_op list" where
  "piece_ops (Text s) = map Putc s"
| "piece_ops (Chr n) = [Putc (ucast n)]"
| "piece_ops Percent = [Putc PERCENT]"
| "piece_ops p = [Puts (piece_text p)]"

lemma format_ops_piece:
  assumes "piece_ok p"
  shows "format_ops (piece_format p @ fmt) (piece_args p @ args) = bindE (format_ops fmt args) (\<lambda>more. Inr (piece_ops p @ more))"
proof -
  have nz: "0 \<notin> set (number_text u b n)" if "b = 10 \<or> b = 16" for u b n using that number_text_nonzero by auto
  have minus: "until_null (MINUS # s) = MINUS # until_null s" for s by (simp add: until_null_def MINUS_def)
  show ?thesis
    using assms
    by (cases p) (simp_all add: format_ops_text format_arg_def PERCENT_def i32_writer u32_writer u64_hex_writer nz minus)
qed

lemma piece_ops_text: "concat (map op_bytes (piece_ops p)) = piece_text p \<and> sum_list (map op_cost (piece_ops p)) \<le> 2 * (length (piece_text p) + 1)"
proof -
  have "sum_list (map (op_cost \<circ> Putc) s) = 2 * length s" for s by (induction s) (simp_all add: op_cost_def)
  then show ?thesis by (cases p) (auto simp: comp_def op_cost_def)
qed

lemma format_ops_ok:
  assumes "\<forall>p\<in>set ps. piece_ok p"
  shows "format_ops (concat (map piece_format ps)) (concat (map piece_args ps)) = Inr (concat (map piece_ops ps))"
  using assms by (induction ps) (simp_all add: format_ops_piece)

lemma pieces_ops_text:
  "concat (map op_bytes (concat (map piece_ops ps))) = concat (map piece_text ps)
   \<and> sum_list (map op_cost (concat (map piece_ops ps))) \<le> 2 * (length (concat (map piece_text ps)) + length ps)"
proof (induction ps)
  case (Cons p ps)
  then show ?case using piece_ops_text [of p] by simp
qed simp

lemma uart_printf_ok:
  assumes "\<forall>p\<in>set ps. piece_ok p" and "ch < 2" and "out = concat (map piece_text ps)"
    and "2 * (length out + length ps) \<le> length (sp_rx spi)" and "\<forall>w\<in>set (sp_rx spi). 2 \<le> level w"
  shows "\<exists>ws n. uart_printf spi ch (concat (map piece_format ps)) (concat (map piece_args ps))
      = Inr (spi\<lparr>sp_tx := sp_tx spi @ ws, sp_rx := drop n (sp_rx spi)\<rparr>)
    \<and> sent ch (transfers [] ws) = out"
  using run_ops_ok [of "concat (map piece_ops ps)" spi ch] pieces_ops_text [of ps] assms
  by (simp add: uart_printf_def format_ops_ok)

end
