(* ===== verification/Printf_Facts.thy ===== *)
theory Printf_Facts
  imports Printf Uart_Facts
begin

text \<open>
  What the directives of \<^verbatim>\<open>printf.c\<close> put out.  The reference is a function: the digits of a number,
  padded to the width of the directive.  Formats are sequences of pieces, as for the console.
\<close>

lemma pad_replicate [simp]: "pad c len width = replicate (width - len) c"
proof (induction c len width rule: pad.induct)
  case (1 c len width)
  then show ?case by (subst pad.simps) (auto simp: Suc_diff_Suc simp flip: replicate_Suc)
qed

subsection \<open>Digits\<close>

lemma ntoa_digit_text:
  assumes "d < 36"
  shows "ntoa_digit flags (word_of_nat d)
    = word_of_nat (if d < 10 then 48 + d else (if has flags FLAGS_UPPERCASE then 55 else 87) + d)"
proof -
  have "(word_of_nat d :: u8) < 10 \<longleftrightarrow> d < 10"
    using assms by (simp add: word_less_nat_alt unsigned_of_nat take_bit_nat_eq_self)
  then show ?thesis by (simp add: ntoa_digit_def)
qed

lemma ntoa_loop_ok:
  assumes "2 \<le> unat base" and "unat base \<le> 36" and "unat v < unat base ^ room" and "0 < room"
  shows "ntoa_loop room v base flags buf
    = buf @ rev (number_text (has flags FLAGS_UPPERCASE) (unat base) (unat v))"
  using assms(3,4)
proof (induction room arbitrary: v buf)
  case (Suc room)
  let ?b = "unat base" and ?n = "unat v"
  let ?t = "\<lambda>d. word_of_nat (if d < 10 then 48 + d else (if has flags FLAGS_UPPERCASE then 55 else 87) + d) :: u8"
  have "(ucast (v mod base) :: u8) = word_of_nat (?n mod ?b)"
    by (simp add: unat_mod [symmetric])
  moreover have "?n mod ?b < 36" using assms(1,2) by (meson less_le_trans mod_less_divisor less_2_cases_iff not_le zero_less_iff_neq_zero)
  ultimately have digit: "ntoa_digit flags (ucast (v mod base)) = ?t (?n mod ?b)"
    using ntoa_digit_text [of "?n mod ?b" flags] by simp
  have zero: "v div base = 0 \<longleftrightarrow> ?n < ?b" using assms(1)
    by (metis div_less div_eq_0_iff unat_div unat_eq_zero not_numeral_le_zero)
  show ?case
  proof (cases "?n < ?b")
    case True
    then have "digits_of ?b ?n = [?n]" by (subst digits_of.simps) simp
    then show ?thesis using True zero digit by (simp add: number_text_def Let_def)
  next
    case False
    then have "digits_of ?b ?n = digits_of ?b (?n div ?b) @ [?n mod ?b]" using assms(1) by (subst digits_of.simps) simp
    then have snoc: "rev (number_text (has flags FLAGS_UPPERCASE) ?b ?n)
        = ?t (?n mod ?b) # rev (number_text (has flags FLAGS_UPPERCASE) ?b (unat (v div base)))"
      by (simp add: number_text_def unat_div)
    have "unat (v div base) < ?b ^ room" using Suc.prems False
      by (simp add: unat_div less_mult_imp_div_less mult.commute)
    moreover have "0 < room" using False Suc.prems(1) by (cases room) auto
    ultimately show ?thesis using Suc.IH [of "v div base"] False zero digit snoc by (simp add: Let_def)
  qed
qed simp

text \<open>A number of at most 32 characters with its sign, padded to a width.\<close>

definition padded :: "bool \<Rightarrow> bool \<Rightarrow> nat \<Rightarrow> bytes \<Rightarrow> bytes \<Rightarrow> bytes" where
  "padded left zero w sign body =
     (let n = w - length (sign @ body)
      in if left then sign @ body @ replicate n SPACE
         else if zero then sign @ replicate n 48 @ body
         else replicate n SPACE @ sign @ body)"

lemma ntoa_long_ok:
  assumes flags: "and flags (not FLAGS_HASH) = flags" "\<not> has flags FLAGS_HASH" "\<not> has flags (or FLAGS_PLUS FLAGS_SPACE)"
      "\<not> has flags FLAGS_PLUS" "\<not> has flags FLAGS_SPACE" "\<not> has flags FLAGS_PRECISION"
    and base: "2 \<le> unat base" "unat base \<le> 36" and room: "unat v < unat base ^ 31"
    and w: "unat width \<le> 32 \<or> \<not> has flags FLAGS_ZEROPAD \<or> has flags FLAGS_LEFT"
  shows "ntoa_long v negative base 0 width flags
    = padded (has flags FLAGS_LEFT) (has flags FLAGS_ZEROPAD) (unat width) (if negative then [MINUS] else [])
        (number_text (has flags FLAGS_UPPERCASE) (unat base) (unat v))"
proof -
  let ?t = "number_text (has flags FLAGS_UPPERCASE) (unat base) (unat v)"
  have len: "length ?t \<le> 31" using number_text_length [OF base(1) room] by simp
  have "unat v < unat base ^ PRINTF_NTOA_BUFFER_SIZE"
    using less_le_trans [OF room power_increasing [of 31 32 "unat base"]] base(1) by (simp add: PRINTF_NTOA_BUFFER_SIZE_def)
  then have loop: "ntoa_loop PRINTF_NTOA_BUFFER_SIZE v base flags [] = rev ?t"
    using ntoa_loop_ok [OF base] by (simp add: PRINTF_NTOA_BUFFER_SIZE_def)
  have same: "(if v = 0 then and flags (not FLAGS_HASH) else flags) = flags" using flags(1) by simp
  have "ntoa_long v negative base 0 width flags = ntoa_format (rev ?t) negative (ucast base) 0 width flags"
    unfolding ntoa_long_def Let_def same loop using flags(6) by simp
  moreover have "width \<noteq> 0 \<Longrightarrow> unat (width - 1) = unat width - 1" by (simp add: unat_minus_one)
  ultimately show ?thesis using flags len w
    by (cases "width = 0"; cases negative; cases "has flags FLAGS_LEFT"; cases "has flags FLAGS_ZEROPAD")
      (auto simp: ntoa_format_def out_rev_def padded_def buf_add_def PRINTF_NTOA_BUFFER_SIZE_def Let_def min_def)
qed

subsection \<open>The width in a directive\<close>

lemma pf_atoi_append:
  "\<forall>c\<in>set s. is_digit c \<Longrightarrow> pf_atoi i (s @ t) = pf_atoi (foldl (\<lambda>i c. i * 10 + (ucast c - 48)) i s) t"
  by (induction s arbitrary: i) auto

lemma small_digit:
  assumes "d < 10"
  shows "is_digit (word_of_nat (48 + d))" "(ucast (word_of_nat (48 + d) :: u8) :: u32) - 48 = word_of_nat d"
proof -
  have "d \<in> {0, 1, 2, 3, 4, 5, 6, 7, 8, 9}" using assms by auto
  then show "is_digit (word_of_nat (48 + d))" "(ucast (word_of_nat (48 + d) :: u8) :: u32) - 48 = word_of_nat d"
    by (auto simp: is_digit_def)
qed

lemma decimal_digits: "c \<in> set (number_text upper 10 n) \<Longrightarrow> is_digit c"
  using digits_of_bound [of 10 n] small_digit by (auto simp: number_text_def)

lemma decimal_value: "foldl (\<lambda>i c. i * 10 + (ucast c - 48)) 0 (number_text upper 10 n) = (word_of_nat n :: u32)"
proof (induction n rule: less_induct)
  case (less n)
  show ?case
  proof (cases "n < 10")
    case True
    then have "digits_of 10 n = [n]" by (subst digits_of.simps) simp
    then show ?thesis using small_digit [OF True] True by (simp add: number_text_def)
  next
    case False
    then have d: "digits_of 10 n = digits_of 10 (n div 10) @ [n mod 10]" by (subst digits_of.simps) simp
    have "foldl (\<lambda>i c. i * 10 + (ucast c - 48)) 0 (number_text upper 10 n) = word_of_nat (n div 10) * 10 + (word_of_nat (n mod 10) :: u32)"
      using less.IH [of "n div 10"] False small_digit(2) [of "n mod 10"] by (simp add: number_text_def d)
    also have "\<dots> = word_of_nat (n div 10 * 10 + n mod 10)" by (simp only: of_nat_add of_nat_mult of_nat_numeral)
    finally show ?thesis by (simp only: div_mult_mod_eq)
  qed
qed

definition width_text :: "nat \<Rightarrow> bytes" where
  "width_text w = (if w = 0 then [] else number_text False 10 w)"

lemma pf_atoi_width:
  assumes "fmt = [] \<or> \<not> is_digit (hd fmt)"
  shows "pf_atoi 0 (number_text False 10 w @ fmt) = (word_of_nat w, fmt)"
proof -
  have "pf_atoi i fmt = (i, fmt)" for i using assms by (cases fmt) auto
  then show ?thesis by (simp add: pf_atoi_append decimal_digits decimal_value)
qed

text \<open>The first byte of a width is a digit from 1 to 9, so it is not taken for a flag.\<close>

lemma width_text_hd:
  assumes "0 < w"
  shows "\<exists>c s. number_text False 10 w = c # s \<and> is_digit c \<and> c \<noteq> 48"
proof -
  obtain d ds where d: "digits_of 10 w = d # ds" "d \<noteq> 0" "d < 10"
    using digits_of_hd [of 10 w] digits_of_bound [of 10 w] assms by (cases "digits_of 10 w") auto
  then have "d \<in> {1, 2, 3, 4, 5, 6, 7, 8, 9}" by auto
  then have "(word_of_nat (48 + d) :: u8) \<noteq> 48" by auto
  with d small_digit(1) [of d] show ?thesis by (simp add: number_text_def)
qed

subsection \<open>Directives\<close>

definition directive :: "bool \<Rightarrow> bool \<Rightarrow> nat \<Rightarrow> bytes \<Rightarrow> bytes" where
  "directive left zero w conv =
     PERCENT # (if left then [45] else []) @ (if zero then [48] else []) @ width_text w @ conv"

definition dir_flags :: "bool \<Rightarrow> bool \<Rightarrow> u32" where
  "dir_flags left zero = or (if left then FLAGS_LEFT else 0) (if zero then FLAGS_ZEROPAD else 0)"

definition conversion :: "u8 \<Rightarrow> bool" where
  "conversion x \<longleftrightarrow> x \<in> {100, 117, 120, 88, 99, 115, 112, 108, 37}"

lemma conversion_char:
  "conversion x \<Longrightarrow> x \<notin> {48, 45, 43, 32, 35, 42, 46} \<and> \<not> is_digit x \<and> x \<notin> {104, 116, 106, 122}"
  by (auto simp: conversion_def is_digit_def)

lemma vs_flags_width:
  assumes "conversion x"
  shows "vs_flags fl (width_text w @ x # s) = (fl, width_text w @ x # s)"
proof (cases "w = 0")
  case True
  then show ?thesis using conversion_char [OF assms] by (simp add: width_text_def)
next
  case False
  then obtain c r where c: "number_text False 10 w = c # r" "is_digit c" "c \<noteq> 48" using width_text_hd by blast
  then have "c \<notin> {45, 43, 32, 35}" by (auto simp: is_digit_def)
  with c False show ?thesis by (simp add: width_text_def)
qed

lemma vs_flags_ok:
  assumes "conversion x"
  shows "vs_flags 0 ((if left then [45] else []) @ (if zero then [48] else []) @ width_text w @ x # s)
    = (dir_flags left zero, width_text w @ x # s)"
  by (cases left; cases zero) (simp_all add: vs_flags_width [OF assms] dir_flags_def)

lemma vs_width_ok:
  assumes "conversion x"
  shows "vs_width fl (width_text w @ x # s) va = Inr (fl, word_of_nat w, x # s, va)"
proof (cases "w = 0")
  case True
  then show ?thesis using conversion_char [OF assms] by (simp add: width_text_def vs_width_def)
next
  case False
  then obtain c r where c: "number_text False 10 w = c # r" "is_digit c" using width_text_hd by blast
  with False pf_atoi_width [of "x # s" w] conversion_char [OF assms] show ?thesis
    by (simp add: width_text_def vs_width_def)
qed

lemma vs_loop_directive:
  assumes "conversion x" and "x \<noteq> 108"
  shows "vs_loop (Suc fuel) (directive left zero w [x] @ fmt) va
    = bindE (vs_specifier x (dir_flags left zero) (word_of_nat w) 0 va) (\<lambda>(out, va).
        bindE (vs_loop fuel fmt va) (\<lambda>more. Inr (out @ more)))"
  using assms conversion_char [OF assms(1)]
  by (simp add: directive_def vs_flags_ok vs_width_ok vs_precision_def vs_length_def)

lemma vs_loop_directive_long:
  assumes "conversion x" and "x \<noteq> 108"
  shows "vs_loop (Suc fuel) (directive left zero w [108, x] @ fmt) va
    = bindE (vs_specifier x (or (dir_flags left zero) FLAGS_LONG) (word_of_nat w) 0 va) (\<lambda>(out, va).
        bindE (vs_loop fuel fmt va) (\<lambda>more. Inr (out @ more)))"
proof -
  have "conversion 108" by (simp add: conversion_def)
  with assms vs_flags_ok [of 108] vs_width_ok [of 108] show ?thesis
    by (simp add: directive_def vs_precision_def vs_length_def Let_def)
qed

text \<open>The flags of a directive, with those that its conversion adds.\<close>

lemma dir_flags_cases: "dir_flags left zero = (if left then if zero then 3 else 2 else if zero then 1 else 0)"
  by (simp add: dir_flags_def flags_defs)

definition width_ok :: "bool \<Rightarrow> bool \<Rightarrow> nat \<Rightarrow> bool" where
  "width_ok left zero w \<longleftrightarrow> w < 2 ^ 32 \<and> (zero \<and> \<not> left \<longrightarrow> w \<le> 32)"

lemma ntoa_dir:
  assumes "f = or (dir_flags left zero) g" and "g \<in> {0, FLAGS_UPPERCASE, FLAGS_LONG}" and "width_ok left zero w"
    and "2 \<le> unat base" "unat base \<le> 36" "unat v < unat base ^ 31"
  shows "ntoa_long v negative base 0 (word_of_nat w) f
    = padded left zero w (if negative then [MINUS] else []) (number_text (g = FLAGS_UPPERCASE) (unat base) (unat v))"
proof -
  have u: "unat (word_of_nat w :: u32) = w" using assms(3) by (simp add: width_ok_def unat_of_nat_small32)
  have h: "and f (not FLAGS_HASH) = f" "\<not> has f FLAGS_HASH" "\<not> has f (or FLAGS_PLUS FLAGS_SPACE)"
      "\<not> has f FLAGS_PLUS" "\<not> has f FLAGS_SPACE" "\<not> has f FLAGS_PRECISION" "has f FLAGS_LEFT = left" "has f FLAGS_ZEROPAD = zero"
      "has f FLAGS_UPPERCASE = (g = FLAGS_UPPERCASE)"
    using assms(1,2) by (auto simp: dir_flags_cases flags_defs has_def split: if_splits)
  have "unat (word_of_nat w :: u32) \<le> 32 \<or> \<not> has f FLAGS_ZEROPAD \<or> has f FLAGS_LEFT"
    using assms(3) h by (auto simp: u width_ok_def)
  from ntoa_long_ok [OF h(1-6) assms(4-6) this, of negative] show ?thesis by (simp add: h u)
qed

subsection \<open>Conversions\<close>

lemma unat_ucast_u64: "unat (ucast (n :: u32) :: u64) = unat n"
  by (simp add: unsigned_ucast_eq take_bit_nat_eq_self unsigned_less [THEN order_less_trans])

lemma below_pow31: "unat (v :: u64) < 10 ^ 31" "unat v < 16 ^ 31"
  using unsigned_less [of v, where 'a = nat] by simp_all

lemma vs_int_ok:
  assumes "width_ok left zero w" and "sint n \<noteq> - (2 ^ 31)"
  shows "vs_specifier 100 (dir_flags left zero) (word_of_nat w) 0 (A_int n # va)
    = Inr (padded left zero w (if sint n < 0 then [MINUS] else []) (number_text False 10 (nat \<bar>sint n\<bar>)), va)"
proof -
  let ?v = "if sint n > 0 then n else - n"
  have r: "sint n < 2 ^ 31" "- (2 ^ 31) \<le> sint n" using sint_less [of n] sint_greater_eq [of n] by simp_all
  have "unat ?v = nat \<bar>sint n\<bar>"
  proof (cases "sint n > 0")
    case True
    then have "uint n = sint n" using r by (simp add: uint_sint take_bit_int_eq_self)
    then show ?thesis using True by (simp add: unat_eq_nat_uint)
  next
    case False
    have "- n = word_of_int (- sint n)" by simp
    then have "uint (- n) = take_bit 32 (- sint n)" by (simp only: unsigned_of_int) simp
    also have "\<dots> = - sint n" using False r by (simp add: take_bit_int_eq_self)
    finally show ?thesis using False by (simp add: unat_eq_nat_uint)
  qed
  then have u: "unat (ucast ?v :: u64) = nat \<bar>sint n\<bar>" by (simp only: unat_ucast_u64)
  have "ntoa_long (ucast ?v) (sint n < 0) 10 0 (word_of_nat w) (dir_flags left zero)
      = padded left zero w (if sint n < 0 then [MINUS] else []) (number_text False 10 (nat \<bar>sint n\<bar>))"
    using ntoa_dir [of "dir_flags left zero" left zero 0 w 10 "ucast ?v" "sint n < 0"] assms(1) below_pow31(1) [of "ucast ?v", unfolded u]
    unfolding u by (simp add: FLAGS_UPPERCASE_def del: abs_if)
  moreover have "and (dir_flags left zero) (not FLAGS_HASH) = dir_flags left zero"
    "\<not> has (dir_flags left zero) FLAGS_PRECISION" "\<not> has (dir_flags left zero) FLAGS_LONG_LONG"
    "\<not> has (dir_flags left zero) FLAGS_LONG" "\<not> has (dir_flags left zero) FLAGS_CHAR" "\<not> has (dir_flags left zero) FLAGS_SHORT"
    by (auto simp: dir_flags_cases flags_defs has_def)
  ultimately show ?thesis using assms(2) by (simp add: vs_specifier_def vs_integer_def vs_signed_def Let_def)
qed

lemma vs_unsigned_ok:
  assumes "width_ok left zero w" and "c = 117 \<and> b = 10 \<or> c = 120 \<and> b = 16 \<or> c = 88 \<and> b = 16"
  shows "vs_specifier c (dir_flags left zero) (word_of_nat w) 0 (A_int n # va)
    = Inr (padded left zero w [] (number_text (c = 88) b (unat n)), va)"
proof -
  let ?g = "if c = 88 then FLAGS_UPPERCASE else 0" and ?b = "word_of_nat b :: u64"
  have b: "unat ?b = b" using assms(2) by auto
  note bound = below_pow31 [of "ucast n", unfolded unat_ucast_u64]
  have "ntoa_long (ucast n) False ?b 0 (word_of_nat w) (or (dir_flags left zero) ?g)
      = padded left zero w [] (number_text (c = 88) b (unat n))"
    using ntoa_dir [of _ left zero ?g w ?b "ucast n" False, OF refl] assms bound
    by (auto simp: b unat_ucast_u64 FLAGS_UPPERCASE_def)
  moreover have "and (dir_flags left zero) (not FLAGS_HASH) = dir_flags left zero"
    "and (or (dir_flags left zero) ?g) (not (or FLAGS_PLUS FLAGS_SPACE)) = or (dir_flags left zero) ?g"
    "\<not> has (or (dir_flags left zero) ?g) FLAGS_PRECISION" "\<not> has (or (dir_flags left zero) ?g) FLAGS_LONG_LONG"
    "\<not> has (or (dir_flags left zero) ?g) FLAGS_LONG" "\<not> has (or (dir_flags left zero) ?g) FLAGS_CHAR"
    "\<not> has (or (dir_flags left zero) ?g) FLAGS_SHORT"
    by (auto simp: dir_flags_cases flags_defs has_def)
  ultimately show ?thesis unfolding vs_specifier_def vs_integer_def vs_unsigned_def
    using assms(2) by (elim disjE conjE) (simp_all add: Let_def)
qed

lemma vs_long_ok:
  assumes "width_ok left zero w"
  shows "vs_specifier 117 (or (dir_flags left zero) FLAGS_LONG) (word_of_nat w) 0 (A_long n # va)
    = Inr (padded left zero w [] (number_text False 10 (unat n)), va)"
proof -
  let ?f = "or (dir_flags left zero) FLAGS_LONG"
  have "ntoa_long n False 10 0 (word_of_nat w) ?f = padded left zero w [] (number_text False 10 (unat n))"
    using ntoa_dir [of ?f left zero FLAGS_LONG w 10 n False] assms below_pow31(1)
    by (simp add: FLAGS_UPPERCASE_def FLAGS_LONG_def)
  moreover have "and ?f (not FLAGS_HASH) = ?f" "and ?f (not (or FLAGS_PLUS FLAGS_SPACE)) = ?f"
    "\<not> has ?f FLAGS_PRECISION" "\<not> has ?f FLAGS_LONG_LONG" "has ?f FLAGS_LONG"
    by (auto simp: dir_flags_cases flags_defs has_def)
  ultimately show ?thesis by (simp add: vs_specifier_def vs_integer_def vs_unsigned_def Let_def)
qed

lemma vs_pointer_ok:
  "vs_specifier 112 (dir_flags False False) width 0 (A_long n # va) = Inr (padded False True 16 [] (number_text True 16 (unat n)), va)"
proof -
  have "or (dir_flags False False) (or FLAGS_ZEROPAD FLAGS_UPPERCASE) = or (dir_flags False True) FLAGS_UPPERCASE"
    by (simp add: dir_flags_def)
  moreover have "width_ok False True 16" by (simp add: width_ok_def)
  ultimately show ?thesis
    using ntoa_dir [of _ False True FLAGS_UPPERCASE 16 16 n False, OF refl] below_pow31(2)
    by (simp add: vs_specifier_def vs_pointer_def Let_def)
qed

lemma vs_char_ok:
  assumes "w < 2 ^ 32"
  shows "vs_specifier 99 (dir_flags left False) (word_of_nat w) 0 (A_int n # va) = Inr (padded left False w [] [ucast n], va)"
  using assms
  by (cases left) (simp_all add: vs_specifier_def vs_char_def padded_def dir_flags_cases has_def flags_defs Let_def unat_of_nat_small32)

lemma strnlen_until_null: "length s \<le> m \<Longrightarrow> 0 \<notin> set s \<Longrightarrow> strnlen_s s m = length s"
  by (induction s m rule: strnlen_s.induct) auto

lemma vs_string_ok:
  assumes "w < 2 ^ 32" and "0 \<notin> set s" and "length s < 2 ^ 32"
  shows "vs_specifier 115 (dir_flags left False) (word_of_nat w) 0 (A_string s # va) = Inr (padded left False w [] s, va)"
proof -
  have l: "strnlen_s s 18446744073709551615 = length s" using assms by (intro strnlen_until_null) auto
  from assms(1,2) show ?thesis unfolding vs_specifier_def vs_string_def
    by (cases left) (simp_all add: l padded_def dir_flags_cases has_def flags_defs Let_def unat_of_nat_small32 del: diff_Suc_1)
qed

subsection \<open>Formats\<close>

text \<open>
  The pieces of a format: plain text and directives with their flags \<^verbatim>\<open>-\<close> and \<^verbatim>\<open>0\<close>, width and
  argument; \<open>P_hex\<close> has a flag for upper case.
\<close>

datatype pf_piece =
    P_text bytes | P_int bool bool nat u32 | P_uns bool bool nat u32 | P_hex bool bool bool nat u32
  | P_long bool bool nat u64 | P_char bool nat u32 | P_str bool nat bytes | P_ptr u64 | P_percent

fun pf_format :: "pf_piece \<Rightarrow> bytes" where
  "pf_format (P_text s) = s"
| "pf_format (P_int left zero w n) = directive left zero w [100]"
| "pf_format (P_uns left zero w n) = directive left zero w [117]"
| "pf_format (P_hex upper left zero w n) = directive left zero w [if upper then 88 else 120]"
| "pf_format (P_long left zero w n) = directive left zero w [108, 117]"
| "pf_format (P_char left w n) = directive left False w [99]"
| "pf_format (P_str left w s) = directive left False w [115]"
| "pf_format (P_ptr n) = directive False False 0 [112]"
| "pf_format P_percent = directive False False 0 [PERCENT]"

fun pf_args :: "pf_piece \<Rightarrow> pf_arg list" where
  "pf_args (P_text s) = []"
| "pf_args (P_int left zero w n) = [A_int n]"
| "pf_args (P_uns left zero w n) = [A_int n]"
| "pf_args (P_hex upper left zero w n) = [A_int n]"
| "pf_args (P_long left zero w n) = [A_long n]"
| "pf_args (P_char left w n) = [A_int n]"
| "pf_args (P_str left w s) = [A_string s]"
| "pf_args (P_ptr n) = [A_long n]"
| "pf_args P_percent = []"

fun pf_text :: "pf_piece \<Rightarrow> bytes" where
  "pf_text (P_text s) = s"
| "pf_text (P_int left zero w n) =
     padded left zero w (if sint n < 0 then [MINUS] else []) (number_text False 10 (nat \<bar>sint n\<bar>))"
| "pf_text (P_uns left zero w n) = padded left zero w [] (number_text False 10 (unat n))"
| "pf_text (P_hex upper left zero w n) = padded left zero w [] (number_text upper 16 (unat n))"
| "pf_text (P_long left zero w n) = padded left zero w [] (number_text False 10 (unat n))"
| "pf_text (P_char left w n) = padded left False w [] [ucast n]"
| "pf_text (P_str left w s) = padded left False w [] s"
| "pf_text (P_ptr n) = padded False True 16 [] (number_text True 16 (unat n))"
| "pf_text P_percent = [PERCENT]"

text \<open>Zero padding is limited by the buffer of 32 bytes; the smallest number has no negation.\<close>

fun pf_ok :: "pf_piece \<Rightarrow> bool" where
  "pf_ok (P_text s) \<longleftrightarrow> PERCENT \<notin> set s"
| "pf_ok (P_int left zero w n) \<longleftrightarrow> width_ok left zero w \<and> sint n \<noteq> - (2 ^ 31)"
| "pf_ok (P_uns left zero w n) \<longleftrightarrow> width_ok left zero w"
| "pf_ok (P_hex upper left zero w n) \<longleftrightarrow> width_ok left zero w"
| "pf_ok (P_long left zero w n) \<longleftrightarrow> width_ok left zero w"
| "pf_ok (P_char left w n) \<longleftrightarrow> w < 2 ^ 32"
| "pf_ok (P_str left w s) \<longleftrightarrow> w < 2 ^ 32 \<and> 0 \<notin> set s \<and> length s < 2 ^ 32"
| "pf_ok (P_ptr n) \<longleftrightarrow> True"
| "pf_ok P_percent \<longleftrightarrow> True"

lemma vs_loop_text:
  assumes "PERCENT \<notin> set s" and "\<forall>k. length fmt \<le> k \<longrightarrow> vs_loop k fmt va = Inr out" and "length (s @ fmt) \<le> fuel"
  shows "vs_loop fuel (s @ fmt) va = Inr (s @ out)"
  using assms(1,3)
proof (induction s arbitrary: fuel)
  case (Cons c s)
  then obtain f where "fuel = Suc f" by (cases fuel) auto
  with Cons show ?case by auto
qed (use assms(2) in simp)

lemma vs_loop_step:
  assumes "conversion x" and "x \<noteq> 108" and "vs_specifier x (dir_flags left zero) (word_of_nat w) 0 va = Inr (out, rest)"
    and "\<forall>k. length fmt \<le> k \<longrightarrow> vs_loop k fmt rest = Inr more_out" and "length (directive left zero w [x] @ fmt) \<le> fuel"
  shows "vs_loop fuel (directive left zero w [x] @ fmt) va = Inr (out @ more_out)"
proof -
  obtain f where f: "fuel = Suc f" "length fmt \<le> f" using assms(5) by (cases fuel) (auto simp: directive_def)
  show ?thesis unfolding f(1) using assms(3,4) f(2) by (simp add: vs_loop_directive [OF assms(1,2)])
qed

lemma vs_loop_piece:
  assumes "pf_ok p" and rest: "\<forall>k. length fmt \<le> k \<longrightarrow> vs_loop k fmt va = Inr out" and len: "length (pf_format p @ fmt) \<le> fuel"
  shows "vs_loop fuel (pf_format p @ fmt) (pf_args p @ va) = Inr (pf_text p @ out)"
proof -
  note step = vs_loop_step [OF _ _ _ rest, where fuel = fuel]
  show ?thesis
  proof (cases p)
    case (P_text s)
    with assms show ?thesis using vs_loop_text [OF _ rest, of s fuel] by simp
  next
    case (P_int left zero w n)
    with assms vs_int_ok [of left zero w n va] show ?thesis using step [of 100 left zero w] by (simp add: conversion_def)
  next
    case (P_uns left zero w n)
    with assms vs_unsigned_ok [of left zero w 117 10 n va] show ?thesis
      using step [of 117 left zero w] by (simp add: conversion_def)
  next
    case (P_hex upper left zero w n)
    with assms vs_unsigned_ok [of left zero w "if upper then 88 else 120" 16 n va] show ?thesis
      using step [of "if upper then 88 else 120" left zero w] by (cases upper) (simp_all add: conversion_def)
  next
    case (P_long left zero w n)
    obtain f where f: "fuel = Suc f" "length fmt \<le> f" using len P_long by (cases fuel) (auto simp: directive_def)
    have "conversion 117" by (simp add: conversion_def)
    with P_long assms(1) rest f vs_long_ok [of left zero w n va] vs_loop_directive_long [of 117] show ?thesis by simp
  next
    case (P_char left w n)
    with assms vs_char_ok [of w left n va] show ?thesis using step [of 99 left False w] by (simp add: conversion_def)
  next
    case (P_str left w s)
    with assms vs_string_ok [of w s left va] show ?thesis using step [of 115 left False w] by (simp add: conversion_def)
  next
    case (P_ptr n)
    with assms vs_pointer_ok [of 0 n va] show ?thesis using step [of 112 False False 0] by (simp add: conversion_def)
  next
    case P_percent
    have "vs_specifier PERCENT f width 0 va = Inr ([PERCENT], va)" for f width
      by (simp add: vs_specifier_def PERCENT_def)
    with P_percent len show ?thesis using step [of PERCENT False False 0] by (simp add: conversion_def PERCENT_def)
  qed
qed

lemma vs_text_pieces:
  assumes "\<forall>p\<in>set ps. pf_ok p"
  shows "vs_text (concat (map pf_format ps)) (concat (map pf_args ps)) = Inr (concat (map pf_text ps))"
proof -
  have "length (concat (map pf_format ps)) \<le> k \<Longrightarrow>
      vs_loop k (concat (map pf_format ps)) (concat (map pf_args ps)) = Inr (concat (map pf_text ps))" for k
    using assms
  proof (induction ps arbitrary: k)
    case (Cons p ps)
    then show ?case using vs_loop_piece [of p "concat (map pf_format ps)" "concat (map pf_args ps)" "concat (map pf_text ps)" k]
      by simp
  qed (cases k; simp)
  then show ?thesis by (simp add: vs_text_def)
qed

subsection \<open>Where the text goes\<close>

lemma out_all_ok:
  "maxlen \<le> length (pre @ post) \<Longrightarrow> out_all cs (pre @ post) (length pre) maxlen
     = Inr (pre @ take (maxlen - length pre) cs @ drop (length (take (maxlen - length pre) cs)) post)"
proof (induction cs arbitrary: pre post)
  case (Cons c cs)
  show ?case
  proof (cases "length pre < maxlen")
    case True
    then obtain b bs where "post = b # bs" using Cons.prems by (cases post) auto
    with True Cons.prems Cons.IH [of "pre @ [c]" bs] show ?thesis
      by (simp add: out_buffer_def Suc_diff_Suc take_Cons' Suc_diff_le flip: diff_Suc_eq_diff_pred)
  next
    case False
    then have "out_all cs (pre @ post) idx maxlen = Inr (pre @ post)" if "length pre \<le> idx" for idx
      using that by (induction cs arbitrary: idx) (simp_all add: out_buffer_def)
    with False show ?thesis by (simp add: out_buffer_def)
  qed
qed simp

lemma snprintf_ok:
  assumes "vs_text fmt va = Inr out" and "unat count \<le> length buf"
  shows "snprintf (Some buf) count fmt va = Inr (Some
    (if count = 0 then buf
     else let s = take (unat count - 1) out in s @ [0] @ drop (length s + 1) buf), word_of_nat (length out))"
proof -
  have stored: "out_all out buf 0 (unat count) = Inr (take (unat count) out @ drop (length (take (unat count) out)) buf)"
    using out_all_ok [of "unat count" "[]" buf out] assms(2) by simp
  show ?thesis
  proof (cases "count = 0")
    case True
    then show ?thesis using stored assms(1) by (simp add: snprintf_def vsnprintf_def out_buffer_def)
  next
    case False
    then have c: "0 < unat count" "unat (count - 1) = unat count - 1" by (simp_all add: unat_gt_0 unat_minus_one)
    show ?thesis
    proof (cases "length out < unat count")
      case True
      then have "drop (length out) buf = buf ! length out # drop (Suc (length out)) buf"
        using assms(2) by (simp add: Cons_nth_drop_Suc)
      with True show ?thesis using stored assms c False
        by (simp add: snprintf_def vsnprintf_def out_buffer_def Let_def updE_def list_update_append)
    next
      case f: False
      then have "take (unat count) out = take (unat count - 1) out @ [out ! (unat count - 1)]"
        using c by (metis Suc_pred' leI le_simps(2) less_imp_diff_less lessI take_Suc_conv_app_nth)
      with f show ?thesis using stored assms c False
        by (simp add: snprintf_def vsnprintf_def out_buffer_def Let_def updE_def list_update_append)
    qed
  qed
qed

lemma out_chars_run: "out_chars spi cs = run_ops spi 0 (map Putc (filter (\<lambda>c. c \<noteq> 0) cs))"
  by (induction cs arbitrary: spi) (auto simp: bindE_def split: sum.split)

lemma printf_ok:
  assumes "vs_text fmt va = Inr out" and "2 * length out \<le> length (sp_rx spi)" and "\<forall>w\<in>set (sp_rx spi). 2 \<le> level w"
  shows "\<exists>ws n. printf spi fmt va
      = Inr (spi\<lparr>sp_tx := sp_tx spi @ ws, sp_rx := drop n (sp_rx spi)\<rparr>, word_of_nat (length out))
    \<and> sent 0 (transfers [] ws) = filter (\<lambda>c. c \<noteq> 0) out"
proof -
  let ?cs = "filter (\<lambda>c. c \<noteq> 0) out"
  have "sum_list (map op_cost (map Putc ?cs)) = 2 * length ?cs" by (induction out) (simp_all add: op_cost_def)
  moreover have "length ?cs \<le> length out" by (rule length_filter_le)
  ultimately have "sum_list (map op_cost (map Putc ?cs)) \<le> length (sp_rx spi)" using assms(2) by linarith
  from run_ops_ok [OF this assms(3), of 0] obtain ws n where
    "run_ops spi 0 (map Putc ?cs) = Inr (spi\<lparr>sp_tx := sp_tx spi @ ws, sp_rx := drop n (sp_rx spi)\<rparr>)"
    "sent 0 (transfers [] ws) = concat (map op_bytes (map Putc ?cs))" by auto
  moreover have "concat (map op_bytes (map Putc cs)) = cs" for cs by (induction cs) simp_all
  ultimately show ?thesis using assms(1)
    by (intro exI [of _ ws] exI [of _ n]) (simp add: printf_def vprintf_def out_chars_run)
qed

subsection \<open>What it gets wrong\<close>

text \<open>A zero padding to more than 32 characters fills the buffer and drops the sign.\<close>

lemma wide_zero_padding_drops_sign: "vs_text [PERCENT, 48, 52, 48, 100] [A_int (- 5)] = Inr (replicate 31 48 @ [53])"
  by code_simp

text \<open>Without \<^verbatim>\<open>long long\<close>, its directive prints nothing, and the next one reads its argument.\<close>

lemma long_long_is_skipped: "vs_text [PERCENT, 108, 108, 100, PERCENT, 108, 100] [A_long 7, A_long 8] = Inr [55]"
  by code_simp

text \<open>A format that ends with \<^verbatim>\<open>%\<close> makes the loop read on behind its end.\<close>

lemma open_directive_overruns:
  assumes "PERCENT \<notin> set s"
  shows "vs_text (s @ [PERCENT]) va = Inl OutOfBounds"
proof -
  have "length (s @ [PERCENT]) \<le> k \<Longrightarrow> vs_loop k (s @ [PERCENT]) va = Inl OutOfBounds" for k
    using assms
  proof (induction s arbitrary: k)
    case Nil
    then obtain f where "k = Suc f" by (cases k) auto
    then show ?case by (simp add: vs_width_def vs_precision_def vs_length_def)
  next
    case (Cons c s)
    then obtain f where "k = Suc f" by (cases k) auto
    with Cons show ?case by auto
  qed
  then show ?thesis by (simp add: vs_text_def)
qed

end
