(* ===== verification/Printers.thy ===== *)
theory Printers
  imports Printf_Facts
begin

text \<open>
  The program has two formatted printers, \<^verbatim>\<open>uart_printf\<close> of \<^verbatim>\<open>rpi.c\<close>, which writes numbers into
  a buffer and prints whole strings, and the library's \<^verbatim>\<open>printf\<close>, which passes every character to the
  line.  On the directives of \<^verbatim>\<open>uart_printf\<close> they are equivalent, but for pointers, before which
  \<^verbatim>\<open>printf\<close> writes zeros.
\<close>

text \<open>The arguments as \<^verbatim>\<open>printf\<close> takes them, and the pieces as it reads them.\<close>

fun printf_arg :: "va_arg \<Rightarrow> pf_arg" where
  "printf_arg (Va_string s) = A_string s"
| "printf_arg (Va_int n) = A_int n"
| "printf_arg (Va_pointer n) = A_long n"
| "printf_arg (Va_unsigned n) = A_int n"

fun printf_piece :: "piece \<Rightarrow> pf_piece" where
  "printf_piece (Text s) = P_text s"
| "printf_piece (Str s) = P_str False 0 s"
| "printf_piece (Chr n) = P_char False 0 n"
| "printf_piece (Dec n) = P_int False False 0 n"
| "printf_piece (Ptr n) = P_ptr n"
| "printf_piece (Uns n) = P_uns False False 0 n"
| "printf_piece Percent = P_percent"

text \<open>
  The pieces of both printers: no null characters, which \<^verbatim>\<open>printf\<close> does not pass on, and not the smallest
  signed number, which \<^verbatim>\<open>uart_printf\<close> cannot write.
\<close>

fun shared_piece :: "piece \<Rightarrow> bool" where
  "shared_piece (Text s) \<longleftrightarrow> PERCENT \<notin> set s \<and> 0 \<notin> set s"
| "shared_piece (Str s) \<longleftrightarrow> 0 \<notin> set s \<and> length s < 2 ^ 32"
| "shared_piece (Chr n) \<longleftrightarrow> (ucast n :: u8) \<noteq> 0"
| "shared_piece (Dec n) \<longleftrightarrow> sint n \<noteq> - (2 ^ 31)"
| "shared_piece (Ptr n) \<longleftrightarrow> True"
| "shared_piece (Uns n) \<longleftrightarrow> True"
| "shared_piece Percent \<longleftrightarrow> True"

text \<open>What \<^verbatim>\<open>printf\<close> writes: a pointer has zeros in front, up to 16 digits, and all else is the same.\<close>

fun printf_text :: "piece \<Rightarrow> bytes" where
  "printf_text (Ptr n) = replicate (16 - length (piece_text (Ptr n))) 48 @ piece_text (Ptr n)"
| "printf_text p = piece_text p"

lemma printf_text_same: "(\<And>n. p \<noteq> Ptr n) \<Longrightarrow> printf_text p = piece_text p"
  by (cases p) auto

lemma printf_text_length: "length (concat (map piece_text ps)) \<le> length (concat (map printf_text ps))"
proof (induction ps)
  case (Cons p ps)
  have "length (piece_text p) \<le> length (printf_text p)" by (cases p) simp_all
  with Cons show ?case by simp
qed simp

lemma printf_piece_format: "pf_format (printf_piece p) = piece_format p"
  by (cases p) (simp_all add: directive_def width_text_def)

lemma printf_piece_args: "pf_args (printf_piece p) = map printf_arg (piece_args p)"
  by (cases p) simp_all

lemma shared_piece_ok: "shared_piece p \<Longrightarrow> piece_ok p \<and> pf_ok (printf_piece p)"
  by (cases p) (simp_all add: width_ok_def)

lemma padded_0 [simp]: "padded left zero 0 sign body = sign @ body"
  by (simp add: padded_def)

lemma shared_piece_text: "shared_piece p \<Longrightarrow> pf_text (printf_piece p) = printf_text p \<and> 0 \<notin> set (printf_text p)"
  using number_text_nonzero [of 10 False] number_text_nonzero [of 16 True]
  by (cases p) (auto simp: MINUS_def PERCENT_def padded_def Let_def)

lemma printers_equal:
  assumes ps: "\<forall>p\<in>set ps. shared_piece p" and fmt: "fmt = concat (map piece_format ps)" and args: "args = concat (map piece_args ps)"
    and room: "2 * (length (concat (map printf_text ps)) + length ps) \<le> length (sp_rx spi)" "\<forall>w\<in>set (sp_rx spi). 2 \<le> level w"
  shows "\<exists>ws n ws' n'. uart_printf spi 0 fmt args = Inr (spi\<lparr>sp_tx := sp_tx spi @ ws, sp_rx := drop n (sp_rx spi)\<rparr>)
    \<and> printf spi fmt (map printf_arg args) = Inr (spi\<lparr>sp_tx := sp_tx spi @ ws', sp_rx := drop n' (sp_rx spi)\<rparr>,
        word_of_nat (length (concat (map printf_text ps))))
    \<and> sent 0 (transfers [] ws) = concat (map piece_text ps) \<and> sent 0 (transfers [] ws') = concat (map printf_text ps)"
proof -
  let ?qs = "map printf_piece ps" and ?out = "concat (map printf_text ps)"
  have f: "concat (map pf_format ?qs) = fmt" "concat (map pf_args ?qs) = map printf_arg args"
    unfolding fmt args by (simp_all add: comp_def printf_piece_format printf_piece_args map_concat)
  have t: "map pf_text ?qs = map printf_text ps" "0 \<notin> set ?out" using ps shared_piece_text by auto
  have "\<forall>q\<in>set ?qs. pf_ok q" "\<forall>p\<in>set ps. piece_ok p" using ps shared_piece_ok by auto
  note ok = this
  have v: "vs_text fmt (map printf_arg args) = Inr ?out" using vs_text_pieces [OF ok(1)] unfolding f t(1) .
  have zero: "(0 :: usize) < 2" by simp
  have room1: "2 * (length (concat (map piece_text ps)) + length ps) \<le> length (sp_rx spi)"
    by (rule order_trans [OF mult_le_mono2 [OF add_le_mono1 [OF printf_text_length]] room(1)])
  from uart_printf_ok [OF ok(2) zero refl room1 room(2)] obtain ws n where u: "uart_printf spi 0 fmt args = Inr (spi\<lparr>sp_tx := sp_tx spi @ ws, sp_rx := drop n (sp_rx spi)\<rparr>)"
      "sent 0 (transfers [] ws) = concat (map piece_text ps)"
    unfolding fmt [symmetric] args [symmetric] by blast
  have "2 * length ?out \<le> length (sp_rx spi)" using room(1) by simp
  from printf_ok [OF v this room(2)] obtain ws' n' where
    p: "printf spi fmt (map printf_arg args) = Inr (spi\<lparr>sp_tx := sp_tx spi @ ws', sp_rx := drop n' (sp_rx spi)\<rparr>, word_of_nat (length ?out))"
    "sent 0 (transfers [] ws') = filter (\<lambda>c. c \<noteq> 0) ?out" by blast
  have "filter (\<lambda>c. c \<noteq> 0) ?out = ?out" by (rule filter_True) (use t(2) in blast)
  with p(2) have "sent 0 (transfers [] ws') = ?out" by (simp only:)
  with u p(1) show ?thesis by (intro exI conjI)
qed

end
