(* ===== verification/Interfaces.thy ===== *)
theory Interfaces
  imports Prelude
begin

text \<open>
  The contracts between the components, as locales.  Each one names the operations a
  client calls and the laws the provider promises; the consequences a client relies on
  are proved once inside the locale.  The provider's theory interprets the locale on the
  model of its code: the ring buffer of \<^verbatim>\<open>queue.c\<close> for
  \<open>bounded_fifo\<close>; the node pool of \<^verbatim>\<open>task_queue.c\<close>, the stack blocks of
  \<^verbatim>\<open>memory.c\<close> and the chunks of \<^verbatim>\<open>memory_pool.c\<close> for
  \<open>allocator\<close>; the priority queues of \<^verbatim>\<open>task_queue.c\<close> for
  \<open>level_queue\<close>.
\<close>

subsection \<open>A bounded first-in first-out buffer\<close>

locale bounded_fifo =
  fixes inv :: "'q \<Rightarrow> bool"
    and cont :: "'q \<Rightarrow> 'a list"
    and cap :: "'q \<Rightarrow> nat"
    and enq :: "'q \<Rightarrow> 'a \<Rightarrow> ('q \<times> bool) res"
    and deq :: "'q \<Rightarrow> ('q \<times> 'a) res"
  assumes cap_bound: "inv q \<Longrightarrow> length (cont q) \<le> cap q"
    and enq_room: "\<lbrakk>inv q; length (cont q) < cap q\<rbrakk> \<Longrightarrow>
          \<exists>q'. enq q a = Inr (q', True) \<and> inv q' \<and> cont q' = cont q @ [a] \<and> cap q' = cap q"
    and enq_full: "\<lbrakk>inv q; length (cont q) = cap q\<rbrakk> \<Longrightarrow> enq q a = Inr (q, False)"
    and deq_some: "\<lbrakk>inv q; cont q = a # as\<rbrakk> \<Longrightarrow>
          \<exists>q'. deq q = Inr (q', a) \<and> inv q' \<and> cont q' = as \<and> cap q' = cap q"
begin

text \<open>Feeding a list of elements and emptying the buffer, as a client would.\<close>

fun enq_all :: "'q \<Rightarrow> 'a list \<Rightarrow> 'q res" where
  "enq_all q [] = Inr q"
| "enq_all q (a # as) = bindE (enq q a) (\<lambda>(q', _). enq_all q' as)"

fun deq_n :: "'q \<Rightarrow> nat \<Rightarrow> ('q \<times> 'a list) res" where
  "deq_n q 0 = Inr (q, [])"
| "deq_n q (Suc n) =
     bindE (deq q) (\<lambda>(q', a). bindE (deq_n q' n) (\<lambda>(q'', as). Inr (q'', a # as)))"

lemma enq_all_room:
  assumes "inv q" and "length (cont q) + length as \<le> cap q"
  shows "\<exists>q'. enq_all q as = Inr q' \<and> inv q' \<and> cont q' = cont q @ as \<and> cap q' = cap q"
  using assms
proof (induction as arbitrary: q)
  case Nil
  then show ?case by simp
next
  case (Cons a as)
  then obtain q' where q': "enq q a = Inr (q', True)" "inv q'" "cont q' = cont q @ [a]" "cap q' = cap q"
    using enq_room [of q a] by auto
  with Cons.prems Cons.IH [of q'] show ?case by auto
qed

lemma deq_n_prefix:
  assumes "inv q" and "n \<le> length (cont q)"
  shows "\<exists>q'. deq_n q n = Inr (q', take n (cont q)) \<and> inv q' \<and> cont q' = drop n (cont q) \<and> cap q' = cap q"
  using assms
proof (induction n arbitrary: q)
  case 0
  then show ?case by simp
next
  case (Suc n)
  then obtain a as where c: "cont q = a # as" by (cases "cont q") auto
  with Suc.prems obtain q' where q': "deq q = Inr (q', a)" "inv q'" "cont q' = as" "cap q' = cap q"
    using deq_some [of q a as] by blast
  with Suc.prems c Suc.IH [of q'] show ?case by auto
qed

text \<open>What goes in comes out in the same order, after what was there before.\<close>

lemma fifo_order:
  assumes "inv q" and "cont q = []" and "length as \<le> cap q"
  shows "\<exists>q' q''. enq_all q as = Inr q' \<and> deq_n q' (length as) = Inr (q'', as)
           \<and> inv q'' \<and> cont q'' = []"
proof -
  obtain q' where q': "enq_all q as = Inr q'" "inv q'" "cont q' = as"
    using enq_all_room [of q as] assms by auto
  then show ?thesis using deq_n_prefix [of q' "length as"] by auto
qed

end

subsection \<open>An allocator of a fixed set of cells\<close>

locale allocator =
  fixes inv :: "'p \<Rightarrow> bool"
    and free :: "'p \<Rightarrow> 'c set"
    and alloc :: "'p \<Rightarrow> ('p \<times> 'c) option"
    and release :: "'p \<Rightarrow> 'c \<Rightarrow> 'p"
    and cells :: "'c set"
  assumes free_cells: "inv p \<Longrightarrow> free p \<subseteq> cells"
    and finite_cells: "finite cells"
    and alloc_none: "inv p \<Longrightarrow> alloc p = None \<longleftrightarrow> free p = {}"
    and alloc_some: "\<lbrakk>inv p; alloc p = Some (p', c)\<rbrakk> \<Longrightarrow>
          inv p' \<and> c \<in> free p \<and> free p' = free p - {c}"
    and release_ok: "\<lbrakk>inv p; c \<in> cells; c \<notin> free p\<rbrakk> \<Longrightarrow>
          inv (release p c) \<and> free (release p c) = insert c (free p)"
begin

fun alloc_n :: "'p \<Rightarrow> nat \<Rightarrow> ('p \<times> 'c list) option" where
  "alloc_n p 0 = Some (p, [])"
| "alloc_n p (Suc n) =
     (case alloc p of None \<Rightarrow> None
      | Some (p', c) \<Rightarrow> (case alloc_n p' n of None \<Rightarrow> None | Some (p'', cs) \<Rightarrow> Some (p'', c # cs)))"

text \<open>Cells handed out and not given back are pairwise different.\<close>

lemma alloc_n_distinct:
  assumes "inv p" and "alloc_n p n = Some (p', cs)"
  shows "inv p' \<and> distinct cs \<and> set cs \<subseteq> free p \<and> length cs = n \<and> free p' = free p - set cs"
  using assms
proof (induction n arbitrary: p p' cs)
  case 0
  then show ?case by simp
next
  case (Suc n)
  from Suc.prems obtain p1 c cs1 where 1: "alloc p = Some (p1, c)" "alloc_n p1 n = Some (p', cs1)" "cs = c # cs1"
    by (auto split: option.splits prod.splits)
  from alloc_some [OF Suc.prems(1) 1(1)] have s: "inv p1" "c \<in> free p" "free p1 = free p - {c}" by auto
  from Suc.IH [OF s(1) 1(2)] s 1(3) show ?case by auto
qed

text \<open>Exactly the free cells can be handed out.\<close>

lemma alloc_n_exact:
  assumes "inv p"
  shows "(\<exists>r. alloc_n p n = Some r) \<longleftrightarrow> n \<le> card (free p)"
  using assms
proof (induction n arbitrary: p)
  case 0
  then show ?case by simp
next
  case (Suc n)
  have fin: "finite (free p)" using Suc.prems free_cells finite_cells finite_subset by blast
  show ?case
  proof (cases "alloc p")
    case None
    with Suc.prems have "free p = {}" by (simp add: alloc_none)
    with None show ?thesis by simp
  next
    case (Some r)
    obtain p1 c where r: "r = (p1, c)" by force
    from alloc_some [OF Suc.prems Some [unfolded r]]
    have s: "inv p1" "c \<in> free p" "free p1 = free p - {c}" by auto
    from s fin have "card (free p) = Suc (card (free p1))"
      by (metis card_Suc_Diff1)
    moreover have "(\<exists>r. alloc_n p (Suc n) = Some r) \<longleftrightarrow> (\<exists>r. alloc_n p1 n = Some r)"
      using Some r by (auto split: option.splits)
    ultimately show ?thesis using Suc.IH [OF s(1)] by simp
  qed
qed

lemma release_alloc:
  assumes "inv p" and "c \<in> cells" and "c \<notin> free p"
  shows "alloc (release p c) \<noteq> None"
  using release_ok [OF assms] alloc_none [of "release p c"] by auto

end

subsection \<open>A queue with levels\<close>

text \<open>
  The contents of a queue with levels are one list per level; the order of service is the
  concatenation of the levels from the highest to level 0.
\<close>

definition service_order :: "nat \<Rightarrow> (nat \<Rightarrow> 'a list) \<Rightarrow> 'a list" where
  "service_order n C = concat (map C (rev [0..<n]))"

lemma service_order_0 [simp]: "service_order 0 C = []"
  by (simp add: service_order_def)

lemma service_order_Suc [simp]: "service_order (Suc n) C = C n @ service_order n C"
  by (simp add: service_order_def)

lemma service_order_cong: "(\<And>j. j < n \<Longrightarrow> C j = D j) \<Longrightarrow> service_order n C = service_order n D"
  by (induction n) simp_all

lemma service_order_upd_above [simp]: "n \<le> j \<Longrightarrow> service_order n (C(j := x)) = service_order n C"
  by (rule service_order_cong) simp

lemma set_service_order: "set (service_order n C) = (\<Union>j<n. set (C j))"
  by (induction n) (auto simp: lessThan_Suc)

lemma service_order_Nil_iff: "service_order n C = [] \<longleftrightarrow> (\<forall>j<n. C j = [])"
  by (induction n) (auto simp: less_Suc_eq)

text \<open>The head of the order is the head of the highest level that is not empty.\<close>

lemma service_order_head:
  assumes "service_order n C = a # as"
  shows "\<exists>j<n. C j = a # tl (C j) \<and> (\<forall>i. j < i \<and> i < n \<longrightarrow> C i = [])
           \<and> as = service_order n (C(j := tl (C j)))"
  using assms
proof (induction n)
  case 0
  then show ?case by simp
next
  case (Suc n)
  show ?case
  proof (cases "C n")
    case Nil
    with Suc.prems have "service_order n C = a # as" by simp
    from Suc.IH [OF this] obtain j where j: "j < n" "C j = a # tl (C j)" "\<forall>i. j < i \<and> i < n \<longrightarrow> C i = []"
      "as = service_order n (C(j := tl (C j)))" by blast
    have above: "\<forall>i. j < i \<and> i < Suc n \<longrightarrow> C i = []"
      using j(3) Nil by (auto simp: less_Suc_eq)
    have rest: "as = service_order (Suc n) (C(j := tl (C j)))"
      unfolding service_order_Suc using j(1,4) Nil by simp
    show ?thesis
    proof (intro exI conjI)
      show "j < Suc n" using j(1) by simp
    qed (fact j(2) above rest)+
  next
    case (Cons b bs)
    with Suc.prems have ab: "b = a" "as = bs @ service_order n C" by simp_all
    have rest: "as = service_order (Suc n) (C(n := tl (C n)))"
      unfolding service_order_Suc service_order_upd_above [OF order_refl] using Cons ab by simp
    show ?thesis
    proof (intro exI conjI)
      show "C n = a # tl (C n)" using Cons ab by simp
      show "\<forall>i. n < i \<and> i < Suc n \<longrightarrow> C i = []" by auto
      show "n < Suc n" by simp
    qed (fact rest)
  qed
qed

locale level_queue =
  fixes rep :: "'q \<Rightarrow> (nat \<Rightarrow> 'a list) \<Rightarrow> bool"
    and levels :: nat
    and is_empty :: "'q \<Rightarrow> bool"
    and push :: "'q \<Rightarrow> 'a \<Rightarrow> nat \<Rightarrow> 'q res"
    and pop :: "'q \<Rightarrow> ('q \<times> 'a option) res"
    and valid :: "'a \<Rightarrow> bool"
  assumes empty_iff: "rep q C \<Longrightarrow> is_empty q \<longleftrightarrow> (\<forall>j<levels. C j = [])"
    and push_ok: "\<lbrakk>rep q C; valid a; j < levels; \<forall>i<levels. a \<notin> set (C i)\<rbrakk> \<Longrightarrow>
          \<exists>q'. push q a j = Inr q' \<and> rep q' (C(j := C j @ [a]))"
    and pop_ok: "\<lbrakk>rep q C; j < levels; C j = a # as; \<forall>i. j < i \<and> i < levels \<longrightarrow> C i = []\<rbrakk> \<Longrightarrow>
          \<exists>q'. pop q = Inr (q', Some a) \<and> rep q' (C(j := as))"
    and pop_empty: "\<lbrakk>rep q C; \<forall>j<levels. C j = []\<rbrakk> \<Longrightarrow> pop q = Inl Assertion"
begin

fun pop_n :: "'q \<Rightarrow> nat \<Rightarrow> ('q \<times> 'a option list) res" where
  "pop_n q 0 = Inr (q, [])"
| "pop_n q (Suc n) =
     bindE (pop q) (\<lambda>(q', a). bindE (pop_n q' n) (\<lambda>(q'', as). Inr (q'', a # as)))"

lemma pop_head:
  assumes "rep q C" and "service_order levels C = a # as"
  shows "\<exists>q' j. j < levels \<and> pop q = Inr (q', Some a) \<and> rep q' (C(j := tl (C j))) \<and> C j = a # tl (C j)
           \<and> service_order levels (C(j := tl (C j))) = as"
proof -
  from service_order_head [OF assms(2)] obtain j where j: "j < levels" "C j = a # tl (C j)"
    "\<forall>i. j < i \<and> i < levels \<longrightarrow> C i = []" "as = service_order levels (C(j := tl (C j)))" by blast
  from pop_ok [OF assms(1) j(1,2,3)] j show ?thesis by blast
qed

text \<open>Repeated service empties the levels from the top, each one first-in first-out.\<close>

lemma pop_n_order:
  assumes "rep q C" and "n \<le> length (service_order levels C)"
  shows "\<exists>q' C'. pop_n q n = Inr (q', map Some (take n (service_order levels C))) \<and> rep q' C'
           \<and> service_order levels C' = drop n (service_order levels C)"
  using assms
proof (induction n arbitrary: q C)
  case 0
  then show ?case by auto
next
  case (Suc n)
  then obtain a as where order: "service_order levels C = a # as"
    by (cases "service_order levels C") auto
  from pop_head [OF Suc.prems(1) order] obtain q' C' where 1: "pop q = Inr (q', Some a)" "rep q' C'"
    "service_order levels C' = as" by blast
  with Suc.prems(2) order Suc.IH [of q' C'] show ?case by auto
qed

text \<open>An element just pushed is served after everything at its level and above.\<close>

lemma push_served_after:
  assumes "rep q C" and "valid a" and "j < levels" and "\<forall>i<levels. a \<notin> set (C i)"
  shows "\<exists>q' C'. push q a j = Inr q' \<and> rep q' C'
           \<and> service_order levels C' = concat (map C (rev [j..<levels])) @ a # service_order j C"
proof -
  have "service_order n (C(j := C j @ [a])) = concat (map C (rev [j..<n])) @ a # service_order j C"
    if "j < n" for n
    using that
  proof (induction n)
    case (Suc n)
    show ?case
    proof (cases "j = n")
      case True
      have "service_order n (C(n := C n @ [a])) = service_order n C"
        by (rule service_order_cong) simp
      then show ?thesis unfolding True service_order_Suc by simp
    next
      case False
      have ih: "service_order n (C(j := C j @ [a])) = concat (map C (rev [j..<n])) @ a # service_order j C"
        by (rule Suc.IH) (use False Suc.prems in simp)
      show ?thesis unfolding service_order_Suc ih using False Suc.prems by simp
    qed
  qed simp
  with push_ok [OF assms] assms(3) show ?thesis by blast
qed

end

end
