(* ===== verification/Ring_Queue.thy ===== *)
theory Ring_Queue
  imports Interfaces
begin

text \<open>
  The ring buffer of \<^verbatim>\<open>queue.c\<close>, in which a task keeps the identifiers of
  the tasks that wait to send to it.  One cell stays empty, so a container of
  \<open>n\<close> cells holds at most \<open>n - 1\<close> elements.  The \<^verbatim>\<open>int\<close>
  fields never become negative and stay below the capacity, so they are natural numbers;
  the field \<^verbatim>\<open>size\<close> is declared and never used by the code.
\<close>

record Queue =
  q_container :: "u64 list"
  q_capacity :: nat
  q_size :: nat
  q_head :: nat
  q_tail :: nat

definition modular_inc :: "nat \<Rightarrow> nat \<Rightarrow> nat" where
  "modular_inc x m = (x + 1) mod m"

definition queue_init :: "Queue \<Rightarrow> u64 list \<Rightarrow> nat \<Rightarrow> Queue" where
  "queue_init q container capacity =
     q\<lparr>q_container := container, q_capacity := capacity, q_head := 0, q_tail := 0\<rparr>"

definition queue_is_empty :: "Queue \<Rightarrow> bool" where
  "queue_is_empty q \<longleftrightarrow> q_head q = q_tail q"

definition queue_is_full :: "Queue \<Rightarrow> bool" where
  "queue_is_full q =
     (let after_tail = modular_inc (q_tail q) (q_capacity q)
      in if q_head q = after_tail then True else False)"

definition queue_push :: "Queue \<Rightarrow> u64 \<Rightarrow> (Queue \<times> bool) res" where
  "queue_push q elem =
     (if queue_is_full q then Inr (q, False)
      else let new_tail = modular_inc (q_tail q) (q_capacity q)
           in if q_tail q < length (q_container q)
              then Inr (q\<lparr>q_container := (q_container q)[q_tail q := elem], q_tail := new_tail\<rparr>, True)
              else Inl OutOfBounds)"

definition queue_pop :: "Queue \<Rightarrow> (Queue \<times> u64) res" where
  "queue_pop q =
     (if queue_is_empty q then Inr (q, 0)
      else if q_head q < length (q_container q)
           then let result = q_container q ! q_head q
                in Inr (q\<lparr>q_head := modular_inc (q_head q) (q_capacity q)\<rparr>, result)
           else Inl OutOfBounds)"

subsection \<open>Well-formed buffers and their contents\<close>

definition queue_inv :: "Queue \<Rightarrow> bool" where
  "queue_inv q \<longleftrightarrow> 0 < q_capacity q \<and> length (q_container q) = q_capacity q
     \<and> q_head q < q_capacity q \<and> q_tail q < q_capacity q"

definition queue_len :: "Queue \<Rightarrow> nat" where
  "queue_len q = (q_tail q + q_capacity q - q_head q) mod q_capacity q"

definition queue_cont :: "Queue \<Rightarrow> u64 list" where
  "queue_cont q = map (\<lambda>i. q_container q ! ((q_head q + i) mod q_capacity q)) [0..<queue_len q]"

lemma length_queue_cont [simp]: "length (queue_cont q) = queue_len q"
  by (simp add: queue_cont_def)

lemma queue_len_alt:
  assumes "queue_inv q"
  shows "queue_len q = (if q_head q \<le> q_tail q then q_tail q - q_head q
                        else q_tail q + q_capacity q - q_head q)"
proof (cases "q_head q \<le> q_tail q")
  case True
  then have "q_tail q + q_capacity q - q_head q = (q_tail q - q_head q) + q_capacity q" by simp
  then have "queue_len q = (q_tail q - q_head q) mod q_capacity q"
    by (simp only: queue_len_def mod_add_self2)
  with True assms show ?thesis by (simp add: queue_inv_def less_imp_diff_less)
next
  case False
  with assms have "q_tail q + q_capacity q - q_head q < q_capacity q"
    by (auto simp: queue_inv_def)
  with False show ?thesis by (simp add: queue_len_def)
qed

lemma queue_len_less: "queue_inv q \<Longrightarrow> queue_len q < q_capacity q"
  by (simp add: queue_len_def queue_inv_def)

lemma queue_empty_iff: "queue_inv q \<Longrightarrow> queue_is_empty q \<longleftrightarrow> queue_cont q = []"
  by (auto simp: queue_is_empty_def queue_len_alt queue_inv_def simp flip: length_0_conv
           split: if_splits)

lemma modular_inc_alt: "x < m \<Longrightarrow> modular_inc x m = (if Suc x = m then 0 else Suc x)"
  by (simp add: modular_inc_def)

lemma queue_full_iff:
  assumes "queue_inv q"
  shows "queue_is_full q \<longleftrightarrow> Suc (queue_len q) = q_capacity q"
  using assms
  by (auto simp: queue_is_full_def modular_inc_alt queue_len_alt queue_inv_def)

lemma tail_position:
  assumes "queue_inv q"
  shows "(q_head q + queue_len q) mod q_capacity q = q_tail q"
  using assms by (auto simp: queue_len_alt queue_inv_def)

lemma ring_index_inj:
  assumes "i < c" and "j < c" and "(h + i) mod c = (h + j) mod (c::nat)"
  shows "i = j"
  using assms
proof (induction i j rule: linorder_wlog)
  case (le i j)
  then have "c dvd (h + j) - (h + i)"
    using mod_eq_dvd_iff_nat [of "h + i" "h + j" c] by simp
  then have "c dvd j - i" by simp
  with le show ?case by (metis dvd_imp_le diff_is_0_eq le_antisym less_imp_diff_less not_le zero_less_iff_neq_zero)
next
  case (sym i j)
  then show ?case by simp
qed

lemma queue_push_room:
  assumes inv: "queue_inv q" and room: "Suc (queue_len q) < q_capacity q"
  shows "\<exists>q'. queue_push q e = Inr (q', True) \<and> queue_inv q' \<and> queue_cont q' = queue_cont q @ [e]
           \<and> q_capacity q' = q_capacity q"
proof -
  let ?q = "q\<lparr>q_container := (q_container q)[q_tail q := e],
              q_tail := modular_inc (q_tail q) (q_capacity q)\<rparr>"
  have push: "queue_push q e = Inr (?q, True)"
    using inv room queue_full_iff [OF inv] by (simp add: queue_push_def queue_inv_def Let_def)
  have inv': "queue_inv ?q"
    using inv by (simp add: queue_inv_def modular_inc_def)
  have len: "queue_len ?q = Suc (queue_len q)"
    using inv room inv' by (auto simp: queue_len_alt queue_inv_def modular_inc_alt split: if_splits)
  have old: "q_container ?q ! ((q_head q + i) mod q_capacity q) = q_container q ! ((q_head q + i) mod q_capacity q)"
    if "i < queue_len q" for i
  proof -
    have "(q_head q + i) mod q_capacity q \<noteq> q_tail q"
      using ring_index_inj [of i "q_capacity q" "queue_len q" "q_head q"] that
        queue_len_less [OF inv] tail_position [OF inv] by auto
    then show ?thesis by simp
  qed
  have new: "q_container ?q ! ((q_head q + queue_len q) mod q_capacity q) = e"
    using inv by (simp add: tail_position queue_inv_def)
  have "queue_cont ?q = queue_cont q @ [e]"
    using old new by (simp add: queue_cont_def len)
  with push inv' show ?thesis by auto
qed

lemma queue_push_full:
  assumes "queue_inv q" and "Suc (queue_len q) = q_capacity q"
  shows "queue_push q e = Inr (q, False)"
  using assms queue_full_iff [of q] by (simp add: queue_push_def)

lemma queue_pop_some:
  assumes inv: "queue_inv q" and c: "queue_cont q = e # es"
  shows "\<exists>q'. queue_pop q = Inr (q', e) \<and> queue_inv q' \<and> queue_cont q' = es
           \<and> q_capacity q' = q_capacity q"
proof -
  let ?q = "q\<lparr>q_head := modular_inc (q_head q) (q_capacity q)\<rparr>"
  have len: "queue_len q = Suc (length es)"
    using c by (metis length_Cons length_queue_cont)
  have inv': "queue_inv ?q"
    using inv by (simp add: queue_inv_def modular_inc_def)
  have len': "queue_len ?q = length es"
    using inv inv' len by (auto simp: queue_len_alt queue_inv_def modular_inc_alt split: if_splits)
  have nth: "q_container q ! ((q_head q + i) mod q_capacity q) = (e # es) ! i" if "i < Suc (length es)" for i
  proof -
    have "queue_cont q ! i = q_container q ! ((q_head q + i) mod q_capacity q)"
      using that len by (simp add: queue_cont_def del: upt_Suc)
    then show ?thesis by (simp add: c)
  qed
  have "queue_cont ?q = es"
  proof (rule nth_equalityI)
    show "length (queue_cont ?q) = length es" by (simp add: len')
    show "queue_cont ?q ! i = es ! i" if "i < length (queue_cont ?q)" for i
    proof -
      have "queue_cont ?q ! i = q_container q ! ((q_head q + Suc i) mod q_capacity q)"
        using that len' by (simp add: queue_cont_def modular_inc_def mod_simps)
      also have "\<dots> = es ! i" using nth [of "Suc i"] that len' by simp
      finally show ?thesis .
    qed
  qed
  moreover have "queue_pop q = Inr (?q, e)"
    using nth [of 0] inv c queue_empty_iff [OF inv] by (simp add: queue_pop_def queue_inv_def)
  ultimately show ?thesis using inv' by auto
qed

lemma queue_pop_empty: "queue_inv q \<Longrightarrow> queue_cont q = [] \<Longrightarrow> queue_pop q = Inr (q, 0)"
  by (simp add: queue_pop_def queue_empty_iff)

lemma queue_init_inv:
  assumes "0 < capacity" and "length container = capacity"
  shows "queue_inv (queue_init q container capacity) \<and> queue_cont (queue_init q container capacity) = []
    \<and> q_capacity (queue_init q container capacity) = capacity"
  using assms by (simp add: queue_init_def queue_inv_def queue_cont_def queue_len_def)

interpretation senders: bounded_fifo queue_inv queue_cont "\<lambda>q. q_capacity q - 1" queue_push queue_pop
proof
  show "length (queue_cont q) \<le> q_capacity q - 1" if "queue_inv q" for q
    using queue_len_less [OF that] by simp
  show "\<exists>q'. queue_push q a = Inr (q', True) \<and> queue_inv q' \<and> queue_cont q' = queue_cont q @ [a]
      \<and> q_capacity q' - 1 = q_capacity q - 1"
    if "queue_inv q" "length (queue_cont q) < q_capacity q - 1" for q a
    using queue_push_room [OF that(1), of a] that(2) by force
  show "queue_push q a = Inr (q, False)"
    if "queue_inv q" "length (queue_cont q) = q_capacity q - 1" for q a
    using queue_push_full [OF that(1)] that by (simp add: queue_inv_def)
  show "\<exists>q'. queue_pop q = Inr (q', a) \<and> queue_inv q' \<and> queue_cont q' = as
      \<and> q_capacity q' - 1 = q_capacity q - 1"
    if "queue_inv q" "queue_cont q = a # as" for q a as
    using queue_pop_some [OF that] by force
qed

end
