(* ===== verification/Task.thy ===== *)
theory Task
  imports Ring_Queue
begin

text \<open>
  The task descriptor of \<^verbatim>\<open>task.h\<close> and \<^verbatim>\<open>task.c\<close>.  A pointer to a task is the
  index of its cell in the static array \<^verbatim>\<open>task_pool\<close>, a pointer to a list node its
  index in the node array of its pool, a pointer to a stack block its index in
  \<^verbatim>\<open>memory_blocks\<close>; a null pointer is \<open>None\<close>.  The registers \<^verbatim>\<open>x[31]\<close>
  are a function: every access in the code has a constant index below 31.  The array
  \<^verbatim>\<open>sender_container\<close> is reached only through the queue \<^verbatim>\<open>senders\<close> that
  \<^verbatim>\<open>task_init\<close> binds to it; it is the container of that queue here.
\<close>

type_synonym task_ptr = nat
type_synonym node_ptr = nat
type_synonym block_ptr = nat

definition MAX_TASK_NUM :: nat where "MAX_TASK_NUM = 64"
definition TASK_POOL_SIZE :: nat where "TASK_POOL_SIZE = MAX_TASK_NUM"
definition TASK_PRIORITY_MIN :: i32 where "TASK_PRIORITY_MIN = 0"
definition TASK_PRIORITY_MAX :: nat where "TASK_PRIORITY_MAX = 10"
definition NUM_INTERRUPT :: nat where "NUM_INTERRUPT = 1024"
definition MAX_SENDER_CAPACITY :: nat where "MAX_SENDER_CAPACITY = 64"

datatype TaskState =
    INITIALIZED
  | WATISEND | WAITRECEIVE | WATIREPLY | AWATIEVENT
  | READY
  | RUNNING

text \<open>The comparison \<^verbatim>\<open>state < READY\<close> of \<^verbatim>\<open>schedule\<close> is on the numbers of the enum.\<close>

fun state_num :: "TaskState \<Rightarrow> nat" where
  "state_num INITIALIZED = 0"
| "state_num WATISEND = 1"
| "state_num WAITRECEIVE = 2"
| "state_num WATIREPLY = 3"
| "state_num AWATIEVENT = 4"
| "state_num READY = 5"
| "state_num RUNNING = 6"

lemma state_num_inject [simp]: "state_num a = state_num b \<longleftrightarrow> a = b"
  by (cases a; cases b) simp_all

instantiation TaskState :: linorder
begin

definition less_eq_TaskState :: "TaskState \<Rightarrow> TaskState \<Rightarrow> bool" where
  "less_eq_TaskState a b \<longleftrightarrow> state_num a \<le> state_num b"

definition less_TaskState :: "TaskState \<Rightarrow> TaskState \<Rightarrow> bool" where
  "less_TaskState a b \<longleftrightarrow> state_num a < state_num b"

instance
  by standard (auto simp: less_eq_TaskState_def less_TaskState_def)

end

lemma less_READY_iff: "s < READY \<longleftrightarrow> s \<noteq> READY \<and> s \<noteq> RUNNING"
  by (cases s) (simp_all add: less_TaskState_def)

record Task =
  t_x :: "nat \<Rightarrow> u64"
  t_sp :: u64
  t_spsr :: u64
  t_pc :: u64
  t_x30_copy :: u64
  t_result :: u64
  t_should_pass_result :: bool
  t_tid :: i32
  t_parent_tid :: i32
  t_priority :: i32
  t_state :: TaskState
  t_senders :: Queue
  t_job_node :: "node_ptr option"
  t_memory_block :: "block_ptr option"
  t_next :: "task_ptr option"

definition assign_result :: "Task \<Rightarrow> u64 \<Rightarrow> Task" where
  "assign_result task result = task\<lparr>t_should_pass_result := True, t_result := result\<rparr>"

definition task_init :: "Task \<Rightarrow> Task" where
  "task_init self = self\<lparr>
     t_tid := - 1,
     t_parent_tid := - 1,
     t_priority := TASK_PRIORITY_MIN,
     t_x := (\<lambda>i. if i < 31 then 0 else t_x self i),
     t_sp := 0,
     t_spsr := 0,
     t_pc := 0,
     t_result := 0,
     t_should_pass_result := False,
     t_memory_block := None,
     t_state := INITIALIZED,
     t_job_node := None,
     t_next := None,
     t_senders := queue_init (t_senders self) (q_container (t_senders self)) MAX_SENDER_CAPACITY\<rparr>"

subsection \<open>Facts about the descriptor\<close>

lemma assign_result_simps [simp]:
  "t_x (assign_result t r) = t_x t"
  "t_result (assign_result t r) = r"
  "t_should_pass_result (assign_result t r)"
  "t_tid (assign_result t r) = t_tid t"
  "t_parent_tid (assign_result t r) = t_parent_tid t"
  "t_priority (assign_result t r) = t_priority t"
  "t_state (assign_result t r) = t_state t"
  "t_senders (assign_result t r) = t_senders t"
  "t_job_node (assign_result t r) = t_job_node t"
  "t_memory_block (assign_result t r) = t_memory_block t"
  "t_next (assign_result t r) = t_next t"
  by (simp_all add: assign_result_def)

lemma task_init_simps [simp]:
  "t_state (task_init t) = INITIALIZED"
  "t_tid (task_init t) = - 1"
  "t_parent_tid (task_init t) = - 1"
  "t_priority (task_init t) = 0"
  "t_next (task_init t) = None"
  "t_job_node (task_init t) = None"
  "t_memory_block (task_init t) = None"
  "t_result (task_init t) = 0"
  "\<not> t_should_pass_result (task_init t)"
  by (simp_all add: task_init_def TASK_PRIORITY_MIN_def)

lemma task_init_senders:
  assumes "length (q_container (t_senders t)) = MAX_SENDER_CAPACITY"
  shows "queue_inv (t_senders (task_init t)) \<and> queue_cont (t_senders (task_init t)) = []
    \<and> q_capacity (t_senders (task_init t)) = MAX_SENDER_CAPACITY"
  using assms queue_init_inv [of MAX_SENDER_CAPACITY "q_container (t_senders t)" "t_senders t"]
  by (simp add: task_init_def MAX_SENDER_CAPACITY_def)

end
