(* ===== verification/Task_List.thy ===== *)
theory Task_List
  imports Task
begin

text \<open>
  The first half of \<^verbatim>\<open>task_queue.c\<close>: the pool of list nodes and the doubly linked lists
  of tasks built from them.  The node array is a function from node indices, so that the
  pointer updates of the code are updates of that function; the array of free indices is
  a list of fixed length with the stack pointer \<^verbatim>\<open>size\<close>.  Several lists draw their nodes
  from one pool, so every list operation takes the pool and returns it.  The representation
  predicate \<open>pool_rep\<close> relates a pool and a family of lists over it to the sequences
  of node indices the lists hold.
\<close>

subsection \<open>The node pool\<close>

record TaskNode =
  tn_task :: "task_ptr option"
  tn_prev :: "node_ptr option"
  tn_next :: "node_ptr option"

record TaskNodePool =
  np_available :: "nat list"
  np_size :: nat
  np_nodes :: "node_ptr \<Rightarrow> TaskNode"

definition task_node_init ::
  "TaskNode \<Rightarrow> task_ptr option \<Rightarrow> node_ptr option \<Rightarrow> node_ptr option \<Rightarrow> TaskNode" where
  "task_node_init node task prev nxt = node\<lparr>tn_task := task, tn_prev := prev, tn_next := nxt\<rparr>"

definition upd_node :: "TaskNodePool \<Rightarrow> node_ptr \<Rightarrow> (TaskNode \<Rightarrow> TaskNode) \<Rightarrow> TaskNodePool" where
  "upd_node pool n f = pool\<lparr>np_nodes := (np_nodes pool)(n := f (np_nodes pool n))\<rparr>"

definition task_node_pool_init :: "TaskNodePool \<Rightarrow> TaskNodePool" where
  "task_node_pool_init pool = pool\<lparr>np_available := [0..<MAX_TASK_NUM], np_size := MAX_TASK_NUM\<rparr>"

definition task_node_alloc :: "TaskNodePool \<Rightarrow> (TaskNodePool \<times> node_ptr) res" where
  "task_node_alloc pool =
     bindE (assertE (0 < np_size pool \<and> np_size pool \<le> MAX_TASK_NUM)) (\<lambda>_.
     let size' = np_size pool - 1;
         result = np_available pool ! size'
     in Inr (upd_node (pool\<lparr>np_size := size'\<rparr>) result (\<lambda>nd. task_node_init nd None None None),
             result))"

definition task_node_free :: "TaskNodePool \<Rightarrow> node_ptr option \<Rightarrow> TaskNodePool res" where
  "task_node_free pool node =
     (case node of None \<Rightarrow> Inl Assertion
      | Some index \<Rightarrow>
          bindE (assertE (np_size pool < MAX_TASK_NUM)) (\<lambda>_.
          bindE (assertE (index < MAX_TASK_NUM)) (\<lambda>_.
          Inr (pool\<lparr>np_available := (np_available pool)[np_size pool := index],
                     np_size := np_size pool + 1\<rparr>))))"

subsection \<open>Doubly linked lists\<close>

record TaskList =
  tl_size :: u32
  tl_head :: "node_ptr option"
  tl_tail :: "node_ptr option"

definition task_list_init :: "TaskList \<Rightarrow> TaskList" where
  "task_list_init list = list\<lparr>tl_head := None, tl_tail := None, tl_size := 0\<rparr>"

definition task_list_empty :: "TaskList \<Rightarrow> bool" where
  "task_list_empty list \<longleftrightarrow> tl_size list = 0"

definition task_list_push_back ::
  "TaskNodePool \<Rightarrow> TaskList \<Rightarrow> task_ptr \<Rightarrow> (TaskNodePool \<times> TaskList) res" where
  "task_list_push_back pool list task =
     bindE (task_node_alloc pool) (\<lambda>(pool, node).
     let pool = upd_node pool node (\<lambda>nd. task_node_init nd (Some task) (tl_tail list) None)
     in bindE
          (if tl_size list \<noteq> 0
           then bindE (derefE (tl_tail list)) (\<lambda>tail.
                Inr (upd_node pool tail (\<lambda>nd. nd\<lparr>tn_next := Some node\<rparr>),
                     list\<lparr>tl_tail := Some node\<rparr>))
           else bindE (assertE (tl_tail list = None \<and> tl_head list = None)) (\<lambda>_.
                Inr (pool, list\<lparr>tl_head := Some node, tl_tail := Some node\<rparr>)))
        (\<lambda>(pool, list). Inr (pool, list\<lparr>tl_size := tl_size list + 1\<rparr>)))"

definition task_list_remove_node ::
  "TaskNodePool \<Rightarrow> TaskList \<Rightarrow> node_ptr option \<Rightarrow> (TaskNodePool \<times> TaskList \<times> task_ptr option) res" where
  "task_list_remove_node pool list node =
     (case node of None \<Rightarrow> Inl Assertion
      | Some n \<Rightarrow>
        let nd = np_nodes pool n;
            (pool, list) =
              (case tn_next nd of
                 Some m \<Rightarrow> (upd_node pool m (\<lambda>x. x\<lparr>tn_prev := tn_prev nd\<rparr>), list)
               | None \<Rightarrow> (pool, list\<lparr>tl_tail := tn_prev nd\<rparr>));
            nd = np_nodes pool n;
            (pool, list) =
              (case tn_prev nd of
                 Some m \<Rightarrow> (upd_node pool m (\<lambda>x. x\<lparr>tn_next := tn_next nd\<rparr>), list)
               | None \<Rightarrow> (pool, list\<lparr>tl_head := tn_next nd\<rparr>));
            list = list\<lparr>tl_size := tl_size list - 1\<rparr>;
            task = tn_task (np_nodes pool n)
        in bindE (task_node_free pool (Some n)) (\<lambda>pool. Inr (pool, list, task)))"

definition task_list_pop_front ::
  "TaskNodePool \<Rightarrow> TaskList \<Rightarrow> (TaskNodePool \<times> TaskList \<times> task_ptr option) res" where
  "task_list_pop_front pool list = task_list_remove_node pool list (tl_head list)"

subsection \<open>Linked segments\<close>

fun first_or :: "'a list \<Rightarrow> 'a option \<Rightarrow> 'a option" where
  "first_or [] q = q"
| "first_or (m # _) q = Some m"

definition last_or :: "'a option \<Rightarrow> 'a list \<Rightarrow> 'a option" where
  "last_or p ns = (if ns = [] then p else Some (last ns))"

text \<open>
  \<open>dll h p ns q\<close>: the nodes \<open>ns\<close> are linked in this order in both directions, the first
  one points back to \<open>p\<close> and the last one forward to \<open>q\<close>.
\<close>

fun dll :: "(node_ptr \<Rightarrow> TaskNode) \<Rightarrow> node_ptr option \<Rightarrow> node_ptr list \<Rightarrow> node_ptr option \<Rightarrow> bool" where
  "dll h p [] q \<longleftrightarrow> True"
| "dll h p (n # ns) q \<longleftrightarrow> tn_prev (h n) = p \<and> tn_next (h n) = first_or ns q \<and> dll h (Some n) ns q"

lemma last_or_simps [simp]:
  "last_or p [] = p"
  "last_or p (ns @ [n]) = Some n"
  "last_or p (n # ns) = last_or (Some n) ns"
  "last_or p (xs @ n # ns) = last_or (Some n) ns"
  by (simp_all add: last_or_def)

lemma first_or_append [simp]: "first_or (xs @ ys) q = first_or xs (first_or ys q)"
  by (cases xs) simp_all

lemma dll_append: "dll h p (xs @ ys) q \<longleftrightarrow> dll h p xs (first_or ys q) \<and> dll h (last_or p xs) ys q"
  by (induction xs arbitrary: p) simp_all

lemma dll_cong:
  assumes "\<And>n. n \<in> set ns \<Longrightarrow> tn_prev (h' n) = tn_prev (h n) \<and> tn_next (h' n) = tn_next (h n)"
  shows "dll h' p ns q = dll h p ns q"
  using assms by (induction ns arbitrary: p) simp_all

lemma dll_relink_last:
  assumes "dll h p (xs @ [a]) q" and "a \<notin> set xs"
  shows "dll (h(a := (h a)\<lparr>tn_next := q'\<rparr>)) p (xs @ [a]) q'"
proof -
  have "dll (h(a := (h a)\<lparr>tn_next := q'\<rparr>)) p xs (Some a) = dll h p xs (Some a)"
    using assms(2) by (intro dll_cong) auto
  with assms(1) show ?thesis by (simp add: dll_append)
qed

lemma dll_relink_first:
  assumes "dll h p (a # ys) q" and "a \<notin> set ys"
  shows "dll (h(a := (h a)\<lparr>tn_prev := p'\<rparr>)) p' (a # ys) q"
proof -
  have "dll (h(a := (h a)\<lparr>tn_prev := p'\<rparr>)) (Some a) ys q = dll h (Some a) ys q"
    using assms(2) by (intro dll_cong) auto
  with assms(1) show ?thesis by simp
qed

subsection \<open>One list and its nodes\<close>

definition list_rep :: "(node_ptr \<Rightarrow> TaskNode) \<Rightarrow> TaskList \<Rightarrow> node_ptr list \<Rightarrow> bool" where
  "list_rep h l ns \<longleftrightarrow> dll h None ns None \<and> distinct ns
     \<and> tl_head l = first_or ns None \<and> tl_tail l = last_or None ns
     \<and> tl_size l = word_of_nat (length ns)"

lemma list_rep_cong:
  assumes "\<And>n. n \<in> set ns \<Longrightarrow> h' n = h n"
  shows "list_rep h' l ns = list_rep h l ns"
  using dll_cong [of ns h' h None None] assms by (simp add: list_rep_def)

lemma list_rep_empty_iff:
  assumes "list_rep h l ns" and "length ns \<le> MAX_TASK_NUM"
  shows "task_list_empty l \<longleftrightarrow> ns = []"
  using assms word_of_nat_0_iff32 [of "length ns"]
  by (simp add: list_rep_def task_list_empty_def MAX_TASK_NUM_def)

lemma list_rep_init: "list_rep h (task_list_init l) []"
  by (simp add: list_rep_def task_list_init_def)

lemma list_rep_insert_tail:
  fixes h :: "node_ptr \<Rightarrow> TaskNode"
  assumes rep: "list_rep h l (xs @ [a])" and new: "n \<notin> set (xs @ [a])"
    and node: "tn_prev (h n) = Some a" "tn_next (h n) = None"
  shows "list_rep (h(a := (h a)\<lparr>tn_next := Some n\<rparr>))
           (l\<lparr>tl_tail := Some n, tl_size := tl_size l + 1\<rparr>) (xs @ [a, n])"
proof -
  let ?h = "h(a := (h a)\<lparr>tn_next := Some n\<rparr>)"
  from rep have d: "dll h None (xs @ [a]) None" "distinct (xs @ [a])" by (simp_all add: list_rep_def)
  have "dll ?h None (xs @ [a]) (Some n)"
    using dll_relink_last [of h None xs a None "Some n"] d by simp
  moreover have "dll ?h (Some a) [n] None" using node new by auto
  ultimately have "dll ?h None ((xs @ [a]) @ [n]) None"
    unfolding dll_append by simp
  then show ?thesis using rep new by (simp add: list_rep_def last_or_def)
qed

lemma list_rep_insert_empty:
  assumes "list_rep h l []" and "tn_prev (h n) = None" "tn_next (h n) = None"
  shows "list_rep h (l\<lparr>tl_head := Some n, tl_tail := Some n, tl_size := tl_size l + 1\<rparr>) [n]"
  using assms by (simp add: list_rep_def)

text \<open>Unlinking a node from the middle: the two neighbours (if any) are joined.\<close>

lemma dll_unlink:
  fixes h :: "node_ptr \<Rightarrow> TaskNode"
  assumes rep: "dll h p (xs @ n # ys) q" and dist: "distinct (xs @ n # ys)"
    and h1: "h1 = (case ys of [] \<Rightarrow> h | m # _ \<Rightarrow> h(m := (h m)\<lparr>tn_prev := last_or p xs\<rparr>))"
    and h2: "h2 = (if xs = [] then h1 else h1(last xs := (h1 (last xs))\<lparr>tn_next := first_or ys q\<rparr>))"
  shows "dll h2 p (xs @ ys) q"
proof -
  from rep have x: "dll h p xs (Some n)" and y: "dll h (Some n) ys q" by (simp_all add: dll_append)
  have x1: "dll h1 p xs (Some n)"
    using x dist by (subst dll_cong [of xs h1 h]) (auto simp: h1 split: list.splits)
  have y1: "dll h1 (last_or p xs) ys q"
  proof (cases ys)
    case Nil
    then show ?thesis by simp
  next
    case (Cons m zs)
    then show ?thesis
      using dll_relink_first [of h "Some n" m zs q "last_or p xs"] y dist by (simp add: h1)
  qed
  have y2: "dll h2 (last_or p xs) ys q"
  proof -
    have "xs \<noteq> [] \<Longrightarrow> last xs \<notin> set ys" using dist last_in_set by fastforce
    then show ?thesis using y1 by (subst dll_cong [of ys h2 h1]) (auto simp: h2)
  qed
  have x2: "dll h2 p xs (first_or ys q)"
  proof (cases xs rule: rev_cases)
    case Nil
    then show ?thesis by simp
  next
    case (snoc zs a)
    then show ?thesis
      using dll_relink_last [of h1 p zs a "Some n" "first_or ys q"] x1 dist by (simp add: h2)
  qed
  from x2 y2 show ?thesis by (simp add: dll_append)
qed

text \<open>What \<^verbatim>\<open>task_list_remove_node\<close> does to a node that is not its own neighbour.\<close>

lemma task_list_remove_node_eval:
  assumes room: "np_size p < MAX_TASK_NUM" and n: "n < MAX_TASK_NUM"
    and nd: "tn_prev (np_nodes p n) = pv" "tn_next (np_nodes p n) = nx"
    and d: "pv \<noteq> Some n" "nx \<noteq> Some n" "pv = nx \<longrightarrow> pv = None"
  shows "task_list_remove_node p l (Some n) =
    (let h1 = (case nx of None \<Rightarrow> np_nodes p
               | Some b \<Rightarrow> (np_nodes p)(b := (np_nodes p b)\<lparr>tn_prev := pv\<rparr>));
         h2 = (case pv of None \<Rightarrow> h1 | Some a \<Rightarrow> h1(a := (h1 a)\<lparr>tn_next := nx\<rparr>))
     in Inr (p\<lparr>np_nodes := h2, np_available := (np_available p)[np_size p := n], np_size := np_size p + 1\<rparr>,
             l\<lparr>tl_head := (if pv = None then nx else tl_head l),
               tl_tail := (if nx = None then pv else tl_tail l),
               tl_size := tl_size l - 1\<rparr>,
             tn_task (np_nodes p n)))"
proof -
  have same: "l\<lparr>tl_head := tl_head l, tl_tail := y\<rparr> = l\<lparr>tl_tail := y\<rparr>"
    "l\<lparr>tl_head := x, tl_tail := tl_tail l\<rparr> = l\<lparr>tl_head := x\<rparr>"
    "l\<lparr>tl_head := tl_head l, tl_tail := tl_tail l, tl_size := z\<rparr> = l\<lparr>tl_size := z\<rparr>" for x y z
    by (cases l; simp)+
  show ?thesis
    using room n nd d same
    by (cases pv; cases nx)
      (simp_all add: task_list_remove_node_def upd_node_def Let_def task_node_free_def)
qed

lemma task_list_remove_node_rep:
  assumes rep: "list_rep (np_nodes p) l (xs @ n # ys)"
    and room: "np_size p < MAX_TASK_NUM" and n: "n < MAX_TASK_NUM"
  shows "\<exists>p' l'. task_list_remove_node p l (Some n) = Inr (p', l', tn_task (np_nodes p n))
    \<and> list_rep (np_nodes p') l' (xs @ ys)
    \<and> np_size p' = Suc (np_size p) \<and> np_available p' = (np_available p)[np_size p := n]
    \<and> (\<forall>m. m \<notin> set (xs @ ys) \<longrightarrow> np_nodes p' m = np_nodes p m)
    \<and> (\<forall>m. tn_task (np_nodes p' m) = tn_task (np_nodes p m))"
proof -
  let ?h = "np_nodes p"
  define h1 where "h1 = (case ys of [] \<Rightarrow> ?h | m # _ \<Rightarrow> ?h(m := (?h m)\<lparr>tn_prev := last_or None xs\<rparr>))"
  define h2 where "h2 = (if xs = [] then h1 else h1(last xs := (h1 (last xs))\<lparr>tn_next := first_or ys None\<rparr>))"
  define l' where "l' = l\<lparr>tl_head := (if last_or None xs = None then first_or ys None else tl_head l),
                         tl_tail := (if first_or ys None = None then last_or None xs else tl_tail l),
                         tl_size := tl_size l - 1\<rparr>"
  define p' where "p' = p\<lparr>np_nodes := h2, np_available := (np_available p)[np_size p := n],
                         np_size := np_size p + 1\<rparr>"
  from rep have d: "dll ?h None (xs @ n # ys) None" and dist: "distinct (xs @ n # ys)"
    and l: "tl_head l = first_or (xs @ n # ys) None" "tl_tail l = last_or None (xs @ n # ys)"
      "tl_size l = word_of_nat (length (xs @ n # ys))" by (simp_all add: list_rep_def)
  from d have nd: "tn_prev (?h n) = last_or None xs" "tn_next (?h n) = first_or ys None"
    by (simp_all add: dll_append)
  have "dll h2 None (xs @ ys) None"
    by (rule dll_unlink [OF d dist h1_def h2_def])
  then have rep': "list_rep (np_nodes p') l' (xs @ ys)"
    using dist l by (cases ys; cases xs rule: rev_cases) (simp_all add: list_rep_def p'_def l'_def)
  have eq: "task_list_remove_node p l (Some n) = Inr (p', l', tn_task (?h n))"
  proof -
    have neigh: "last_or None xs \<noteq> Some n" "first_or ys None \<noteq> Some n"
      "last_or None xs = first_or ys None \<longrightarrow> last_or None xs = None"
      using dist last_in_set [of xs] by (cases ys; auto simp: last_or_def split: if_splits)+
    have h1': "(case first_or ys None of None \<Rightarrow> ?h | Some b \<Rightarrow> ?h(b := (?h b)\<lparr>tn_prev := last_or None xs\<rparr>)) = h1"
      by (cases ys) (simp_all add: h1_def)
    have h2': "(case last_or None xs of None \<Rightarrow> h1 | Some a \<Rightarrow> h1(a := (h1 a)\<lparr>tn_next := first_or ys None\<rparr>)) = h2"
      by (simp add: h2_def last_or_def)
    show ?thesis
      unfolding task_list_remove_node_eval [OF room n nd neigh] Let_def h1' h2' p'_def l'_def by (rule refl)
  qed
  have h1m: "(m \<notin> set ys \<longrightarrow> h1 m = ?h m) \<and> tn_task (h1 m) = tn_task (?h m)" for m
    by (cases ys) (simp_all add: h1_def)
  have h2m: "(m \<notin> set xs \<longrightarrow> h2 m = h1 m) \<and> tn_task (h2 m) = tn_task (h1 m)" for m
    by (cases xs rule: rev_cases) (simp_all add: h2_def)
  have "\<forall>m. m \<notin> set (xs @ ys) \<longrightarrow> np_nodes p' m = np_nodes p m"
    using h1m h2m by (simp add: p'_def)
  moreover have "\<forall>m. tn_task (np_nodes p' m) = tn_task (np_nodes p m)"
    using h1m h2m by (simp add: p'_def)
  ultimately show ?thesis using eq rep' by (simp add: p'_def)
qed

lemma task_node_alloc_ok:
  assumes "0 < np_size p" and "np_size p \<le> MAX_TASK_NUM"
  shows "task_node_alloc p = Inr (upd_node (p\<lparr>np_size := np_size p - 1\<rparr>)
           (np_available p ! (np_size p - 1)) (\<lambda>nd. task_node_init nd None None None),
         np_available p ! (np_size p - 1))"
  using assms by (simp add: task_node_alloc_def Let_def)

lemma task_list_push_back_rep:
  assumes rep: "list_rep (np_nodes p) l ns" and len: "length ns \<le> MAX_TASK_NUM"
    and size: "0 < np_size p" "np_size p \<le> MAX_TASK_NUM"
    and n: "n = np_available p ! (np_size p - 1)" and new: "n \<notin> set ns"
  shows "\<exists>p' l'. task_list_push_back p l t = Inr (p', l')
    \<and> list_rep (np_nodes p') l' (ns @ [n]) \<and> tl_tail l' = Some n
    \<and> np_size p' = np_size p - 1 \<and> np_available p' = np_available p
    \<and> (\<forall>m. m \<notin> set (ns @ [n]) \<longrightarrow> np_nodes p' m = np_nodes p m)
    \<and> (\<forall>m. tn_task (np_nodes p' m) = (if m = n then Some t else tn_task (np_nodes p m)))"
proof -
  let ?nd = "task_node_init (np_nodes p n) (Some t) (tl_tail l) None"
  let ?h = "(np_nodes p)(n := ?nd)"
  have rep1: "list_rep ?h l ns" using rep new by (subst list_rep_cong) auto
  have n': "np_available p ! (np_size p - Suc 0) = n" using n by simp
  have nonempty: "tl_size l \<noteq> 0 \<longleftrightarrow> ns \<noteq> []"
    using list_rep_empty_iff [OF rep len] by (simp add: task_list_empty_def)
  show ?thesis
  proof (cases ns rule: rev_cases)
    case Nil
    with rep have ht: "tl_head l = None" "tl_tail l = None" by (simp_all add: list_rep_def)
    have "list_rep ?h (l\<lparr>tl_head := Some n, tl_tail := Some n, tl_size := tl_size l + 1\<rparr>) [n]"
      using list_rep_insert_empty [of ?h l n] rep1 ht Nil by (simp add: task_node_init_def)
    then show ?thesis
      using size nonempty Nil ht
      by (simp add: task_list_push_back_def task_node_alloc_ok upd_node_def n'
            task_node_init_def Let_def)
  next
    case (snoc xs a)
    with rep have tail: "tl_tail l = Some a" by (simp add: list_rep_def)
    from new snoc have "a \<noteq> n" by auto
    have "list_rep (?h(a := (?h a)\<lparr>tn_next := Some n\<rparr>))
            (l\<lparr>tl_tail := Some n, tl_size := tl_size l + 1\<rparr>) (xs @ [a, n])"
      using list_rep_insert_tail [of ?h l xs a n] rep1 new snoc tail by (simp add: task_node_init_def)
    then show ?thesis
      using size nonempty snoc tail \<open>a \<noteq> n\<close>
      by (simp add: task_list_push_back_def task_node_alloc_ok upd_node_def n'
            task_node_init_def Let_def)
  qed
qed

subsection \<open>The pool as an allocator\<close>

definition free_nodes :: "TaskNodePool \<Rightarrow> node_ptr set" where
  "free_nodes p = set (take (np_size p) (np_available p))"

definition node_pool_inv :: "TaskNodePool \<Rightarrow> bool" where
  "node_pool_inv p \<longleftrightarrow> length (np_available p) = MAX_TASK_NUM \<and> np_size p \<le> MAX_TASK_NUM
     \<and> distinct (take (np_size p) (np_available p)) \<and> free_nodes p \<subseteq> {0..<MAX_TASK_NUM}"

lemma card_free_nodes: "node_pool_inv p \<Longrightarrow> card (free_nodes p) = np_size p"
  by (simp add: node_pool_inv_def free_nodes_def distinct_card min_def)

lemma node_pool_init_inv:
  "node_pool_inv (task_node_pool_init p) \<and> free_nodes (task_node_pool_init p) = {0..<MAX_TASK_NUM}"
  by (simp add: node_pool_inv_def free_nodes_def task_node_pool_init_def)

lemma free_nodes_pop:
  assumes "node_pool_inv p" and "0 < np_size p" and "n = np_available p ! (np_size p - 1)"
    and "np_available p' = np_available p" and "np_size p' = np_size p - 1"
  shows "node_pool_inv p' \<and> n \<in> free_nodes p \<and> free_nodes p' = free_nodes p - {n}"
proof -
  obtain k where k: "np_size p = Suc k" using assms(2) by (cases "np_size p") auto
  with assms(1) have t: "take (np_size p) (np_available p) = take k (np_available p) @ [n]"
    using assms(3) by (simp add: node_pool_inv_def take_Suc_conv_app_nth)
  with assms k show ?thesis
    by (auto simp: node_pool_inv_def free_nodes_def)
qed

lemma free_nodes_push:
  assumes "node_pool_inv p" and "n < MAX_TASK_NUM" and "n \<notin> free_nodes p"
    and "np_available p' = (np_available p)[np_size p := n]" and "np_size p' = Suc (np_size p)"
  shows "np_size p < MAX_TASK_NUM \<and> node_pool_inv p' \<and> free_nodes p' = insert n (free_nodes p)"
proof -
  have "card (insert n (free_nodes p)) \<le> card {0..<MAX_TASK_NUM}"
    using assms(1,2) by (intro card_mono) (auto simp: node_pool_inv_def)
  then have less: "np_size p < MAX_TASK_NUM"
    using assms(1,3) card_free_nodes [OF assms(1)] by (simp add: free_nodes_def)
  then have "take (np_size p') (np_available p') = take (np_size p) (np_available p) @ [n]"
    using assms by (simp add: node_pool_inv_def take_Suc_conv_app_nth)
  with assms less show ?thesis by (auto simp: node_pool_inv_def free_nodes_def)
qed

definition node_alloc_opt :: "TaskNodePool \<Rightarrow> (TaskNodePool \<times> node_ptr) option" where
  "node_alloc_opt p = (case task_node_alloc p of Inl _ \<Rightarrow> None | Inr r \<Rightarrow> Some r)"

definition node_release :: "TaskNodePool \<Rightarrow> node_ptr \<Rightarrow> TaskNodePool" where
  "node_release p n = the_res (task_node_free p (Some n))"

interpretation node_pool: allocator node_pool_inv free_nodes node_alloc_opt node_release "{0..<MAX_TASK_NUM}"
proof
  show "free_nodes p \<subseteq> {0..<MAX_TASK_NUM}" if "node_pool_inv p" for p
    using that by (simp add: node_pool_inv_def)
  show "finite {0..<MAX_TASK_NUM}" by simp
  show "(node_alloc_opt p = None) = (free_nodes p = {})" if "node_pool_inv p" for p
    using that card_free_nodes [OF that]
    by (auto simp: node_alloc_opt_def task_node_alloc_def bindE_assertE free_nodes_def node_pool_inv_def Let_def)
  show "node_pool_inv p' \<and> c \<in> free_nodes p \<and> free_nodes p' = free_nodes p - {c}"
    if "node_pool_inv p" "node_alloc_opt p = Some (p', c)" for p p' c
    using that free_nodes_pop [OF that(1), of c p']
    by (auto simp: node_alloc_opt_def task_node_alloc_def bindE_assertE upd_node_def Let_def split: if_splits)
  show "node_pool_inv (node_release p c) \<and> free_nodes (node_release p c) = insert c (free_nodes p)"
    if "node_pool_inv p" "c \<in> {0..<MAX_TASK_NUM}" "c \<notin> free_nodes p" for p c
  proof -
    let ?p = "p\<lparr>np_available := (np_available p)[np_size p := c], np_size := np_size p + 1\<rparr>"
    have "np_size p < MAX_TASK_NUM \<and> node_pool_inv ?p \<and> free_nodes ?p = insert c (free_nodes p)"
      using that by (intro free_nodes_push) auto
    with that show ?thesis by (simp add: node_release_def task_node_free_def)
  qed
qed

subsection \<open>A pool and the lists built from it\<close>

definition pool_rep ::
  "'k set \<Rightarrow> TaskNodePool \<Rightarrow> ('k \<Rightarrow> TaskList) \<Rightarrow> ('k \<Rightarrow> node_ptr list) \<Rightarrow> bool" where
  "pool_rep K p L N \<longleftrightarrow> node_pool_inv p
     \<and> (\<forall>k\<in>K. list_rep (np_nodes p) (L k) (N k))
     \<and> (\<forall>k\<in>K. \<forall>k'\<in>K. k \<noteq> k' \<longrightarrow> set (N k) \<inter> set (N k') = {})
     \<and> (\<forall>k\<in>K. set (N k) \<inter> free_nodes p = {})
     \<and> free_nodes p \<union> (\<Union>k\<in>K. set (N k)) = {0..<MAX_TASK_NUM}"

lemma pool_rep_init:
  assumes "\<And>k. k \<in> K \<Longrightarrow> L k = task_list_init (L0 k)"
  shows "pool_rep K (task_node_pool_init p) L (\<lambda>_. [])"
  using assms node_pool_init_inv [of p] by (simp add: pool_rep_def list_rep_init)

lemma pool_rep_length:
  assumes "pool_rep K p L N" and "k \<in> K"
  shows "length (N k) \<le> MAX_TASK_NUM"
  using assms by (intro card_bounded_distinct) (auto simp: pool_rep_def list_rep_def)

lemma pool_rep_empty_iff:
  assumes "pool_rep K p L N" and "k \<in> K"
  shows "task_list_empty (L k) \<longleftrightarrow> N k = []"
  using assms pool_rep_length [OF assms] list_rep_empty_iff by (auto simp: pool_rep_def)

lemma pool_rep_head: "pool_rep K p L N \<Longrightarrow> k \<in> K \<Longrightarrow> tl_head (L k) = first_or (N k) None"
  by (simp add: pool_rep_def list_rep_def)

lemma pool_rep_cong:
  assumes "\<And>k. k \<in> K \<Longrightarrow> L' k = L k" and "\<And>k. k \<in> K \<Longrightarrow> N' k = N k"
  shows "pool_rep K p L' N' = pool_rep K p L N"
  using assms by (simp add: pool_rep_def)

lemma pool_rep_node:
  assumes "pool_rep K p L N" and "k \<in> K" and "n \<in> set (N k)"
  shows "n < MAX_TASK_NUM" and "n \<notin> free_nodes p"
proof -
  from assms have "n \<in> (\<Union>k\<in>K. set (N k))" by blast
  with assms(1) have "n \<in> {0..<MAX_TASK_NUM}" unfolding pool_rep_def by blast
  then show "n < MAX_TASK_NUM" by simp
  from assms show "n \<notin> free_nodes p" unfolding pool_rep_def by blast
qed

lemma pool_rep_disjoint:
  assumes "pool_rep K p L N" and "k \<in> K" and "j \<in> K" and "j \<noteq> k" and "n \<in> set (N k)"
  shows "n \<notin> set (N j)"
  using assms unfolding pool_rep_def by blast

lemma pool_rep_cover:
  "pool_rep K p L N \<Longrightarrow> free_nodes p \<union> (\<Union>k\<in>K. set (N k)) = {0..<MAX_TASK_NUM}"
  by (simp add: pool_rep_def)

lemma cover_take: "n \<in> F \<Longrightarrow> (F - {n}) \<union> insert n U = F \<union> U"
  by blast

lemma disjoint_insert_sub: "B \<inter> F = {} \<Longrightarrow> n \<notin> A \<Longrightarrow> A \<subseteq> B \<Longrightarrow> A \<inter> insert n F = {}"
  by blast

lemma pool_rep_push:
  assumes rep: "pool_rep K p L N" and k: "k \<in> K" and size: "0 < np_size p"
  shows "\<exists>p' l' n. task_list_push_back p (L k) t = Inr (p', l') \<and> tl_tail l' = Some n
    \<and> pool_rep K p' (L(k := l')) (N(k := N k @ [n]))
    \<and> n \<notin> (\<Union>k\<in>K. set (N k))
    \<and> (\<forall>m. tn_task (np_nodes p' m) = (if m = n then Some t else tn_task (np_nodes p m)))"
proof -
  define n where "n = np_available p ! (np_size p - 1)"
  from rep have inv: "node_pool_inv p" and l: "list_rep (np_nodes p) (L k) (N k)"
    using k by (auto simp: pool_rep_def)
  have n: "n \<in> free_nodes p" using free_nodes_pop [OF inv size n_def, of "p\<lparr>np_size := np_size p - 1\<rparr>"] by simp
  with rep have fresh: "n \<notin> set (N j)" if "j \<in> K" for j using that by (auto simp: pool_rep_def)
  obtain p' l' where push: "task_list_push_back p (L k) t = Inr (p', l')"
    "list_rep (np_nodes p') l' (N k @ [n])" "tl_tail l' = Some n"
    "np_size p' = np_size p - 1" "np_available p' = np_available p"
    "\<forall>m. m \<notin> set (N k @ [n]) \<longrightarrow> np_nodes p' m = np_nodes p m"
    "\<forall>m. tn_task (np_nodes p' m) = (if m = n then Some t else tn_task (np_nodes p m))"
    using task_list_push_back_rep [OF l pool_rep_length [OF rep k] size _ n_def fresh [OF k], of t] inv
    by (auto simp: node_pool_inv_def)
  have free: "node_pool_inv p'" "free_nodes p' = free_nodes p - {n}"
    using free_nodes_pop [OF inv size n_def push(5,4)] by auto
  have "pool_rep K p' (L(k := l')) (N(k := N k @ [n]))"
    unfolding pool_rep_def
  proof (intro conjI ballI impI)
    show "list_rep (np_nodes p') ((L(k := l')) j) ((N(k := N k @ [n])) j)" if "j \<in> K" for j
    proof (cases "j = k")
      case False
      have "np_nodes p' m = np_nodes p m" if "m \<in> set (N j)" for m
        using push(6) that fresh [OF \<open>j \<in> K\<close>] pool_rep_disjoint [OF rep \<open>j \<in> K\<close> k, of m] False
        by auto
      then have "list_rep (np_nodes p') (L j) (N j) = list_rep (np_nodes p) (L j) (N j)"
        by (rule list_rep_cong)
      with rep that False show ?thesis by (simp add: pool_rep_def)
    qed (use push(2) in simp)
    show "set ((N(k := N k @ [n])) i) \<inter> set ((N(k := N k @ [n])) j) = {}"
      if "i \<in> K" "j \<in> K" "i \<noteq> j" for i j
      using pool_rep_disjoint [OF rep that(1,2)] pool_rep_disjoint [OF rep that(2,1)] that fresh
      by (auto split: if_splits)
    show "set ((N(k := N k @ [n])) j) \<inter> free_nodes p' = {}" if "j \<in> K" for j
      using pool_rep_node(2) [OF rep that] free by (auto split: if_splits)
    show "free_nodes p' \<union> (\<Union>j\<in>K. set ((N(k := N k @ [n])) j)) = {0..<MAX_TASK_NUM}"
    proof -
      have "(\<Union>j\<in>K. set ((N(k := N k @ [n])) j)) = insert n (\<Union>j\<in>K. set (N j))"
        unfolding UN_fun_upd [OF k, of set] UN_split [OF k, of set N] by auto
      then show ?thesis
        unfolding pool_rep_cover [OF rep, symmetric] free(2) by (simp only: cover_take [OF n])
    qed
  qed (use free in auto)
  with push fresh show ?thesis by blast
qed

lemma pool_rep_remove:
  assumes rep: "pool_rep K p L N" and k: "k \<in> K" and N: "N k = xs @ n # ys"
  shows "\<exists>p' l'. task_list_remove_node p (L k) (Some n) = Inr (p', l', tn_task (np_nodes p n))
    \<and> pool_rep K p' (L(k := l')) (N(k := xs @ ys))
    \<and> (\<forall>m. tn_task (np_nodes p' m) = tn_task (np_nodes p m))"
proof -
  from rep k have inv: "node_pool_inv p" and l: "list_rep (np_nodes p) (L k) (xs @ n # ys)"
    by (auto simp: pool_rep_def simp flip: N)
  from rep k N have n: "n < MAX_TASK_NUM" "n \<notin> free_nodes p"
    using pool_rep_node [OF rep k, of n] by simp_all
  have size: "np_size p < MAX_TASK_NUM"
    using free_nodes_push [OF inv n, of "p\<lparr>np_available := (np_available p)[np_size p := n], np_size := Suc (np_size p)\<rparr>"]
    by simp
  obtain p' l' where rem: "task_list_remove_node p (L k) (Some n) = Inr (p', l', tn_task (np_nodes p n))"
    "list_rep (np_nodes p') l' (xs @ ys)"
    "np_size p' = Suc (np_size p)" "np_available p' = (np_available p)[np_size p := n]"
    "\<forall>m. m \<notin> set (xs @ ys) \<longrightarrow> np_nodes p' m = np_nodes p m"
    "\<forall>m. tn_task (np_nodes p' m) = tn_task (np_nodes p m)"
    using task_list_remove_node_rep [OF l size n(1)] by blast
  have free: "node_pool_inv p'" "free_nodes p' = insert n (free_nodes p)"
    using free_nodes_push [OF inv n rem(4,3)] by auto
  have dist: "distinct (xs @ n # ys)" using l by (simp add: list_rep_def)
  have other: "n \<notin> set (N j)" if "j \<in> K" "j \<noteq> k" for j
    using pool_rep_disjoint [OF rep k that(1)] that N by simp
  have sub: "set ((N(k := xs @ ys)) j) \<subseteq> set (N j)" for j
    using N by (cases "j = k") auto
  have "pool_rep K p' (L(k := l')) (N(k := xs @ ys))"
    unfolding pool_rep_def
  proof (intro conjI ballI impI)
    show "list_rep (np_nodes p') ((L(k := l')) j) ((N(k := xs @ ys)) j)" if "j \<in> K" for j
    proof (cases "j = k")
      case False
      have "np_nodes p' m = np_nodes p m" if "m \<in> set (N j)" for m
        using rem(5) that pool_rep_disjoint [OF rep \<open>j \<in> K\<close> k, of m] False N by auto
      then have "list_rep (np_nodes p') (L j) (N j) = list_rep (np_nodes p) (L j) (N j)"
        by (rule list_rep_cong)
      with rep that False show ?thesis by (simp add: pool_rep_def)
    qed (use rem(2) in simp)
    show "set ((N(k := xs @ ys)) j) \<inter> set ((N(k := xs @ ys)) j') = {}" if "j \<in> K" "j' \<in> K" "j \<noteq> j'" for j j'
    proof -
      from rep that have "set (N j) \<inter> set (N j') = {}" unfolding pool_rep_def by blast
      then show ?thesis using sub [of j] sub [of j'] by blast
    qed
    show "set ((N(k := xs @ ys)) j) \<inter> free_nodes p' = {}" if "j \<in> K" for j
    proof -
      from rep that have "set (N j) \<inter> free_nodes p = {}" unfolding pool_rep_def by blast
      moreover have "n \<notin> set ((N(k := xs @ ys)) j)" using other [OF that] dist by (cases "j = k") simp_all
      ultimately show ?thesis unfolding free(2) using sub [of j] by (intro disjoint_insert_sub)
    qed
    show "free_nodes p' \<union> (\<Union>j\<in>K. set ((N(k := xs @ ys)) j)) = {0..<MAX_TASK_NUM}"
    proof -
      have "insert n (\<Union>j\<in>K. set ((N(k := xs @ ys)) j)) = (\<Union>j\<in>K. set (N j))"
        unfolding UN_fun_upd [OF k, of set] UN_split [OF k, of set N] N by auto
      then show ?thesis
        unfolding pool_rep_cover [OF rep, symmetric] free(2) by (metis Un_insert_left Un_insert_right)
    qed
  qed (use free in auto)
  with rem show ?thesis by blast
qed

end
