(* ===== verification/Prio_Queue.thy ===== *)
theory Prio_Queue
  imports Task_List
begin

text \<open>
  The second half of \<^verbatim>\<open>task_queue.c\<close>: priority queues, one task list per priority.  The
  priority that \<^verbatim>\<open>ptask_queue_push\<close> reads from \<^verbatim>\<open>task->priority\<close> is passed in by the
  caller.  The array of lists is a function; the pushed priority is asserted to be in range.
  The predicate \<open>pqs_abs\<close> relates a family of priority queues over one pool (one ready
  queue, or the 1024 interrupt queues) to the lists of tasks they hold.
\<close>

record PriorityTaskQueue =
  pq_size :: u32
  pq_list :: "nat \<Rightarrow> TaskList"

definition valid_priority :: "i32 \<Rightarrow> bool" where
  "valid_priority priority \<longleftrightarrow>
     sint TASK_PRIORITY_MIN \<le> sint priority \<and> sint priority < int TASK_PRIORITY_MAX"

definition priority_index :: "i32 \<Rightarrow> nat" where
  "priority_index priority = nat (sint priority)"

definition ptask_queue_init :: "PriorityTaskQueue \<Rightarrow> PriorityTaskQueue" where
  "ptask_queue_init pq = pq\<lparr>pq_size := 0,
     pq_list := (\<lambda>i. if i < TASK_PRIORITY_MAX then task_list_init (pq_list pq i) else pq_list pq i)\<rparr>"

definition ptask_queue_empty :: "PriorityTaskQueue \<Rightarrow> bool" where
  "ptask_queue_empty pq \<longleftrightarrow> pq_size pq = 0"

text \<open>The downward loop of \<^verbatim>\<open>ptask_queue_pop\<close>: the highest index below the argument whose list is not empty.\<close>

fun ptask_queue_scan :: "PriorityTaskQueue \<Rightarrow> nat \<Rightarrow> nat option" where
  "ptask_queue_scan pq 0 = None"
| "ptask_queue_scan pq (Suc i) =
     (if \<not> task_list_empty (pq_list pq i) then Some i else ptask_queue_scan pq i)"

definition ptask_queue_pop ::
  "TaskNodePool \<Rightarrow> PriorityTaskQueue \<Rightarrow> (TaskNodePool \<times> PriorityTaskQueue \<times> task_ptr option) res" where
  "ptask_queue_pop pool pq =
     bindE (assertE (pq_size pq \<noteq> 0)) (\<lambda>_.
     case ptask_queue_scan pq TASK_PRIORITY_MAX of
       None \<Rightarrow> Inr (pool, pq, None)
     | Some i \<Rightarrow>
         let pq = pq\<lparr>pq_size := pq_size pq - 1\<rparr>
         in bindE (task_list_pop_front pool (pq_list pq i)) (\<lambda>(pool, list, task).
            Inr (pool, pq\<lparr>pq_list := (pq_list pq)(i := list)\<rparr>, task)))"

definition ptask_queue_push ::
  "TaskNodePool \<Rightarrow> PriorityTaskQueue \<Rightarrow> task_ptr \<Rightarrow> i32 \<Rightarrow> (TaskNodePool \<times> PriorityTaskQueue) res" where
  "ptask_queue_push pool pq task priority =
     bindE (assertE (valid_priority priority)) (\<lambda>_.
     let i = priority_index priority
     in bindE (task_list_push_back pool (pq_list pq i) task) (\<lambda>(pool, list).
        Inr (pool, pq\<lparr>pq_list := (pq_list pq)(i := list), pq_size := pq_size pq + 1\<rparr>)))"

lemma priority_index_less: "valid_priority p \<Longrightarrow> priority_index p < TASK_PRIORITY_MAX"
  by (simp add: valid_priority_def priority_index_def TASK_PRIORITY_MAX_def TASK_PRIORITY_MIN_def nat_less_iff)

subsection \<open>Families of priority queues and their contents\<close>

definition pq_keys :: "'i set \<Rightarrow> ('i \<times> nat) set" where
  "pq_keys I = I \<times> {..<TASK_PRIORITY_MAX}"

definition pq_lists :: "('i \<Rightarrow> PriorityTaskQueue) \<Rightarrow> 'i \<times> nat \<Rightarrow> TaskList" where
  "pq_lists Q k = pq_list (Q (fst k)) (snd k)"

definition pqs_abs ::
  "'i set \<Rightarrow> TaskNodePool \<Rightarrow> ('i \<Rightarrow> PriorityTaskQueue) \<Rightarrow> ('i \<Rightarrow> nat \<Rightarrow> task_ptr list) \<Rightarrow> bool" where
  "pqs_abs I p Q C \<longleftrightarrow>
     (\<exists>N. pool_rep (pq_keys I) p (pq_lists Q) N
        \<and> (\<forall>k\<in>pq_keys I. map (\<lambda>n. tn_task (np_nodes p n)) (N k) = map Some (C (fst k) (snd k))))
     \<and> (\<forall>i\<in>I. pq_size (Q i) = word_of_nat (length (service_order TASK_PRIORITY_MAX (C i))))"

lemma pq_keys_iff [simp]: "(i, j) \<in> pq_keys I \<longleftrightarrow> i \<in> I \<and> j < TASK_PRIORITY_MAX"
  by (simp add: pq_keys_def)

lemma pqs_abs_init:
  assumes "\<And>i. i \<in> I \<Longrightarrow> Q i = ptask_queue_init (Q0 i)"
  shows "pqs_abs I (task_node_pool_init p) Q (\<lambda>_ _. [])"
proof -
  have rep: "pool_rep (pq_keys I) (task_node_pool_init p) (pq_lists Q) (\<lambda>_. [])"
    using assms by (intro pool_rep_init [where ?L0.0 = "\<lambda>k. pq_list (Q0 (fst k)) (snd k)"])
      (auto simp: pq_lists_def ptask_queue_init_def)
  have order: "service_order TASK_PRIORITY_MAX (\<lambda>_. []) = []"
    by (simp add: service_order_Nil_iff)
  show ?thesis using assms rep
    unfolding pqs_abs_def order by (auto simp: ptask_queue_init_def)
qed

lemma pqs_abs_level_length:
  assumes "pqs_abs I p Q C" and "i \<in> I" and "j < TASK_PRIORITY_MAX"
  shows "length (C i j) \<le> MAX_TASK_NUM"
proof -
  from assms obtain N where N: "pool_rep (pq_keys I) p (pq_lists Q) N"
    "\<forall>k\<in>pq_keys I. map (\<lambda>n. tn_task (np_nodes p n)) (N k) = map Some (C (fst k) (snd k))"
    by (auto simp: pqs_abs_def)
  with assms have "length (C i j) = length (N (i, j))"
    by (metis length_map pq_keys_iff fst_conv snd_conv)
  with pool_rep_length [OF N(1), of "(i, j)"] assms show ?thesis by simp
qed

lemma length_service_order_le:
  "(\<And>j. j < n \<Longrightarrow> length (C j) \<le> m) \<Longrightarrow> length (service_order n C) \<le> n * m"
  by (induction n) (auto simp: add_mono)

lemma pqs_abs_size:
  assumes "pqs_abs I p Q C" and "i \<in> I"
  shows "ptask_queue_empty (Q i) \<longleftrightarrow> (\<forall>j<TASK_PRIORITY_MAX. C i j = [])"
proof -
  have "length (service_order TASK_PRIORITY_MAX (C i)) \<le> TASK_PRIORITY_MAX * MAX_TASK_NUM"
    using pqs_abs_level_length [OF assms] by (intro length_service_order_le)
  then have "length (service_order TASK_PRIORITY_MAX (C i)) < 2 ^ 32"
    by (simp add: TASK_PRIORITY_MAX_def MAX_TASK_NUM_def)
  then show ?thesis
    using assms word_of_nat_0_iff32 [of "length (service_order TASK_PRIORITY_MAX (C i))"]
    by (simp add: pqs_abs_def ptask_queue_empty_def service_order_Nil_iff)
qed

lemma pqs_abs_scan:
  assumes "pqs_abs I p Q C" and "i \<in> I" and "j < n" and "n \<le> TASK_PRIORITY_MAX"
    and "C i j \<noteq> []" and "\<forall>j'. j < j' \<and> j' < n \<longrightarrow> C i j' = []"
  shows "ptask_queue_scan (Q i) n = Some j"
proof -
  have empty: "task_list_empty (pq_list (Q i) j') \<longleftrightarrow> C i j' = []" if "j' < TASK_PRIORITY_MAX" for j'
  proof -
    from assms(1) obtain N where N: "pool_rep (pq_keys I) p (pq_lists Q) N"
      "\<forall>k\<in>pq_keys I. map (\<lambda>n. tn_task (np_nodes p n)) (N k) = map Some (C (fst k) (snd k))"
      by (auto simp: pqs_abs_def)
    have k: "(i, j') \<in> pq_keys I" using assms(2) that by simp
    from N(2) k have "N (i, j') = [] \<longleftrightarrow> C i j' = []"
      by (metis Nil_is_map_conv fst_conv snd_conv)
    with pool_rep_empty_iff [OF N(1) k] show ?thesis by (simp add: pq_lists_def)
  qed
  show ?thesis using assms(3-)
  proof (induction n)
    case (Suc n)
    then show ?case using empty [of n] by (cases "j = n") auto
  qed simp
qed

lemma length_service_order_upd:
  assumes "j < n"
  shows "length (service_order n (C(j := xs))) + length (C j) = length (service_order n C) + length xs"
  using assms
proof (induction n)
  case (Suc n)
  show ?case
  proof (cases "j = n")
    case True
    have same: "service_order n (C(j := xs)) = service_order n C"
      using True by (intro service_order_cong) simp
    show ?thesis unfolding service_order_Suc same using True by simp
  next
    case False
    with Suc show ?thesis by simp
  qed
qed simp

lemma pq_lists_upd:
  "pq_list q' = (pq_list (Q i))(j := l) \<Longrightarrow> pq_lists (Q(i := q')) = (pq_lists Q)((i, j) := l)"
  by (rule ext) (auto simp: pq_lists_def)

lemma pqs_abs_push:
  assumes abs: "pqs_abs I p Q C" and i: "i \<in> I" and pr: "valid_priority pr" and room: "0 < np_size p"
    and j: "j = priority_index pr"
  shows "\<exists>p' q'. ptask_queue_push p (Q i) t pr = Inr (p', q')
    \<and> pqs_abs I p' (Q(i := q')) (C(i := (C i)(j := C i j @ [t])))"
proof -
  have jl: "j < TASK_PRIORITY_MAX" using pr j by (simp add: priority_index_less)
  with i have k: "(i, j) \<in> pq_keys I" by simp
  from abs obtain N where N: "pool_rep (pq_keys I) p (pq_lists Q) N"
    "\<forall>k\<in>pq_keys I. map (\<lambda>n. tn_task (np_nodes p n)) (N k) = map Some (C (fst k) (snd k))"
    and size: "\<forall>i\<in>I. pq_size (Q i) = word_of_nat (length (service_order TASK_PRIORITY_MAX (C i)))"
    by (auto simp: pqs_abs_def)
  from pool_rep_push [OF N(1) k room, of t] obtain p' l' n where push:
    "task_list_push_back p (pq_list (Q i) j) t = Inr (p', l')"
    "pool_rep (pq_keys I) p' ((pq_lists Q)((i, j) := l')) (N((i, j) := N (i, j) @ [n]))"
    "n \<notin> (\<Union>k\<in>pq_keys I. set (N k))"
    "\<forall>m. tn_task (np_nodes p' m) = (if m = n then Some t else tn_task (np_nodes p m))"
    by (auto simp: pq_lists_def)
  define q' where "q' = Q i\<lparr>pq_list := (pq_list (Q i))(j := l'), pq_size := pq_size (Q i) + 1\<rparr>"
  let ?C = "C(i := (C i)(j := C i j @ [t]))"
  have eq: "ptask_queue_push p (Q i) t pr = Inr (p', q')"
    using pr push(1) by (simp add: ptask_queue_push_def q'_def Let_def flip: j)
  have lists: "pq_lists (Q(i := q')) = (pq_lists Q)((i, j) := l')"
    by (rule pq_lists_upd) (simp add: q'_def)
  have old: "map (\<lambda>n. tn_task (np_nodes p' n)) (N k) = map Some (C (fst k) (snd k))"
    if "k \<in> pq_keys I" for k
  proof -
    have "map (\<lambda>n. tn_task (np_nodes p' n)) (N k) = map (\<lambda>n. tn_task (np_nodes p n)) (N k)"
      using that push(3,4) by (intro map_cong) auto
    with N(2) that show ?thesis by simp
  qed
  have new: "map (\<lambda>n. tn_task (np_nodes p' n)) ((N((i, j) := N (i, j) @ [n])) k)
      = map Some (?C (fst k) (snd k))" if "k \<in> pq_keys I" for k
    using old [OF that] push(4) by (cases k) auto
  have size': "pq_size ((Q(i := q')) i') = word_of_nat (length (service_order TASK_PRIORITY_MAX (?C i')))"
    if "i' \<in> I" for i'
  proof (cases "i' = i")
    case True
    have "length (service_order TASK_PRIORITY_MAX ((C i)(j := C i j @ [t])))
        = Suc (length (service_order TASK_PRIORITY_MAX (C i)))"
      using length_service_order_upd [OF jl, of "C i" "C i j @ [t]"] by simp
    then show ?thesis unfolding True fun_upd_same using size i by (simp add: q'_def)
  qed (use size that in simp)
  have "pqs_abs I p' (Q(i := q')) ?C"
    unfolding pqs_abs_def lists using push(2) new size' by blast
  with eq show ?thesis by blast
qed

lemma pqs_abs_pop:
  assumes abs: "pqs_abs I p Q C" and i: "i \<in> I" and jl: "j < TASK_PRIORITY_MAX"
    and c: "C i j = t # ts" and top: "\<forall>j'. j < j' \<and> j' < TASK_PRIORITY_MAX \<longrightarrow> C i j' = []"
  shows "\<exists>p' q'. ptask_queue_pop p (Q i) = Inr (p', q', Some t)
    \<and> pqs_abs I p' (Q(i := q')) (C(i := (C i)(j := ts)))"
proof -
  from i jl have k: "(i, j) \<in> pq_keys I" by simp
  from abs obtain N where N: "pool_rep (pq_keys I) p (pq_lists Q) N"
    "\<forall>k\<in>pq_keys I. map (\<lambda>n. tn_task (np_nodes p n)) (N k) = map Some (C (fst k) (snd k))"
    and size: "\<forall>i\<in>I. pq_size (Q i) = word_of_nat (length (service_order TASK_PRIORITY_MAX (C i)))"
    by (auto simp: pqs_abs_def)
  from N(2) k c obtain n ns where n: "N (i, j) = n # ns" "tn_task (np_nodes p n) = Some t"
    "map (\<lambda>n. tn_task (np_nodes p n)) ns = map Some ts"
    by (fastforce simp: map_eq_Cons_conv)
  from pool_rep_remove [OF N(1) k, of "[]" n ns] n obtain p' l' where pop:
    "task_list_remove_node p (pq_list (Q i) j) (Some n) = Inr (p', l', Some t)"
    "pool_rep (pq_keys I) p' ((pq_lists Q)((i, j) := l')) (N((i, j) := ns))"
    "\<forall>m. tn_task (np_nodes p' m) = tn_task (np_nodes p m)"
    by (auto simp: pq_lists_def)
  have head: "tl_head (pq_list (Q i) j) = Some n"
    using pool_rep_head [OF N(1) k] n(1) by (simp add: pq_lists_def)
  have scan: "ptask_queue_scan (Q i) TASK_PRIORITY_MAX = Some j"
    by (rule pqs_abs_scan [OF abs i jl order_refl]) (use c top in auto)
  have nonempty: "pq_size (Q i) \<noteq> 0"
    using pqs_abs_size [OF abs i] jl c by (auto simp: ptask_queue_empty_def)
  define q' where "q' = Q i\<lparr>pq_size := pq_size (Q i) - 1, pq_list := (pq_list (Q i))(j := l')\<rparr>"
  let ?C = "C(i := (C i)(j := ts))"
  have eq: "ptask_queue_pop p (Q i) = Inr (p', q', Some t)"
    using nonempty pop(1) head scan
    by (simp add: ptask_queue_pop_def task_list_pop_front_def q'_def Let_def)
  have lists: "pq_lists (Q(i := q')) = (pq_lists Q)((i, j) := l')"
    by (rule pq_lists_upd) (simp add: q'_def)
  have new: "map (\<lambda>n. tn_task (np_nodes p' n)) ((N((i, j) := ns)) k) = map Some (?C (fst k) (snd k))"
    if "k \<in> pq_keys I" for k
    using N(2) that pop(3) n(3) by (cases k) auto
  have size': "pq_size ((Q(i := q')) i') = word_of_nat (length (service_order TASK_PRIORITY_MAX (?C i')))"
    if "i' \<in> I" for i'
  proof (cases "i' = i")
    case True
    have "length (service_order TASK_PRIORITY_MAX (C i)) = Suc (length (service_order TASK_PRIORITY_MAX ((C i)(j := ts))))"
      using length_service_order_upd [OF jl, of "C i" ts] c by simp
    then show ?thesis unfolding True fun_upd_same using size i by (simp add: q'_def)
  qed (use size that in simp)
  have "pqs_abs I p' (Q(i := q')) ?C"
    unfolding pqs_abs_def lists using pop(2) new size' by blast
  with eq show ?thesis by blast
qed

subsection \<open>There is always a node for one more task\<close>

definition pqs_once :: "'i set \<Rightarrow> ('i \<Rightarrow> nat \<Rightarrow> task_ptr list) \<Rightarrow> bool" where
  "pqs_once I C \<longleftrightarrow>
     (\<forall>i\<in>I. \<forall>j<TASK_PRIORITY_MAX. distinct (C i j) \<and> set (C i j) \<subseteq> {0..<MAX_TASK_NUM}) \<and>
     (\<forall>i\<in>I. \<forall>j<TASK_PRIORITY_MAX. \<forall>i'\<in>I. \<forall>j'<TASK_PRIORITY_MAX.
        (i, j) \<noteq> (i', j') \<longrightarrow> set (C i j) \<inter> set (C i' j') = {})"

lemma map_nth_Some:
  assumes "map f ns = map Some ts" and "a < length ns"
  shows "a < length ts \<and> f (ns ! a) = Some (ts ! a)"
  using assms by (metis length_map nth_map)

lemma pqs_node_task_inj:
  assumes N: "pool_rep (pq_keys I) p (pq_lists Q) N"
    "\<forall>k\<in>pq_keys I. map (\<lambda>n. tn_task (np_nodes p n)) (N k) = map Some (C (fst k) (snd k))"
    and once: "pqs_once I C"
  shows "inj_on (\<lambda>n. the (tn_task (np_nodes p n))) (\<Union>k\<in>pq_keys I. set (N k))"
proof (rule inj_onI)
  fix x y
  assume x: "x \<in> (\<Union>k\<in>pq_keys I. set (N k))" and y: "y \<in> (\<Union>k\<in>pq_keys I. set (N k))"
    and eq: "the (tn_task (np_nodes p x)) = the (tn_task (np_nodes p y))"
  from x obtain i j a where xa: "i \<in> I" "j < TASK_PRIORITY_MAX" "a < length (N (i, j))" "x = N (i, j) ! a"
    by (auto simp: pq_keys_def in_set_conv_nth)
  from y obtain i' j' b where yb: "i' \<in> I" "j' < TASK_PRIORITY_MAX" "b < length (N (i', j'))" "y = N (i', j') ! b"
    by (auto simp: pq_keys_def in_set_conv_nth)
  have ta: "a < length (C i j) \<and> tn_task (np_nodes p x) = Some (C i j ! a)"
    using map_nth_Some [OF bspec [OF N(2), of "(i, j)"] xa(3)] xa by simp
  have tb: "b < length (C i' j') \<and> tn_task (np_nodes p y) = Some (C i' j' ! b)"
    using map_nth_Some [OF bspec [OF N(2), of "(i', j')"] yb(3)] yb by simp
  from ta tb eq have same: "C i j ! a = C i' j' ! b" by simp
  have "(i, j) = (i', j')"
  proof (rule ccontr)
    assume "(i, j) \<noteq> (i', j')"
    with once xa(1,2) yb(1,2) have "set (C i j) \<inter> set (C i' j') = {}" unfolding pqs_once_def by blast
    moreover have "C i j ! a \<in> set (C i j)" "C i' j' ! b \<in> set (C i' j')" using ta tb by simp_all
    ultimately show False using same by auto
  qed
  moreover from this have "a = b"
    using once xa(1,2) ta tb same by (auto simp: pqs_once_def nth_eq_iff_index_eq)
  ultimately show "x = y" using xa yb by simp
qed

lemma pqs_abs_room:
  assumes abs: "pqs_abs I p Q C" and once: "pqs_once I C" and t: "t < MAX_TASK_NUM"
    and new: "\<forall>i\<in>I. \<forall>j<TASK_PRIORITY_MAX. t \<notin> set (C i j)"
  shows "0 < np_size p"
proof (rule ccontr)
  assume "\<not> 0 < np_size p"
  then have none: "free_nodes p = {}" by (simp add: free_nodes_def)
  from abs obtain N where N: "pool_rep (pq_keys I) p (pq_lists Q) N"
    "\<forall>k\<in>pq_keys I. map (\<lambda>n. tn_task (np_nodes p n)) (N k) = map Some (C (fst k) (snd k))"
    by (auto simp: pqs_abs_def)
  let ?f = "\<lambda>n. the (tn_task (np_nodes p n))"
  let ?U = "\<Union>k\<in>pq_keys I. set (N k)"
  have U: "?U = {0..<MAX_TASK_NUM}" using pool_rep_cover [OF N(1)] none by simp
  have "?f ` ?U \<subseteq> {0..<MAX_TASK_NUM} - {t}"
  proof
    fix x assume "x \<in> ?f ` ?U"
    then obtain i j n where n: "i \<in> I" "j < TASK_PRIORITY_MAX" "n \<in> set (N (i, j))" "x = ?f n"
      by (auto simp: pq_keys_def)
    then obtain a where a: "a < length (N (i, j))" "n = N (i, j) ! a" by (auto simp: in_set_conv_nth)
    have "a < length (C i j) \<and> tn_task (np_nodes p n) = Some (C i j ! a)"
      using map_nth_Some [OF bspec [OF N(2), of "(i, j)"] a(1)] n(1,2) a(2) by simp
    then have "x \<in> set (C i j)" using n(4) by simp
    moreover have "set (C i j) \<subseteq> {0..<MAX_TASK_NUM}" "t \<notin> set (C i j)"
      using once new n(1,2) by (auto simp: pqs_once_def)
    ultimately show "x \<in> {0..<MAX_TASK_NUM} - {t}" by blast
  qed
  then have "card (?f ` ?U) \<le> card ({0..<MAX_TASK_NUM} - {t})" by (intro card_mono) simp_all
  moreover have "card (?f ` ?U) = card ?U" by (rule card_image [OF pqs_node_task_inj [OF N once]])
  ultimately show False using t U by simp
qed

lemma pqs_onceI_sub:
  assumes "pqs_once I C" and "\<And>i j. i \<in> I \<Longrightarrow> j < TASK_PRIORITY_MAX \<Longrightarrow> distinct (D i j) \<and> set (D i j) \<subseteq> set (C i j)"
  shows "pqs_once I D"
  unfolding pqs_once_def
proof (intro conjI ballI allI impI)
  fix i j assume i: "i \<in> I" "j < TASK_PRIORITY_MAX"
  show "distinct (D i j)" using assms(2) [OF i] by simp
  show "set (D i j) \<subseteq> {0..<MAX_TASK_NUM}" using assms(1) assms(2) [OF i] i unfolding pqs_once_def by blast
  fix i' j' assume i': "i' \<in> I" "j' < TASK_PRIORITY_MAX" and ne: "(i, j) \<noteq> (i', j')"
  from assms(1) i i' ne have "set (C i j) \<inter> set (C i' j') = {}" unfolding pqs_once_def by blast
  then show "set (D i j) \<inter> set (D i' j') = {}" using assms(2) [OF i] assms(2) [OF i'] by blast
qed

lemma pqs_once_pop:
  assumes "pqs_once I C" and "C i j = t # ts" and "i \<in> I" and "j < TASK_PRIORITY_MAX"
  shows "pqs_once I (C(i := (C i)(j := ts)))"
proof (rule pqs_onceI_sub [OF assms(1)])
  fix i' j' assume i': "i' \<in> I" "j' < TASK_PRIORITY_MAX"
  from assms(1) i' have "distinct (C i' j')" by (simp add: pqs_once_def)
  moreover from assms have "distinct (t # ts)" by (metis pqs_once_def)
  ultimately show "distinct ((C(i := (C i)(j := ts))) i' j') \<and> set ((C(i := (C i)(j := ts))) i' j') \<subseteq> set (C i' j')"
    using assms(2) by auto
qed

lemma pqs_once_push:
  assumes once: "pqs_once I C" and t: "t < MAX_TASK_NUM"
    and new: "\<forall>i\<in>I. \<forall>j<TASK_PRIORITY_MAX. t \<notin> set (C i j)" and i: "i \<in> I" "j < TASK_PRIORITY_MAX"
  shows "pqs_once I (C(i := (C i)(j := C i j @ [t])))" (is "pqs_once I ?C")
proof -
  have C: "?C a b = (if a = i \<and> b = j then C i j @ [t] else C a b)" for a b by simp
  have dis: "set (C a b) \<inter> set (C c d) = {}"
    if "a \<in> I" "b < TASK_PRIORITY_MAX" "c \<in> I" "d < TASK_PRIORITY_MAX" "(a, b) \<noteq> (c, d)" for a b c d
    using once that unfolding pqs_once_def by blast
  show ?thesis
    unfolding pqs_once_def C
  proof (intro conjI ballI allI impI)
    fix a b assume a: "a \<in> I" "b < TASK_PRIORITY_MAX"
    show "distinct (if a = i \<and> b = j then C i j @ [t] else C a b)"
      using once new a i by (simp add: pqs_once_def)
    show "set (if a = i \<and> b = j then C i j @ [t] else C a b) \<subseteq> {0..<MAX_TASK_NUM}"
      using once t a i by (auto simp: pqs_once_def)
    fix c d assume c: "c \<in> I" "d < TASK_PRIORITY_MAX" and ne: "(a, b) \<noteq> (c, d)"
    have "t \<notin> set (C a b)" "t \<notin> set (C c d)" using new a c by auto
    with dis [OF a c ne] dis [OF i c] dis [OF a i] ne
    show "set (if a = i \<and> b = j then C i j @ [t] else C a b) \<inter>
          set (if c = i \<and> d = j then C i j @ [t] else C c d) = {}"
      by auto
  qed
qed

subsection \<open>The ready queue as a queue with levels\<close>

definition ready_rep :: "TaskNodePool \<times> PriorityTaskQueue \<Rightarrow> (nat \<Rightarrow> task_ptr list) \<Rightarrow> bool" where
  "ready_rep s C \<longleftrightarrow> pqs_abs {()} (fst s) (\<lambda>_. snd s) (\<lambda>_. C) \<and> pqs_once {()} (\<lambda>_. C)"

definition ready_push ::
  "TaskNodePool \<times> PriorityTaskQueue \<Rightarrow> task_ptr \<Rightarrow> nat \<Rightarrow> (TaskNodePool \<times> PriorityTaskQueue) res" where
  "ready_push s t j = ptask_queue_push (fst s) (snd s) t (word_of_nat j)"

definition ready_pop ::
  "TaskNodePool \<times> PriorityTaskQueue \<Rightarrow> ((TaskNodePool \<times> PriorityTaskQueue) \<times> task_ptr option) res" where
  "ready_pop s = bindE (ptask_queue_pop (fst s) (snd s)) (\<lambda>(p, q, t). Inr ((p, q), t))"

lemma priority_of_level:
  "j < TASK_PRIORITY_MAX \<Longrightarrow> valid_priority (word_of_nat j) \<and> priority_index (word_of_nat j) = j"
  by (simp add: valid_priority_def priority_index_def TASK_PRIORITY_MAX_def TASK_PRIORITY_MIN_def
        sint_of_nat_small32)

lemma unit_upd [simp]: "(\<lambda>_::unit. a)(u := b) = (\<lambda>_. b)"
  by (rule ext) simp

lemma ready_rep_push:
  assumes rep: "ready_rep (p, q) C" and t: "t < MAX_TASK_NUM" and pr: "valid_priority pr"
    and new: "\<forall>i<TASK_PRIORITY_MAX. t \<notin> set (C i)"
  shows "\<exists>p' q'. ptask_queue_push p q t pr = Inr (p', q')
    \<and> ready_rep (p', q') (C(priority_index pr := C (priority_index pr) @ [t]))"
proof -
  from rep have abs: "pqs_abs {()} p (\<lambda>_. q) (\<lambda>_. C)" and once: "pqs_once {()} (\<lambda>_. C)"
    by (simp_all add: ready_rep_def)
  have "0 < np_size p" using pqs_abs_room [OF abs once t] new by simp
  from pqs_abs_push [OF abs _ pr this refl, of "()" t] pqs_once_push [OF once t, of "()" "priority_index pr"]
  show ?thesis using new priority_index_less [OF pr] by (auto simp: ready_rep_def)
qed

lemma ready_rep_pop:
  assumes rep: "ready_rep (p, q) C" and j: "j < TASK_PRIORITY_MAX" and c: "C j = t # ts"
    and top: "\<forall>i. j < i \<and> i < TASK_PRIORITY_MAX \<longrightarrow> C i = []"
  shows "\<exists>p' q'. ptask_queue_pop p q = Inr (p', q', Some t) \<and> ready_rep (p', q') (C(j := ts))"
  using pqs_abs_pop [of "{()}" p "\<lambda>_. q" "\<lambda>_. C" "()" j t ts] pqs_once_pop [of "{()}" "\<lambda>_. C" "()" j t ts] assms
  by (auto simp: ready_rep_def)

lemma ready_rep_empty:
  "ready_rep (p, q) C \<Longrightarrow> ptask_queue_empty q \<longleftrightarrow> (\<forall>j<TASK_PRIORITY_MAX. C j = [])"
  using pqs_abs_size [of "{()}" p "\<lambda>_. q" "\<lambda>_. C" "()"] by (simp add: ready_rep_def)

interpretation readyq: level_queue ready_rep TASK_PRIORITY_MAX "\<lambda>s. ptask_queue_empty (snd s)"
  ready_push ready_pop "\<lambda>t. t < MAX_TASK_NUM"
proof
  show "ptask_queue_empty (snd s) = (\<forall>j<TASK_PRIORITY_MAX. C j = [])" if "ready_rep s C" for s C
    using ready_rep_empty [of "fst s" "snd s" C] that by simp
  show "\<exists>s'. ready_push s a j = Inr s' \<and> ready_rep s' (C(j := C j @ [a]))"
    if "ready_rep s C" "a < MAX_TASK_NUM" "j < TASK_PRIORITY_MAX" "\<forall>i<TASK_PRIORITY_MAX. a \<notin> set (C i)"
    for s C a j
    using ready_rep_push [of "fst s" "snd s" C a "word_of_nat j"] that priority_of_level [OF that(3)]
    by (auto simp: ready_push_def)
  show "\<exists>s'. ready_pop s = Inr (s', Some a) \<and> ready_rep s' (C(j := as))"
    if "ready_rep s C" "j < TASK_PRIORITY_MAX" "C j = a # as" "\<forall>i. j < i \<and> i < TASK_PRIORITY_MAX \<longrightarrow> C i = []"
    for s C j a as
    using ready_rep_pop [of "fst s" "snd s" C j a as] that by (auto simp: ready_pop_def)
  show "ready_pop s = Inl Assertion" if "ready_rep s C" "\<forall>j<TASK_PRIORITY_MAX. C j = []" for s C
    using ready_rep_empty [of "fst s" "snd s" C] that
    by (simp add: ready_pop_def ptask_queue_pop_def ptask_queue_empty_def)
qed

end
