(* ===== verification/Utilities.thy ===== *)
theory Utilities
  imports Interfaces
begin

text \<open>
  The memory and arithmetic helpers of \<^verbatim>\<open>utilities.c\<close>: byte loops over the machine's
  memory, and the clamp.  Number and token conversion is in the theory \<open>Conversions\<close>.
\<close>

subsection \<open>Byte loops\<close>

fun memset_loop :: "nat \<Rightarrow> mem \<Rightarrow> u64 \<Rightarrow> u8 \<Rightarrow> mem" where
  "memset_loop 0 m it c = m"
| "memset_loop (Suc n) m it c = memset_loop n (m(it := c)) (it + 1) c"

definition memset :: "mem \<Rightarrow> u64 \<Rightarrow> i32 \<Rightarrow> usize \<Rightarrow> mem" where
  "memset m s c n = memset_loop (unat n) m s (ucast c)"

fun memcpy_loop :: "nat \<Rightarrow> mem \<Rightarrow> u64 \<Rightarrow> u64 \<Rightarrow> mem" where
  "memcpy_loop 0 m cdest sit = m"
| "memcpy_loop (Suc n) m cdest sit = memcpy_loop n (m(cdest := m sit)) (cdest + 1) (sit + 1)"

definition memcpy :: "mem \<Rightarrow> u64 \<Rightarrow> u64 \<Rightarrow> usize \<Rightarrow> mem" where
  "memcpy m dest src n = memcpy_loop (unat n) m dest src"

definition i32_clamp :: "i32 \<Rightarrow> i32 \<Rightarrow> i32 \<Rightarrow> i32" where
  "i32_clamp value lo hi =
     (if sint value < sint lo then lo
      else if sint value > sint hi then hi
      else value)"

subsection \<open>Regions of memory\<close>

text \<open>Address \<open>x\<close> is one of the \<open>n\<close> bytes from \<open>a\<close> on (addresses wrap around).\<close>

definition in_region :: "u64 \<Rightarrow> u64 \<Rightarrow> nat \<Rightarrow> bool" where
  "in_region x a n \<longleftrightarrow> unat (x - a) < n"

definition regions_disjoint :: "u64 \<Rightarrow> nat \<Rightarrow> u64 \<Rightarrow> nat \<Rightarrow> bool" where
  "regions_disjoint a n b k \<longleftrightarrow> (\<forall>x. \<not> (in_region x a n \<and> in_region x b k))"

definition read_bytes :: "mem \<Rightarrow> u64 \<Rightarrow> nat \<Rightarrow> u8 list" where
  "read_bytes m a n = map (\<lambda>i. m (a + word_of_nat i)) [0..<n]"

lemma length_read_bytes [simp]: "length (read_bytes m a n) = n"
  by (simp add: read_bytes_def)

lemma in_region_0 [simp]: "\<not> in_region x a 0"
  by (simp add: in_region_def)

lemma in_region_Suc:
  "in_region x a (Suc n) \<longleftrightarrow> x = a \<or> (x \<noteq> a \<and> in_region x (a + 1) n)"
proof (cases "x = a")
  case False
  then have "x - a \<noteq> 0" by simp
  have "x - (a + 1) = x - a - 1" by simp
  then have "unat (x - (a + 1)) = unat (x - a) - 1"
    using unat_minus_one [OF \<open>x - a \<noteq> 0\<close>] by (simp only:)
  moreover have "0 < unat (x - a)" using \<open>x - a \<noteq> 0\<close> by (simp add: unat_gt_0 del: right_minus_eq)
  ultimately have "unat (x - a) = Suc (unat (x - (a + 1)))" by linarith
  with False show ?thesis by (simp add: in_region_def)
qed (simp add: in_region_def)

lemma not_in_region_next: "n < 2 ^ 64 \<Longrightarrow> \<not> in_region a (a + 1) n"
  by (simp add: in_region_def unsigned_minus_1_eq_mask mask_eq_exp_minus_1)

lemma in_region_offset: "i < n \<Longrightarrow> n \<le> 2 ^ 64 \<Longrightarrow> in_region (a + word_of_nat i) a n"
  by (simp add: in_region_def unat_of_nat_small64)

lemma memset_loop_spec:
  "n \<le> 2 ^ 64 \<Longrightarrow> memset_loop n m a c x = (if in_region x a n then c else m x)"
proof (induction n arbitrary: m a)
  case (Suc n)
  then have "\<not> in_region a (a + 1) n" by (intro not_in_region_next) simp
  with Suc show ?case by (auto simp: in_region_Suc)
qed simp

lemma regions_disjoint_Suc:
  assumes "regions_disjoint d (Suc n) s (Suc n)"
  shows "regions_disjoint (d + 1) n (s + 1) n \<and> \<not> in_region d (s + 1) n \<and> d \<noteq> s \<and> \<not> in_region s (d + 1) n"
  using assms unfolding regions_disjoint_def in_region_Suc by metis

lemma memcpy_loop_spec:
  "n \<le> 2 ^ 64 \<Longrightarrow> regions_disjoint d n s n \<Longrightarrow>
     memcpy_loop n m d s x = (if in_region x d n then m (s + (x - d)) else m x)"
proof (induction n arbitrary: m d s)
  case (Suc n)
  from Suc.prems have n: "n < 2 ^ 64" by simp
  from regions_disjoint_Suc [OF Suc.prems(2)]
  have d: "regions_disjoint (d + 1) n (s + 1) n" "\<not> in_region d (s + 1) n" "d \<noteq> s" by auto
  have "memcpy_loop (Suc n) m d s x =
      (if in_region x (d + 1) n then (m(d := m s)) (s + 1 + (x - (d + 1))) else (m(d := m s)) x)"
    unfolding memcpy_loop.simps by (rule Suc.IH [OF _ d(1)]) (use n in simp)
  moreover have "s + 1 + (x - (d + 1)) \<noteq> d" if "in_region x (d + 1) n"
  proof
    assume "s + 1 + (x - (d + 1)) = d"
    then have "d - (s + 1) = x - (d + 1)" by (simp add: algebra_simps)
    with that d(2) show False by (simp add: in_region_def)
  qed
  moreover have "s + 1 + (x - (d + 1)) = s + (x - d)" by simp
  ultimately have step: "memcpy_loop (Suc n) m d s x =
      (if in_region x (d + 1) n then m (s + (x - d)) else if x = d then m s else m x)"
    by simp
  show ?case
    unfolding step in_region_Suc using not_in_region_next [OF n, of d] by auto
qed simp

lemma memcpy_loop_bytes:
  assumes "n \<le> 2 ^ 64" and "regions_disjoint d n s n"
  shows "read_bytes (memcpy_loop n m d s) d n = read_bytes m s n"
  using assms by (simp add: read_bytes_def memcpy_loop_spec in_region_offset)

lemma i32_clamp_sint:
  assumes "sint lo \<le> sint hi"
  shows "sint (i32_clamp v lo hi) = max (sint lo) (min (sint hi) (sint v))"
  using assms by (simp add: i32_clamp_def)

end
