(* ===== verification/Memory.thy ===== *)
theory Memory
  imports Utilities
begin

text \<open>
  The stack blocks of \<^verbatim>\<open>memory.c\<close>: an array of 64 (plus one) blocks of 1 MiB at a
  link-time address, and one flag per block.  A pointer to a block is its index.  The bytes
  of the blocks are part of the machine's memory, where user tasks also write.
\<close>

definition MEMORY_BLOCK_SIZE :: nat where "MEMORY_BLOCK_SIZE = 0x100000"
definition MEMORY_BLOCK_MAX_NUM :: nat where "MEMORY_BLOCK_MAX_NUM = 64"

record Memory =
  mb_base :: u64            \<comment> \<open>address of the array \<^verbatim>\<open>memory_blocks\<close>\<close>
  mb_used :: "bool list"    \<comment> \<open>\<^verbatim>\<open>memory_blocks_used\<close>\<close>
  mb_mem :: mem

definition block_addr :: "Memory \<Rightarrow> nat \<Rightarrow> u64" where
  "block_addr M i = mb_base M + word_of_nat i * word_of_nat MEMORY_BLOCK_SIZE"

text \<open>The byte loop that clears a block.\<close>

definition zero_range :: "mem \<Rightarrow> u64 \<Rightarrow> nat \<Rightarrow> mem" where
  "zero_range m a n = fold (\<lambda>j m. m(a + word_of_nat j := 0)) [0..<n] m"

lemma zero_range_at:
  "n < 2 ^ 64 \<Longrightarrow> zero_range m a n x = (if in_region x a n then 0 else m x)"
proof (induction n)
  case (Suc n)
  have "x = a + word_of_nat n \<longleftrightarrow> x - a = word_of_nat n" by (auto simp: algebra_simps)
  also have "\<dots> \<longleftrightarrow> unat (x - a) = n"
    using Suc.prems unat_of_nat_small64 [of n] by (auto simp: word_unat_eq_iff)
  finally have "x = a + word_of_nat n \<longleftrightarrow> unat (x - a) = n" .
  with Suc show ?case by (auto simp: zero_range_def in_region_def less_Suc_eq)
qed (simp add: zero_range_def)

definition memory_init :: "Memory \<Rightarrow> Memory" where
  "memory_init M = M\<lparr>
     mb_mem := fold (\<lambda>i m. zero_range m (block_addr M i) MEMORY_BLOCK_SIZE) [0..<MEMORY_BLOCK_MAX_NUM] (mb_mem M),
     mb_used := replicate MEMORY_BLOCK_MAX_NUM False\<rparr>"

fun first_unused :: "bool list \<Rightarrow> nat \<Rightarrow> nat option" where
  "first_unused [] i = None"
| "first_unused (u # us) i = (if u = False then Some i else first_unused us (i + 1))"

definition memory_allocate_block :: "Memory \<Rightarrow> Memory \<times> nat option" where
  "memory_allocate_block M =
     (case first_unused (mb_used M) 0 of
        None \<Rightarrow> (M, None)
      | Some i \<Rightarrow> (M\<lparr>mb_used := (mb_used M)[i := True]\<rparr>, Some i))"

definition memory_free_block :: "Memory \<Rightarrow> nat option \<Rightarrow> Memory res" where
  "memory_free_block M memory_block =
     (case memory_block of
        None \<Rightarrow> Inl OutOfBounds
      | Some idx \<Rightarrow>
          if idx < MEMORY_BLOCK_MAX_NUM
          then Inr (M\<lparr>mb_mem := zero_range (mb_mem M) (block_addr M idx) MEMORY_BLOCK_SIZE,
                      mb_used := (mb_used M)[idx := False]\<rparr>)
          else Inl OutOfBounds)"

definition memory_get_block_end :: "Memory \<Rightarrow> nat option \<Rightarrow> u64 res" where
  "memory_get_block_end M memory_block =
     (case memory_block of
        None \<Rightarrow> Inl OutOfBounds
      | Some idx \<Rightarrow> Inr (block_addr M (idx + 1)))"

subsection \<open>The blocks as an allocator\<close>

definition free_blocks :: "Memory \<Rightarrow> nat set" where
  "free_blocks M = {i. i < length (mb_used M) \<and> \<not> mb_used M ! i}"

definition memory_inv :: "Memory \<Rightarrow> bool" where
  "memory_inv M \<longleftrightarrow> length (mb_used M) = MEMORY_BLOCK_MAX_NUM"

lemma first_unused_None: "first_unused us i = None \<longleftrightarrow> (\<forall>j < length us. us ! j)"
  by (induction us arbitrary: i) (auto simp: nth_Cons less_Suc_eq_0_disj)

lemma first_unused_Some:
  "first_unused us i = Some k \<Longrightarrow>
     i \<le> k \<and> k - i < length us \<and> \<not> us ! (k - i) \<and> (\<forall>j < k - i. us ! j)"
proof (induction us arbitrary: i)
  case (Cons u us)
  show ?case
  proof (cases u)
    case True
    with Cons have "i + 1 \<le> k \<and> k - (i + 1) < length us \<and> \<not> us ! (k - (i + 1)) \<and> (\<forall>j < k - (i + 1). us ! j)"
      by simp
    moreover from this have "k - i = Suc (k - (i + 1))" by linarith
    ultimately show ?thesis using True by (auto simp: nth_Cons less_Suc_eq_0_disj)
  qed (use Cons.prems in simp)
qed simp

lemma memory_allocate_block_some:
  assumes "memory_inv M" and "free_blocks M \<noteq> {}"
  shows "\<exists>i. memory_allocate_block M = (M\<lparr>mb_used := (mb_used M)[i := True]\<rparr>, Some i)
    \<and> i \<in> free_blocks M \<and> i < MEMORY_BLOCK_MAX_NUM"
proof (cases "first_unused (mb_used M) 0")
  case None
  with assms show ?thesis by (auto simp: first_unused_None free_blocks_def)
next
  case (Some i)
  with first_unused_Some [OF Some] assms(1) show ?thesis
    by (auto simp: memory_allocate_block_def free_blocks_def memory_inv_def)
qed

lemma free_blocks_take:
  assumes "memory_inv M" and "i < MEMORY_BLOCK_MAX_NUM"
  shows "memory_inv (M\<lparr>mb_used := (mb_used M)[i := True]\<rparr>)
    \<and> free_blocks (M\<lparr>mb_used := (mb_used M)[i := True]\<rparr>) = free_blocks M - {i}"
  using assms by (auto simp: memory_inv_def free_blocks_def nth_list_update)

lemma memory_free_block_ok:
  assumes "memory_inv M" and "i < MEMORY_BLOCK_MAX_NUM"
  shows "\<exists>M'. memory_free_block M (Some i) = Inr M' \<and> memory_inv M' \<and> free_blocks M' = insert i (free_blocks M)
    \<and> mb_base M' = mb_base M \<and> mb_mem M' = zero_range (mb_mem M) (block_addr M i) MEMORY_BLOCK_SIZE"
  using assms by (auto simp: memory_free_block_def memory_inv_def free_blocks_def nth_list_update)

definition block_alloc_opt :: "Memory \<Rightarrow> (Memory \<times> nat) option" where
  "block_alloc_opt M = (case memory_allocate_block M of (_, None) \<Rightarrow> None | (M', Some i) \<Rightarrow> Some (M', i))"

definition block_release :: "Memory \<Rightarrow> nat \<Rightarrow> Memory" where
  "block_release M i = the_res (memory_free_block M (Some i))"

interpretation stack_blocks: allocator memory_inv free_blocks block_alloc_opt block_release "{0..<MEMORY_BLOCK_MAX_NUM}"
proof
  show "free_blocks M \<subseteq> {0..<MEMORY_BLOCK_MAX_NUM}" if "memory_inv M" for M
    using that by (auto simp: memory_inv_def free_blocks_def)
  show "finite {0..<MEMORY_BLOCK_MAX_NUM}" by simp
  show "(block_alloc_opt M = None) = (free_blocks M = {})" if "memory_inv M" for M
  proof -
    have "first_unused (mb_used M) 0 = None \<longleftrightarrow> free_blocks M = {}"
      by (auto simp: first_unused_None free_blocks_def)
    then show ?thesis
      by (cases "first_unused (mb_used M) 0") (simp_all add: block_alloc_opt_def memory_allocate_block_def)
  qed
  show "memory_inv M' \<and> c \<in> free_blocks M \<and> free_blocks M' = free_blocks M - {c}"
    if "memory_inv M" "block_alloc_opt M = Some (M', c)" for M M' c
  proof -
    have "free_blocks M \<noteq> {}"
      using that by (auto simp: block_alloc_opt_def memory_allocate_block_def free_blocks_def
          split: option.splits dest: first_unused_Some)
    then obtain i where i: "memory_allocate_block M = (M\<lparr>mb_used := (mb_used M)[i := True]\<rparr>, Some i)"
      "i \<in> free_blocks M" "i < MEMORY_BLOCK_MAX_NUM"
      using memory_allocate_block_some [OF \<open>memory_inv M\<close>] by blast
    have "block_alloc_opt M = Some (M\<lparr>mb_used := (mb_used M)[i := True]\<rparr>, i)"
      using i(1) by (simp add: block_alloc_opt_def)
    with \<open>block_alloc_opt M = Some (M', c)\<close>
    have eq: "Some (M', c) = Some (M\<lparr>mb_used := (mb_used M)[i := True]\<rparr>, i)" by (rule trans [OF sym])
    have "M' = M\<lparr>mb_used := (mb_used M)[i := True]\<rparr> \<and> c = i"
      using eq unfolding option.inject prod.inject .
    then show ?thesis using free_blocks_take [OF \<open>memory_inv M\<close> i(3)] i(2) by simp
  qed
  show "memory_inv (block_release M c) \<and> free_blocks (block_release M c) = insert c (free_blocks M)"
    if "memory_inv M" "c \<in> {0..<MEMORY_BLOCK_MAX_NUM}" for M c
  proof -
    have "c < MEMORY_BLOCK_MAX_NUM" using that(2) by simp
    from memory_free_block_ok [OF that(1) this] obtain M' where
      "memory_free_block M (Some c) = Inr M'" "memory_inv M'" "free_blocks M' = insert c (free_blocks M)" by blast
    then show ?thesis by (simp add: block_release_def)
  qed
qed

end
