(* ===== verification/Scheduler.thy ===== *)
theory Scheduler
  imports Prio_Queue Memory
begin

text \<open>
  \<^verbatim>\<open>task_scheduler.c\<close>: the static state of the kernel (the task descriptors, the job
  list, the ready queue, the interrupt queues, the task counter, the current task) and its
  operations.  The address of the system call stub \<^verbatim>\<open>Exit\<close>, to which a task returns, is
  fixed by the linker and is a field of the state.
\<close>

record TaskQueue =
  tq_front :: "task_ptr option"
  tq_end :: "task_ptr option"

record Kernel =
  k_tasks :: "task_ptr \<Rightarrow> Task"           \<comment> \<open>\<^verbatim>\<open>task_pool\<close>\<close>
  k_task_pool_ptr :: "task_ptr option"
  k_task_queue :: "nat \<Rightarrow> TaskQueue"
  k_jobq_pool :: TaskNodePool
  k_readyq_pool :: TaskNodePool
  k_irqq_pool :: TaskNodePool
  k_jobq :: TaskList
  k_readyq :: PriorityTaskQueue
  k_irqq :: "nat \<Rightarrow> PriorityTaskQueue"
  k_task_id_cnt :: i32
  k_current :: "task_ptr option"           \<comment> \<open>\<^verbatim>\<open>current_task\<close>\<close>
  k_memory :: Memory
  k_exit_addr :: u64

definition upd_task :: "Kernel \<Rightarrow> task_ptr \<Rightarrow> (Task \<Rightarrow> Task) \<Rightarrow> Kernel" where
  "upd_task K t f = K\<lparr>k_tasks := (k_tasks K)(t := f (k_tasks K t))\<rparr>"

lemma upd_task_simps [simp]:
  "k_tasks (upd_task K t f) = (k_tasks K)(t := f (k_tasks K t))"
  "k_jobq_pool (upd_task K t f) = k_jobq_pool K" "k_jobq (upd_task K t f) = k_jobq K"
  "k_readyq_pool (upd_task K t f) = k_readyq_pool K" "k_readyq (upd_task K t f) = k_readyq K"
  "k_irqq_pool (upd_task K t f) = k_irqq_pool K" "k_irqq (upd_task K t f) = k_irqq K"
  "k_current (upd_task K t f) = k_current K" "k_task_id_cnt (upd_task K t f) = k_task_id_cnt K"
  "k_task_pool_ptr (upd_task K t f) = k_task_pool_ptr K" "k_memory (upd_task K t f) = k_memory K"
  "k_exit_addr (upd_task K t f) = k_exit_addr K" "k_task_queue (upd_task K t f) = k_task_queue K"
  by (simp_all add: upd_task_def)

definition change_task_state :: "Kernel \<Rightarrow> task_ptr \<Rightarrow> TaskState \<Rightarrow> Kernel res" where
  "change_task_state K task state =
     bindE (assertE (t_state (k_tasks K task) \<noteq> state)) (\<lambda>_.
     bindE
       (if state = RUNNING then Inr (K\<lparr>k_current := Some task\<rparr>)
        else if state = READY
        then bindE (ptask_queue_push (k_readyq_pool K) (k_readyq K) task (t_priority (k_tasks K task)))
               (\<lambda>(pool, pq). Inr (K\<lparr>k_readyq_pool := pool, k_readyq := pq\<rparr>))
        else Inr K)
     (\<lambda>K. Inr (upd_task K task (\<lambda>t. t\<lparr>t_state := state\<rparr>))))"

definition task_queue_init :: "Kernel \<Rightarrow> Kernel" where
  "task_queue_init K = K\<lparr>
     k_current := None,
     k_tasks := (\<lambda>i. if i < TASK_POOL_SIZE
                     then (task_init (k_tasks K i))
                            \<lparr>t_next := if i < TASK_POOL_SIZE - 1 then Some (i + 1) else None\<rparr>
                     else k_tasks K i),
     k_task_queue := (\<lambda>i. if i < TASK_PRIORITY_MAX
                          then (k_task_queue K i)\<lparr>tq_front := None, tq_end := None\<rparr>
                          else k_task_queue K i),
     k_task_pool_ptr := Some 0,
     k_task_id_cnt := 0\<rparr>"

definition init_scheduler :: "Kernel \<Rightarrow> Kernel" where
  "init_scheduler K =
     (let K = task_queue_init K;
          K = K\<lparr>k_jobq_pool := task_node_pool_init (k_jobq_pool K),
                k_jobq := task_list_init (k_jobq K)\<rparr>;
          K = K\<lparr>k_readyq_pool := task_node_pool_init (k_readyq_pool K),
                k_readyq := ptask_queue_init (k_readyq K)\<rparr>
      in K\<lparr>k_irqq_pool := task_node_pool_init (k_irqq_pool K),
           k_irqq := (\<lambda>i. if i < NUM_INTERRUPT then ptask_queue_init (k_irqq K i) else k_irqq K i)\<rparr>)"

definition create_task :: "Kernel \<Rightarrow> i32 \<Rightarrow> u64 \<Rightarrow> i32 \<Rightarrow> (Kernel \<times> task_ptr option) res" where
  "create_task K priority func parent_tid =
     (let priority = i32_clamp priority TASK_PRIORITY_MIN (word_of_nat TASK_PRIORITY_MAX - 1)
      in case k_task_pool_ptr K of
        None \<Rightarrow> Inr (K, None)
      | Some task \<Rightarrow>
          let K = K\<lparr>k_task_pool_ptr := t_next (k_tasks K task)\<rparr>;
              K = upd_task K task task_init;
              K = upd_task K task (\<lambda>t. t\<lparr>t_tid := k_task_id_cnt K\<rparr>);
              K = K\<lparr>k_task_id_cnt := k_task_id_cnt K + 1\<rparr>;
              K = upd_task K task (\<lambda>t. t\<lparr>t_parent_tid := parent_tid, t_priority := priority\<rparr>);
              (mem, block) = memory_allocate_block (k_memory K);
              K = upd_task (K\<lparr>k_memory := mem\<rparr>) task (\<lambda>t. t\<lparr>t_memory_block := block\<rparr>)
          in bindE (memory_get_block_end (k_memory K) (t_memory_block (k_tasks K task))) (\<lambda>sp.
             let K = upd_task K task (\<lambda>t. t\<lparr>t_sp := sp, t_pc := func,
                       t_x := (t_x t)(30 := k_exit_addr K), t_spsr := 0, t_next := None\<rparr>)
             in bindE (task_list_push_back (k_jobq_pool K) (k_jobq K) task) (\<lambda>(pool, jobq).
                let K = K\<lparr>k_jobq_pool := pool, k_jobq := jobq\<rparr>;
                    K = upd_task K task (\<lambda>t. t\<lparr>t_job_node := tl_tail (k_jobq K)\<rparr>)
                in bindE (change_task_state K task READY) (\<lambda>K. Inr (K, Some task)))))"

definition remove_current_task :: "Kernel \<Rightarrow> Kernel res" where
  "remove_current_task K =
     bindE (derefE (k_current K)) (\<lambda>cur.
     bindE (task_list_remove_node (k_jobq_pool K) (k_jobq K) (t_job_node (k_tasks K cur)))
       (\<lambda>(pool, jobq, _).
     let K = K\<lparr>k_jobq_pool := pool, k_jobq := jobq\<rparr>
     in bindE (memory_free_block (k_memory K) (t_memory_block (k_tasks K cur))) (\<lambda>mem.
        let K = upd_task (K\<lparr>k_memory := mem\<rparr>) cur task_init
        in Inr (K\<lparr>k_current := None\<rparr>))))"

definition get_current_task :: "Kernel \<Rightarrow> task_ptr option" where
  "get_current_task K = k_current K"

definition schedule :: "Kernel \<Rightarrow> (Kernel \<times> task_ptr option) res" where
  "schedule K =
     bindE
       (case k_current K of
          Some cur \<Rightarrow>
            let state = t_state (k_tasks K cur)
            in bindE (assertE (state = RUNNING \<or> state < READY)) (\<lambda>_.
               if state = RUNNING then change_task_state K cur READY else Inr K)
        | None \<Rightarrow> Inr K)
     (\<lambda>K. if \<not> ptask_queue_empty (k_readyq K)
          then bindE (ptask_queue_pop (k_readyq_pool K) (k_readyq K)) (\<lambda>(pool, pq, result).
               Inr (K\<lparr>k_readyq_pool := pool, k_readyq := pq\<rparr>, result))
          else Inr (K, None))"

definition wake_up_irq_blocked_tasks :: "Kernel \<Rightarrow> int \<Rightarrow> Kernel res" where
  "wake_up_irq_blocked_tasks K intid =
     bindE (assertE (0 \<le> intid \<and> intid < 1022)) (\<lambda>_.
     let cur_intq = k_irqq K (nat intid)
     in if \<not> ptask_queue_empty cur_intq
        then bindE (ptask_queue_pop (k_irqq_pool K) cur_intq) (\<lambda>(pool, pq, task).
             let K = K\<lparr>k_irqq_pool := pool, k_irqq := (k_irqq K)(nat intid := pq)\<rparr>
             in bindE (derefE task) (\<lambda>task.
                bindE (assertE (t_state (k_tasks K task) = AWATIEVENT)) (\<lambda>_.
                change_task_state K task READY)))
        else Inr K)"

definition add_to_irq_queue :: "Kernel \<Rightarrow> int \<Rightarrow> task_ptr \<Rightarrow> Kernel res" where
  "add_to_irq_queue K intid task =
     bindE (assertE (0 \<le> intid \<and> intid < 1022)) (\<lambda>_.
     bindE (ptask_queue_push (k_irqq_pool K) (k_irqq K (nat intid)) task (t_priority (k_tasks K task)))
       (\<lambda>(pool, pq). Inr (K\<lparr>k_irqq_pool := pool, k_irqq := (k_irqq K)(nat intid := pq)\<rparr>)))"

text \<open>
  The walk of \<^verbatim>\<open>get_task_by_tid\<close> along the job list.  The pool has 64 nodes, so a walk of
  more than 64 steps has met a node twice and never ends; the fuel of the loop is one more
  than the number of nodes.
\<close>

fun find_job :: "nat \<Rightarrow> (node_ptr \<Rightarrow> TaskNode) \<Rightarrow> (task_ptr \<Rightarrow> Task) \<Rightarrow> i32 \<Rightarrow> node_ptr option \<Rightarrow> task_ptr option res" where
  "find_job fuel nodes tasks tid None = Inr None"
| "find_job 0 nodes tasks tid (Some n) = Inl Diverges"
| "find_job (Suc fuel) nodes tasks tid (Some n) =
     (case tn_task (nodes n) of
        None \<Rightarrow> Inl NullDeref
      | Some t \<Rightarrow> if t_tid (tasks t) = tid then Inr (Some t)
                  else find_job fuel nodes tasks tid (tn_next (nodes n)))"

definition get_task_by_tid :: "Kernel \<Rightarrow> i32 \<Rightarrow> task_ptr option res" where
  "get_task_by_tid K tid =
     find_job (MAX_TASK_NUM + 1) (np_nodes (k_jobq_pool K)) (k_tasks K) tid (tl_head (k_jobq K))"

subsection \<open>The old task queue\<close>

text \<open>
  \<^verbatim>\<open>task_queue_add\<close>, \<^verbatim>\<open>task_queue_pop\<close> and \<^verbatim>\<open>task_queue_peek\<close>: the intrusive lists that the priority
  queue has replaced.  They are initialised and no longer called.
\<close>

definition task_queue_add :: "Kernel \<Rightarrow> task_ptr \<Rightarrow> Kernel res" where
  "task_queue_add K task =
     (let priority = t_priority (k_tasks K task); j = priority_index priority
      in if \<not> valid_priority priority then Inl OutOfBounds
         else
           let K = (case tq_end (k_task_queue K j) of
               Some e \<Rightarrow>
                 let K = upd_task K e (\<lambda>t. t\<lparr>t_next := Some task\<rparr>)
                 in K\<lparr>k_task_queue := (k_task_queue K)(j := (k_task_queue K j)\<lparr>tq_end := t_next (k_tasks K e)\<rparr>)\<rparr>
             | None \<Rightarrow>
                 K\<lparr>k_task_queue := (k_task_queue K)(j := (k_task_queue K j)\<lparr>tq_end := Some task, tq_front := Some task\<rparr>)\<rparr>)
           in Inr (upd_task K task (\<lambda>t. t\<lparr>t_next := None\<rparr>)))"

fun task_queue_scan :: "Kernel \<Rightarrow> nat \<Rightarrow> nat option" where
  "task_queue_scan K 0 = None"
| "task_queue_scan K (Suc i) = (if tq_front (k_task_queue K i) \<noteq> None then Some i else task_queue_scan K i)"

definition task_queue_pop :: "Kernel \<Rightarrow> Kernel \<times> task_ptr option" where
  "task_queue_pop K =
     (case task_queue_scan K TASK_PRIORITY_MAX of
        None \<Rightarrow> (K, None)
      | Some i \<Rightarrow>
          let popped = tq_front (k_task_queue K i); nxt = t_next (k_tasks K (the popped))
          in (K\<lparr>k_task_queue := (k_task_queue K)(i :=
                 if nxt \<noteq> None then (k_task_queue K i)\<lparr>tq_front := nxt\<rparr>
                 else (k_task_queue K i)\<lparr>tq_front := None, tq_end := None\<rparr>)\<rparr>,
              popped))"

definition task_queue_peek :: "Kernel \<Rightarrow> task_ptr option" where
  "task_queue_peek K =
     (case task_queue_scan K TASK_PRIORITY_MAX of
        None \<Rightarrow> None
      | Some i \<Rightarrow> tq_front (k_task_queue K i))"

end
