(* ===== verification/Message_Passing.thy ===== *)
theory Message_Passing
  imports Scheduler
begin

text \<open>
  The system calls of \<^verbatim>\<open>message_passing.c\<close> (\<^verbatim>\<open>Send\<close>, \<^verbatim>\<open>Receive\<close>, \<^verbatim>\<open>Reply\<close>), of
  \<^verbatim>\<open>kernel_syscall.c\<close> and \<^verbatim>\<open>sys_await_event\<close> of \<^verbatim>\<open>interrupt.c\<close>.  The arguments of a
  call are the registers of the calling task, which the code reads through a pointer to
  \<^verbatim>\<open>task->x\<close>; no call writes these registers.  Messages are bytes of the machine's
  memory; the memory that the kernel keeps its own data in is disjoint from it in the model.  That no copy leaves
  the memory of the tasks, when the buffers lie in it and the lengths are not negative, is shown in \<open>Memory_Safety\<close>.
\<close>

record SendArgs =
  sa_tid :: i64
  sa_msg :: u64
  sa_msg_len :: i64
  sa_reply :: u64
  sa_reply_len :: i64

record ReceiveArgs =
  ra_tid :: u64
  ra_msg :: u64
  ra_msg_len :: i64

record ReplyArgs =
  pa_tid :: i64
  pa_reply :: u64
  pa_reply_len :: i64

definition get_send_args :: "Task \<Rightarrow> SendArgs" where
  "get_send_args task = \<lparr>sa_tid = t_x task 0, sa_msg = t_x task 1, sa_msg_len = t_x task 2,
     sa_reply = t_x task 3, sa_reply_len = t_x task 4\<rparr>"

definition get_receive_args :: "Task \<Rightarrow> ReceiveArgs" where
  "get_receive_args task = \<lparr>ra_tid = t_x task 0, ra_msg = t_x task 1, ra_msg_len = t_x task 2\<rparr>"

definition get_reply_args :: "Task \<Rightarrow> ReplyArgs" where
  "get_reply_args task = \<lparr>pa_tid = t_x task 0, pa_reply = t_x task 1, pa_reply_len = t_x task 2\<rparr>"

text \<open>Storing an \<^verbatim>\<open>int\<close> through a pointer: four bytes, the low one first.\<close>

definition store_int :: "mem \<Rightarrow> u64 \<Rightarrow> i32 \<Rightarrow> mem" where
  "store_int m a v = m(a := ucast v, a + 1 := ucast (drop_bit 8 v),
                       a + 2 := ucast (drop_bit 16 v), a + 3 := ucast (drop_bit 24 v))"

definition load_int :: "mem \<Rightarrow> u64 \<Rightarrow> i32" where
  "load_int m a = or (ucast (m a)) (or (push_bit 8 (ucast (m (a + 1))))
     (or (push_bit 16 (ucast (m (a + 2)))) (push_bit 24 (ucast (m (a + 3))))))"

definition k_mem :: "Kernel \<Rightarrow> mem" where
  "k_mem K = mb_mem (k_memory K)"

definition set_mem :: "Kernel \<Rightarrow> mem \<Rightarrow> Kernel" where
  "set_mem K m = K\<lparr>k_memory := (k_memory K)\<lparr>mb_mem := m\<rparr>\<rparr>"

definition give_result :: "Kernel \<Rightarrow> task_ptr \<Rightarrow> u64 \<Rightarrow> Kernel" where
  "give_result K t r = upd_task K t (\<lambda>d. assign_result d r)"

definition register_sender :: "Kernel \<Rightarrow> task_ptr \<Rightarrow> task_ptr \<Rightarrow> (Kernel \<times> bool) res" where
  "register_sender K receiver sender =
     bindE (queue_push (t_senders (k_tasks K receiver)) (scast (t_tid (k_tasks K sender)))) (\<lambda>(q, ok).
     Inr (upd_task K receiver (\<lambda>d. d\<lparr>t_senders := q\<rparr>), ok))"

definition next_sender :: "Kernel \<Rightarrow> task_ptr \<Rightarrow> (Kernel \<times> i32) res" where
  "next_sender K receiver =
     bindE (queue_pop (t_senders (k_tasks K receiver))) (\<lambda>(q, e).
     Inr (upd_task K receiver (\<lambda>d. d\<lparr>t_senders := q\<rparr>), ucast e))"

definition copy_message :: "mem \<Rightarrow> u64 \<Rightarrow> i32 \<Rightarrow> u64 \<Rightarrow> i32 \<Rightarrow> mem \<times> i32" where
  "copy_message m msg_from len_msg_from msg_to len_msg_to =
     (let actual_len = (if sint len_msg_from < sint len_msg_to then len_msg_from else len_msg_to)
      in (memcpy m msg_to msg_from (scast actual_len), actual_len))"

definition synchronized_send_receive ::
  "Kernel \<Rightarrow> task_ptr option \<Rightarrow> u64 \<Rightarrow> i32 \<Rightarrow> task_ptr option \<Rightarrow> u64 \<Rightarrow> i32 \<Rightarrow> (Kernel \<times> i32) res" where
  "synchronized_send_receive K sender msg_from len_msg_from receiver msg_to len_msg_to =
     (case (sender, receiver) of
        (Some _, Some r) \<Rightarrow>
          let (m, actual_len) = copy_message (k_mem K) msg_from len_msg_from msg_to len_msg_to;
              K = give_result (set_mem K m) r (scast actual_len)
          in bindE (if t_state (k_tasks K r) \<noteq> RUNNING then change_task_state K r READY else Inr K)
               (\<lambda>K. Inr (K, actual_len))
      | _ \<Rightarrow> Inr (K, - 1))"

definition sys_send :: "Kernel \<Rightarrow> Kernel res" where
  "sys_send K =
     bindE (derefE (get_current_task K)) (\<lambda>sender.
     let args = get_send_args (k_tasks K sender)
     in bindE (get_task_by_tid K (ucast (sa_tid args))) (\<lambda>receiver.
        case receiver of
          None \<Rightarrow> Inr (give_result K sender (- 1))
        | Some r \<Rightarrow>
            if t_state (k_tasks K r) = WAITRECEIVE
            then
              let receive_args = get_receive_args (k_tasks K r);
                  K = set_mem K (store_int (k_mem K) (ra_tid receive_args) (t_tid (k_tasks K sender)))
              in bindE (synchronized_send_receive K (Some sender) (sa_msg args) (ucast (sa_msg_len args))
                          (Some r) (ra_msg receive_args) (ucast (ra_msg_len receive_args))) (\<lambda>(K, _).
                 change_task_state K sender WATIREPLY)
            else
              bindE (register_sender K r sender) (\<lambda>(K, success).
              if success then change_task_state K sender WATISEND
              else Inr (give_result K sender (- 2)))))"

definition sys_receive :: "Kernel \<Rightarrow> Kernel res" where
  "sys_receive K =
     bindE (derefE (get_current_task K)) (\<lambda>receiver.
     let args = get_receive_args (k_tasks K receiver)
     in if queue_is_empty (t_senders (k_tasks K receiver))
        then change_task_state K receiver WAITRECEIVE
        else
          bindE (next_sender K receiver) (\<lambda>(K, sender_id).
          bindE (get_task_by_tid K sender_id) (\<lambda>sender.
          case sender of
            None \<Rightarrow> Inr (give_result K receiver (- 1))
          | Some s \<Rightarrow>
              let send_args = get_send_args (k_tasks K s);
                  K = set_mem K (store_int (k_mem K) (ra_tid args) (t_tid (k_tasks K s)))
              in bindE (synchronized_send_receive K (Some s) (sa_msg send_args) (ucast (sa_msg_len send_args))
                          (Some receiver) (ra_msg args) (ucast (ra_msg_len args))) (\<lambda>(K, _).
                 change_task_state K s WATIREPLY))))"

definition sys_reply :: "Kernel \<Rightarrow> Kernel res" where
  "sys_reply K =
     bindE (derefE (get_current_task K)) (\<lambda>receiver.
     let args = get_reply_args (k_tasks K receiver)
     in bindE (get_task_by_tid K (ucast (pa_tid args))) (\<lambda>sender.
        case sender of
          None \<Rightarrow> Inr (give_result K receiver (- 1))
        | Some s \<Rightarrow>
            let send_args = get_send_args (k_tasks K s)
            in bindE (synchronized_send_receive K (Some receiver) (pa_reply args) (ucast (pa_reply_len args))
                        (Some s) (sa_reply send_args) (ucast (sa_reply_len send_args))) (\<lambda>(K, actual_len).
               Inr (give_result K receiver (scast actual_len)))))"

subsection \<open>The other system calls\<close>

definition sys_create :: "Kernel \<Rightarrow> Kernel res" where
  "sys_create K =
     (case get_current_task K of
        None \<Rightarrow> Inl NullDeref
      | Some cur \<Rightarrow>
          let priority = ucast (t_x (k_tasks K cur) 0); func_ptr = t_x (k_tasks K cur) 1
          in bindE (create_task K priority func_ptr (t_tid (k_tasks K cur))) (\<lambda>(K, new_task).
             case new_task of
               Some t \<Rightarrow> Inr (give_result K cur (scast (t_tid (k_tasks K t))))
             | None \<Rightarrow> Inr (give_result K cur (- 1))))"

definition sys_tid :: "Kernel \<Rightarrow> Kernel res" where
  "sys_tid K =
     (case get_current_task K of
        Some cur \<Rightarrow> Inr (give_result K cur (scast (t_tid (k_tasks K cur))))
      | None \<Rightarrow> Inl NullDeref)"

definition sys_parent_tid :: "Kernel \<Rightarrow> Kernel res" where
  "sys_parent_tid K =
     (case get_current_task K of
        Some cur \<Rightarrow> Inr (give_result K cur (scast (t_parent_tid (k_tasks K cur))))
      | None \<Rightarrow> Inl NullDeref)"

definition sys_yield :: "Kernel \<Rightarrow> Kernel res" where
  "sys_yield K = Inr K"

definition sys_exit :: "Kernel \<Rightarrow> Kernel res" where
  "sys_exit K = remove_current_task K"

definition sys_await_event :: "Kernel \<Rightarrow> Kernel res" where
  "sys_await_event K =
     bindE (derefE (k_current K)) (\<lambda>cur.
     bindE (change_task_state K cur AWATIEVENT) (\<lambda>K.
     let intid = ucast (t_x (k_tasks K cur) 0) :: i32
     in add_to_irq_queue K (sint intid) cur))"

subsection \<open>Frame facts\<close>

lemma set_mem_simps [simp]:
  "k_tasks (set_mem K m) = k_tasks K" "k_mem (set_mem K m) = m" "k_current (set_mem K m) = k_current K"
  "mb_used (k_memory (set_mem K m)) = mb_used (k_memory K)" "k_jobq_pool (set_mem K m) = k_jobq_pool K"
  "k_jobq (set_mem K m) = k_jobq K" "mb_base (k_memory (set_mem K m)) = mb_base (k_memory K)"
  by (simp_all add: set_mem_def k_mem_def)

lemma give_result_simps [simp]:
  "k_tasks (give_result K t r) = (k_tasks K)(t := assign_result (k_tasks K t) r)"
  "k_mem (give_result K t r) = k_mem K" "k_current (give_result K t r) = k_current K"
  "k_memory (give_result K t r) = k_memory K"
  by (simp_all add: give_result_def k_mem_def)

lemma k_mem_upd_task [simp]: "k_mem (upd_task K t f) = k_mem K"
  by (simp add: k_mem_def)

lemma byte_addresses:
  "(a::u64) \<noteq> a + 1" "a \<noteq> a + 2" "a \<noteq> a + 3" "a + 1 \<noteq> a + 2" "a + 1 \<noteq> a + 3" "a + 2 \<noteq> a + 3"
  by simp_all

lemma load_store_int: "load_int (store_int m a v) a = v"
  using byte_addresses [of a]
  by (intro bit_word_eqI) (auto simp: load_int_def store_int_def bit_simps, rule ccontr, simp)

lemma store_int_other: "\<not> in_region x a 4 \<Longrightarrow> store_int m a v x = m x"
proof -
  assume x: "\<not> in_region x a 4"
  have "in_region (a + word_of_nat i) a 4" if "i < 4" for i using that by (intro in_region_offset) simp_all
  from this [of 0] this [of 1] this [of 2] this [of 3] have
    "in_region a a 4" "in_region (a + 1) a 4" "in_region (a + 2) a 4" "in_region (a + 3) a 4" by simp_all
  with x have "x \<noteq> a" "x \<noteq> a + 1" "x \<noteq> a + 2" "x \<noteq> a + 3" by blast+
  then show ?thesis by (simp add: store_int_def)
qed

end
