(* ===== verification/Kernel_Spec.thy ===== *)
theory Kernel_Spec
  imports Prio_Queue
begin

text \<open>
  The abstract kernel: what the scheduler and the message passing promise, without nodes,
  pools, registers or memory.  A live task is a number; the state says which tasks are live
  (in the order of their creation), the lists of the ready queue and of the interrupt
  queues, and for each task its state, its priority and the senders waiting for it.  The
  invariant \<open>ainv\<close> ties the queues to the states.  The theories \<open>Scheduler_Refine\<close> and
  \<open>Message_Refine\<close> show that the code implements these operations.
\<close>

record AKernel =
  a_jobs :: "task_ptr list"
  a_ready :: "nat \<Rightarrow> task_ptr list"
  a_irq :: "nat \<Rightarrow> nat \<Rightarrow> task_ptr list"
  a_state :: "task_ptr \<Rightarrow> TaskState"
  a_prio :: "task_ptr \<Rightarrow> nat"
  a_senders :: "task_ptr \<Rightarrow> task_ptr list"
  a_current :: "task_ptr option"
  a_created :: nat

subsection \<open>Operations\<close>

definition a_set_state :: "AKernel \<Rightarrow> task_ptr \<Rightarrow> TaskState \<Rightarrow> AKernel" where
  "a_set_state A t s = A\<lparr>a_state := (a_state A)(t := s)\<rparr>"

definition a_make_ready :: "AKernel \<Rightarrow> task_ptr \<Rightarrow> AKernel" where
  "a_make_ready A t =
     (let j = a_prio A t
      in a_set_state (A\<lparr>a_ready := (a_ready A)(j := a_ready A j @ [t])\<rparr>) t READY)"

definition a_requeue :: "AKernel \<Rightarrow> AKernel" where
  "a_requeue A =
     (case a_current A of
        Some c \<Rightarrow> if a_state A c = RUNNING then a_make_ready A c else A
      | None \<Rightarrow> A)"

definition a_order :: "AKernel \<Rightarrow> task_ptr list" where
  "a_order A = service_order TASK_PRIORITY_MAX (a_ready A)"

definition a_take :: "AKernel \<Rightarrow> task_ptr \<Rightarrow> AKernel" where
  "a_take A t = A\<lparr>a_ready := (a_ready A)(a_prio A t := tl (a_ready A (a_prio A t)))\<rparr>"

definition a_schedule :: "AKernel \<Rightarrow> AKernel \<times> task_ptr option" where
  "a_schedule A =
     (let A = a_requeue A
      in case a_order A of [] \<Rightarrow> (A, None) | t # _ \<Rightarrow> (a_take A t, Some t))"

definition a_run :: "AKernel \<Rightarrow> task_ptr \<Rightarrow> AKernel" where
  "a_run A t = a_set_state (A\<lparr>a_current := Some t\<rparr>) t RUNNING"

definition a_create :: "AKernel \<Rightarrow> nat \<Rightarrow> AKernel \<times> task_ptr option" where
  "a_create A prio =
     (let t = a_created A
      in if t < MAX_TASK_NUM
         then (a_make_ready (A\<lparr>a_jobs := a_jobs A @ [t], a_created := t + 1,
                               a_prio := (a_prio A)(t := prio),
                               a_senders := (a_senders A)(t := [])\<rparr>) t, Some t)
         else (A, None))"

definition a_exit :: "AKernel \<Rightarrow> task_ptr \<Rightarrow> AKernel" where
  "a_exit A c = A\<lparr>a_jobs := remove1 c (a_jobs A), a_current := None\<rparr>"

definition a_send :: "AKernel \<Rightarrow> task_ptr \<Rightarrow> task_ptr option \<Rightarrow> AKernel" where
  "a_send A s receiver =
     (case receiver of
        None \<Rightarrow> A
      | Some r \<Rightarrow>
          if a_state A r = WAITRECEIVE then a_set_state (a_make_ready A r) s WATIREPLY
          else if length (a_senders A r) < MAX_SENDER_CAPACITY - 1
          then a_set_state (A\<lparr>a_senders := (a_senders A)(r := a_senders A r @ [s])\<rparr>) s WATISEND
          else A)"

definition a_receive :: "AKernel \<Rightarrow> task_ptr \<Rightarrow> AKernel" where
  "a_receive A r =
     (case a_senders A r of
        [] \<Rightarrow> a_set_state A r WAITRECEIVE
      | s # ss \<Rightarrow> a_set_state (A\<lparr>a_senders := (a_senders A)(r := ss)\<rparr>) s WATIREPLY)"

definition a_reply :: "AKernel \<Rightarrow> task_ptr option \<Rightarrow> AKernel" where
  "a_reply A sender =
     (case sender of
        None \<Rightarrow> A
      | Some s \<Rightarrow> if a_state A s = RUNNING then A else a_make_ready A s)"

definition a_await :: "AKernel \<Rightarrow> task_ptr \<Rightarrow> nat \<Rightarrow> AKernel" where
  "a_await A c i =
     (let j = a_prio A c
      in a_set_state (A\<lparr>a_irq := (a_irq A)(i := (a_irq A i)(j := a_irq A i j @ [c]))\<rparr>) c AWATIEVENT)"

definition a_wake :: "AKernel \<Rightarrow> nat \<Rightarrow> AKernel" where
  "a_wake A i =
     (case service_order TASK_PRIORITY_MAX (a_irq A i) of
        [] \<Rightarrow> A
      | t # _ \<Rightarrow>
          let j = a_prio A t
          in a_make_ready (A\<lparr>a_irq := (a_irq A)(i := (a_irq A i)(j := tl (a_irq A i j)))\<rparr>) t)"

definition a_init :: AKernel where
  "a_init = \<lparr>a_jobs = [], a_ready = (\<lambda>_. []), a_irq = (\<lambda>_ _. []), a_state = (\<lambda>_. INITIALIZED),
             a_prio = (\<lambda>_. 0), a_senders = (\<lambda>_. []), a_current = None, a_created = 0\<rparr>"

subsection \<open>The invariant\<close>

definition jobs_ok :: "AKernel \<Rightarrow> bool" where
  "jobs_ok A \<longleftrightarrow> distinct (a_jobs A) \<and> set (a_jobs A) \<subseteq> {0..<a_created A} \<and> a_created A \<le> MAX_TASK_NUM
     \<and> (\<forall>t\<in>set (a_jobs A). a_prio A t < TASK_PRIORITY_MAX \<and> a_state A t \<noteq> INITIALIZED)"

definition ready_ok :: "AKernel \<Rightarrow> bool" where
  "ready_ok A \<longleftrightarrow> pqs_once {()} (\<lambda>_. a_ready A)
     \<and> (\<forall>j<TASK_PRIORITY_MAX. \<forall>t. t \<in> set (a_ready A j) \<longleftrightarrow>
          t \<in> set (a_jobs A) \<and> a_state A t = READY \<and> a_prio A t = j)"

definition irq_ok :: "AKernel \<Rightarrow> bool" where
  "irq_ok A \<longleftrightarrow> pqs_once {..<NUM_INTERRUPT} (a_irq A)
     \<and> (\<forall>i<NUM_INTERRUPT. \<forall>j<TASK_PRIORITY_MAX. \<forall>t\<in>set (a_irq A i j).
          t \<in> set (a_jobs A) \<and> a_state A t = AWATIEVENT \<and> a_prio A t = j)
     \<and> (\<forall>t\<in>set (a_jobs A). a_state A t = AWATIEVENT \<longrightarrow> (\<exists>i<NUM_INTERRUPT. t \<in> set (a_irq A i (a_prio A t))))"

definition senders_ok :: "AKernel \<Rightarrow> bool" where
  "senders_ok A \<longleftrightarrow>
     (\<forall>r\<in>set (a_jobs A). distinct (a_senders A r) \<and> length (a_senders A r) < MAX_SENDER_CAPACITY
        \<and> (\<forall>s\<in>set (a_senders A r). s \<in> set (a_jobs A) \<and> a_state A s = WATISEND))
     \<and> (\<forall>r\<in>set (a_jobs A). \<forall>r'\<in>set (a_jobs A). r \<noteq> r' \<longrightarrow> set (a_senders A r) \<inter> set (a_senders A r') = {})"

definition current_ok :: "AKernel \<Rightarrow> bool" where
  "current_ok A \<longleftrightarrow> (\<forall>t\<in>set (a_jobs A). a_state A t = RUNNING \<longrightarrow> a_current A = Some t)
     \<and> (\<forall>t. a_current A = Some t \<longrightarrow> t \<in> set (a_jobs A) \<and> a_state A t \<noteq> READY)"

definition ainv :: "AKernel \<Rightarrow> bool" where
  "ainv A \<longleftrightarrow> jobs_ok A \<and> ready_ok A \<and> irq_ok A \<and> senders_ok A \<and> current_ok A"

lemmas ainv_parts = jobs_ok_def ready_ok_def irq_ok_def senders_ok_def current_ok_def

lemma a_set_state_simps [simp]:
  "a_jobs (a_set_state A t s) = a_jobs A" "a_ready (a_set_state A t s) = a_ready A"
  "a_irq (a_set_state A t s) = a_irq A" "a_state (a_set_state A t s) = (a_state A)(t := s)"
  "a_prio (a_set_state A t s) = a_prio A" "a_senders (a_set_state A t s) = a_senders A"
  "a_current (a_set_state A t s) = a_current A" "a_created (a_set_state A t s) = a_created A"
  by (simp_all add: a_set_state_def)

lemma a_make_ready_simps [simp]:
  "a_jobs (a_make_ready A t) = a_jobs A"
  "a_ready (a_make_ready A t) = (a_ready A)(a_prio A t := a_ready A (a_prio A t) @ [t])"
  "a_irq (a_make_ready A t) = a_irq A" "a_state (a_make_ready A t) = (a_state A)(t := READY)"
  "a_prio (a_make_ready A t) = a_prio A" "a_senders (a_make_ready A t) = a_senders A"
  "a_current (a_make_ready A t) = a_current A" "a_created (a_make_ready A t) = a_created A"
  by (simp_all add: a_make_ready_def Let_def)

lemma ainv_init: "ainv a_init"
  by (simp add: ainv_def ainv_parts a_init_def pqs_once_def)

lemma jobs_bound: "jobs_ok A \<Longrightarrow> t \<in> set (a_jobs A) \<Longrightarrow> t < MAX_TASK_NUM"
  by (fastforce simp: jobs_ok_def)

text \<open>Sending a task that is in none of the queues to the ready queue.\<close>

lemma ready_ok_push:
  assumes r: "ready_ok A" and j: "jobs_ok A" and t: "t \<in> set (a_jobs A)" and s: "a_state A t \<noteq> READY"
  shows "ready_ok (a_make_ready A t)"
proof -
  have p: "a_prio A t < TASK_PRIORITY_MAX" using j t by (simp add: jobs_ok_def)
  have "\<forall>i<TASK_PRIORITY_MAX. t \<notin> set (a_ready A i)" using r s by (simp add: ready_ok_def)
  then have "pqs_once {()} (\<lambda>_. (a_ready A)(a_prio A t := a_ready A (a_prio A t) @ [t]))"
    using pqs_once_push [of "{()}" "\<lambda>_. a_ready A" t "()" "a_prio A t"] r p jobs_bound [OF j t]
    by (simp add: ready_ok_def)
  moreover have "u \<in> set (((a_ready A)(a_prio A t := a_ready A (a_prio A t) @ [t])) k) \<longleftrightarrow>
      u \<in> set (a_jobs A) \<and> ((a_state A)(t := READY)) u = READY \<and> a_prio A u = k" if "k < TASK_PRIORITY_MAX" for u k
    using r t that p s by (auto simp: ready_ok_def)
  ultimately show ?thesis by (simp add: ready_ok_def)
qed

text \<open>A state change between states that are in no queue leaves the ready queue alone.\<close>

lemma ready_ok_set_state:
  "ready_ok A \<Longrightarrow> a_state A t \<noteq> READY \<Longrightarrow> s \<noteq> READY \<Longrightarrow> ready_ok (a_set_state A t s)"
  by (auto simp: ready_ok_def)

lemma irq_ok_state:
  assumes "irq_ok A" and "a_state A t \<noteq> AWATIEVENT" and "s \<noteq> AWATIEVENT"
    and "a_jobs A' = a_jobs A" "a_irq A' = a_irq A" "a_prio A' = a_prio A" "a_state A' = (a_state A)(t := s)"
  shows "irq_ok A'"
  using assms by (auto simp: irq_ok_def)

lemma jobs_ok_state:
  assumes "jobs_ok A" and "s \<noteq> INITIALIZED"
    and "a_jobs A' = a_jobs A" "a_created A' = a_created A" "a_prio A' = a_prio A" "a_state A' = (a_state A)(t := s)"
  shows "jobs_ok A'"
  using assms by (auto simp: jobs_ok_def)

lemma senders_ok_state:
  assumes "senders_ok A" and "a_state A t \<noteq> WATISEND"
    and "a_jobs A' = a_jobs A" "a_senders A' = a_senders A" "a_state A' = (a_state A)(t := s)"
  shows "senders_ok A'"
  using assms by (fastforce simp: senders_ok_def)

subsection \<open>Scheduling keeps the invariant\<close>

text \<open>The invariant without its last part, for a state in which no task runs.\<close>

definition idle_inv :: "AKernel \<Rightarrow> bool" where
  "idle_inv A \<longleftrightarrow> jobs_ok A \<and> ready_ok A \<and> irq_ok A \<and> senders_ok A
     \<and> (\<forall>t\<in>set (a_jobs A). a_state A t \<noteq> RUNNING)
     \<and> (\<forall>t. a_current A = Some t \<longrightarrow> t \<in> set (a_jobs A))"

lemma jobs_ok_make_ready: "jobs_ok A \<Longrightarrow> jobs_ok (a_make_ready A t)"
  by (erule jobs_ok_state [where s = READY and t = t]) simp_all

lemma irq_ok_make_ready: "irq_ok A \<Longrightarrow> a_state A t \<noteq> AWATIEVENT \<Longrightarrow> irq_ok (a_make_ready A t)"
  by (erule irq_ok_state [where s = READY and t = t]) simp_all

lemma senders_ok_make_ready: "senders_ok A \<Longrightarrow> a_state A t \<noteq> WATISEND \<Longrightarrow> senders_ok (a_make_ready A t)"
  by (erule senders_ok_state [where s = READY and t = t]) simp_all

lemma requeue_idle_inv:
  assumes "ainv A"
  shows "idle_inv (a_requeue A)"
proof -
  from assms have i: "jobs_ok A" "ready_ok A" "irq_ok A" "senders_ok A" "current_ok A" by (simp_all add: ainv_def)
  show ?thesis
  proof (cases "\<exists>c. a_current A = Some c \<and> a_state A c = RUNNING")
    case True
    then obtain c where c: "a_current A = Some c" "a_state A c = RUNNING" by blast
    have cj: "c \<in> set (a_jobs A)" using i(5) c by (simp add: current_ok_def)
    have none: "\<forall>t\<in>set (a_jobs A). a_state (a_make_ready A c) t \<noteq> RUNNING"
      using i(5) c by (auto simp: current_ok_def)
    have r: "a_requeue A = a_make_ready A c" using c by (simp add: a_requeue_def)
    show ?thesis
      unfolding r idle_inv_def
      using jobs_ok_make_ready [OF i(1)] ready_ok_push [OF i(2,1) cj] irq_ok_make_ready [OF i(3)]
        senders_ok_make_ready [OF i(4)] none c cj by simp
  next
    case False
    then have r: "a_requeue A = A" by (cases "a_current A") (simp_all add: a_requeue_def)
    have "\<forall>t\<in>set (a_jobs A). a_state A t \<noteq> RUNNING"
    proof
      fix t assume t: "t \<in> set (a_jobs A)"
      have "a_state A t = RUNNING \<longrightarrow> a_current A = Some t"
        using i(5) t unfolding current_ok_def by blast
      then show "a_state A t \<noteq> RUNNING" using False by blast
    qed
    moreover have "t \<in> set (a_jobs A)" if "a_current A = Some t" for t
      using i(5) that by (simp add: current_ok_def)
    ultimately show ?thesis unfolding r idle_inv_def using i(1-4) by blast
  qed
qed

lemma ready_ok_take:
  assumes r: "ready_ok A" and j: "j < TASK_PRIORITY_MAX" and c: "a_ready A j = t # ts" and s: "s \<noteq> READY"
    and A': "a_jobs A' = a_jobs A" "a_prio A' = a_prio A" "a_ready A' = (a_ready A)(j := ts)"
      "a_state A' = (a_state A)(t := s)"
  shows "ready_ok A'"
proof -
  from r have once: "pqs_once {()} (\<lambda>_. a_ready A)"
    and mem: "\<And>i u. i < TASK_PRIORITY_MAX \<Longrightarrow> u \<in> set (a_ready A i) \<longleftrightarrow>
      u \<in> set (a_jobs A) \<and> a_state A u = READY \<and> a_prio A u = i"
    by (simp_all add: ready_ok_def)
  have "pqs_once {()} (\<lambda>_. (a_ready A)(j := ts))"
    using pqs_once_pop [OF once c _ j] by simp
  moreover have "u \<in> set (((a_ready A)(j := ts)) i) \<longleftrightarrow>
      u \<in> set (a_jobs A) \<and> ((a_state A)(t := s)) u = READY \<and> a_prio A u = i"
    if i: "i < TASK_PRIORITY_MAX" for i u
  proof (cases "u = t")
    case True
    have "distinct (t # ts)" using once c j by (metis pqs_once_def insertI1)
    moreover have "a_prio A t = j" using mem [OF j, of t] c by simp
    then have "i \<noteq> j \<Longrightarrow> t \<notin> set (a_ready A i)" using mem [OF i, of t] by simp
    ultimately show ?thesis using True s by auto
  next
    case False
    then show ?thesis using mem [OF i, of u] c by auto
  qed
  ultimately show ?thesis unfolding ready_ok_def A' by blast
qed

lemma order_head:
  assumes "a_order A = t # ts" and "ready_ok A"
  shows "t \<in> set (a_jobs A)" and "a_state A t = READY" and "a_prio A t < TASK_PRIORITY_MAX"
    and "a_ready A (a_prio A t) = t # tl (a_ready A (a_prio A t))"
    and "\<forall>i. a_prio A t < i \<and> i < TASK_PRIORITY_MAX \<longrightarrow> a_ready A i = []"
proof -
  from service_order_head [OF assms(1) [unfolded a_order_def]] obtain j where
    j: "j < TASK_PRIORITY_MAX" "a_ready A j = t # tl (a_ready A j)"
    "\<forall>i. j < i \<and> i < TASK_PRIORITY_MAX \<longrightarrow> a_ready A i = []" by blast
  have "t \<in> set (a_ready A j)" using j(2) by (metis list.set_intros(1))
  with assms(2) j(1) have t: "t \<in> set (a_jobs A)" "a_state A t = READY" "a_prio A t = j"
    by (simp_all add: ready_ok_def)
  with j show "t \<in> set (a_jobs A)" "a_state A t = READY" "a_prio A t < TASK_PRIORITY_MAX"
    "a_ready A (a_prio A t) = t # tl (a_ready A (a_prio A t))"
    "\<forall>i. a_prio A t < i \<and> i < TASK_PRIORITY_MAX \<longrightarrow> a_ready A i = []" by simp_all
qed

lemma a_run_take_simps [simp]:
  "a_jobs (a_run (a_take A t) u) = a_jobs A" "a_irq (a_run (a_take A t) u) = a_irq A"
  "a_state (a_run (a_take A t) u) = (a_state A)(u := RUNNING)"
  "a_ready (a_run (a_take A t) u) = (a_ready A)(a_prio A t := tl (a_ready A (a_prio A t)))"
  "a_prio (a_run (a_take A t) u) = a_prio A" "a_senders (a_run (a_take A t) u) = a_senders A"
  "a_current (a_run (a_take A t) u) = Some u" "a_created (a_run (a_take A t) u) = a_created A"
  by (simp_all add: a_run_def a_take_def)

lemma run_inv:
  assumes inv: "idle_inv A" and head: "a_order A = t # ts"
  shows "ainv (a_run (a_take A t) t)" (is "ainv ?A")
proof -
  from inv have i: "jobs_ok A" "ready_ok A" "irq_ok A" "senders_ok A" and idle: "\<forall>u\<in>set (a_jobs A). a_state A u \<noteq> RUNNING"
    by (simp_all add: idle_inv_def)
  note h = order_head [OF head i(2)]
  have "jobs_ok ?A" by (rule jobs_ok_state [OF i(1), of RUNNING _ t]) simp_all
  moreover have "ready_ok ?A" by (rule ready_ok_take [OF i(2) h(3,4), of RUNNING]) simp_all
  moreover have "irq_ok ?A" by (rule irq_ok_state [OF i(3), of t RUNNING]) (simp_all add: h)
  moreover have "senders_ok ?A" by (rule senders_ok_state [OF i(4), of t _ RUNNING]) (simp_all add: h)
  moreover have "current_ok ?A" using idle h by (auto simp: current_ok_def)
  ultimately show ?thesis by (simp add: ainv_def)
qed

subsection \<open>Blocking and waking keep the invariant\<close>

lemma current_ok_state:
  assumes "current_ok A" and "s \<noteq> RUNNING" and "s = READY \<longrightarrow> a_current A \<noteq> Some t"
    and A': "a_jobs A' = a_jobs A" "a_current A' = a_current A" "a_state A' = (a_state A)(t := s)"
  shows "current_ok A'"
  using assms(1-3) unfolding current_ok_def A' by (metis fun_upd_apply)

lemma make_ready_inv:
  assumes inv: "ainv A" and t: "t \<in> set (a_jobs A)" and s: "a_state A t = WAITRECEIVE \<or> a_state A t = WATIREPLY"
    and cur: "a_current A \<noteq> Some t"
  shows "ainv (a_make_ready A t)"
proof -
  from inv have i: "jobs_ok A" "ready_ok A" "irq_ok A" "senders_ok A" "current_ok A" by (simp_all add: ainv_def)
  have "current_ok (a_make_ready A t)"
    by (rule current_ok_state [OF i(5), of READY t]) (use cur in simp_all)
  then show ?thesis
    using jobs_ok_make_ready [OF i(1)] ready_ok_push [OF i(2,1) t] irq_ok_make_ready [OF i(3)]
      senders_ok_make_ready [OF i(4)] s by (auto simp: ainv_def)
qed

text \<open>The running task blocks without entering a queue.\<close>

lemma block_inv:
  assumes inv: "ainv A" and t: "t \<in> set (a_jobs A)" and s: "a_state A t = RUNNING"
    and new: "s = WATIREPLY \<or> s = WAITRECEIVE"
  shows "ainv (a_set_state A t s)"
proof -
  from inv have i: "jobs_ok A" "ready_ok A" "irq_ok A" "senders_ok A" "current_ok A" by (simp_all add: ainv_def)
  have "jobs_ok (a_set_state A t s)" by (rule jobs_ok_state [OF i(1), of s _ t]) (use new in auto)
  moreover have "ready_ok (a_set_state A t s)" by (rule ready_ok_set_state [OF i(2)]) (use s new in auto)
  moreover have "irq_ok (a_set_state A t s)" by (rule irq_ok_state [OF i(3), of t s]) (use s new in auto)
  moreover have "senders_ok (a_set_state A t s)" by (rule senders_ok_state [OF i(4), of t _ s]) (use s in auto)
  moreover have "current_ok (a_set_state A t s)" by (rule current_ok_state [OF i(5), of s t]) (use new in auto)
  ultimately show ?thesis by (simp add: ainv_def)
qed

text \<open>What a system call or an interrupt finds: the current task is the one that runs.\<close>

definition running :: "AKernel \<Rightarrow> task_ptr \<Rightarrow> bool" where
  "running A c \<longleftrightarrow> a_current A = Some c \<and> c \<in> set (a_jobs A) \<and> a_state A c = RUNNING"

lemma running_other: "running A c \<Longrightarrow> a_state A t \<noteq> RUNNING \<Longrightarrow> a_current A \<noteq> Some t \<and> t \<noteq> c"
  by (auto simp: running_def)

subsection \<open>Message passing keeps the invariant\<close>

lemma senders_ok_enqueue:
  assumes i: "senders_ok A" and r: "r \<in> set (a_jobs A)" and c: "c \<in> set (a_jobs A)" "a_state A c = RUNNING"
    and room: "length (a_senders A r) < MAX_SENDER_CAPACITY - 1"
  shows "senders_ok (a_set_state (A\<lparr>a_senders := (a_senders A)(r := a_senders A r @ [c])\<rparr>) c WATISEND)" (is "senders_ok ?A")
proof -
  have new: "c \<notin> set (a_senders A q)" if "q \<in> set (a_jobs A)" for q
    using i c that unfolding senders_ok_def by force
  have old: "distinct (a_senders A q)" "length (a_senders A q) < MAX_SENDER_CAPACITY"
    "\<And>u. u \<in> set (a_senders A q) \<Longrightarrow> u \<in> set (a_jobs A) \<and> a_state A u = WATISEND"
    if "q \<in> set (a_jobs A)" for q
    using i that unfolding senders_ok_def by blast+
  have dis: "set (a_senders A q) \<inter> set (a_senders A q') = {}" if "q \<in> set (a_jobs A)" "q' \<in> set (a_jobs A)" "q \<noteq> q'" for q q'
    using i that unfolding senders_ok_def by blast
  have S: "a_senders ?A q = (if q = r then a_senders A r @ [c] else a_senders A q)" for q by simp
  show ?thesis
    unfolding senders_ok_def
  proof (intro conjI ballI impI)
    fix q assume "q \<in> set (a_jobs ?A)"
    then have q: "q \<in> set (a_jobs A)" by simp
    show "distinct (a_senders ?A q)" unfolding S using old(1) [OF q] old(1) [OF r] new [OF r] by simp
    show "length (a_senders ?A q) < MAX_SENDER_CAPACITY" unfolding S using old(2) [OF q] room by auto
    show "u \<in> set (a_jobs ?A)" "a_state ?A u = WATISEND" if "u \<in> set (a_senders ?A q)" for u
      using that old(3) [OF q, of u] old(3) [OF r, of u] c(1) unfolding S by (auto split: if_splits)
    show "set (a_senders ?A q) \<inter> set (a_senders ?A q') = {}" if "q' \<in> set (a_jobs ?A)" "q \<noteq> q'" for q'
      using dis [OF q, of q'] new [OF q] new [of q'] that unfolding S by auto
  qed
qed

lemma ainv_senders_upd:
  assumes "ainv A" "a_jobs A' = a_jobs A" "a_ready A' = a_ready A" "a_irq A' = a_irq A" "a_state A' = a_state A"
    "a_prio A' = a_prio A" "a_current A' = a_current A" "a_created A' = a_created A" "senders_ok A'"
  shows "ainv A'"
  using assms(1,9) unfolding ainv_def jobs_ok_def ready_ok_def irq_ok_def current_ok_def assms(2-8) by blast

lemma send_inv:
  assumes inv: "ainv A" and run: "running A c" and r: "\<forall>r. receiver = Some r \<longrightarrow> r \<in> set (a_jobs A)"
  shows "ainv (a_send A c receiver)"
proof (cases receiver)
  case (Some r)
  with r have rj: "r \<in> set (a_jobs A)" by simp
  from run have c: "c \<in> set (a_jobs A)" "a_state A c = RUNNING" by (simp_all add: running_def)
  show ?thesis
  proof (cases "a_state A r = WAITRECEIVE")
    case True
    have o: "a_current A \<noteq> Some r \<and> r \<noteq> c" using running_other [OF run, of r] True by simp
    have "ainv (a_make_ready A r)" by (rule make_ready_inv [OF inv rj]) (use True o in simp_all)
    then have "ainv (a_set_state (a_make_ready A r) c WATIREPLY)"
      by (rule block_inv) (use c o in simp_all)
    then show ?thesis using Some True by (simp add: a_send_def)
  next
    case False
    show ?thesis
    proof (cases "length (a_senders A r) < MAX_SENDER_CAPACITY - 1")
      case True
      let ?A = "a_set_state (A\<lparr>a_senders := (a_senders A)(r := a_senders A r @ [c])\<rparr>) c WATISEND"
      from inv have i: "jobs_ok A" "ready_ok A" "irq_ok A" "senders_ok A" "current_ok A" by (simp_all add: ainv_def)
      have "jobs_ok ?A" by (rule jobs_ok_state [OF i(1), of WATISEND _ c]) simp_all
      moreover have "ready_ok ?A"
        using ready_ok_set_state [OF i(2), of c WATISEND] c by (simp add: ready_ok_def)
      moreover have "irq_ok ?A" by (rule irq_ok_state [OF i(3), of c WATISEND]) (use c in simp_all)
      moreover have "senders_ok ?A" by (rule senders_ok_enqueue [OF i(4) rj c True])
      moreover have "current_ok ?A" by (rule current_ok_state [OF i(5), of WATISEND c]) simp_all
      ultimately show ?thesis using Some False True by (simp add: a_send_def ainv_def)
    qed (use Some False inv in \<open>simp add: a_send_def\<close>)
  qed
qed (use inv in \<open>simp add: a_send_def\<close>)

lemma receive_inv:
  assumes inv: "ainv A" and run: "running A c"
  shows "ainv (a_receive A c)"
proof (cases "a_senders A c")
  case Nil
  then show ?thesis using block_inv [OF inv, of c WAITRECEIVE] run by (simp add: a_receive_def running_def)
next
  case (Cons s ss)
  from run have c: "c \<in> set (a_jobs A)" "a_state A c = RUNNING" by (simp_all add: running_def)
  from inv have i: "jobs_ok A" "ready_ok A" "irq_ok A" "senders_ok A" "current_ok A" by (simp_all add: ainv_def)
  have old: "distinct (s # ss)" "s \<in> set (a_jobs A)" "a_state A s = WATISEND"
    using i(4) c(1) Cons unfolding senders_ok_def by (metis, metis list.set_intros(1), metis list.set_intros(1))
  have other: "s \<notin> set (a_senders A q)" if "q \<in> set (a_jobs A)" "q \<noteq> c" for q
    using i(4) c(1) Cons that unfolding senders_ok_def by (metis disjoint_iff list.set_intros(1))
  let ?A = "a_set_state (A\<lparr>a_senders := (a_senders A)(c := ss)\<rparr>) s WATIREPLY"
  have S: "a_senders ?A q = (if q = c then ss else a_senders A q)" for q by simp
  have sub: "set (a_senders ?A q) \<subseteq> set (a_senders A q) - {s}" "distinct (a_senders ?A q)"
    "length (a_senders ?A q) < MAX_SENDER_CAPACITY" if "q \<in> set (a_jobs A)" for q
  proof -
    have q: "distinct (a_senders A q) \<and> length (a_senders A q) < MAX_SENDER_CAPACITY"
      using i(4) that unfolding senders_ok_def by blast
    show "set (a_senders ?A q) \<subseteq> set (a_senders A q) - {s}" "distinct (a_senders ?A q)"
      "length (a_senders ?A q) < MAX_SENDER_CAPACITY"
      unfolding S using q other [OF that] old(1) Cons by (auto split: if_splits)
  qed
  have "senders_ok ?A"
    unfolding senders_ok_def
  proof (intro conjI ballI impI)
    fix q assume "q \<in> set (a_jobs ?A)"
    then have q: "q \<in> set (a_jobs A)" by simp
    show "distinct (a_senders ?A q)" "length (a_senders ?A q) < MAX_SENDER_CAPACITY" by (fact sub [OF q])+
    show "u \<in> set (a_jobs ?A)" "a_state ?A u = WATISEND" if "u \<in> set (a_senders ?A q)" for u
    proof -
      have u: "u \<in> set (a_senders A q)" "u \<noteq> s" using that sub(1) [OF q] by auto
      with i(4) q have "u \<in> set (a_jobs A) \<and> a_state A u = WATISEND" unfolding senders_ok_def by blast
      with u(2) show "u \<in> set (a_jobs ?A)" "a_state ?A u = WATISEND" by simp_all
    qed
    show "set (a_senders ?A q) \<inter> set (a_senders ?A q') = {}" if "q' \<in> set (a_jobs ?A)" "q \<noteq> q'" for q'
    proof -
      have q': "q' \<in> set (a_jobs A)" using that by simp
      have "set (a_senders A q) \<inter> set (a_senders A q') = {}" using i(4) q q' that(2) unfolding senders_ok_def by blast
      then show ?thesis using sub(1) [OF q] sub(1) [OF q'] by blast
    qed
  qed
  moreover have "jobs_ok ?A" by (rule jobs_ok_state [OF i(1), of WATIREPLY _ s]) simp_all
  moreover have "ready_ok ?A" using ready_ok_set_state [OF i(2), of s WATIREPLY] old by (simp add: ready_ok_def)
  moreover have "irq_ok ?A" by (rule irq_ok_state [OF i(3), of s WATIREPLY]) (use old in simp_all)
  moreover have "current_ok ?A" by (rule current_ok_state [OF i(5), of WATIREPLY s]) simp_all
  ultimately show ?thesis using Cons by (simp add: a_receive_def ainv_def)
qed

text \<open>
  A reply is harmless when it goes to a task that waits for one, to a task that does not
  exist, or to the replying task itself.
\<close>

definition reply_target_ok :: "AKernel \<Rightarrow> task_ptr option \<Rightarrow> bool" where
  "reply_target_ok A sender \<longleftrightarrow>
     (case sender of None \<Rightarrow> True
      | Some s \<Rightarrow> s \<in> set (a_jobs A) \<and> (a_state A s = WATIREPLY \<or> a_state A s = RUNNING))"

lemma reply_inv:
  assumes inv: "ainv A" and run: "running A c" and ok: "reply_target_ok A sender"
  shows "ainv (a_reply A sender)"
proof (cases sender)
  case (Some s)
  show ?thesis
  proof (cases "a_state A s = RUNNING")
    case False
    then have "s \<in> set (a_jobs A)" "a_state A s = WATIREPLY" using ok Some by (simp_all add: reply_target_ok_def)
    then show ?thesis
      using make_ready_inv [OF inv, of s] running_other [OF run False] Some by (simp add: a_reply_def)
  qed (use inv Some in \<open>simp add: a_reply_def\<close>)
qed (use inv in \<open>simp add: a_reply_def\<close>)

subsection \<open>Events keep the invariant\<close>

lemma irq_member:
  assumes "irq_ok A" and "i < NUM_INTERRUPT" and "j < TASK_PRIORITY_MAX" and "t \<in> set (a_irq A i j)"
  shows "t \<in> set (a_jobs A) \<and> a_state A t = AWATIEVENT \<and> a_prio A t = j"
  using assms unfolding irq_ok_def by blast

lemma await_inv:
  assumes inv: "ainv A" and run: "running A c" and i: "i < NUM_INTERRUPT"
  shows "ainv (a_await A c i)"
proof -
  from inv have p: "jobs_ok A" "ready_ok A" "irq_ok A" "senders_ok A" "current_ok A" by (simp_all add: ainv_def)
  from run have c: "c \<in> set (a_jobs A)" "a_state A c = RUNNING" by (simp_all add: running_def)
  have j: "a_prio A c < TASK_PRIORITY_MAX" using p(1) c(1) by (simp add: jobs_ok_def)
  let ?I = "(a_irq A)(i := (a_irq A i)(a_prio A c := a_irq A i (a_prio A c) @ [c]))"
  have I: "?I i' j' = (if i' = i \<and> j' = a_prio A c then a_irq A i (a_prio A c) @ [c] else a_irq A i' j')" for i' j'
    by simp
  let ?A = "a_set_state (A\<lparr>a_irq := ?I\<rparr>) c AWATIEVENT"
  have new: "c \<notin> set (a_irq A i' j')" if "i' < NUM_INTERRUPT" "j' < TASK_PRIORITY_MAX" for i' j'
    using irq_member [OF p(3) that, of c] c(2) by auto
  have once: "pqs_once {..<NUM_INTERRUPT} (a_irq A)" using p(3) by (simp add: irq_ok_def)
  have "pqs_once {..<NUM_INTERRUPT} ?I"
    by (rule pqs_once_push [OF once jobs_bound [OF p(1) c(1)]]) (use new i j in auto)
  then have once': "pqs_once {..<NUM_INTERRUPT} (a_irq ?A)" by simp
  have "irq_ok ?A"
    unfolding irq_ok_def
  proof (intro conjI ballI allI impI)
    show "pqs_once {..<NUM_INTERRUPT} (a_irq ?A)" by (fact once')
  next
    fix i' j' t assume ij: "i' < NUM_INTERRUPT" "j' < TASK_PRIORITY_MAX" and "t \<in> set (a_irq ?A i' j')"
    then have "t \<in> set (?I i' j')" by simp
    then have "t \<in> set (a_irq A i' j') \<or> (t = c \<and> j' = a_prio A c)" unfolding I by (auto split: if_splits)
    then show "t \<in> set (a_jobs ?A)" "a_state ?A t = AWATIEVENT" "a_prio ?A t = j'"
      using irq_member [OF p(3) ij, of t] c(1) by auto
  next
    fix t assume t: "t \<in> set (a_jobs ?A)" "a_state ?A t = AWATIEVENT"
    show "\<exists>i'<NUM_INTERRUPT. t \<in> set (a_irq ?A i' (a_prio ?A t))"
    proof (cases "t = c")
      case True
      then show ?thesis using i by (intro exI [of _ i]) simp
    next
      case False
      with t p(3) obtain i' where i': "i' < NUM_INTERRUPT" "t \<in> set (a_irq A i' (a_prio A t))"
        unfolding irq_ok_def by auto
      then have "t \<in> set (?I i' (a_prio A t))" unfolding I by (auto split: if_splits)
      with i'(1) show ?thesis by auto
    qed
  qed
  moreover have "jobs_ok ?A" by (rule jobs_ok_state [OF p(1), of AWATIEVENT _ c]) simp_all
  moreover have "ready_ok ?A" using ready_ok_set_state [OF p(2), of c AWATIEVENT] c by (simp add: ready_ok_def)
  moreover have "senders_ok ?A" by (rule senders_ok_state [OF p(4), of c _ AWATIEVENT]) (use c in simp_all)
  moreover have "current_ok ?A" by (rule current_ok_state [OF p(5), of AWATIEVENT c]) simp_all
  ultimately show ?thesis by (simp add: a_await_def ainv_def Let_def)
qed

lemma set_tl_subset: "set (tl xs) \<subseteq> set xs"
  by (cases xs) auto

lemma irq_order_head:
  assumes "service_order TASK_PRIORITY_MAX (a_irq A i) = t # ts" and "irq_ok A" and "i < NUM_INTERRUPT"
  shows "t \<in> set (a_jobs A)" and "a_state A t = AWATIEVENT" and "a_prio A t < TASK_PRIORITY_MAX"
    and "a_irq A i (a_prio A t) = t # tl (a_irq A i (a_prio A t))"
    and "\<forall>j. a_prio A t < j \<and> j < TASK_PRIORITY_MAX \<longrightarrow> a_irq A i j = []"
proof -
  from service_order_head [OF assms(1)] obtain j where
    j: "j < TASK_PRIORITY_MAX" "a_irq A i j = t # tl (a_irq A i j)"
    "\<forall>k. j < k \<and> k < TASK_PRIORITY_MAX \<longrightarrow> a_irq A i k = []" by blast
  have "t \<in> set (a_irq A i j)" using j(2) by (metis list.set_intros(1))
  from irq_member [OF assms(2,3) j(1) this] have t: "t \<in> set (a_jobs A)" "a_state A t = AWATIEVENT" "a_prio A t = j" by simp_all
  with j show "t \<in> set (a_jobs A)" "a_state A t = AWATIEVENT" "a_prio A t < TASK_PRIORITY_MAX"
    "a_irq A i (a_prio A t) = t # tl (a_irq A i (a_prio A t))"
    "\<forall>j. a_prio A t < j \<and> j < TASK_PRIORITY_MAX \<longrightarrow> a_irq A i j = []" by simp_all
qed

lemma wake_inv:
  assumes inv: "ainv A" and run: "running A c" and i: "i < NUM_INTERRUPT"
  shows "ainv (a_wake A i)"
proof (cases "service_order TASK_PRIORITY_MAX (a_irq A i)")
  case Nil
  then show ?thesis using inv by (simp add: a_wake_def)
next
  case (Cons t ts)
  from inv have p: "jobs_ok A" "ready_ok A" "irq_ok A" "senders_ok A" "current_ok A" by (simp_all add: ainv_def)
  note h = irq_order_head [OF Cons p(3) i]
  let ?j = "a_prio A t"
  let ?I = "(a_irq A)(i := (a_irq A i)(?j := tl (a_irq A i ?j)))"
  have I: "?I i' j' = (if i' = i \<and> j' = ?j then tl (a_irq A i ?j) else a_irq A i' j')" for i' j' by simp
  let ?A = "a_make_ready (A\<lparr>a_irq := ?I\<rparr>) t"
  have once: "pqs_once {..<NUM_INTERRUPT} (a_irq A)" using p(3) by (simp add: irq_ok_def)
  have "pqs_once {..<NUM_INTERRUPT} ?I"
    by (rule pqs_once_pop [OF once h(4)]) (use i h in simp_all)
  have gone: "t \<notin> set (?I i' j')" if ij: "i' < NUM_INTERRUPT" "j' < TASK_PRIORITY_MAX" for i' j'
  proof (cases "i' = i \<and> j' = ?j")
    case True
    have "distinct (a_irq A i ?j)" using once i h(3) unfolding pqs_once_def by blast
    then show ?thesis unfolding I using True h(4) by (metis distinct.simps(2))
  next
    case False
    have "t \<in> set (a_irq A i ?j)" using h(4) by (metis list.set_intros(1))
    moreover have "set (a_irq A i' j') \<inter> set (a_irq A i ?j) = {}"
      using once i h(3) ij False unfolding pqs_once_def by blast
    ultimately show ?thesis unfolding I using False by auto
  qed
  have sub: "set (?I i' j') \<subseteq> set (a_irq A i' j')" for i' j'
    unfolding I using set_tl_subset [of "a_irq A i ?j"] by (cases "i' = i \<and> j' = ?j") simp_all
  have "irq_ok ?A"
    unfolding irq_ok_def
  proof (intro conjI ballI allI impI)
    show "pqs_once {..<NUM_INTERRUPT} (a_irq ?A)" using \<open>pqs_once {..<NUM_INTERRUPT} ?I\<close> by simp
  next
    fix i' j' u assume ij: "i' < NUM_INTERRUPT" "j' < TASK_PRIORITY_MAX" and "u \<in> set (a_irq ?A i' j')"
    then have u: "u \<in> set (?I i' j')" by simp
    have "u \<noteq> t" using gone [OF ij] u by auto
    moreover have "u \<in> set (a_irq A i' j')" using sub u by blast
    ultimately show "u \<in> set (a_jobs ?A)" "a_state ?A u = AWATIEVENT" "a_prio ?A u = j'"
      using irq_member [OF p(3) ij, of u] by simp_all
  next
    fix u assume u: "u \<in> set (a_jobs ?A)" "a_state ?A u = AWATIEVENT"
    then have ut: "u \<noteq> t" by auto
    with u p(3) obtain i' where i': "i' < NUM_INTERRUPT" "u \<in> set (a_irq A i' (a_prio A u))"
      unfolding irq_ok_def by auto
    have "u \<in> set (?I i' (a_prio A u))"
    proof (cases "i' = i \<and> a_prio A u = ?j")
      case True
      then have "u \<in> set (t # tl (a_irq A i ?j))" using i'(2) h(4) by simp
      then show ?thesis unfolding I using ut True by simp
    qed (use i' in \<open>simp only: I if_False\<close>)
    then show "\<exists>i'<NUM_INTERRUPT. u \<in> set (a_irq ?A i' (a_prio ?A u))" using i'(1) by auto
  qed
  moreover have "jobs_ok ?A" by (rule jobs_ok_state [OF p(1), of READY _ t]) simp_all
  moreover have "ready_ok ?A"
    by (rule ready_ok_push) (use p(1,2) h in \<open>simp_all add: ready_ok_def jobs_ok_def\<close>)
  moreover have "senders_ok ?A" by (rule senders_ok_state [OF p(4), of t _ READY]) (use h in simp_all)
  moreover have "current_ok ?A"
    by (rule current_ok_state [OF p(5), of READY t]) (use running_other [OF run, of t] h(2) in simp_all)
  ultimately show ?thesis using Cons by (simp add: a_wake_def ainv_def Let_def)
qed

subsection \<open>Creation and exit keep the invariant\<close>

lemma exit_inv:
  assumes inv: "ainv A" and run: "running A c"
  shows "ainv (a_exit A c)"
proof -
  from inv have p: "jobs_ok A" "ready_ok A" "irq_ok A" "senders_ok A" "current_ok A" by (simp_all add: ainv_def)
  from run have c: "c \<in> set (a_jobs A)" "a_state A c = RUNNING" "a_current A = Some c" by (simp_all add: running_def)
  let ?A = "a_exit A c"
  have S: "set (remove1 c (a_jobs A)) = set (a_jobs A) - {c}" using p(1) by (simp add: jobs_ok_def)
  have f: "a_jobs ?A = remove1 c (a_jobs A)" "a_state ?A = a_state A" "a_prio ?A = a_prio A" "a_ready ?A = a_ready A"
    "a_irq ?A = a_irq A" "a_senders ?A = a_senders A" "a_created ?A = a_created A" "a_current ?A = None"
    by (simp_all add: a_exit_def)
  have "jobs_ok ?A" using p(1) S unfolding jobs_ok_def f by auto
  moreover have "ready_ok ?A" unfolding ready_ok_def f S using p(2) c(2) unfolding ready_ok_def by auto
  moreover have "irq_ok ?A"
    unfolding irq_ok_def f S
  proof (intro conjI ballI allI impI)
    show "pqs_once {..<NUM_INTERRUPT} (a_irq A)" using p(3) by (simp add: irq_ok_def)
  next
    fix i j t assume "i < NUM_INTERRUPT" "j < TASK_PRIORITY_MAX" "t \<in> set (a_irq A i j)"
    from irq_member [OF p(3) this] c(2) show "t \<in> set (a_jobs A) - {c}" "a_state A t = AWATIEVENT" "a_prio A t = j"
      by auto
  next
    fix t assume "t \<in> set (a_jobs A) - {c}" "a_state A t = AWATIEVENT"
    then show "\<exists>i<NUM_INTERRUPT. t \<in> set (a_irq A i (a_prio A t))" using p(3) unfolding irq_ok_def by blast
  qed
  moreover have "senders_ok ?A"
    unfolding senders_ok_def f S
  proof (intro conjI ballI impI)
    fix r assume r: "r \<in> set (a_jobs A) - {c}"
    then show "distinct (a_senders A r)" "length (a_senders A r) < MAX_SENDER_CAPACITY"
      using p(4) unfolding senders_ok_def by auto
    show "s \<in> set (a_jobs A) - {c}" "a_state A s = WATISEND" if "s \<in> set (a_senders A r)" for s
    proof -
      have "s \<in> set (a_jobs A) \<and> a_state A s = WATISEND" using p(4) r that unfolding senders_ok_def by blast
      then show "s \<in> set (a_jobs A) - {c}" "a_state A s = WATISEND" using c(2) by auto
    qed
    show "set (a_senders A r) \<inter> set (a_senders A r') = {}" if "r' \<in> set (a_jobs A) - {c}" "r \<noteq> r'" for r'
      using p(4) r that unfolding senders_ok_def by blast
  qed
  moreover have "current_ok ?A"
    unfolding current_ok_def f S
  proof (intro conjI ballI allI impI)
    fix t assume t: "t \<in> set (a_jobs A) - {c}" "a_state A t = RUNNING"
    then have "a_current A = Some t" using p(5) unfolding current_ok_def by blast
    with t c(3) show "None = Some t" by simp
  qed simp_all
  ultimately show ?thesis by (simp add: ainv_def)
qed

text \<open>A fresh descriptor: live, in no queue, not yet ready.\<close>

definition a_spawn :: "AKernel \<Rightarrow> nat \<Rightarrow> AKernel" where
  "a_spawn A prio = A\<lparr>a_jobs := a_jobs A @ [a_created A], a_created := a_created A + 1,
     a_prio := (a_prio A)(a_created A := prio), a_senders := (a_senders A)(a_created A := []),
     a_state := (a_state A)(a_created A := INITIALIZED)\<rparr>"

lemma a_spawn_simps [simp]:
  "a_jobs (a_spawn A p) = a_jobs A @ [a_created A]" "a_created (a_spawn A p) = Suc (a_created A)"
  "a_prio (a_spawn A p) = (a_prio A)(a_created A := p)" "a_ready (a_spawn A p) = a_ready A"
  "a_senders (a_spawn A p) = (a_senders A)(a_created A := [])" "a_irq (a_spawn A p) = a_irq A"
  "a_state (a_spawn A p) = (a_state A)(a_created A := INITIALIZED)" "a_current (a_spawn A p) = a_current A"
  by (simp_all add: a_spawn_def)

lemma a_create_spawn:
  "a_created A < MAX_TASK_NUM \<Longrightarrow>
     a_create A p = (a_make_ready (a_spawn A p) (a_created A), Some (a_created A))"
  by (simp add: a_create_def a_make_ready_def a_spawn_def a_set_state_def Let_def)

lemma fresh_job: "jobs_ok A \<Longrightarrow> a_created A \<notin> set (a_jobs A)"
  by (auto simp: jobs_ok_def)

lemma fresh_unqueued:
  assumes "jobs_ok A"
  shows "ready_ok A \<Longrightarrow> j < TASK_PRIORITY_MAX \<Longrightarrow> a_created A \<notin> set (a_ready A j)"
    and "irq_ok A \<Longrightarrow> i < NUM_INTERRUPT \<Longrightarrow> j < TASK_PRIORITY_MAX \<Longrightarrow> a_created A \<notin> set (a_irq A i j)"
    and "senders_ok A \<Longrightarrow> r \<in> set (a_jobs A) \<Longrightarrow> a_created A \<notin> set (a_senders A r)"
  using fresh_job [OF assms] irq_member [of A i j "a_created A"] unfolding ready_ok_def senders_ok_def by blast+

lemma create_inv:
  assumes inv: "ainv A" and prio: "prio < TASK_PRIORITY_MAX"
  shows "ainv (fst (a_create A prio))"
proof (cases "a_created A < MAX_TASK_NUM")
  case True
  from inv have p: "jobs_ok A" "ready_ok A" "irq_ok A" "senders_ok A" "current_ok A" by (simp_all add: ainv_def)
  let ?n = "a_created A"
  let ?A = "a_make_ready (a_spawn A prio) ?n"
  note fresh = fresh_job [OF p(1)]
  have f: "a_jobs ?A = a_jobs A @ [?n]" "a_created ?A = Suc ?n" "a_prio ?A = (a_prio A)(?n := prio)"
    "a_ready ?A = (a_ready A)(prio := a_ready A prio @ [?n])" "a_senders ?A = (a_senders A)(?n := [])"
    "a_irq ?A = a_irq A" "a_state ?A = (a_state A)(?n := READY)" "a_current ?A = a_current A"
    by simp_all
  have S: "set (a_jobs A @ [?n]) = insert ?n (set (a_jobs A))" by simp
  have "jobs_ok ?A"
    using p(1) prio True fresh unfolding jobs_ok_def f S by (auto simp: less_Suc_eq)
  moreover have "ready_ok ?A"
    unfolding ready_ok_def
  proof (intro conjI allI impI)
    have "pqs_once {()} (\<lambda>_. (a_ready A)(prio := a_ready A prio @ [?n]))"
      using pqs_once_push [of "{()}" "\<lambda>_. a_ready A" ?n "()" prio] p(2) True prio
        fresh_unqueued(1) [OF p(1,2)] by (simp add: ready_ok_def)
    then show "pqs_once {()} (\<lambda>_. a_ready ?A)" unfolding f .
    fix j t assume j: "j < TASK_PRIORITY_MAX"
    have "t \<in> set (a_ready A j) \<longleftrightarrow> t \<in> set (a_jobs A) \<and> a_state A t = READY \<and> a_prio A t = j"
      using p(2) j by (simp add: ready_ok_def)
    moreover have "?n \<notin> set (a_ready A j)" by (rule fresh_unqueued(1) [OF p(1,2) j])
    ultimately show "t \<in> set (a_ready ?A j) \<longleftrightarrow> t \<in> set (a_jobs ?A) \<and> a_state ?A t = READY \<and> a_prio ?A t = j"
      unfolding f S by (cases "t = ?n") auto
  qed
  moreover have "irq_ok ?A"
    unfolding irq_ok_def
  proof (intro conjI ballI allI impI)
    show "pqs_once {..<NUM_INTERRUPT} (a_irq ?A)" using p(3) by (simp add: irq_ok_def)
  next
    fix i j t assume ij: "i < NUM_INTERRUPT" "j < TASK_PRIORITY_MAX" and t: "t \<in> set (a_irq ?A i j)"
    then have "t \<in> set (a_jobs A) \<and> a_state A t = AWATIEVENT \<and> a_prio A t = j"
      using irq_member [OF p(3) ij, of t] by simp
    moreover from this have "t \<noteq> ?n" using fresh by auto
    ultimately show "t \<in> set (a_jobs ?A)" "a_state ?A t = AWATIEVENT" "a_prio ?A t = j" by simp_all
  next
    fix t assume t: "t \<in> set (a_jobs ?A)" "a_state ?A t = AWATIEVENT"
    then have "t \<noteq> ?n" by auto
    with t p(3) have "\<exists>i<NUM_INTERRUPT. t \<in> set (a_irq A i (a_prio A t))" unfolding irq_ok_def by auto
    with \<open>t \<noteq> ?n\<close> show "\<exists>i<NUM_INTERRUPT. t \<in> set (a_irq ?A i (a_prio ?A t))" by simp
  qed
  moreover have "senders_ok ?A"
    unfolding senders_ok_def
  proof (intro conjI ballI impI)
    fix r assume "r \<in> set (a_jobs ?A)"
    then have r: "r = ?n \<or> r \<in> set (a_jobs A) \<and> r \<noteq> ?n" using fresh by auto
    then show "distinct (a_senders ?A r)" "length (a_senders ?A r) < MAX_SENDER_CAPACITY"
      using p(4) by (auto simp: senders_ok_def MAX_SENDER_CAPACITY_def)
    show "s \<in> set (a_jobs ?A)" "a_state ?A s = WATISEND" if "s \<in> set (a_senders ?A r)" for s
    proof -
      have "r \<in> set (a_jobs A)" "s \<in> set (a_senders A r)" using r that by auto
      with p(4) have "s \<in> set (a_jobs A) \<and> a_state A s = WATISEND" unfolding senders_ok_def by blast
      moreover from this have "s \<noteq> ?n" using fresh by auto
      ultimately show "s \<in> set (a_jobs ?A)" "a_state ?A s = WATISEND" by simp_all
    qed
    show "set (a_senders ?A r) \<inter> set (a_senders ?A r') = {}" if "r' \<in> set (a_jobs ?A)" "r \<noteq> r'" for r'
    proof -
      have "r' = ?n \<or> r' \<in> set (a_jobs A) \<and> r' \<noteq> ?n" using that fresh by auto
      moreover have "set (a_senders A r) \<inter> set (a_senders A r') = {}" if "r \<in> set (a_jobs A)" "r' \<in> set (a_jobs A)"
        using p(4) that \<open>r \<noteq> r'\<close> unfolding senders_ok_def by blast
      ultimately show ?thesis using r unfolding f by (auto simp: fun_upd_def)
    qed
  qed
  moreover have "current_ok ?A"
    unfolding current_ok_def
  proof (intro conjI ballI allI impI)
    fix t assume "t \<in> set (a_jobs ?A)" "a_state ?A t = RUNNING"
    then have "t \<noteq> ?n \<and> t \<in> set (a_jobs A) \<and> a_state A t = RUNNING" by (auto split: if_splits)
    with p(5) show "a_current ?A = Some t" unfolding current_ok_def f by blast
  next
    fix t assume "a_current ?A = Some t"
    with p(5) have "t \<in> set (a_jobs A) \<and> a_state A t \<noteq> READY" unfolding current_ok_def f by blast
    moreover from this have "t \<noteq> ?n" using fresh by auto
    ultimately show "t \<in> set (a_jobs ?A)" "a_state ?A t \<noteq> READY" by simp_all
  qed
  ultimately show ?thesis using a_create_spawn [OF True] by (simp add: ainv_def)
qed (use inv in \<open>simp add: a_create_def Let_def\<close>)

subsection \<open>What every operation leaves to the other tasks\<close>

text \<open>
  No operation moves a ready task back: tasks only join the ready queue behind those that are
  there.  No operation but the task's own exit ends a task, and none changes a priority.
\<close>

definition a_extends :: "AKernel \<Rightarrow> AKernel \<Rightarrow> bool" where
  "a_extends A A' \<longleftrightarrow> (\<forall>j. \<exists>us. a_ready A' j = a_ready A j @ us)
     \<and> (\<forall>t\<in>set (a_jobs A). a_current A \<noteq> Some t \<longrightarrow> t \<in> set (a_jobs A'))
     \<and> (\<forall>t\<in>set (a_jobs A). a_prio A' t = a_prio A t)"

lemma a_extends_refl [simp]: "a_extends A A"
  by (simp add: a_extends_def)

lemma a_extends_same:
  "a_ready A' = a_ready A \<Longrightarrow> a_jobs A' = a_jobs A \<Longrightarrow> a_prio A' = a_prio A \<Longrightarrow> a_extends A A'"
  by (simp add: a_extends_def)

lemma a_extends_push:
  "a_ready A' = (a_ready A)(j := a_ready A j @ [t]) \<Longrightarrow> a_jobs A' = a_jobs A \<Longrightarrow> a_prio A' = a_prio A \<Longrightarrow> a_extends A A'"
  by (simp add: a_extends_def)

lemma a_jobs_simps [simp]:
  "a_jobs (a_send A c r) = a_jobs A" "a_jobs (a_receive A c) = a_jobs A" "a_jobs (a_reply A s) = a_jobs A"
  "a_jobs (a_await A c i) = a_jobs A" "a_jobs (a_wake A i) = a_jobs A"
  by (simp_all add: a_send_def a_receive_def a_reply_def a_await_def a_wake_def Let_def split: option.splits list.splits)

lemma a_jobs_create: "set (a_jobs A) \<subseteq> set (a_jobs (fst (a_create A p)))"
  by (auto simp: a_create_def Let_def)

lemma send_extends: "a_extends A (a_send A c r)"
  by (cases r) (auto simp: a_send_def intro: a_extends_same a_extends_push)

lemma receive_extends: "a_extends A (a_receive A c)"
  by (cases "a_senders A c") (simp_all add: a_receive_def a_extends_same)

lemma reply_extends: "a_extends A (a_reply A s)"
  by (cases s) (auto simp: a_reply_def intro: a_extends_push)

lemma await_extends: "a_extends A (a_await A c i)"
  by (simp add: a_await_def Let_def a_extends_same)

lemma wake_extends: "a_extends A (a_wake A i)"
  by (auto simp: a_wake_def Let_def intro: a_extends_push split: list.splits)

lemma exit_extends: "running A c \<Longrightarrow> a_extends A (a_exit A c)"
  by (auto simp: a_extends_def a_exit_def running_def)

lemma create_extends:
  assumes "ainv A"
  shows "a_extends A (fst (a_create A p))"
  using fresh_job [of A] assms by (auto simp: a_extends_def a_create_def Let_def ainv_def)

end
