(* ===== verification/Scheduler_Refine.thy ===== *)
theory Scheduler_Refine
  imports Scheduler Kernel_Spec
begin

text \<open>
  The scheduler of \<^verbatim>\<open>task_scheduler.c\<close> implements the abstract kernel of
  \<open>Kernel_Spec\<close>.  The relation \<open>krel\<close> reads the abstract state off the node pools, the
  descriptors and the block flags; each operation of the scheduler is shown to succeed from a
  related state that satisfies the abstract invariant, and to end in a related state.
\<close>

subsection \<open>The relation\<close>

definition jobs_rel :: "Kernel \<Rightarrow> AKernel \<Rightarrow> bool" where
  "jobs_rel K A \<longleftrightarrow> (\<exists>J. pool_rep {()} (k_jobq_pool K) (\<lambda>_. k_jobq K) (\<lambda>_. J)
     \<and> map (\<lambda>n. tn_task (np_nodes (k_jobq_pool K) n)) J = map Some (a_jobs A)
     \<and> map (\<lambda>t. t_job_node (k_tasks K t)) (a_jobs A) = map Some J)"

definition task_rel :: "Task \<Rightarrow> AKernel \<Rightarrow> task_ptr \<Rightarrow> bool" where
  "task_rel d A t \<longleftrightarrow> t_tid d = word_of_nat t \<and> valid_priority (t_priority d)
     \<and> priority_index (t_priority d) = a_prio A t \<and> t_state d = a_state A t
     \<and> queue_inv (t_senders d) \<and> q_capacity (t_senders d) = MAX_SENDER_CAPACITY
     \<and> queue_cont (t_senders d) = map word_of_nat (a_senders A t)"

definition free_rel :: "Kernel \<Rightarrow> AKernel \<Rightarrow> bool" where
  "free_rel K A \<longleftrightarrow> k_task_id_cnt K = word_of_nat (a_created A)
     \<and> k_task_pool_ptr K = (if a_created A < MAX_TASK_NUM then Some (a_created A) else None)
     \<and> (\<forall>t. a_created A \<le> t \<and> t < MAX_TASK_NUM \<longrightarrow>
          t_next (k_tasks K t) = (if t + 1 < MAX_TASK_NUM then Some (t + 1) else None)
          \<and> length (q_container (t_senders (k_tasks K t))) = MAX_SENDER_CAPACITY)"

definition used_blocks :: "Kernel \<Rightarrow> AKernel \<Rightarrow> nat set" where
  "used_blocks K A = {i. \<exists>t\<in>set (a_jobs A). t_memory_block (k_tasks K t) = Some i}"

definition blocks_rel :: "Kernel \<Rightarrow> AKernel \<Rightarrow> bool" where
  "blocks_rel K A \<longleftrightarrow> memory_inv (k_memory K)
     \<and> free_blocks (k_memory K) = {0..<MEMORY_BLOCK_MAX_NUM} - used_blocks K A
     \<and> (\<forall>t\<in>set (a_jobs A). \<exists>i<MEMORY_BLOCK_MAX_NUM. t_memory_block (k_tasks K t) = Some i)
     \<and> inj_on (\<lambda>t. t_memory_block (k_tasks K t)) (set (a_jobs A))"

definition queues_rel :: "Kernel \<Rightarrow> AKernel \<Rightarrow> bool" where
  "queues_rel K A \<longleftrightarrow> ready_rep (k_readyq_pool K, k_readyq K) (a_ready A)
     \<and> pqs_abs {..<NUM_INTERRUPT} (k_irqq_pool K) (k_irqq K) (a_irq A)"

definition krel :: "Kernel \<Rightarrow> AKernel \<Rightarrow> bool" where
  "krel K A \<longleftrightarrow> jobs_rel K A \<and> queues_rel K A \<and> k_current K = a_current A
     \<and> (\<forall>t\<in>set (a_jobs A). task_rel (k_tasks K t) A t) \<and> free_rel K A \<and> blocks_rel K A"

lemmas krel_parts = jobs_rel_def queues_rel_def free_rel_def blocks_rel_def used_blocks_def task_rel_def

lemma jobs_rel_cong:
  assumes "jobs_rel K A" "a_jobs A' = a_jobs A" "k_jobq_pool K' = k_jobq_pool K" "k_jobq K' = k_jobq K"
    and "\<And>t. t \<in> set (a_jobs A) \<Longrightarrow> t_job_node (k_tasks K' t) = t_job_node (k_tasks K t)"
  shows "jobs_rel K' A'"
proof -
  have eq: "map (\<lambda>t. t_job_node (k_tasks K' t)) (a_jobs A) = map (\<lambda>t. t_job_node (k_tasks K t)) (a_jobs A)"
    using assms(5) by simp
  show ?thesis using assms(1) unfolding jobs_rel_def assms(2-4) eq .
qed

lemma free_rel_cong:
  assumes "free_rel K A" "a_created A' = a_created A" "k_task_id_cnt K' = k_task_id_cnt K"
    "k_task_pool_ptr K' = k_task_pool_ptr K"
    and "\<And>t. a_created A \<le> t \<Longrightarrow> t < MAX_TASK_NUM \<Longrightarrow> t_next (k_tasks K' t) = t_next (k_tasks K t)
           \<and> length (q_container (t_senders (k_tasks K' t))) = length (q_container (t_senders (k_tasks K t)))"
  shows "free_rel K' A'"
  using assms by (simp add: free_rel_def)

lemma blocks_rel_cong:
  assumes "blocks_rel K A" "a_jobs A' = a_jobs A" "mb_used (k_memory K') = mb_used (k_memory K)"
    and "\<And>t. t \<in> set (a_jobs A) \<Longrightarrow> t_memory_block (k_tasks K' t) = t_memory_block (k_tasks K t)"
  shows "blocks_rel K' A'"
proof -
  have m: "memory_inv (k_memory K') = memory_inv (k_memory K)" "free_blocks (k_memory K') = free_blocks (k_memory K)"
    using assms by (simp_all add: memory_inv_def free_blocks_def)
  have "used_blocks K' A' = used_blocks K A"
    "inj_on (\<lambda>t. t_memory_block (k_tasks K' t)) (set (a_jobs A)) = inj_on (\<lambda>t. t_memory_block (k_tasks K t)) (set (a_jobs A))"
    using assms by (auto simp: used_blocks_def intro!: inj_on_cong)
  with assms(1,2,4) show ?thesis by (simp add: blocks_rel_def m)
qed

text \<open>Registers, results, the parent and the bytes of memory are not part of the relation.\<close>

definition same_core :: "Task \<Rightarrow> Task \<Rightarrow> bool" where
  "same_core d e \<longleftrightarrow> t_tid d = t_tid e \<and> t_priority d = t_priority e \<and> t_state d = t_state e
     \<and> t_senders d = t_senders e \<and> t_job_node d = t_job_node e
     \<and> t_memory_block d = t_memory_block e \<and> t_next d = t_next e"

definition same_kernel :: "Kernel \<Rightarrow> Kernel \<Rightarrow> bool" where
  "same_kernel K' K \<longleftrightarrow> (\<forall>t. same_core (k_tasks K' t) (k_tasks K t))
     \<and> k_jobq_pool K' = k_jobq_pool K \<and> k_jobq K' = k_jobq K
     \<and> k_readyq_pool K' = k_readyq_pool K \<and> k_readyq K' = k_readyq K
     \<and> k_irqq_pool K' = k_irqq_pool K \<and> k_irqq K' = k_irqq K
     \<and> k_current K' = k_current K \<and> k_task_id_cnt K' = k_task_id_cnt K
     \<and> k_task_pool_ptr K' = k_task_pool_ptr K \<and> mb_used (k_memory K') = mb_used (k_memory K)"

lemma same_core_refl [simp]: "same_core d d"
  by (simp add: same_core_def)

lemma same_kernel_refl [simp]: "same_kernel K K"
  by (simp add: same_kernel_def)

lemma same_kernel_trans: "same_kernel K'' K' \<Longrightarrow> same_kernel K' K \<Longrightarrow> same_kernel K'' K"
  by (simp add: same_kernel_def same_core_def)

lemma krel_same_kernel:
  assumes "same_kernel K' K"
  shows "krel K' A = krel K A"
proof -
  have c: "t_tid (k_tasks K' t) = t_tid (k_tasks K t)" "t_priority (k_tasks K' t) = t_priority (k_tasks K t)"
    "t_state (k_tasks K' t) = t_state (k_tasks K t)" "t_senders (k_tasks K' t) = t_senders (k_tasks K t)"
    "t_job_node (k_tasks K' t) = t_job_node (k_tasks K t)" "t_next (k_tasks K' t) = t_next (k_tasks K t)"
    "t_memory_block (k_tasks K' t) = t_memory_block (k_tasks K t)" for t
    using assms by (simp_all add: same_kernel_def same_core_def)
  have m: "memory_inv (k_memory K') = memory_inv (k_memory K)" "free_blocks (k_memory K') = free_blocks (k_memory K)"
    using assms by (simp_all add: same_kernel_def memory_inv_def free_blocks_def)
  show ?thesis
    using assms unfolding same_kernel_def krel_def krel_parts c m by simp
qed

lemma same_kernel_upd_task:
  "same_core (f (k_tasks K t)) (k_tasks K t) \<Longrightarrow> same_kernel (upd_task K t f) K"
  by (simp add: same_kernel_def upd_task_def)

lemma same_kernel_memory:
  "mb_used M = mb_used (k_memory K) \<Longrightarrow> same_kernel (K\<lparr>k_memory := M\<rparr>) K"
  by (simp add: same_kernel_def)

subsection \<open>Changing the state of a task\<close>

lemma krel_task: "krel K A \<Longrightarrow> t \<in> set (a_jobs A) \<Longrightarrow> task_rel (k_tasks K t) A t"
  by (simp add: krel_def)

lemma krel_state: "krel K A \<Longrightarrow> t \<in> set (a_jobs A) \<Longrightarrow> t_state (k_tasks K t) = a_state A t"
  by (simp add: krel_def task_rel_def)

text \<open>The descriptors after a state change; the rest of the relation does not read the state.\<close>

lemma krel_upd_state:
  assumes rel: "krel K A" and A': "a_jobs A' = a_jobs A" "a_created A' = a_created A" "a_prio A' = a_prio A"
      "a_senders A' = a_senders A" "a_state A' = (a_state A)(t := s)"
    and K': "k_tasks K' = (k_tasks K)(t := (k_tasks K t)\<lparr>t_state := s\<rparr>)"
      "k_jobq_pool K' = k_jobq_pool K" "k_jobq K' = k_jobq K" "k_task_id_cnt K' = k_task_id_cnt K"
      "k_task_pool_ptr K' = k_task_pool_ptr K" "k_memory K' = k_memory K"
    and new: "queues_rel K' A'" "k_current K' = a_current A'"
  shows "krel K' A'"
proof -
  from rel have r: "jobs_rel K A" "free_rel K A" "blocks_rel K A" by (simp_all add: krel_def)
  have "jobs_rel K' A'" by (rule jobs_rel_cong [OF r(1)]) (simp_all add: A' K')
  moreover have "free_rel K' A'" by (rule free_rel_cong [OF r(2)]) (simp_all add: A' K')
  moreover have "blocks_rel K' A'" by (rule blocks_rel_cong [OF r(3)]) (simp_all add: A' K')
  moreover have "task_rel (k_tasks K' u) A' u" if "u \<in> set (a_jobs A')" for u
    using rel that unfolding krel_def task_rel_def by (cases "u = t") (simp_all add: A' K')
  ultimately show ?thesis using new by (simp add: krel_def)
qed

lemma change_task_state_plain:
  assumes rel: "krel K A" and t: "t \<in> set (a_jobs A)" and s: "s \<noteq> READY" "s \<noteq> RUNNING" "a_state A t \<noteq> s"
  shows "\<exists>K'. change_task_state K t s = Inr K' \<and> krel K' (a_set_state A t s)
    \<and> K' = upd_task K t (\<lambda>d. d\<lparr>t_state := s\<rparr>)"
proof -
  have "change_task_state K t s = Inr (upd_task K t (\<lambda>d. d\<lparr>t_state := s\<rparr>))"
    using krel_state [OF rel t] s by (simp add: change_task_state_def)
  moreover have "krel (upd_task K t (\<lambda>d. d\<lparr>t_state := s\<rparr>)) (a_set_state A t s)"
    by (rule krel_upd_state [OF rel]) (use rel in \<open>simp_all add: krel_def queues_rel_def\<close>)
  ultimately show ?thesis by blast
qed

lemma change_task_state_running:
  assumes rel: "krel K A" and t: "t \<in> set (a_jobs A)" and s: "a_state A t \<noteq> RUNNING"
  shows "\<exists>K'. change_task_state K t RUNNING = Inr K' \<and> krel K' (a_run A t)
    \<and> K' = upd_task (K\<lparr>k_current := Some t\<rparr>) t (\<lambda>d. d\<lparr>t_state := RUNNING\<rparr>)"
proof -
  have "change_task_state K t RUNNING = Inr (upd_task (K\<lparr>k_current := Some t\<rparr>) t (\<lambda>d. d\<lparr>t_state := RUNNING\<rparr>))"
    using krel_state [OF rel t] s by (simp add: change_task_state_def)
  moreover have "krel (upd_task (K\<lparr>k_current := Some t\<rparr>) t (\<lambda>d. d\<lparr>t_state := RUNNING\<rparr>)) (a_run A t)"
    by (rule krel_upd_state [OF rel, where t = t and s = RUNNING])
      (use rel in \<open>simp_all add: a_run_def krel_def queues_rel_def\<close>)
  ultimately show ?thesis by blast
qed

lemma change_task_state_ready:
  assumes rel: "krel K A" and t: "t \<in> set (a_jobs A)" and s: "a_state A t \<noteq> READY"
    and bound: "t < MAX_TASK_NUM" and new: "\<forall>j<TASK_PRIORITY_MAX. t \<notin> set (a_ready A j)"
  shows "\<exists>K' pool pq. change_task_state K t READY = Inr K' \<and> krel K' (a_make_ready A t)
    \<and> K' = upd_task (K\<lparr>k_readyq_pool := pool, k_readyq := pq\<rparr>) t (\<lambda>d. d\<lparr>t_state := READY\<rparr>)"
proof -
  let ?pr = "t_priority (k_tasks K t)"
  have tr: "valid_priority ?pr" "priority_index ?pr = a_prio A t"
    using krel_task [OF rel t] by (simp_all add: task_rel_def)
  have rr: "ready_rep (k_readyq_pool K, k_readyq K) (a_ready A)" using rel by (simp add: krel_def queues_rel_def)
  from ready_rep_push [OF rr bound tr(1) new] tr(2) obtain pool pq where
    push: "ptask_queue_push (k_readyq_pool K) (k_readyq K) t ?pr = Inr (pool, pq)"
    and rr': "ready_rep (pool, pq) ((a_ready A)(a_prio A t := a_ready A (a_prio A t) @ [t]))"
    by auto
  let ?K = "upd_task (K\<lparr>k_readyq_pool := pool, k_readyq := pq\<rparr>) t (\<lambda>d. d\<lparr>t_state := READY\<rparr>)"
  have "change_task_state K t READY = Inr ?K"
    using krel_state [OF rel t] s push by (simp add: change_task_state_def)
  moreover have "krel ?K (a_make_ready A t)"
    by (rule krel_upd_state [OF rel, where t = t and s = READY])
      (use rel rr' in \<open>simp_all add: krel_def queues_rel_def\<close>)
  ultimately show ?thesis by blast
qed

subsection \<open>Looking a task up\<close>

definition a_find :: "AKernel \<Rightarrow> i32 \<Rightarrow> task_ptr option" where
  "a_find A tid = find (\<lambda>t. word_of_nat t = tid) (a_jobs A)"

lemma find_job_dll:
  assumes "dll h p ns None" and "map (\<lambda>n. tn_task (h n)) ns = map Some ts" and "length ns < fuel"
  shows "find_job fuel h tasks tid (first_or ns None) = Inr (find (\<lambda>t. t_tid (tasks t) = tid) ts)"
  using assms
proof (induction ns arbitrary: p ts fuel)
  case Nil
  then show ?case by simp
next
  case (Cons n ns)
  from Cons.prems(2) obtain t us where t: "ts = t # us" "tn_task (h n) = Some t"
    "map (\<lambda>n. tn_task (h n)) ns = map Some us"
    by (cases ts) auto
  from Cons.prems(3) obtain g where g: "fuel = Suc g" "length ns < g" by (cases fuel) auto
  have "find_job g h tasks tid (first_or ns None) = Inr (find (\<lambda>t. t_tid (tasks t) = tid) us)"
    by (rule Cons.IH [where p = "Some n", OF _ t(3) g(2)]) (use Cons.prems(1) in simp)
  then show ?case using Cons.prems(1) t by (simp add: g(1))
qed

lemma find_cong_set: "(\<And>x. x \<in> set xs \<Longrightarrow> P x = Q x) \<Longrightarrow> find P xs = find Q xs"
  by (induction xs) simp_all

lemma get_task_by_tid_refine:
  assumes rel: "krel K A"
  shows "get_task_by_tid K tid = Inr (a_find A tid)"
proof -
  from rel obtain J where J: "pool_rep {()} (k_jobq_pool K) (\<lambda>_. k_jobq K) (\<lambda>_. J)"
    "map (\<lambda>n. tn_task (np_nodes (k_jobq_pool K) n)) J = map Some (a_jobs A)"
    unfolding krel_def jobs_rel_def by blast
  have l: "dll (np_nodes (k_jobq_pool K)) None J None" "tl_head (k_jobq K) = first_or J None"
    using J(1) by (simp_all add: pool_rep_def list_rep_def)
  have len: "length J < MAX_TASK_NUM + 1" using pool_rep_length [OF J(1)] by simp
  have "find (\<lambda>t. t_tid (k_tasks K t) = tid) (a_jobs A) = a_find A tid"
    unfolding a_find_def using krel_task [OF rel] by (intro find_cong_set) (simp add: task_rel_def)
  then show ?thesis
    using find_job_dll [OF l(1) J(2) len, of "k_tasks K" tid] by (simp add: get_task_by_tid_def l(2))
qed

lemma a_find_Some: "a_find A tid = Some t \<Longrightarrow> t \<in> set (a_jobs A) \<and> word_of_nat t = tid"
  unfolding a_find_def by (auto simp: find_Some_iff)

lemma a_find_None: "a_find A tid = None \<longleftrightarrow> (\<forall>t\<in>set (a_jobs A). word_of_nat t \<noteq> tid)"
  unfolding a_find_def by (auto simp: find_None_iff)

lemma a_find_job:
  assumes "jobs_ok A" and t: "t \<in> set (a_jobs A)"
  shows "a_find A (word_of_nat t) = Some t"
proof (cases "a_find A (word_of_nat t)")
  case None
  with t show ?thesis by (auto simp: a_find_None)
next
  case (Some u)
  with a_find_Some [OF Some] jobs_bound [OF assms(1), of u] jobs_bound [OF assms] show ?thesis
    using word_of_nat_less_inj [of u t] by (simp add: MAX_TASK_NUM_def)
qed

subsection \<open>Scheduling\<close>

lemma krel_queues:
  assumes "krel K A" and "queues_rel K' A'"
    and A': "a_jobs A' = a_jobs A" "a_created A' = a_created A" "a_prio A' = a_prio A"
      "a_senders A' = a_senders A" "a_state A' = a_state A" "a_current A' = a_current A"
    and K': "k_tasks K' = k_tasks K" "k_jobq_pool K' = k_jobq_pool K" "k_jobq K' = k_jobq K"
      "k_task_id_cnt K' = k_task_id_cnt K" "k_task_pool_ptr K' = k_task_pool_ptr K"
      "k_memory K' = k_memory K" "k_current K' = k_current K"
  shows "krel K' A'"
  using assms(1,2) unfolding krel_def jobs_rel_def free_rel_def blocks_rel_def used_blocks_def task_rel_def A' K'
  by blast

lemma requeue_refine:
  assumes rel: "krel K A" and inv: "ainv A"
  shows "\<exists>K'. (case k_current K of
          Some cur \<Rightarrow>
            let state = t_state (k_tasks K cur)
            in bindE (assertE (state = RUNNING \<or> state < READY)) (\<lambda>_.
               if state = RUNNING then change_task_state K cur READY else Inr K)
        | None \<Rightarrow> Inr K) = Inr K' \<and> krel K' (a_requeue A)"
proof (cases "a_current A")
  case None
  with rel show ?thesis by (simp add: krel_def a_requeue_def)
next
  case (Some c)
  from inv have i: "jobs_ok A" "ready_ok A" "current_ok A" by (simp_all add: ainv_def)
  have cur: "k_current K = Some c" using rel Some by (simp add: krel_def)
  have c: "c \<in> set (a_jobs A)" "a_state A c \<noteq> READY" using i(3) Some unfolding current_ok_def by blast+
  have st: "t_state (k_tasks K c) = a_state A c" by (rule krel_state [OF rel c(1)])
  show ?thesis
  proof (cases "a_state A c = RUNNING")
    case True
    have "\<forall>j<TASK_PRIORITY_MAX. c \<notin> set (a_ready A j)" using i(2) c(2) by (simp add: ready_ok_def)
    from change_task_state_ready [OF rel c jobs_bound [OF i(1) c(1)] this] obtain K' where
      "change_task_state K c READY = Inr K'" "krel K' (a_make_ready A c)" by blast
    then show ?thesis using cur st True Some by (simp add: a_requeue_def)
  next
    case False
    then show ?thesis using cur st Some rel c(2) by (simp add: a_requeue_def less_READY_iff)
  qed
qed

lemma schedule_refine:
  assumes rel: "krel K A" and inv: "ainv A"
  shows "\<exists>K'. schedule K = Inr (K', snd (a_schedule A)) \<and> krel K' (fst (a_schedule A))"
proof -
  from requeue_refine [OF rel inv] obtain K1 where
    K1: "(case k_current K of
          Some cur \<Rightarrow>
            let state = t_state (k_tasks K cur)
            in bindE (assertE (state = RUNNING \<or> state < READY)) (\<lambda>_.
               if state = RUNNING then change_task_state K cur READY else Inr K)
        | None \<Rightarrow> Inr K) = Inr K1" and rel1: "krel K1 (a_requeue A)" by blast
  define B where "B = a_requeue A"
  have rB: "ready_ok B" using requeue_idle_inv [OF inv] by (simp add: B_def idle_inv_def)
  have rr: "ready_rep (k_readyq_pool K1, k_readyq K1) (a_ready B)"
    using rel1 by (simp add: B_def krel_def queues_rel_def)
  show ?thesis
  proof (cases "a_order B")
    case Nil
    then have "ptask_queue_empty (k_readyq K1)"
      using ready_rep_empty [OF rr] by (simp add: a_order_def service_order_Nil_iff)
    then have "schedule K = Inr (K1, None)" by (simp add: schedule_def K1)
    then show ?thesis using Nil rel1 by (simp add: a_schedule_def Let_def flip: B_def)
  next
    case (Cons t ts)
    note h = order_head [OF Cons rB]
    have ne: "\<not> ptask_queue_empty (k_readyq K1)" using ready_rep_empty [OF rr] h(3,4) by auto
    from ready_rep_pop [OF rr h(3,4,5)] obtain p' q' where
      pop: "ptask_queue_pop (k_readyq_pool K1) (k_readyq K1) = Inr (p', q', Some t)"
      and rr': "ready_rep (p', q') ((a_ready B)(a_prio B t := tl (a_ready B (a_prio B t))))" by blast
    have "schedule K = Inr (K1\<lparr>k_readyq_pool := p', k_readyq := q'\<rparr>, Some t)"
      using ne pop by (simp add: schedule_def K1)
    moreover have "krel (K1\<lparr>k_readyq_pool := p', k_readyq := q'\<rparr>) (a_take B t)"
      by (rule krel_queues [OF rel1 [folded B_def]])
        (use rr' rel1 in \<open>simp_all add: B_def a_take_def krel_def queues_rel_def\<close>)
    ultimately show ?thesis using Cons by (simp add: a_schedule_def Let_def flip: B_def)
  qed
qed

subsection \<open>Interrupt queues\<close>

lemma krel_irqs: "krel K A \<Longrightarrow> pqs_abs {..<NUM_INTERRUPT} (k_irqq_pool K) (k_irqq K) (a_irq A)"
  by (simp add: krel_def queues_rel_def)

lemma add_to_irq_queue_refine:
  assumes rel: "krel K A" and t: "t \<in> set (a_jobs A)" and bound: "t < MAX_TASK_NUM"
    and once: "pqs_once {..<NUM_INTERRUPT} (a_irq A)"
    and new: "\<forall>i\<in>{..<NUM_INTERRUPT}. \<forall>j<TASK_PRIORITY_MAX. t \<notin> set (a_irq A i j)"
    and i: "0 \<le> intid" "intid < 1022"
  shows "\<exists>K'. add_to_irq_queue K intid t = Inr K'
    \<and> krel K' (A\<lparr>a_irq := (a_irq A)(nat intid := (a_irq A (nat intid))
         (a_prio A t := a_irq A (nat intid) (a_prio A t) @ [t]))\<rparr>)"
proof -
  have ii: "nat intid \<in> {..<NUM_INTERRUPT}" using i by (simp add: NUM_INTERRUPT_def nat_less_iff)
  let ?pr = "t_priority (k_tasks K t)"
  have tr: "valid_priority ?pr" "a_prio A t = priority_index ?pr"
    using krel_task [OF rel t] by (simp_all add: task_rel_def)
  have "0 < np_size (k_irqq_pool K)" by (rule pqs_abs_room [OF krel_irqs [OF rel] once bound new])
  from pqs_abs_push [OF krel_irqs [OF rel] ii tr(1) this tr(2), of t] obtain p' q' where
    push: "ptask_queue_push (k_irqq_pool K) (k_irqq K (nat intid)) t ?pr = Inr (p', q')"
    and abs: "pqs_abs {..<NUM_INTERRUPT} p' ((k_irqq K)(nat intid := q'))
      ((a_irq A)(nat intid := (a_irq A (nat intid))(a_prio A t := a_irq A (nat intid) (a_prio A t) @ [t])))"
    by blast
  let ?K = "K\<lparr>k_irqq_pool := p', k_irqq := (k_irqq K)(nat intid := q')\<rparr>"
  have "add_to_irq_queue K intid t = Inr ?K" using i push by (simp add: add_to_irq_queue_def)
  moreover have "krel ?K (A\<lparr>a_irq := (a_irq A)(nat intid := (a_irq A (nat intid))
         (a_prio A t := a_irq A (nat intid) (a_prio A t) @ [t]))\<rparr>)"
    by (rule krel_queues [OF rel]) (use abs rel in \<open>simp_all add: krel_def queues_rel_def\<close>)
  ultimately show ?thesis by blast
qed

lemma wake_refine:
  assumes rel: "krel K A" and inv: "ainv A" and i: "0 \<le> intid" "intid < 1022"
  shows "\<exists>K'. wake_up_irq_blocked_tasks K intid = Inr K' \<and> krel K' (a_wake A (nat intid))
    \<and> k_memory K' = k_memory K"
proof -
  from inv have p: "jobs_ok A" "ready_ok A" "irq_ok A" by (simp_all add: ainv_def)
  let ?i = "nat intid"
  have ii: "?i \<in> {..<NUM_INTERRUPT}" "?i < NUM_INTERRUPT" using i by (simp_all add: NUM_INTERRUPT_def nat_less_iff)
  note abs = krel_irqs [OF rel]
  show ?thesis
  proof (cases "service_order TASK_PRIORITY_MAX (a_irq A ?i)")
    case Nil
    then have "ptask_queue_empty (k_irqq K ?i)"
      using pqs_abs_size [OF abs ii(1)] by (simp add: service_order_Nil_iff)
    then have "wake_up_irq_blocked_tasks K intid = Inr K" using i by (simp add: wake_up_irq_blocked_tasks_def)
    then show ?thesis using rel Nil by (simp add: a_wake_def)
  next
    case (Cons t ts)
    note h = irq_order_head [OF Cons p(3) ii(2)]
    have ne: "\<not> ptask_queue_empty (k_irqq K ?i)"
      using pqs_abs_size [OF abs ii(1)] h(3,4) by auto
    from pqs_abs_pop [OF abs ii(1) h(3,4,5)] obtain p' q' where
      pop: "ptask_queue_pop (k_irqq_pool K) (k_irqq K ?i) = Inr (p', q', Some t)"
      and abs': "pqs_abs {..<NUM_INTERRUPT} p' ((k_irqq K)(?i := q'))
        ((a_irq A)(?i := (a_irq A ?i)(a_prio A t := tl (a_irq A ?i (a_prio A t)))))" by blast
    let ?K = "K\<lparr>k_irqq_pool := p', k_irqq := (k_irqq K)(?i := q')\<rparr>"
    let ?A = "A\<lparr>a_irq := (a_irq A)(?i := (a_irq A ?i)(a_prio A t := tl (a_irq A ?i (a_prio A t))))\<rparr>"
    have rel1: "krel ?K ?A"
      by (rule krel_queues [OF rel]) (use abs' rel in \<open>simp_all add: krel_def queues_rel_def\<close>)
    have "\<forall>j<TASK_PRIORITY_MAX. t \<notin> set (a_ready ?A j)" using p(2) h(2) by (simp add: ready_ok_def)
    from change_task_state_ready [OF rel1 _ _ jobs_bound [OF p(1) h(1)] this] h obtain K' pool pq where
      c: "change_task_state ?K t READY = Inr K'" "krel K' (a_make_ready ?A t)"
      "K' = upd_task (?K\<lparr>k_readyq_pool := pool, k_readyq := pq\<rparr>) t (\<lambda>d. d\<lparr>t_state := READY\<rparr>)"
      by auto
    have "wake_up_irq_blocked_tasks K intid = Inr K'"
      using i ne pop c(1) krel_state [OF rel h(1)] h(2) by (simp add: wake_up_irq_blocked_tasks_def Let_def)
    then show ?thesis using c(2,3) Cons by (simp add: a_wake_def Let_def)
  qed
qed

subsection \<open>Leaving\<close>

lemma map_eq_append_Cons:
  assumes "map f J = map Some (as @ c # bs)"
  shows "\<exists>xs n ys. J = xs @ n # ys \<and> map f xs = map Some as \<and> f n = Some c \<and> map f ys = map Some bs"
  using assms by (fastforce simp: map_eq_append_conv map_eq_Cons_conv)

lemma used_blocks_remove:
  assumes "inj_on (\<lambda>t. t_memory_block (k_tasks K t)) (set (a_jobs A))" and "distinct (a_jobs A)"
    and c: "c \<in> set (a_jobs A)" "t_memory_block (k_tasks K c) = Some i"
    and K': "\<And>t. t \<noteq> c \<Longrightarrow> t_memory_block (k_tasks K' t) = t_memory_block (k_tasks K t)"
    and A': "a_jobs A' = remove1 c (a_jobs A)"
  shows "used_blocks K' A' = used_blocks K A - {i}"
proof -
  have "t_memory_block (k_tasks K t) \<noteq> Some i" if "t \<in> set (a_jobs A)" "t \<noteq> c" for t
    using inj_onD [OF assms(1), of t c] that c by auto
  then show ?thesis using assms(2) c K' unfolding used_blocks_def A' by auto
qed

lemma remove_current_refine:
  assumes rel: "krel K A" and inv: "ainv A" and run: "running A c"
  shows "\<exists>K'. remove_current_task K = Inr K' \<and> krel K' (a_exit A c)"
proof -
  from inv have p: "jobs_ok A" by (simp add: ainv_def)
  from run have c: "c \<in> set (a_jobs A)" "a_current A = Some c" by (simp_all add: running_def)
  have cur: "k_current K = Some c" using rel c by (simp add: krel_def)
  have dist: "distinct (a_jobs A)" using p by (simp add: jobs_ok_def)
  from split_list [OF c(1)] obtain as bs where jobs: "a_jobs A = as @ c # bs" by blast
  with dist have notin: "c \<notin> set as" "c \<notin> set bs" by auto
  from rel obtain J where J: "pool_rep {()} (k_jobq_pool K) (\<lambda>_. k_jobq K) (\<lambda>_. J)"
    "map (\<lambda>n. tn_task (np_nodes (k_jobq_pool K) n)) J = map Some (a_jobs A)"
    "map (\<lambda>t. t_job_node (k_tasks K t)) (a_jobs A) = map Some J"
    unfolding krel_def jobs_rel_def by blast
  from map_eq_append_Cons [OF J(2) [unfolded jobs]] obtain xs n ys where
    s: "J = xs @ n # ys" "map (\<lambda>n. tn_task (np_nodes (k_jobq_pool K) n)) xs = map Some as"
    "tn_task (np_nodes (k_jobq_pool K) n) = Some c"
    "map (\<lambda>n. tn_task (np_nodes (k_jobq_pool K) n)) ys = map Some bs" by blast
  have len: "length xs = length as" using s(2) by (metis length_map)
  have node: "map (\<lambda>t. t_job_node (k_tasks K t)) as = map Some xs" "t_job_node (k_tasks K c) = Some n"
    "map (\<lambda>t. t_job_node (k_tasks K t)) bs = map Some ys"
    using J(3) len by (simp_all add: jobs s(1))
  from pool_rep_remove [OF J(1), of "()" xs n ys] s(1) obtain p' l' where
    rem: "task_list_remove_node (k_jobq_pool K) (k_jobq K) (Some n) = Inr (p', l', tn_task (np_nodes (k_jobq_pool K) n))"
    "pool_rep {()} p' (\<lambda>_. l') (\<lambda>_. xs @ ys)"
    "\<forall>m. tn_task (np_nodes p' m) = tn_task (np_nodes (k_jobq_pool K) m)" by auto
  have bl: "memory_inv (k_memory K)"
    "free_blocks (k_memory K) = {0..<MEMORY_BLOCK_MAX_NUM} - used_blocks K A"
    "\<forall>t\<in>set (a_jobs A). \<exists>i<MEMORY_BLOCK_MAX_NUM. t_memory_block (k_tasks K t) = Some i"
    "inj_on (\<lambda>t. t_memory_block (k_tasks K t)) (set (a_jobs A))"
    using rel by (simp_all add: krel_def blocks_rel_def)
  from bl(3) c(1) obtain i where i: "i < MEMORY_BLOCK_MAX_NUM" "t_memory_block (k_tasks K c) = Some i" by blast
  from memory_free_block_ok [OF bl(1) i(1)] obtain M where
    M: "memory_free_block (k_memory K) (Some i) = Inr M" "memory_inv M" "free_blocks M = insert i (free_blocks (k_memory K))"
    by blast
  let ?K = "(upd_task (K\<lparr>k_jobq_pool := p', k_jobq := l', k_memory := M\<rparr>) c task_init)\<lparr>k_current := None\<rparr>"
  have eq: "remove_current_task K = Inr ?K"
    using cur node(2) rem(1) i(2) M(1) by (simp add: remove_current_task_def Let_def)
  have aj: "a_jobs (a_exit A c) = as @ bs" using notin by (simp add: a_exit_def jobs remove1_append)
  have "jobs_rel ?K (a_exit A c)"
    unfolding jobs_rel_def aj
  proof (intro exI [of _ "xs @ ys"] conjI)
    show "pool_rep {()} (k_jobq_pool ?K) (\<lambda>_. k_jobq ?K) (\<lambda>_. xs @ ys)" using rem(2) by simp
    show "map (\<lambda>n. tn_task (np_nodes (k_jobq_pool ?K) n)) (xs @ ys) = map Some (as @ bs)"
      using rem(3) s(2,4) by simp
    have "map (\<lambda>t. t_job_node (k_tasks ?K t)) (as @ bs) = map (\<lambda>t. t_job_node (k_tasks K t)) (as @ bs)"
      using notin by auto
    then show "map (\<lambda>t. t_job_node (k_tasks ?K t)) (as @ bs) = map Some (xs @ ys)" using node by simp
  qed
  moreover have "queues_rel ?K (a_exit A c)" using rel by (simp add: krel_def queues_rel_def a_exit_def)
  moreover have "task_rel (k_tasks ?K t) (a_exit A c) t" if "t \<in> set (a_jobs (a_exit A c))" for t
    using that notin krel_task [OF rel, of t] unfolding aj by (auto simp: jobs task_rel_def a_exit_def)
  moreover have "free_rel ?K (a_exit A c)"
  proof -
    have "c < a_created A" using p c(1) by (auto simp: jobs_ok_def)
    with rel show ?thesis by (auto simp: krel_def free_rel_def a_exit_def)
  qed
  moreover have "blocks_rel ?K (a_exit A c)"
  proof -
    have u: "used_blocks ?K (a_exit A c) = used_blocks K A - {i}"
      by (rule used_blocks_remove [OF bl(4) dist c(1) i(2)]) (simp_all add: a_exit_def)
    have sub: "set (a_jobs (a_exit A c)) \<subseteq> set (a_jobs A)" "c \<notin> set (a_jobs (a_exit A c))"
      using notin unfolding aj jobs by auto
    have same: "t_memory_block (k_tasks ?K t) = t_memory_block (k_tasks K t)" if "t \<in> set (a_jobs (a_exit A c))" for t
      using that sub(2) by auto
    have "i \<in> used_blocks K A" using c(1) i(2) by (auto simp: used_blocks_def)
    then have "free_blocks M = {0..<MEMORY_BLOCK_MAX_NUM} - (used_blocks K A - {i})"
      using M(3) bl(2) i(1) by auto
    moreover have "inj_on (\<lambda>t. t_memory_block (k_tasks ?K t)) (set (a_jobs (a_exit A c)))"
      using inj_on_subset [OF bl(4) sub(1)] same by (simp cong: inj_on_cong)
    moreover have "\<forall>t\<in>set (a_jobs (a_exit A c)). \<exists>i<MEMORY_BLOCK_MAX_NUM. t_memory_block (k_tasks ?K t) = Some i"
      using same bl(3) sub(1) by (metis subsetD)
    ultimately show ?thesis using M(2) by (simp add: blocks_rel_def u)
  qed
  ultimately have "krel ?K (a_exit A c)" by (simp add: krel_def a_exit_def)
  with eq show ?thesis by blast
qed

subsection \<open>Creation\<close>

text \<open>The priority that a task asks for, brought into the range from 0 to 9.\<close>

definition clamp_priority :: "i32 \<Rightarrow> i32" where
  "clamp_priority p = word_of_int (max 0 (min 9 (sint p)))"

lemma sint_clamp_priority: "sint (clamp_priority p) = max 0 (min 9 (sint p))"
  by (auto simp: clamp_priority_def max_def min_def intro!: signed_take_bit_int_eq_self)

lemma i32_clamp_priority: "i32_clamp p TASK_PRIORITY_MIN (word_of_nat TASK_PRIORITY_MAX - 1) = clamp_priority p"
proof -
  have "sint (i32_clamp p TASK_PRIORITY_MIN (word_of_nat TASK_PRIORITY_MAX - 1)) = sint (clamp_priority p)"
    by (simp add: i32_clamp_sint sint_clamp_priority TASK_PRIORITY_MIN_def TASK_PRIORITY_MAX_def)
  then show ?thesis by (rule signed_word_eqI)
qed

lemma clamp_priority_valid: "valid_priority (clamp_priority p)"
  by (simp add: sint_clamp_priority valid_priority_def TASK_PRIORITY_MIN_def TASK_PRIORITY_MAX_def)

lemma jobq_room:
  assumes J: "pool_rep {()} p (\<lambda>_. l) (\<lambda>_. J)" and len: "length J < MAX_TASK_NUM"
  shows "0 < np_size p"
proof (rule ccontr)
  assume "\<not> 0 < np_size p"
  then have "set J = {0..<MAX_TASK_NUM}" using pool_rep_cover [OF J] by (simp add: free_nodes_def)
  then have "card (set J) = MAX_TASK_NUM" by simp
  with card_length [of J] len show False by simp
qed

lemma used_blocks_card: "card (used_blocks K A) \<le> length (a_jobs A)"
proof -
  have "used_blocks K A \<subseteq> the ` (\<lambda>t. t_memory_block (k_tasks K t)) ` set (a_jobs A)"
  proof
    fix i assume "i \<in> used_blocks K A"
    then obtain t where t: "t \<in> set (a_jobs A)" "t_memory_block (k_tasks K t) = Some i"
      unfolding used_blocks_def by blast
    then have "i = the (t_memory_block (k_tasks K t))" by simp
    with t(1) show "i \<in> the ` (\<lambda>t. t_memory_block (k_tasks K t)) ` set (a_jobs A)" by blast
  qed
  then have "card (used_blocks K A) \<le> card (the ` (\<lambda>t. t_memory_block (k_tasks K t)) ` set (a_jobs A))"
    by (intro card_mono) simp_all
  also have "\<dots> \<le> card (set (a_jobs A))"
    by (metis card_image_le finite_imageI finite_set image_image)
  also have "\<dots> \<le> length (a_jobs A)" by (rule card_length)
  finally show ?thesis .
qed

lemma free_block_left:
  assumes "blocks_rel K A" and "length (a_jobs A) < MEMORY_BLOCK_MAX_NUM"
  shows "free_blocks (k_memory K) \<noteq> {}"
proof
  assume "free_blocks (k_memory K) = {}"
  then have "{0..<MEMORY_BLOCK_MAX_NUM} \<subseteq> used_blocks K A" using assms(1) by (auto simp: blocks_rel_def)
  moreover have "finite (used_blocks K A)"
  proof (rule finite_subset)
    show "used_blocks K A \<subseteq> {..<MEMORY_BLOCK_MAX_NUM}"
      using assms(1) unfolding blocks_rel_def used_blocks_def by fastforce
  qed simp
  ultimately have "MEMORY_BLOCK_MAX_NUM \<le> card (used_blocks K A)"
    using card_mono [of "used_blocks K A" "{0..<MEMORY_BLOCK_MAX_NUM}"] by simp
  with used_blocks_card [of K A] assms(2) show False by simp
qed

text \<open>The descriptor that \<^verbatim>\<open>create_task\<close> has filled in before the task becomes ready.\<close>

definition spawned :: "Kernel \<Rightarrow> task_ptr \<Rightarrow> i32 \<Rightarrow> u64 \<Rightarrow> i32 \<Rightarrow> nat \<Rightarrow> node_ptr option \<Rightarrow> Task" where
  "spawned K t priority func parent i node =
     (task_init (k_tasks K t))\<lparr>t_tid := k_task_id_cnt K, t_parent_tid := parent,
        t_priority := clamp_priority priority, t_memory_block := Some i,
        t_sp := block_addr (k_memory K) (i + 1), t_pc := func,
        t_x := (t_x (task_init (k_tasks K t)))(30 := k_exit_addr K), t_spsr := 0, t_next := None,
        t_job_node := node\<rparr>"

lemma block_addr_used [simp]: "block_addr (M\<lparr>mb_used := u\<rparr>) i = block_addr M i"
  by (simp add: block_addr_def)

lemma create_task_eval:
  assumes ptr: "k_task_pool_ptr K = Some t"
    and alloc: "memory_allocate_block (k_memory K) = ((k_memory K)\<lparr>mb_used := u\<rparr>, Some i)"
    and push: "task_list_push_back (k_jobq_pool K) (k_jobq K) t = Inr (p', l')"
  shows "create_task K priority func parent =
    bindE (change_task_state (K\<lparr>k_task_pool_ptr := t_next (k_tasks K t), k_task_id_cnt := k_task_id_cnt K + 1,
      k_memory := (k_memory K)\<lparr>mb_used := u\<rparr>, k_jobq_pool := p', k_jobq := l',
      k_tasks := (k_tasks K)(t := spawned K t priority func parent i (tl_tail l'))\<rparr>) t READY)
      (\<lambda>K. Inr (K, Some t))"
  using ptr alloc push
  by (simp add: create_task_def Let_def memory_get_block_end_def upd_task_def i32_clamp_priority spawned_def)

lemma spawned_simps [simp]:
  "t_tid (spawned K t pr f pa i n) = k_task_id_cnt K" "t_state (spawned K t pr f pa i n) = INITIALIZED"
  "t_priority (spawned K t pr f pa i n) = clamp_priority pr" "t_memory_block (spawned K t pr f pa i n) = Some i"
  "t_job_node (spawned K t pr f pa i n) = n" "t_parent_tid (spawned K t pr f pa i n) = pa"
  "t_senders (spawned K t pr f pa i n) = t_senders (task_init (k_tasks K t))"
  "t_pc (spawned K t pr f pa i n) = f"
  by (simp_all add: spawned_def)

lemma create_task_refine:
  assumes rel: "krel K A" and inv: "ainv A"
  shows "\<exists>K'. create_task K priority func parent = Inr (K', snd (a_create A (priority_index (clamp_priority priority))))
    \<and> krel K' (fst (a_create A (priority_index (clamp_priority priority))))"
proof (cases "a_created A < MAX_TASK_NUM")
  case False
  with rel have "create_task K priority func parent = Inr (K, None)"
    by (simp add: create_task_def krel_def free_rel_def)
  with False rel show ?thesis by (simp add: a_create_def Let_def)
next
  case True
  let ?t = "a_created A" and ?p = "priority_index (clamp_priority priority)"
  from inv have p: "jobs_ok A" "ready_ok A" by (simp_all add: ainv_def)
  note fresh = fresh_job [OF p(1)]
  have "length (a_jobs A) \<le> a_created A"
    using p(1) card_bounded_distinct [of "a_jobs A" "a_created A"] by (simp add: jobs_ok_def)
  with True have few: "length (a_jobs A) < MAX_TASK_NUM" by simp
  from rel obtain J where J: "pool_rep {()} (k_jobq_pool K) (\<lambda>_. k_jobq K) (\<lambda>_. J)"
    "map (\<lambda>n. tn_task (np_nodes (k_jobq_pool K) n)) J = map Some (a_jobs A)"
    "map (\<lambda>t. t_job_node (k_tasks K t)) (a_jobs A) = map Some J"
    unfolding krel_def jobs_rel_def by blast
  have "length J = length (a_jobs A)" using J(2) by (metis length_map)
  with few have room: "0 < np_size (k_jobq_pool K)" by (intro jobq_room [OF J(1)]) simp
  from pool_rep_push [OF J(1) _ room, of "()" ?t] obtain p' l' n where
    push: "task_list_push_back (k_jobq_pool K) (k_jobq K) ?t = Inr (p', l')" "tl_tail l' = Some n"
    "pool_rep {()} p' (\<lambda>_. l') (\<lambda>_. J @ [n])" "n \<notin> set J"
    "\<forall>m. tn_task (np_nodes p' m) = (if m = n then Some ?t else tn_task (np_nodes (k_jobq_pool K) m))"
    by auto
  have bl: "blocks_rel K A" using rel by (simp add: krel_def)
  then have mi: "memory_inv (k_memory K)" by (simp add: blocks_rel_def)
  have "free_blocks (k_memory K) \<noteq> {}"
    using free_block_left [OF bl] few by (simp add: MAX_TASK_NUM_def MEMORY_BLOCK_MAX_NUM_def)
  from memory_allocate_block_some [OF mi this] obtain i where
    alloc: "memory_allocate_block (k_memory K) = ((k_memory K)\<lparr>mb_used := (mb_used (k_memory K))[i := True]\<rparr>, Some i)"
    "i \<in> free_blocks (k_memory K)" "i < MEMORY_BLOCK_MAX_NUM" by blast
  let ?M = "(k_memory K)\<lparr>mb_used := (mb_used (k_memory K))[i := True]\<rparr>"
  note M = free_blocks_take [OF mi alloc(3)]
  have ptr: "k_task_pool_ptr K = Some ?t" "k_task_id_cnt K = word_of_nat ?t"
    using rel True by (simp_all add: krel_def free_rel_def)
  define K1 where "K1 = K\<lparr>k_task_pool_ptr := t_next (k_tasks K ?t), k_task_id_cnt := k_task_id_cnt K + 1,
      k_memory := ?M, k_jobq_pool := p', k_jobq := l',
      k_tasks := (k_tasks K)(?t := spawned K ?t priority func parent i (tl_tail l'))\<rparr>"
  have k1: "k_task_pool_ptr K1 = t_next (k_tasks K ?t)" "k_task_id_cnt K1 = k_task_id_cnt K + 1" "k_memory K1 = ?M"
    "k_jobq_pool K1 = p'" "k_jobq K1 = l'" "k_current K1 = k_current K"
    "k_tasks K1 = (k_tasks K)(?t := spawned K ?t priority func parent i (Some n))"
    "queues_rel K1 (a_spawn A ?p) = queues_rel K A"
    by (simp_all add: K1_def push(2) queues_rel_def)
  have eval: "create_task K priority func parent = bindE (change_task_state K1 ?t READY) (\<lambda>K. Inr (K, Some ?t))"
    unfolding K1_def by (rule create_task_eval [OF ptr(1) alloc(1) push(1)])
  have old: "k_tasks K1 t = k_tasks K t" if "t \<in> set (a_jobs A)" for t using fresh that by (auto simp: k1)
  have jobs: "jobs_rel K1 (a_spawn A ?p)"
    unfolding jobs_rel_def a_spawn_simps k1(4,5)
  proof (intro exI [of _ "J @ [n]"] conjI)
    show "pool_rep {()} p' (\<lambda>_. l') (\<lambda>_. J @ [n])" by (fact push(3))
    have "map (\<lambda>m. tn_task (np_nodes p' m)) J = map (\<lambda>m. tn_task (np_nodes (k_jobq_pool K) m)) J"
      using push(4,5) by (intro map_cong) auto
    then show "map (\<lambda>m. tn_task (np_nodes p' m)) (J @ [n]) = map Some (a_jobs A @ [?t])"
      using J(2) push(5) by simp
    have "map (\<lambda>t. t_job_node (k_tasks K1 t)) (a_jobs A) = map (\<lambda>t. t_job_node (k_tasks K t)) (a_jobs A)"
      using old by (intro map_cong) auto
    then show "map (\<lambda>t. t_job_node (k_tasks K1 t)) (a_jobs A @ [?t]) = map Some (J @ [n])"
      using J(3) by (simp add: k1)
  qed
  have task: "task_rel (k_tasks K1 t) (a_spawn A ?p) t" if "t \<in> set (a_jobs (a_spawn A ?p))" for t
  proof (cases "t = ?t")
    case True
    have "length (q_container (t_senders (k_tasks K ?t))) = MAX_SENDER_CAPACITY"
      using rel \<open>?t < MAX_TASK_NUM\<close> by (simp add: krel_def free_rel_def)
    from task_init_senders [OF this] show ?thesis
      using True ptr(2) clamp_priority_valid [of priority] by (simp add: k1 task_rel_def)
  next
    case False
    with that have "t \<in> set (a_jobs A)" by simp
    with krel_task [OF rel this] False show ?thesis by (simp add: k1 task_rel_def)
  qed
  have free: "free_rel K1 (a_spawn A ?p)"
    using rel True unfolding krel_def free_rel_def by (auto simp: k1 ptr(2) add.commute)
  have blocks: "blocks_rel K1 (a_spawn A ?p)"
    unfolding blocks_rel_def
  proof (intro conjI)
    have notused: "i \<notin> used_blocks K A" using bl alloc(2) by (auto simp: blocks_rel_def)
    have u: "used_blocks K1 (a_spawn A ?p) = insert i (used_blocks K A)"
      unfolding used_blocks_def using old by (auto simp: k1 fresh)
    show "memory_inv (k_memory K1)" using M by (simp add: k1)
    show "free_blocks (k_memory K1) = {0..<MEMORY_BLOCK_MAX_NUM} - used_blocks K1 (a_spawn A ?p)"
      using M bl unfolding u k1(3) blocks_rel_def by auto
    show "\<forall>t\<in>set (a_jobs (a_spawn A ?p)). \<exists>i<MEMORY_BLOCK_MAX_NUM. t_memory_block (k_tasks K1 t) = Some i"
      using bl alloc(3) old by (auto simp: k1(7) blocks_rel_def)
    have "inj_on (\<lambda>t. t_memory_block (k_tasks K1 t)) (set (a_jobs A))"
      using bl old by (simp add: blocks_rel_def cong: inj_on_cong)
    moreover have "Some i \<notin> (\<lambda>t. t_memory_block (k_tasks K1 t)) ` set (a_jobs A)"
      using notused old unfolding used_blocks_def by force
    moreover have "t_memory_block (k_tasks K1 ?t) = Some i" by (simp add: k1(7))
    ultimately show "inj_on (\<lambda>t. t_memory_block (k_tasks K1 t)) (set (a_jobs (a_spawn A ?p)))"
      using fresh by simp
  qed
  have "krel K1 (a_spawn A ?p)"
    using jobs task free blocks rel unfolding krel_def by (simp add: k1(6,8))
  from change_task_state_ready [OF this _ _ True] fresh_unqueued(1) [OF p] obtain K' where
    "change_task_state K1 ?t READY = Inr K'" "krel K' (a_make_ready (a_spawn A ?p) ?t)" by auto
  then show ?thesis using eval a_create_spawn [OF True, of ?p] by simp
qed

subsection \<open>Initialisation\<close>

text \<open>Each descriptor of the static array has a sender container of 64 cells.\<close>

definition static_tasks :: "Kernel \<Rightarrow> bool" where
  "static_tasks K \<longleftrightarrow> (\<forall>t<MAX_TASK_NUM. length (q_container (t_senders (k_tasks K t))) = MAX_SENDER_CAPACITY)"

lemma memory_init_inv: "memory_inv (memory_init M) \<and> free_blocks (memory_init M) = {0..<MEMORY_BLOCK_MAX_NUM}"
  by (auto simp: memory_init_def memory_inv_def free_blocks_def)

lemma init_scheduler_simps [simp]:
  "k_tasks (init_scheduler K) = k_tasks (task_queue_init K)" "k_task_pool_ptr (init_scheduler K) = Some 0"
  "k_task_id_cnt (init_scheduler K) = 0" "k_current (init_scheduler K) = None"
  "k_memory (init_scheduler K) = k_memory K" "k_exit_addr (init_scheduler K) = k_exit_addr K"
  by (simp_all add: init_scheduler_def task_queue_init_def Let_def)

lemma init_scheduler_refine:
  assumes "static_tasks K" and "memory_inv (k_memory K)" and "free_blocks (k_memory K) = {0..<MEMORY_BLOCK_MAX_NUM}"
  shows "krel (init_scheduler K) a_init"
proof -
  let ?K = "init_scheduler K"
  have "jobs_rel ?K a_init"
    unfolding jobs_rel_def by (intro exI [of _ "[]"])
      (auto simp: a_init_def init_scheduler_def Let_def task_queue_init_def intro!: pool_rep_init)
  moreover have "queues_rel ?K a_init"
    unfolding queues_rel_def ready_rep_def
    by (auto simp: a_init_def init_scheduler_def Let_def task_queue_init_def pqs_once_def intro!: pqs_abs_init)
  moreover have "free_rel ?K a_init"
  proof -
    have "t_next (k_tasks ?K t) = (if t + 1 < MAX_TASK_NUM then Some (t + 1) else None)
        \<and> length (q_container (t_senders (k_tasks ?K t))) = MAX_SENDER_CAPACITY" if "t < MAX_TASK_NUM" for t
      using assms(1) that
      by (auto simp: static_tasks_def task_queue_init_def TASK_POOL_SIZE_def task_init_def queue_init_def)
    then show ?thesis by (simp add: free_rel_def a_init_def MAX_TASK_NUM_def)
  qed
  moreover have "blocks_rel ?K a_init"
    using assms by (simp add: blocks_rel_def used_blocks_def a_init_def)
  ultimately show ?thesis by (simp add: krel_def a_init_def)
qed

end
