(* ===== verification/Message_Refine.thy ===== *)
theory Message_Refine
  imports Message_Passing Scheduler_Refine
begin

text \<open>
  The system calls implement the abstract kernel: from a related state in which the calling
  task runs, each call succeeds and ends in a state related to the abstract call, and the
  bytes and results it delivers are stated beside the relation.
\<close>

lemma krel_current: "krel K A \<Longrightarrow> k_current K = a_current A"
  by (simp add: krel_def)

lemma krel_set_mem: "krel (set_mem K m) A = krel K A"
  by (rule krel_same_kernel) (simp add: same_kernel_def set_mem_def)

lemma krel_give_result: "krel (give_result K t r) A = krel K A"
  by (rule krel_same_kernel) (auto simp: same_kernel_def give_result_def same_core_def)

lemma scast_tid: "n < 2 ^ 31 \<Longrightarrow> (scast (word_of_nat n :: i32) :: u64) = word_of_nat n"
  by (simp add: scast_eq sint_of_nat_small32)

lemma ucast_tid: "n < 2 ^ 31 \<Longrightarrow> (ucast (word_of_nat n :: u64) :: i32) = word_of_nat n"
  by (simp add: word_unat_eq_iff unat_of_nat_small64 unat_of_nat_small32 unsigned_ucast_eq take_bit_nat_eq_self)

subsection \<open>Exchanging a message\<close>

definition exchange_length :: "i32 \<Rightarrow> i32 \<Rightarrow> i32" where
  "exchange_length lf lt = (if sint lf < sint lt then lf else lt)"

lemma copy_message_eq:
  "copy_message m from lf dest lt = (memcpy m dest from (scast (exchange_length lf lt)), exchange_length lf lt)"
  by (simp add: copy_message_def exchange_length_def Let_def)

lemma exchange_wake:
  assumes rel: "krel K A" and inv: "ainv A" and r: "r \<in> set (a_jobs A)"
    and s: "a_state A r \<noteq> READY" "a_state A r \<noteq> RUNNING"
  shows "\<exists>K'. synchronized_send_receive K (Some t) from lf (Some r) dest lt = Inr (K', exchange_length lf lt)
    \<and> krel K' (a_make_ready A r)
    \<and> k_mem K' = memcpy (k_mem K) dest from (scast (exchange_length lf lt))
    \<and> k_tasks K' = (k_tasks K)(r := (assign_result (k_tasks K r) (scast (exchange_length lf lt)))\<lparr>t_state := READY\<rparr>)"
proof -
  let ?n = "exchange_length lf lt"
  let ?K = "give_result (set_mem K (memcpy (k_mem K) dest from (scast ?n))) r (scast ?n)"
  from inv have i: "jobs_ok A" "ready_ok A" by (simp_all add: ainv_def)
  have rel1: "krel ?K A" using rel by (simp only: krel_give_result krel_set_mem)
  have "\<forall>j<TASK_PRIORITY_MAX. r \<notin> set (a_ready A j)" using i(2) s by (simp add: ready_ok_def)
  from change_task_state_ready [OF rel1 r s(1) jobs_bound [OF i(1) r] this] obtain K' pool pq where
    c: "change_task_state ?K r READY = Inr K'" "krel K' (a_make_ready A r)"
    "K' = upd_task (?K\<lparr>k_readyq_pool := pool, k_readyq := pq\<rparr>) r (\<lambda>d. d\<lparr>t_state := READY\<rparr>)" by blast
  have "synchronized_send_receive K (Some t) from lf (Some r) dest lt = Inr (K', ?n)"
    using c(1) krel_state [OF rel r] s(2)
    by (simp add: synchronized_send_receive_def copy_message_eq)
  then show ?thesis using c(2) by (intro exI [of _ K']) (simp add: c(3) k_mem_def set_mem_def)
qed

lemma exchange_running:
  assumes rel: "krel K A" and r: "r \<in> set (a_jobs A)" and s: "a_state A r = RUNNING"
  shows "\<exists>K'. synchronized_send_receive K (Some t) from lf (Some r) dest lt = Inr (K', exchange_length lf lt)
    \<and> krel K' A
    \<and> k_mem K' = memcpy (k_mem K) dest from (scast (exchange_length lf lt))
    \<and> k_tasks K' = (k_tasks K)(r := assign_result (k_tasks K r) (scast (exchange_length lf lt)))"
  using krel_state [OF rel r] s rel
  by (simp add: synchronized_send_receive_def copy_message_eq krel_give_result krel_set_mem)

subsection \<open>The sender queue of a task\<close>

lemma krel_senders:
  assumes rel: "krel K A" and r: "r \<in> set (a_jobs A)" and q: "queue_inv q" "q_capacity q = MAX_SENDER_CAPACITY"
      "queue_cont q = map word_of_nat ss"
  shows "krel (upd_task K r (\<lambda>d. d\<lparr>t_senders := q\<rparr>)) (A\<lparr>a_senders := (a_senders A)(r := ss)\<rparr>)"
proof -
  let ?K = "upd_task K r (\<lambda>d. d\<lparr>t_senders := q\<rparr>)" and ?A = "A\<lparr>a_senders := (a_senders A)(r := ss)\<rparr>"
  from rel have p: "jobs_rel K A" "free_rel K A" "blocks_rel K A" by (simp_all add: krel_def)
  have old: "length (q_container (t_senders (k_tasks K r))) = MAX_SENDER_CAPACITY"
    using krel_task [OF rel r] by (simp add: task_rel_def queue_inv_def)
  have "jobs_rel ?K ?A" by (rule jobs_rel_cong [OF p(1)]) simp_all
  moreover have "free_rel ?K ?A" by (rule free_rel_cong [OF p(2)]) (use q old in \<open>simp_all add: queue_inv_def\<close>)
  moreover have "blocks_rel ?K ?A" by (rule blocks_rel_cong [OF p(3)]) simp_all
  moreover have "task_rel (k_tasks ?K t) ?A t" if "t \<in> set (a_jobs ?A)" for t
    using krel_task [OF rel, of t] that q by (cases "t = r") (simp_all add: task_rel_def)
  ultimately show ?thesis using rel by (simp add: krel_def queues_rel_def)
qed

lemma register_sender_refine:
  assumes rel: "krel K A" and r: "r \<in> set (a_jobs A)" and c: "c \<in> set (a_jobs A)" and inv: "ainv A"
  shows "if length (a_senders A r) < MAX_SENDER_CAPACITY - 1
    then \<exists>q. register_sender K r c = Inr (upd_task K r (\<lambda>d. d\<lparr>t_senders := q\<rparr>), True)
      \<and> krel (upd_task K r (\<lambda>d. d\<lparr>t_senders := q\<rparr>)) (A\<lparr>a_senders := (a_senders A)(r := a_senders A r @ [c])\<rparr>)
    else register_sender K r c = Inr (upd_task K r (\<lambda>d. d\<lparr>t_senders := t_senders d\<rparr>), False)"
proof -
  let ?q = "t_senders (k_tasks K r)" and ?e = "scast (t_tid (k_tasks K c)) :: u64"
  from inv have i: "jobs_ok A" "senders_ok A" by (simp_all add: ainv_def)
  have q: "queue_inv ?q" "q_capacity ?q = MAX_SENDER_CAPACITY" "queue_cont ?q = map word_of_nat (a_senders A r)"
    using krel_task [OF rel r] by (simp_all add: task_rel_def)
  have len: "queue_len ?q = length (a_senders A r)" using q(3) by (metis length_map length_queue_cont)
  have e: "?e = word_of_nat c"
    using krel_task [OF rel c] jobs_bound [OF i(1) c] by (simp add: task_rel_def scast_tid MAX_TASK_NUM_def)
  show ?thesis
  proof (cases "length (a_senders A r) < MAX_SENDER_CAPACITY - 1")
    case True
    with len q(2) have "Suc (queue_len ?q) < q_capacity ?q" by simp
    from queue_push_room [OF q(1) this, of ?e] obtain q' where
      q': "queue_push ?q ?e = Inr (q', True)" "queue_inv q'" "queue_cont q' = queue_cont ?q @ [?e]" "q_capacity q' = q_capacity ?q"
      by blast
    have "krel (upd_task K r (\<lambda>d. d\<lparr>t_senders := q'\<rparr>)) (A\<lparr>a_senders := (a_senders A)(r := a_senders A r @ [c])\<rparr>)"
      by (rule krel_senders [OF rel r q'(2)]) (use q' q e in simp_all)
    with q'(1) True show ?thesis by (auto simp: register_sender_def)
  next
    case False
    have "length (a_senders A r) < MAX_SENDER_CAPACITY" using i(2) r by (simp add: senders_ok_def)
    with False len q(2) have "Suc (queue_len ?q) = q_capacity ?q" by simp
    from queue_push_full [OF q(1) this] False show ?thesis by (simp add: register_sender_def upd_task_def)
  qed
qed

lemma next_sender_refine:
  assumes rel: "krel K A" and r: "r \<in> set (a_jobs A)" and ss: "a_senders A r = s # ss" and inv: "ainv A"
  shows "\<exists>q. next_sender K r = Inr (upd_task K r (\<lambda>d. d\<lparr>t_senders := q\<rparr>), word_of_nat s)
      \<and> krel (upd_task K r (\<lambda>d. d\<lparr>t_senders := q\<rparr>)) (A\<lparr>a_senders := (a_senders A)(r := ss)\<rparr>)"
proof -
  let ?q = "t_senders (k_tasks K r)"
  have q: "queue_inv ?q" "q_capacity ?q = MAX_SENDER_CAPACITY" "queue_cont ?q = word_of_nat s # map word_of_nat ss"
    using krel_task [OF rel r] ss by (simp_all add: task_rel_def)
  from queue_pop_some [OF q(1,3)] obtain q' where
    q': "queue_pop ?q = Inr (q', word_of_nat s)" "queue_inv q'" "queue_cont q' = map word_of_nat ss" "q_capacity q' = q_capacity ?q"
    by blast
  have "krel (upd_task K r (\<lambda>d. d\<lparr>t_senders := q'\<rparr>)) (A\<lparr>a_senders := (a_senders A)(r := ss)\<rparr>)"
    by (rule krel_senders [OF rel r q'(2)]) (use q' q in simp_all)
  moreover have "s < 2 ^ 31"
  proof -
    have "s \<in> set (a_jobs A)" using inv r ss by (auto simp: ainv_def senders_ok_def)
    then show ?thesis using inv jobs_bound [of A s] by (simp add: ainv_def MAX_TASK_NUM_def)
  qed
  ultimately show ?thesis using q'(1) by (intro exI [of _ q']) (simp add: next_sender_def ucast_tid)
qed

subsection \<open>Send\<close>

lemma running_kernel:
  assumes "krel K A" and "running A c"
  shows "get_current_task K = Some c" and "k_current K = Some c" and "c \<in> set (a_jobs A)" and "a_state A c = RUNNING"
  using assms by (simp_all add: running_def krel_def get_current_task_def)

lemma krel_tid: "krel K A \<Longrightarrow> t \<in> set (a_jobs A) \<Longrightarrow> t_tid (k_tasks K t) = word_of_nat t"
  by (simp add: krel_def task_rel_def)

definition send_target :: "Kernel \<Rightarrow> AKernel \<Rightarrow> task_ptr \<Rightarrow> task_ptr option" where
  "send_target K A c = a_find A (ucast (t_x (k_tasks K c) 0))"

lemma sys_send_waiting:
  assumes rel: "krel K A" and inv: "ainv A" and run: "running A c"
    and r: "send_target K A c = Some r" and w: "a_state A r = WAITRECEIVE"
  shows "\<exists>K' len. sys_send K = Inr K' \<and> krel K' (a_send A c (Some r))
    \<and> len = exchange_length (ucast (t_x (k_tasks K c) 2)) (ucast (t_x (k_tasks K r) 2))
    \<and> k_mem K' = memcpy (store_int (k_mem K) (t_x (k_tasks K r) 0) (word_of_nat c))
         (t_x (k_tasks K r) 1) (t_x (k_tasks K c) 1) (scast len)
    \<and> k_tasks K' = (k_tasks K)(r := (assign_result (k_tasks K r) (scast len))\<lparr>t_state := READY\<rparr>,
         c := (k_tasks K c)\<lparr>t_state := WATIREPLY\<rparr>)"
proof -
  note cur = running_kernel [OF rel run]
  have rj: "r \<in> set (a_jobs A)" using a_find_Some r by (auto simp: send_target_def)
  have rc: "r \<noteq> c" using running_other [OF run, of r] w by simp
  have find: "get_task_by_tid K (ucast (t_x (k_tasks K c) 0)) = Inr (Some r)"
    using get_task_by_tid_refine [OF rel] r by (simp add: send_target_def)
  let ?len = "exchange_length (ucast (t_x (k_tasks K c) 2)) (ucast (t_x (k_tasks K r) 2))"
  let ?K = "set_mem K (store_int (k_mem K) (t_x (k_tasks K r) 0) (word_of_nat c))"
  have rel1: "krel ?K A" using rel by (simp only: krel_set_mem)
  from exchange_wake [OF rel1 inv rj, of c "t_x (k_tasks K c) 1" "ucast (t_x (k_tasks K c) 2)"
      "t_x (k_tasks K r) 1" "ucast (t_x (k_tasks K r) 2)"] w obtain K1 where
    x: "synchronized_send_receive ?K (Some c) (t_x (k_tasks K c) 1) (ucast (t_x (k_tasks K c) 2)) (Some r)
          (t_x (k_tasks K r) 1) (ucast (t_x (k_tasks K r) 2)) = Inr (K1, ?len)"
    "krel K1 (a_make_ready A r)"
    "k_mem K1 = memcpy (store_int (k_mem K) (t_x (k_tasks K r) 0) (word_of_nat c)) (t_x (k_tasks K r) 1) (t_x (k_tasks K c) 1) (scast ?len)"
    "k_tasks K1 = (k_tasks K)(r := (assign_result (k_tasks K r) (scast ?len))\<lparr>t_state := READY\<rparr>)"
    by auto
  from change_task_state_plain [OF x(2), of c WATIREPLY] cur rc obtain K' where
    c: "change_task_state K1 c WATIREPLY = Inr K'" "krel K' (a_set_state (a_make_ready A r) c WATIREPLY)"
    "K' = upd_task K1 c (\<lambda>d. d\<lparr>t_state := WATIREPLY\<rparr>)" by auto
  have "sys_send K = Inr K'"
    using cur find x(1) c(1) w krel_state [OF rel rj] krel_tid [OF rel cur(3)]
    by (simp add: sys_send_def get_send_args_def get_receive_args_def Let_def)
  moreover have "krel K' (a_send A c (Some r))" using c(2) w by (simp add: a_send_def)
  moreover have "k_mem K' = k_mem K1" by (simp add: c(3))
  moreover have "k_tasks K' = (k_tasks K)(r := (assign_result (k_tasks K r) (scast ?len))\<lparr>t_state := READY\<rparr>,
         c := (k_tasks K c)\<lparr>t_state := WATIREPLY\<rparr>)"
    using rc by (simp add: c(3) x(4))
  ultimately show ?thesis by (intro exI [of _ K'] exI [of _ ?len] conjI) (simp_all only: x(3))
qed

lemma sys_send_queued:
  assumes rel: "krel K A" and inv: "ainv A" and run: "running A c"
    and r: "send_target K A c = Some r" and w: "a_state A r \<noteq> WAITRECEIVE"
  shows "\<exists>K'. sys_send K = Inr K' \<and> krel K' (a_send A c (Some r)) \<and> k_mem K' = k_mem K
    \<and> (length (a_senders A r) = MAX_SENDER_CAPACITY - 1 \<longrightarrow> K' = give_result K c (- 2))"
proof -
  note cur = running_kernel [OF rel run]
  have rj: "r \<in> set (a_jobs A)" using a_find_Some r by (auto simp: send_target_def)
  have find: "get_task_by_tid K (ucast (t_x (k_tasks K c) 0)) = Inr (Some r)"
    using get_task_by_tid_refine [OF rel] r by (simp add: send_target_def)
  note reg = register_sender_refine [OF rel rj cur(3) inv]
  have eval: "sys_send K = bindE (register_sender K r c) (\<lambda>(K, success).
              if success then change_task_state K c WATISEND else Inr (give_result K c (- 2)))"
    using cur find w krel_state [OF rel rj]
    by (simp add: sys_send_def get_send_args_def get_receive_args_def Let_def)
  show ?thesis
  proof (cases "length (a_senders A r) < MAX_SENDER_CAPACITY - 1")
    case True
    let ?A = "A\<lparr>a_senders := (a_senders A)(r := a_senders A r @ [c])\<rparr>"
    from reg True obtain q where q: "register_sender K r c = Inr (upd_task K r (\<lambda>d. d\<lparr>t_senders := q\<rparr>), True)"
      "krel (upd_task K r (\<lambda>d. d\<lparr>t_senders := q\<rparr>)) ?A" by auto
    from change_task_state_plain [OF q(2), of c WATISEND] cur obtain K' where
      c: "change_task_state (upd_task K r (\<lambda>d. d\<lparr>t_senders := q\<rparr>)) c WATISEND = Inr K'"
      "krel K' (a_set_state ?A c WATISEND)"
      "K' = upd_task (upd_task K r (\<lambda>d. d\<lparr>t_senders := q\<rparr>)) c (\<lambda>d. d\<lparr>t_state := WATISEND\<rparr>)" by auto
    have "sys_send K = Inr K'" using c(1) q(1) by (simp add: eval)
    moreover have "krel K' (a_send A c (Some r))" using c(2) w True by (simp add: a_send_def)
    moreover have "k_mem K' = k_mem K" by (simp add: c(3))
    ultimately show ?thesis using True by (intro exI [of _ K'] conjI) simp_all
  next
    case False
    have same: "upd_task K r (\<lambda>d. d\<lparr>t_senders := t_senders d\<rparr>) = K" by (simp add: upd_task_def)
    from reg False have "register_sender K r c = Inr (K, False)" by (simp add: same)
    then have "sys_send K = Inr (give_result K c (- 2))" by (simp add: eval)
    moreover have "krel (give_result K c (- 2)) (a_send A c (Some r))"
      using False w rel by (simp add: a_send_def krel_give_result)
    ultimately show ?thesis by simp
  qed
qed

lemma sys_send_missing:
  assumes rel: "krel K A" and run: "running A c" and r: "send_target K A c = None"
  shows "sys_send K = Inr (give_result K c (- 1)) \<and> krel (give_result K c (- 1)) (a_send A c None)"
  using running_kernel [OF rel run] get_task_by_tid_refine [OF rel] r rel
  by (simp add: sys_send_def send_target_def get_send_args_def a_send_def krel_give_result Let_def)

lemma sys_send_refine:
  assumes "krel K A" and "ainv A" and "running A c"
  shows "\<exists>K'. sys_send K = Inr K' \<and> krel K' (a_send A c (send_target K A c))"
proof (cases "send_target K A c")
  case None
  then show ?thesis using sys_send_missing [OF assms(1,3)] by simp
next
  case (Some r)
  then show ?thesis
    using sys_send_waiting [OF assms Some] sys_send_queued [OF assms Some] by (cases "a_state A r = WAITRECEIVE") auto
qed

subsection \<open>Receive\<close>

lemma sys_receive_block:
  assumes rel: "krel K A" and run: "running A c" and none: "a_senders A c = []"
  shows "\<exists>K'. sys_receive K = Inr K' \<and> krel K' (a_receive A c)
    \<and> K' = upd_task K c (\<lambda>d. d\<lparr>t_state := WAITRECEIVE\<rparr>)"
proof -
  note cur = running_kernel [OF rel run]
  have "queue_is_empty (t_senders (k_tasks K c))"
    using krel_task [OF rel cur(3)] none by (simp add: task_rel_def queue_empty_iff)
  then have "sys_receive K = change_task_state K c WAITRECEIVE"
    using cur by (simp add: sys_receive_def Let_def)
  then show ?thesis
    using change_task_state_plain [OF rel cur(3), of WAITRECEIVE] cur(4) none by (simp add: a_receive_def)
qed

lemma sys_receive_take:
  assumes rel: "krel K A" and inv: "ainv A" and run: "running A c" and some: "a_senders A c = s # ss"
  shows "\<exists>K' len. sys_receive K = Inr K' \<and> krel K' (a_receive A c)
    \<and> len = exchange_length (ucast (t_x (k_tasks K s) 2)) (ucast (t_x (k_tasks K c) 2))
    \<and> k_mem K' = memcpy (store_int (k_mem K) (t_x (k_tasks K c) 0) (word_of_nat s))
         (t_x (k_tasks K c) 1) (t_x (k_tasks K s) 1) (scast len)
    \<and> t_result (k_tasks K' c) = scast len \<and> t_should_pass_result (k_tasks K' c)"
proof -
  note cur = running_kernel [OF rel run]
  have i: "jobs_ok A" "senders_ok A" using inv by (simp_all add: ainv_def)
  have s: "s \<in> set (a_jobs A)" "a_state A s = WATISEND" using i(2) cur(3) some by (auto simp: senders_ok_def)
  have sc: "s \<noteq> c" using s(2) cur(4) by auto
  have ne: "\<not> queue_is_empty (t_senders (k_tasks K c))"
    using krel_task [OF rel cur(3)] some by (simp add: task_rel_def queue_empty_iff)
  let ?A = "A\<lparr>a_senders := (a_senders A)(c := ss)\<rparr>"
  from next_sender_refine [OF rel cur(3) some inv] obtain q where
    q: "next_sender K c = Inr (upd_task K c (\<lambda>d. d\<lparr>t_senders := q\<rparr>), word_of_nat s)"
    "krel (upd_task K c (\<lambda>d. d\<lparr>t_senders := q\<rparr>)) ?A" by blast
  define K1 where "K1 = upd_task K c (\<lambda>d. d\<lparr>t_senders := q\<rparr>)"
  have k1: "t_x (k_tasks K1 u) = t_x (k_tasks K u)" "t_tid (k_tasks K1 u) = t_tid (k_tasks K u)" "k_mem K1 = k_mem K" for u
    by (simp_all add: K1_def)
  have find: "get_task_by_tid K1 (word_of_nat s) = Inr (Some s)"
    using get_task_by_tid_refine [OF q(2) [folded K1_def]] a_find_job [OF i(1) s(1)] by (simp add: a_find_def)
  let ?len = "exchange_length (ucast (t_x (k_tasks K s) 2)) (ucast (t_x (k_tasks K c) 2))"
  let ?K = "set_mem K1 (store_int (k_mem K) (t_x (k_tasks K c) 0) (word_of_nat s))"
  have rel2: "krel ?K ?A" using q(2) by (simp only: krel_set_mem K1_def)
  from exchange_running [OF rel2, of c s "t_x (k_tasks K s) 1" "ucast (t_x (k_tasks K s) 2)"
      "t_x (k_tasks K c) 1" "ucast (t_x (k_tasks K c) 2)"] cur obtain K2 where
    x: "synchronized_send_receive ?K (Some s) (t_x (k_tasks K s) 1) (ucast (t_x (k_tasks K s) 2)) (Some c)
          (t_x (k_tasks K c) 1) (ucast (t_x (k_tasks K c) 2)) = Inr (K2, ?len)"
    "krel K2 ?A"
    "k_mem K2 = memcpy (store_int (k_mem K) (t_x (k_tasks K c) 0) (word_of_nat s)) (t_x (k_tasks K c) 1) (t_x (k_tasks K s) 1) (scast ?len)"
    "k_tasks K2 = (k_tasks K1)(c := assign_result (k_tasks K1 c) (scast ?len))"
    by auto
  from change_task_state_plain [OF x(2), of s WATIREPLY] s obtain K' where
    c: "change_task_state K2 s WATIREPLY = Inr K'" "krel K' (a_set_state ?A s WATIREPLY)"
    "K' = upd_task K2 s (\<lambda>d. d\<lparr>t_state := WATIREPLY\<rparr>)" by auto
  have "sys_receive K = Inr K'"
    using cur ne q(1) find x(1) c(1) krel_tid [OF rel s(1)]
    by (simp add: sys_receive_def get_send_args_def get_receive_args_def Let_def k1 flip: K1_def)
  moreover have "krel K' (a_receive A c)" using c(2) some by (simp add: a_receive_def)
  moreover have "k_mem K' = k_mem K2" "t_result (k_tasks K' c) = scast ?len" "t_should_pass_result (k_tasks K' c)"
    using sc by (simp_all add: c(3) x(4))
  ultimately show ?thesis by (intro exI [of _ K'] exI [of _ ?len] conjI) (simp_all only: x(3))
qed

lemma sys_receive_refine:
  assumes "krel K A" and "ainv A" and "running A c"
  shows "\<exists>K'. sys_receive K = Inr K' \<and> krel K' (a_receive A c)"
  using sys_receive_block [OF assms(1,3)] sys_receive_take [OF assms] by (cases "a_senders A c") auto

subsection \<open>Reply\<close>

lemma reply_find:
  assumes rel: "krel K A" and run: "running A c"
  shows "sys_reply K =
    (case send_target K A c of
       None \<Rightarrow> Inr (give_result K c (- 1))
     | Some s \<Rightarrow>
         bindE (synchronized_send_receive K (Some c) (t_x (k_tasks K c) 1) (ucast (t_x (k_tasks K c) 2))
                  (Some s) (t_x (k_tasks K s) 3) (ucast (t_x (k_tasks K s) 4))) (\<lambda>(K, actual_len).
         Inr (give_result K c (scast actual_len))))"
  using running_kernel [OF rel run] get_task_by_tid_refine [OF rel]
  by (simp add: sys_reply_def get_reply_args_def get_send_args_def send_target_def Let_def cong: option.case_cong)

lemma sys_reply_waiting:
  assumes rel: "krel K A" and inv: "ainv A" and run: "running A c"
    and r: "send_target K A c = Some s" and w: "a_state A s = WATIREPLY"
  shows "\<exists>K' len. sys_reply K = Inr K' \<and> krel K' (a_reply A (Some s))
    \<and> len = exchange_length (ucast (t_x (k_tasks K c) 2)) (ucast (t_x (k_tasks K s) 4))
    \<and> k_mem K' = memcpy (k_mem K) (t_x (k_tasks K s) 3) (t_x (k_tasks K c) 1) (scast len)
    \<and> k_tasks K' = (k_tasks K)(s := (assign_result (k_tasks K s) (scast len))\<lparr>t_state := READY\<rparr>,
         c := assign_result (k_tasks K c) (scast len))"
proof -
  have sj: "s \<in> set (a_jobs A)" using a_find_Some r by (auto simp: send_target_def)
  have sc: "s \<noteq> c" using running_other [OF run, of s] w by simp
  let ?len = "exchange_length (ucast (t_x (k_tasks K c) 2)) (ucast (t_x (k_tasks K s) 4))"
  from exchange_wake [OF rel inv sj, of c "t_x (k_tasks K c) 1" "ucast (t_x (k_tasks K c) 2)"
      "t_x (k_tasks K s) 3" "ucast (t_x (k_tasks K s) 4)"] w obtain K1 where
    x: "synchronized_send_receive K (Some c) (t_x (k_tasks K c) 1) (ucast (t_x (k_tasks K c) 2)) (Some s)
          (t_x (k_tasks K s) 3) (ucast (t_x (k_tasks K s) 4)) = Inr (K1, ?len)"
    "krel K1 (a_make_ready A s)"
    "k_mem K1 = memcpy (k_mem K) (t_x (k_tasks K s) 3) (t_x (k_tasks K c) 1) (scast ?len)"
    "k_tasks K1 = (k_tasks K)(s := (assign_result (k_tasks K s) (scast ?len))\<lparr>t_state := READY\<rparr>)"
    by auto
  let ?K = "give_result K1 c (scast ?len)"
  have "sys_reply K = Inr ?K" using reply_find [OF rel run] r x(1) by simp
  moreover have "krel ?K (a_reply A (Some s))" using x(2) w by (simp add: a_reply_def krel_give_result)
  moreover have "k_mem ?K = k_mem K1" by simp
  moreover have "k_tasks ?K = (k_tasks K)(s := (assign_result (k_tasks K s) (scast ?len))\<lparr>t_state := READY\<rparr>,
         c := assign_result (k_tasks K c) (scast ?len))"
    using sc by (simp add: x(4))
  ultimately show ?thesis by (intro exI [of _ ?K] exI [of _ ?len] conjI) (simp_all only: x(3))
qed

lemma sys_reply_self:
  assumes rel: "krel K A" and run: "running A c" and r: "send_target K A c = Some s" and w: "a_state A s = RUNNING"
  shows "\<exists>K'. sys_reply K = Inr K' \<and> krel K' (a_reply A (Some s))"
proof -
  have sj: "s \<in> set (a_jobs A)" using a_find_Some r by (auto simp: send_target_def)
  from exchange_running [OF rel sj w, of c "t_x (k_tasks K c) 1" "ucast (t_x (k_tasks K c) 2)"
      "t_x (k_tasks K s) 3" "ucast (t_x (k_tasks K s) 4)"] obtain K1 len where
    x: "synchronized_send_receive K (Some c) (t_x (k_tasks K c) 1) (ucast (t_x (k_tasks K c) 2)) (Some s)
          (t_x (k_tasks K s) 3) (ucast (t_x (k_tasks K s) 4)) = Inr (K1, len)" "krel K1 A" by blast
  then show ?thesis using reply_find [OF rel run] r w by (simp add: a_reply_def krel_give_result)
qed

lemma sys_reply_refine:
  assumes rel: "krel K A" and inv: "ainv A" and run: "running A c" and ok: "reply_target_ok A (send_target K A c)"
  shows "\<exists>K'. sys_reply K = Inr K' \<and> krel K' (a_reply A (send_target K A c))"
proof (cases "send_target K A c")
  case None
  then show ?thesis using reply_find [OF rel run] rel by (simp add: a_reply_def krel_give_result)
next
  case (Some s)
  then consider "a_state A s = WATIREPLY" | "a_state A s = RUNNING" using ok by (auto simp: reply_target_ok_def)
  then show ?thesis
  proof cases
    case 1
    show ?thesis using sys_reply_waiting [OF rel inv run Some 1] unfolding Some by (elim exE conjE) (intro exI conjI)
  next
    case 2
    show ?thesis using sys_reply_self [OF rel run Some 2] unfolding Some .
  qed
qed

text \<open>A reply to a task that is already ready fails the assertion of \<^verbatim>\<open>change_task_state\<close>.\<close>

lemma sys_reply_ready:
  assumes rel: "krel K A" and run: "running A c" and r: "send_target K A c = Some s" and w: "a_state A s = READY"
  shows "sys_reply K = Inl Assertion"
proof -
  have sj: "s \<in> set (a_jobs A)" using a_find_Some r by (auto simp: send_target_def)
  have "t_state (k_tasks K s) = READY" using krel_state [OF rel sj] w by simp
  then show ?thesis
    using reply_find [OF rel run] r
    by (simp add: synchronized_send_receive_def copy_message_eq change_task_state_def Let_def)
qed

subsection \<open>The other calls\<close>

lemma sys_create_refine:
  assumes rel: "krel K A" and inv: "ainv A" and run: "running A c"
  shows "\<exists>K'. sys_create K = Inr K'
    \<and> krel K' (fst (a_create A (priority_index (clamp_priority (ucast (t_x (k_tasks K c) 0))))))
    \<and> t_result (k_tasks K' c) = (if a_created A < MAX_TASK_NUM then word_of_nat (a_created A) else - 1)
    \<and> t_should_pass_result (k_tasks K' c)"
proof -
  note cur = running_kernel [OF rel run]
  let ?pr = "ucast (t_x (k_tasks K c) 0) :: i32"
  let ?C = "a_create A (priority_index (clamp_priority ?pr))"
  from create_task_refine [OF rel inv, of ?pr "t_x (k_tasks K c) 1" "t_tid (k_tasks K c)"] obtain K1 where
    k1: "create_task K ?pr (t_x (k_tasks K c) 1) (t_tid (k_tasks K c)) = Inr (K1, snd ?C)" "krel K1 (fst ?C)" by blast
  show ?thesis
  proof (cases "a_created A < MAX_TASK_NUM")
    case True
    then have C: "snd ?C = Some (a_created A)" "a_created A \<in> set (a_jobs (fst ?C))"
      by (simp_all add: a_create_spawn)
    have "t_tid (k_tasks K1 (a_created A)) = word_of_nat (a_created A)" by (rule krel_tid [OF k1(2) C(2)])
    then have "(scast (t_tid (k_tasks K1 (a_created A))) :: u64) = word_of_nat (a_created A)"
      using True by (simp add: scast_tid MAX_TASK_NUM_def)
    then have "sys_create K = Inr (give_result K1 c (word_of_nat (a_created A)))"
      using cur k1(1) C(1) by (simp add: sys_create_def Let_def)
    then show ?thesis using k1(2) True by (simp add: krel_give_result)
  next
    case False
    then have "snd ?C = None" by (simp add: a_create_def Let_def)
    then have "sys_create K = Inr (give_result K1 c (- 1))"
      using cur k1(1) by (simp add: sys_create_def Let_def)
    then show ?thesis using k1(2) False by (simp add: krel_give_result)
  qed
qed

lemma sys_tid_refine:
  assumes rel: "krel K A" and inv: "ainv A" and run: "running A c"
  shows "sys_tid K = Inr (give_result K c (word_of_nat c)) \<and> krel (give_result K c (word_of_nat c)) A"
proof -
  note cur = running_kernel [OF rel run]
  have "c < 2 ^ 31" using inv cur(3) jobs_bound [of A c] by (simp add: ainv_def MAX_TASK_NUM_def)
  then show ?thesis using cur krel_tid [OF rel cur(3)] rel by (simp add: sys_tid_def krel_give_result scast_tid)
qed

lemma sys_parent_tid_refine:
  assumes "krel K A" and "running A c"
  shows "\<exists>K'. sys_parent_tid K = Inr K' \<and> krel K' A"
  using running_kernel [OF assms] assms(1) by (simp add: sys_parent_tid_def krel_give_result)

lemma a_await_alt:
  "(a_set_state A c AWATIEVENT)\<lparr>a_irq := (a_irq A)(i := (a_irq A i)(a_prio A c := a_irq A i (a_prio A c) @ [c]))\<rparr>
     = a_await A c i"
  by (rule AKernel.equality) (simp_all add: a_await_def Let_def)

lemma add_to_irq_queue_bad: "\<not> (0 \<le> i \<and> i < 1022) \<Longrightarrow> add_to_irq_queue K i t = Inl Assertion"
  unfolding add_to_irq_queue_def bindE_assertE by (rule if_not_P)

lemma sys_await_event_refine:
  assumes rel: "krel K A" and inv: "ainv A" and run: "running A c"
    and i: "0 \<le> sint (ucast (t_x (k_tasks K c) 0) :: i32)" "sint (ucast (t_x (k_tasks K c) 0) :: i32) < 1022"
  shows "\<exists>K'. sys_await_event K = Inr K' \<and> krel K' (a_await A c (nat (sint (ucast (t_x (k_tasks K c) 0) :: i32))))"
proof -
  note cur = running_kernel [OF rel run]
  from inv have p: "jobs_ok A" "irq_ok A" by (simp_all add: ainv_def)
  let ?A = "a_set_state A c AWATIEVENT"
  from change_task_state_plain [OF rel cur(3), of AWATIEVENT] cur obtain K1 where
    k1: "change_task_state K c AWATIEVENT = Inr K1" "krel K1 ?A" "K1 = upd_task K c (\<lambda>d. d\<lparr>t_state := AWATIEVENT\<rparr>)"
    by auto
  have once: "pqs_once {..<NUM_INTERRUPT} (a_irq ?A)" using p(2) by (simp add: irq_ok_def)
  have new: "\<forall>i\<in>{..<NUM_INTERRUPT}. \<forall>j<TASK_PRIORITY_MAX. c \<notin> set (a_irq ?A i j)"
    using irq_member [OF p(2), of _ _ c] cur(4) by fastforce
  have c: "c \<in> set (a_jobs ?A)" using cur(3) by simp
  from add_to_irq_queue_refine [OF k1(2) c jobs_bound [OF p(1) cur(3)] once new i] obtain K' where
    "add_to_irq_queue K1 (sint (ucast (t_x (k_tasks K c) 0) :: i32)) c = Inr K'"
    "krel K' (a_await A c (nat (sint (ucast (t_x (k_tasks K c) 0) :: i32))))"
    using a_await_alt [where A = A and c = c] by auto
  then show ?thesis using cur k1(1) by (simp add: sys_await_event_def Let_def k1(3))
qed

text \<open>An event number outside the range of the interrupt queues stops the kernel.\<close>

lemma sys_await_event_bad:
  assumes rel: "krel K A" and run: "running A c"
    and i: "sint (ucast (t_x (k_tasks K c) 0) :: i32) < 0 \<or> 1022 \<le> sint (ucast (t_x (k_tasks K c) 0) :: i32)"
  shows "sys_await_event K = Inl Assertion"
proof -
  note cur = running_kernel [OF rel run]
  from change_task_state_plain [OF rel cur(3), of AWATIEVENT] cur obtain K1 where
    k1: "change_task_state K c AWATIEVENT = Inr K1" "K1 = upd_task K c (\<lambda>d. d\<lparr>t_state := AWATIEVENT\<rparr>)" by auto
  have "\<not> (0 \<le> sint (ucast (t_x (k_tasks K c) 0) :: i32) \<and> sint (ucast (t_x (k_tasks K c) 0) :: i32) < 1022)"
    using i by linarith
  then have "add_to_irq_queue K1 (sint (ucast (t_x (k_tasks K c) 0) :: i32)) c = Inl Assertion"
    by (rule add_to_irq_queue_bad)
  then show ?thesis using cur k1(1) by (simp add: sys_await_event_def Let_def k1(2))
qed

subsection \<open>The calls in terms of the descriptors\<close>

text \<open>The invariant of the kernel: some abstract state explains it and satisfies the abstract invariant.\<close>

definition kernel_inv :: "Kernel \<Rightarrow> bool" where
  "kernel_inv K \<longleftrightarrow> (\<exists>A. krel K A \<and> ainv A)"

definition caller :: "Kernel \<Rightarrow> task_ptr \<Rightarrow> bool" where
  "caller K c \<longleftrightarrow> k_current K = Some c \<and> t_state (k_tasks K c) = RUNNING"

definition addressee :: "Kernel \<Rightarrow> task_ptr \<Rightarrow> task_ptr option res" where
  "addressee K c = get_task_by_tid K (ucast (t_x (k_tasks K c) 0))"

definition waiting_senders :: "Kernel \<Rightarrow> task_ptr \<Rightarrow> u64 list" where
  "waiting_senders K t = queue_cont (t_senders (k_tasks K t))"

lemma kernel_inv_caller:
  assumes "kernel_inv K" and "caller K c"
  obtains A where "krel K A" "ainv A" "running A c"
proof -
  from assms(1) obtain A where A: "krel K A" "ainv A" by (auto simp: kernel_inv_def)
  have cur: "a_current A = Some c" using assms(2) krel_current [OF A(1)] by (simp add: caller_def)
  with A(2) have c: "c \<in> set (a_jobs A)" by (simp add: ainv_def current_ok_def)
  with krel_state [OF A(1) c] assms(2) cur have "running A c" by (simp add: running_def caller_def)
  with A that show thesis by blast
qed

lemma addressee_target:
  assumes "krel K A"
  shows "addressee K c = Inr (send_target K A c)"
  using get_task_by_tid_refine [OF assms] by (simp add: addressee_def send_target_def)

lemma addressee_job:
  assumes "krel K A" and "addressee K c = Inr (Some r)"
  shows "send_target K A c = Some r" and "r \<in> set (a_jobs A)" and "t_state (k_tasks K r) = a_state A r"
proof -
  show t: "send_target K A c = Some r" using addressee_target [OF assms(1)] assms(2) by simp
  then show r: "r \<in> set (a_jobs A)" using a_find_Some by (auto simp: send_target_def)
  show "t_state (k_tasks K r) = a_state A r" by (rule krel_state [OF assms(1) r])
qed

lemma kernel_invI: "krel K A \<Longrightarrow> ainv A \<Longrightarrow> kernel_inv K"
  by (auto simp: kernel_inv_def)

lemma send_to_waiting:
  assumes inv: "kernel_inv K" and c: "caller K c" and r: "addressee K c = Inr (Some r)"
    and w: "t_state (k_tasks K r) = WAITRECEIVE"
  shows "\<exists>K' len. sys_send K = Inr K' \<and> kernel_inv K'
    \<and> len = exchange_length (ucast (t_x (k_tasks K c) 2)) (ucast (t_x (k_tasks K r) 2))
    \<and> k_mem K' = memcpy (store_int (k_mem K) (t_x (k_tasks K r) 0) (word_of_nat c))
         (t_x (k_tasks K r) 1) (t_x (k_tasks K c) 1) (scast len)
    \<and> k_tasks K' = (k_tasks K)(r := (assign_result (k_tasks K r) (scast len))\<lparr>t_state := READY\<rparr>,
         c := (k_tasks K c)\<lparr>t_state := WATIREPLY\<rparr>)"
proof -
  from kernel_inv_caller [OF inv c] obtain A where A: "krel K A" "ainv A" "running A c" by blast
  note a = addressee_job [OF A(1) r]
  have "ainv (a_send A c (Some r))" using send_inv [OF A(2,3), of "Some r"] a(2) by simp
  moreover have "a_state A r = WAITRECEIVE" using a(3) w by simp
  from sys_send_waiting [OF A a(1) this] obtain K' len where
    "sys_send K = Inr K'" "krel K' (a_send A c (Some r))"
    "len = exchange_length (ucast (t_x (k_tasks K c) 2)) (ucast (t_x (k_tasks K r) 2))"
    "k_mem K' = memcpy (store_int (k_mem K) (t_x (k_tasks K r) 0) (word_of_nat c))
         (t_x (k_tasks K r) 1) (t_x (k_tasks K c) 1) (scast len)"
    "k_tasks K' = (k_tasks K)(r := (assign_result (k_tasks K r) (scast len))\<lparr>t_state := READY\<rparr>,
         c := (k_tasks K c)\<lparr>t_state := WATIREPLY\<rparr>)" by (elim exE conjE)
  ultimately show ?thesis by (intro exI [of _ K'] exI [of _ len] conjI) (simp_all only: kernel_invI)
qed

lemma receive_oldest:
  assumes inv: "kernel_inv K" and c: "caller K c" and ss: "waiting_senders K c = e # es"
  shows "\<exists>K' s len. sys_receive K = Inr K' \<and> kernel_inv K' \<and> e = word_of_nat s
    \<and> t_state (k_tasks K s) = WATISEND
    \<and> len = exchange_length (ucast (t_x (k_tasks K s) 2)) (ucast (t_x (k_tasks K c) 2))
    \<and> k_mem K' = memcpy (store_int (k_mem K) (t_x (k_tasks K c) 0) (word_of_nat s))
         (t_x (k_tasks K c) 1) (t_x (k_tasks K s) 1) (scast len)
    \<and> t_result (k_tasks K' c) = scast len \<and> t_should_pass_result (k_tasks K' c)
    \<and> t_state (k_tasks K' c) = RUNNING \<and> t_state (k_tasks K' s) = WATIREPLY \<and> waiting_senders K' c = es"
proof -
  from kernel_inv_caller [OF inv c] obtain A where A: "krel K A" "ainv A" "running A c" by blast
  have cj: "c \<in> set (a_jobs A)" "a_state A c = RUNNING" using A(3) by (simp_all add: running_def)
  have "map word_of_nat (a_senders A c) = e # es"
    using krel_task [OF A(1) cj(1)] ss by (simp add: task_rel_def waiting_senders_def)
  then obtain s ss where s: "a_senders A c = s # ss" "e = word_of_nat s" "es = map word_of_nat ss"
    by (cases "a_senders A c") auto
  have sj: "s \<in> set (a_jobs A)" "a_state A s = WATISEND"
    using A(2) cj(1) s(1) by (auto simp: ainv_def senders_ok_def)
  have sc: "s \<noteq> c" using sj cj by auto
  let ?B = "a_receive A c"
  from sys_receive_take [OF A s(1)] obtain K' len where k: "sys_receive K = Inr K'" "krel K' ?B"
    "len = exchange_length (ucast (t_x (k_tasks K s) 2)) (ucast (t_x (k_tasks K c) 2))"
    "k_mem K' = memcpy (store_int (k_mem K) (t_x (k_tasks K c) 0) (word_of_nat s))
         (t_x (k_tasks K c) 1) (t_x (k_tasks K s) 1) (scast len)"
    "t_result (k_tasks K' c) = scast len" "t_should_pass_result (k_tasks K' c)" by (elim exE conjE)
  have B: "a_jobs ?B = a_jobs A" "a_state ?B = (a_state A)(s := WATIREPLY)" "a_senders ?B c = ss"
    using s(1) by (simp_all add: a_receive_def)
  have "t_state (k_tasks K' c) = RUNNING" "t_state (k_tasks K' s) = WATIREPLY"
    using krel_state [OF k(2), of c] krel_state [OF k(2), of s] cj sj sc B by simp_all
  moreover have "waiting_senders K' c = es"
    using krel_task [OF k(2), of c] cj B s(3) by (simp add: task_rel_def waiting_senders_def)
  moreover have "kernel_inv K'" using k(2) receive_inv [OF A(2,3)] by (rule kernel_invI)
  moreover have "t_state (k_tasks K s) = WATISEND" using krel_state [OF A(1) sj(1)] sj by simp
  ultimately show ?thesis using k s(2)
    by (intro exI [of _ K'] exI [of _ s] exI [of _ len] conjI) (simp_all only:)
qed

lemma reply_wakes:
  assumes inv: "kernel_inv K" and c: "caller K c" and r: "addressee K c = Inr (Some s)"
    and w: "t_state (k_tasks K s) = WATIREPLY"
  shows "\<exists>K' len. sys_reply K = Inr K' \<and> kernel_inv K'
    \<and> len = exchange_length (ucast (t_x (k_tasks K c) 2)) (ucast (t_x (k_tasks K s) 4))
    \<and> k_mem K' = memcpy (k_mem K) (t_x (k_tasks K s) 3) (t_x (k_tasks K c) 1) (scast len)
    \<and> k_tasks K' = (k_tasks K)(s := (assign_result (k_tasks K s) (scast len))\<lparr>t_state := READY\<rparr>,
         c := assign_result (k_tasks K c) (scast len))"
proof -
  from kernel_inv_caller [OF inv c] obtain A where A: "krel K A" "ainv A" "running A c" by blast
  note a = addressee_job [OF A(1) r]
  have w': "a_state A s = WATIREPLY" using a(3) w by simp
  have "ainv (a_reply A (Some s))" by (rule reply_inv [OF A(2,3)]) (simp add: reply_target_ok_def a(2) w')
  moreover from sys_reply_waiting [OF A a(1) w'] obtain K' len where
    "sys_reply K = Inr K'" "krel K' (a_reply A (Some s))"
    "len = exchange_length (ucast (t_x (k_tasks K c) 2)) (ucast (t_x (k_tasks K s) 4))"
    "k_mem K' = memcpy (k_mem K) (t_x (k_tasks K s) 3) (t_x (k_tasks K c) 1) (scast len)"
    "k_tasks K' = (k_tasks K)(s := (assign_result (k_tasks K s) (scast len))\<lparr>t_state := READY\<rparr>,
         c := assign_result (k_tasks K c) (scast len))" by (elim exE conjE)
  ultimately show ?thesis by (intro exI [of _ K'] exI [of _ len] conjI) (simp_all only: kernel_invI)
qed

end
