(* ===== verification/Timer.thy ===== *)
theory Timer
  imports Prelude
begin

text \<open>
  \<^verbatim>\<open>timer.c\<close>: the registers of the system timer, the stop watch \<^verbatim>\<open>Timer\<close> and the tick
  clocks.  The counter runs on its own, so each read of \<^verbatim>\<open>CLO\<close> or \<^verbatim>\<open>CHI\<close> is an argument of
  the operation that performs it, in the order of the reads.  The macro \<^verbatim>\<open>assert_p\<close> stops
  the kernel as \<^verbatim>\<open>assert\<close> does.
\<close>

subsection \<open>Registers\<close>

record SystemTimer =
  st_CS :: u32
  st_C :: "nat \<Rightarrow> u32"

definition sys_timer_clear_match :: "SystemTimer \<Rightarrow> nat \<Rightarrow> SystemTimer res" where
  "sys_timer_clear_match T comparator_id =
     bindE (assertE (comparator_id < 4)) (\<lambda>_.
     Inr (T\<lparr>st_CS := push_bit comparator_id 1\<rparr>))"

definition sys_timer_set_comparator :: "SystemTimer \<Rightarrow> nat \<Rightarrow> u32 \<Rightarrow> SystemTimer res" where
  "sys_timer_set_comparator T comparator_id compare_count =
     (if comparator_id < 4 then Inr (T\<lparr>st_C := (st_C T)(comparator_id := compare_count)\<rparr>)
      else Inl OutOfBounds)"

definition sys_timer_half_count :: "u32 \<Rightarrow> u32" where
  "sys_timer_half_count clo = clo"

definition sys_timer_full_count :: "u32 \<Rightarrow> u32 \<Rightarrow> u64" where
  "sys_timer_full_count chi clo = push_bit 32 (ucast chi) + ucast clo"

subsection \<open>The stop watch\<close>

definition TIMER_FREQ :: nat where "TIMER_FREQ = 1000000"
definition REFRESH_RATE :: nat where "REFRESH_RATE = 10"

record Timer =
  tm_current_count :: u32
  tm_last_count :: u32
  tm_delta_count :: u32
  tm_sec10_count :: u32
  tm_sec10 :: u32

definition timer_init :: "u32 \<Rightarrow> Timer" where
  "timer_init clo = \<lparr>tm_current_count = clo, tm_last_count = clo, tm_delta_count = 0,
     tm_sec10_count = 0, tm_sec10 = 0\<rparr>"

text \<open>
  The busy wait for the next refresh.  The list holds the values that \<^verbatim>\<open>CLO\<close> will show;
  the result \<open>None\<close> means that the loop has used them all and still waits.
\<close>

fun timer_wait :: "u32 list \<Rightarrow> Timer \<Rightarrow> Timer option" where
  "timer_wait [] self =
     (if tm_delta_count self < word_of_nat (TIMER_FREQ div REFRESH_RATE) then None else Some self)"
| "timer_wait (c # cs) self =
     (if tm_delta_count self < word_of_nat (TIMER_FREQ div REFRESH_RATE)
      then timer_wait cs (self\<lparr>tm_current_count := c, tm_delta_count := c - tm_last_count self\<rparr>)
      else Some self)"

definition timer_update :: "Timer \<Rightarrow> u32 \<Rightarrow> u32 list \<Rightarrow> Timer option" where
  "timer_update self clo clos =
     (let self = self\<lparr>tm_current_count := clo, tm_delta_count := 0\<rparr>
      in map_option (\<lambda>self. self\<lparr>tm_last_count := tm_current_count self\<rparr>)
        (if tm_current_count self > tm_last_count self
         then
           let self = self\<lparr>tm_delta_count := tm_current_count self - tm_last_count self\<rparr>
           in map_option (\<lambda>self.
                let self = self\<lparr>tm_sec10_count := tm_sec10_count self + tm_delta_count self\<rparr>
                in if tm_sec10_count self \<ge> word_of_nat (TIMER_FREQ div 10)
                   then self\<lparr>tm_sec10 := tm_sec10 self + tm_sec10_count self div word_of_nat (TIMER_FREQ div 10),
                             tm_sec10_count := tm_sec10_count self mod word_of_nat (TIMER_FREQ div 10)\<rparr>
                   else self)
              (timer_wait clos self)
         else Some self))"

definition timer_get_sec :: "Timer \<Rightarrow> u32" where
  "timer_get_sec self = tm_sec10 self div 10"

definition timer_get_sec10 :: "Timer \<Rightarrow> u32" where
  "timer_get_sec10 self = tm_sec10 self"

definition timer_count_to_ms :: "u32 \<Rightarrow> u32" where
  "timer_count_to_ms count = count"

subsection \<open>Tick clocks\<close>

record Clock =
  ck_boot_time :: u64
  ck_next_tick_time :: u64
  ck_interval :: i32
  ck_tick_count :: i32

record SysClocks =
  sc_timer :: SystemTimer
  sc_clocks :: "nat \<Rightarrow> Clock"

definition sys_clock_boot_time :: "SysClocks \<Rightarrow> nat \<Rightarrow> u64" where
  "sys_clock_boot_time S clock_id = ck_boot_time (sc_clocks S clock_id)"

definition sys_clock_time_since_boot :: "SysClocks \<Rightarrow> nat \<Rightarrow> u32 \<Rightarrow> u32 \<Rightarrow> u64" where
  "sys_clock_time_since_boot S clock_id chi clo =
     sys_timer_full_count chi clo - sys_clock_boot_time S clock_id"

definition sys_clock_init :: "SysClocks \<Rightarrow> nat \<Rightarrow> i32 \<Rightarrow> u32 \<Rightarrow> u32 \<Rightarrow> SysClocks res" where
  "sys_clock_init S clock_id interval chi clo =
     bindE (assertE (clock_id < 4)) (\<lambda>_.
     let boot_time = sys_timer_full_count chi clo;
         clock = \<lparr>ck_boot_time = boot_time, ck_next_tick_time = boot_time + scast interval,
                  ck_interval = interval, ck_tick_count = 0\<rparr>
     in bindE (sys_timer_set_comparator (sc_timer S) clock_id (ucast (ck_next_tick_time clock))) (\<lambda>T.
        Inr (S\<lparr>sc_clocks := (sc_clocks S)(clock_id := clock), sc_timer := T\<rparr>)))"

definition sys_clock_notify_tick :: "SysClocks \<Rightarrow> nat \<Rightarrow> u32 \<Rightarrow> u32 \<Rightarrow> SysClocks res" where
  "sys_clock_notify_tick S clock_id chi clo =
     bindE (sys_timer_clear_match (sc_timer S) clock_id) (\<lambda>T.
     let clock = sc_clocks S clock_id;
         clock = clock\<lparr>ck_tick_count := ck_tick_count clock + 1,
                       ck_next_tick_time := ck_next_tick_time clock + scast (ck_interval clock)\<rparr>
     in bindE (sys_timer_set_comparator T clock_id (ucast (ck_next_tick_time clock))) (\<lambda>T.
        bindE (assertE (ck_next_tick_time clock > sys_timer_full_count chi clo)) (\<lambda>_.
        Inr (S\<lparr>sc_clocks := (sc_clocks S)(clock_id := clock), sc_timer := T\<rparr>))))"

subsection \<open>The cost of reading the counter\<close>

text \<open>
  The measurement subtracts two reads in one expression; \<open>reads i\<close> are the values of its left and its
  right operand in round \<open>i\<close>, whichever is read first.  The first argument is the result kept from
  an earlier call.
\<close>

definition NUM_TIMER_ERROR_EXPIREMENTS :: nat where "NUM_TIMER_ERROR_EXPIREMENTS = 100"

definition sys_timer_msrmt_error :: "u64 \<Rightarrow> (nat \<Rightarrow> u64 \<times> u64) \<Rightarrow> u64" where
  "sys_timer_msrmt_error kept reads =
     (if kept \<noteq> 0 then kept
      else let error = fold (\<lambda>i error. error + (fst (reads i) - snd (reads i))) [0..<NUM_TIMER_ERROR_EXPIREMENTS] 0
           in error div word_of_nat NUM_TIMER_ERROR_EXPIREMENTS)"

lemma fold_differences:
  "\<forall>i<n. snd (reads i) = fst (reads i) + (d :: u64) \<Longrightarrow>
   fold (\<lambda>i error. error + (fst (reads i) - snd (reads i))) [0..<n] e = e - word_of_nat n * d"
  by (induction n) (auto simp: algebra_simps)

text \<open>Read from left to right, the differences are negative and wrap.\<close>

lemma sys_timer_msrmt_error_wraps:
  "\<forall>i<100. snd (reads i) = fst (reads i) + d \<Longrightarrow> sys_timer_msrmt_error 0 reads = (- 100 * d) div 100"
  using fold_differences [of 100 reads d 0]
  by (simp add: sys_timer_msrmt_error_def NUM_TIMER_ERROR_EXPIREMENTS_def Let_def del: upt_Suc)

subsection \<open>Reading the 64-bit counter\<close>

text \<open>The counter \<open>c\<close> as it would show in the two registers.\<close>

definition chi_of :: "nat \<Rightarrow> u32" where "chi_of c = word_of_nat (c div 2 ^ 32)"
definition clo_of :: "nat \<Rightarrow> u32" where "clo_of c = word_of_nat c"

lemma full_count_value:
  assumes "c1 < 2 ^ 64"
  shows "unat (sys_timer_full_count (chi_of c1) (clo_of c2)) = (c1 div 2 ^ 32) * 2 ^ 32 + c2 mod 2 ^ 32"
proof -
  have q: "c1 div 2 ^ 32 < 2 ^ 32" using assms by (simp add: less_mult_imp_div_less)
  have hi: "unat (push_bit 32 (ucast (chi_of c1) :: u64)) = (c1 div 2 ^ 32) * 2 ^ 32"
  proof -
    have "unat (ucast (chi_of c1) :: u64) = c1 div 2 ^ 32"
      using q by (simp add: chi_of_def unsigned_ucast_eq unat_of_nat_small32 take_bit_nat_eq_self)
    moreover have "(c1 div 2 ^ 32) * 2 ^ 32 < 2 ^ 64" using assms by (simp add: less_mult_imp_div_less)
    ultimately show ?thesis
      by (simp add: push_bit_eq_mult unat_mult_lem [THEN iffD1] unat_word_ariths take_bit_nat_eq_self)
  qed
  have lo: "unat (ucast (clo_of c2) :: u64) = c2 mod 2 ^ 32"
    by (simp add: clo_of_def unsigned_ucast_eq unsigned_of_nat take_bit_nat_eq_self take_bit_eq_mod)
  have "(c1 div 2 ^ 32) * 2 ^ 32 + c2 mod 2 ^ 32 < 2 ^ 64"
  proof -
    have "(c1 div 2 ^ 32) * 2 ^ 32 + c2 mod 2 ^ 32 < (c1 div 2 ^ 32 + 1) * 2 ^ 32" by simp
    also have "\<dots> \<le> 2 ^ 32 * 2 ^ 32" using q by (intro mult_right_mono) simp_all
    finally show ?thesis by simp
  qed
  with hi lo show ?thesis
    by (simp add: sys_timer_full_count_def unat_word_ariths)
qed

text \<open>
  The two halves of the counter are read one after the other: the value is the counter at the second read when its
  high half has not changed in between, and is too small by 2^32 counts or more when it has.
\<close>

lemma full_count_can_tear:
  assumes "c1 \<le> c2" and "c2 < 2 ^ 64"
  shows "if c1 div 2 ^ 32 = c2 div 2 ^ 32 then unat (sys_timer_full_count (chi_of c1) (clo_of c2)) = c2
    else unat (sys_timer_full_count (chi_of c1) (clo_of c2)) + 2 ^ 32 \<le> c2"
proof -
  have v: "unat (sys_timer_full_count (chi_of c1) (clo_of c2)) = (c1 div 2 ^ 32) * 2 ^ 32 + c2 mod 2 ^ 32"
    by (rule full_count_value) (use assms in simp)
  have c2: "c2 = (c2 div 2 ^ 32) * 2 ^ 32 + c2 mod 2 ^ 32" by (simp only: div_mult_mod_eq)
  show ?thesis
  proof (cases "c1 div 2 ^ 32 = c2 div 2 ^ 32")
    case True
    then show ?thesis using v c2 by simp
  next
    case False
    have "c1 div 2 ^ 32 \<le> c2 div 2 ^ 32" using assms(1) by (rule div_le_mono)
    with False have "Suc (c1 div 2 ^ 32) \<le> c2 div 2 ^ 32" by simp
    then have "Suc (c1 div 2 ^ 32) * 2 ^ 32 \<le> (c2 div 2 ^ 32) * 2 ^ 32" by (rule mult_le_mono1)
    then have "(c1 div 2 ^ 32) * 2 ^ 32 + 2 ^ 32 \<le> (c2 div 2 ^ 32) * 2 ^ 32" by simp
    then have "(c1 div 2 ^ 32) * 2 ^ 32 + c2 mod 2 ^ 32 + 2 ^ 32 \<le> (c2 div 2 ^ 32) * 2 ^ 32 + c2 mod 2 ^ 32" by linarith
    also have "\<dots> = c2" by (rule c2 [symmetric])
    finally show ?thesis unfolding v if_not_P [OF False] .
  qed
qed

subsection \<open>The tick clocks do not drift\<close>

fun clock_ticks :: "SysClocks \<Rightarrow> nat \<Rightarrow> (u32 \<times> u32) list \<Rightarrow> SysClocks res" where
  "clock_ticks S clock_id [] = Inr S"
| "clock_ticks S clock_id ((chi, clo) # rs) =
     bindE (sys_clock_notify_tick S clock_id chi clo) (\<lambda>S. clock_ticks S clock_id rs)"

lemma notify_tick_ok:
  assumes "clock_id < 4"
    and "sys_timer_full_count chi clo < ck_next_tick_time (sc_clocks S clock_id) + scast (ck_interval (sc_clocks S clock_id))"
  shows "\<exists>S'. sys_clock_notify_tick S clock_id chi clo = Inr S'"
  using assms by (simp add: sys_clock_notify_tick_def sys_timer_clear_match_def sys_timer_set_comparator_def Let_def)

lemma notify_tick_effect:
  assumes "sys_clock_notify_tick S clock_id chi clo = Inr S'"
  shows "ck_next_tick_time (sc_clocks S' clock_id)
           = ck_next_tick_time (sc_clocks S clock_id) + scast (ck_interval (sc_clocks S clock_id))"
    and "ck_interval (sc_clocks S' clock_id) = ck_interval (sc_clocks S clock_id)"
    and "ck_tick_count (sc_clocks S' clock_id) = ck_tick_count (sc_clocks S clock_id) + 1"
    and "ck_boot_time (sc_clocks S' clock_id) = ck_boot_time (sc_clocks S clock_id)"
    and "st_C (sc_timer S') clock_id = ucast (ck_next_tick_time (sc_clocks S' clock_id))"
    and "st_CS (sc_timer S') = push_bit clock_id 1"
    and "sys_timer_full_count chi clo < ck_next_tick_time (sc_clocks S' clock_id)"
  using assms
  by (auto simp: sys_clock_notify_tick_def sys_timer_clear_match_def sys_timer_set_comparator_def Let_def
      bindE_assertE split: if_splits)

lemma clock_ticks_effect:
  assumes "clock_ticks S clock_id rs = Inr S'"
    and "st_C (sc_timer S) clock_id = ucast (ck_next_tick_time (sc_clocks S clock_id))"
  shows "ck_next_tick_time (sc_clocks S' clock_id) = ck_next_tick_time (sc_clocks S clock_id)
           + word_of_nat (length rs) * scast (ck_interval (sc_clocks S clock_id))
    \<and> ck_interval (sc_clocks S' clock_id) = ck_interval (sc_clocks S clock_id)
    \<and> ck_tick_count (sc_clocks S' clock_id) = ck_tick_count (sc_clocks S clock_id) + word_of_nat (length rs)
    \<and> ck_boot_time (sc_clocks S' clock_id) = ck_boot_time (sc_clocks S clock_id)
    \<and> st_C (sc_timer S') clock_id = ucast (ck_next_tick_time (sc_clocks S' clock_id))"
  using assms
proof (induction S clock_id rs rule: clock_ticks.induct)
  case (1 S clock_id)
  then show ?case by simp
next
  case (2 S clock_id chi clo rs)
  from "2.prems"(1) obtain S1 where s: "sys_clock_notify_tick S clock_id chi clo = Inr S1"
    "clock_ticks S1 clock_id rs = Inr S'"
    by (auto simp: bindE_eq_Inr_iff)
  note e = notify_tick_effect [OF s(1)]
  from "2.IH" [OF s(2) e(5)] e show ?case by (simp add: algebra_simps)
qed

lemma clock_no_drift:
  assumes "sys_clock_init S clock_id interval chi clo = Inr S0" and "clock_ticks S0 clock_id rs = Inr S'"
  shows "ck_next_tick_time (sc_clocks S' clock_id)
           = sys_timer_full_count chi clo + word_of_nat (length rs + 1) * scast interval
    \<and> ck_tick_count (sc_clocks S' clock_id) = word_of_nat (length rs)
    \<and> st_C (sc_timer S') clock_id = ucast (ck_next_tick_time (sc_clocks S' clock_id))"
proof -
  from assms(1) have i: "sc_clocks S0 clock_id = \<lparr>ck_boot_time = sys_timer_full_count chi clo,
      ck_next_tick_time = sys_timer_full_count chi clo + scast interval, ck_interval = interval, ck_tick_count = 0\<rparr>"
    "st_C (sc_timer S0) clock_id = ucast (ck_next_tick_time (sc_clocks S0 clock_id))"
    by (auto simp: sys_clock_init_def sys_timer_set_comparator_def Let_def bindE_assertE split: if_splits)
  from clock_ticks_effect [OF assms(2) i(2)] show ?thesis by (simp add: i(1) algebra_simps)
qed

subsection \<open>The stop watch loses no time\<close>

lemma timer_wait_frame:
  "timer_wait cs self = Some self' \<Longrightarrow> tm_delta_count self = tm_current_count self - tm_last_count self \<Longrightarrow>
     tm_delta_count self' = tm_current_count self' - tm_last_count self'
     \<and> tm_last_count self' = tm_last_count self \<and> tm_sec10 self' = tm_sec10 self
     \<and> tm_sec10_count self' = tm_sec10_count self \<and> 100000 \<le> tm_delta_count self'"
  by (induction cs self rule: timer_wait.induct)
    (auto simp: TIMER_FREQ_def REFRESH_RATE_def not_less split: if_splits)

definition timer_total :: "Timer \<Rightarrow> nat" where
  "timer_total self = 100000 * unat (tm_sec10 self) + unat (tm_sec10_count self)"

lemma timer_update_total:
  assumes upd: "timer_update self clo clos = Some self'" and later: "tm_last_count self < clo"
    and small: "unat (tm_sec10_count self) < 100000"
    and room: "timer_total self + unat (tm_current_count self' - tm_last_count self) < 2 ^ 32"
  shows "timer_total self' = timer_total self + unat (tm_current_count self' - tm_last_count self)
    \<and> unat (tm_sec10_count self') < 100000 \<and> tm_last_count self' = tm_current_count self'
    \<and> 100000 \<le> tm_current_count self' - tm_last_count self"
proof -
  let ?s = "self\<lparr>tm_current_count := clo, tm_delta_count := clo - tm_last_count self\<rparr>"
  from upd later obtain w where w: "timer_wait clos ?s = Some w"
    and s': "self' = (let t = w\<lparr>tm_sec10_count := tm_sec10_count w + tm_delta_count w\<rparr>
                in (if tm_sec10_count t \<ge> 100000
                   then t\<lparr>tm_sec10 := tm_sec10 t + tm_sec10_count t div 100000,
                             tm_sec10_count := tm_sec10_count t mod 100000\<rparr>
                   else t)\<lparr>tm_last_count := tm_current_count w\<rparr>)"
    by (auto simp: timer_update_def Let_def TIMER_FREQ_def)
  from timer_wait_frame [OF w] have f: "tm_delta_count w = tm_current_count w - tm_last_count self"
    "tm_sec10 w = tm_sec10 self" "tm_sec10_count w = tm_sec10_count self" "100000 \<le> tm_delta_count w"
    by auto
  have cur: "tm_current_count self' = tm_current_count w" by (simp add: s' Let_def)
  let ?d = "tm_current_count w - tm_last_count self" and ?c = "tm_sec10_count self"
  have sum: "unat (?c + ?d) = unat ?c + unat ?d"
    using room unfolding cur timer_total_def by (intro unat_add_lem [THEN iffD1]) simp
  have big: "100000 \<le> ?c + ?d"
  proof -
    have "100000 \<le> unat ?d" using f(1,4) by (simp add: word_le_nat_alt)
    then show ?thesis by (simp add: word_le_nat_alt sum)
  qed
  have t: "tm_sec10 self' = tm_sec10 self + (?c + ?d) div 100000" "tm_sec10_count self' = (?c + ?d) mod 100000"
    using big f by (simp_all add: s' Let_def)
  have q: "unat ((?c + ?d) div 100000) = (unat ?c + unat ?d) div 100000"
    "unat ((?c + ?d) mod 100000) = (unat ?c + unat ?d) mod 100000"
    by (simp_all add: unat_div unat_mod sum)
  have "unat (tm_sec10 self) + (unat ?c + unat ?d) div 100000 < 2 ^ 32"
    using room unfolding cur timer_total_def by linarith
  then have "unat (tm_sec10 self') = unat (tm_sec10 self) + (unat ?c + unat ?d) div 100000"
    unfolding t(1) q(1) [symmetric] by (intro unat_add_lem [THEN iffD1]) simp
  then show ?thesis
    using f by (simp add: timer_total_def t(2) q(2) cur) (simp add: s' Let_def)
qed

end
