(* ===== verification/Interrupt.thy ===== *)
theory Interrupt
  imports Prelude
begin

text \<open>
  The interrupt controller of \<^verbatim>\<open>interrupt.c\<close>: the registers of the distributor and of the
  CPU interface that the code touches.  A register that is read and written back behaves as
  stored; the acknowledge register is an input of the kernel and is not part of this state.
\<close>

record GICD =
  gd_ctl :: u32
  gd_isenable :: "nat \<Rightarrow> u32"
  gd_icenable :: "nat \<Rightarrow> u32"
  gd_itargets :: "nat \<Rightarrow> u32"

record GICC =
  gc_ctl :: u32
  gc_pm :: u32
  gc_eoi :: u32

definition DEFAULT_CORE :: nat where "DEFAULT_CORE = 0"
definition VC_INTID_OFFSET :: u16 where "VC_INTID_OFFSET = 96"
definition SYS_TIMER_INITID :: u16 where "SYS_TIMER_INITID = VC_INTID_OFFSET"

definition gicd_enable_interrupt :: "GICD \<Rightarrow> u16 \<Rightarrow> GICD res" where
  "gicd_enable_interrupt gicd intid =
     (let index = unat (drop_bit 5 intid); bit_pos = unat (and intid 31)
      in if index < 32
         then Inr (gicd\<lparr>gd_isenable := (gd_isenable gicd)(index := or (gd_isenable gicd index) (push_bit bit_pos 1))\<rparr>)
         else Inl OutOfBounds)"

definition gicd_disable_interrupt :: "GICD \<Rightarrow> u16 \<Rightarrow> GICD res" where
  "gicd_disable_interrupt gicd intid =
     (let index = unat (drop_bit 5 intid); bit_pos = unat (and intid 31)
      in if index < 32
         then Inr (gicd\<lparr>gd_icenable := (gd_icenable gicd)(index := or (gd_icenable gicd index) (push_bit bit_pos 1))\<rparr>)
         else Inl OutOfBounds)"

text \<open>The \<^verbatim>\<open>memset\<close> of \<^verbatim>\<open>setup_gicd_targets\<close> on the registers 8 to 254, four bytes each.\<close>

definition setup_gicd_targets :: "GICD \<Rightarrow> GICD" where
  "setup_gicd_targets gicd =
     (let core = push_bit DEFAULT_CORE 1 :: u32
      in gicd\<lparr>gd_itargets := (\<lambda>i. if 8 \<le> i \<and> i < 8 + (255 - 8)
           then or core (or (push_bit 8 core) (or (push_bit 16 core) (push_bit 24 core)))
           else gd_itargets gicd i)\<rparr>)"

definition setup_gicd :: "GICD \<Rightarrow> GICD res" where
  "setup_gicd gicd =
     (let gicd = gicd\<lparr>gd_ctl := or (gd_ctl gicd) 1\<rparr>;
          gicd = setup_gicd_targets gicd
      in gicd_enable_interrupt gicd (SYS_TIMER_INITID + 1))"

definition setup_gicc :: "GICC \<Rightarrow> GICC" where
  "setup_gicc gicc = gicc\<lparr>gc_ctl := or (gc_ctl gicc) 1, gc_pm := 0\<rparr>"

definition clear_interrupt :: "GICC \<Rightarrow> u32 \<Rightarrow> GICC" where
  "clear_interrupt gicc intid = gicc\<lparr>gc_eoi := intid\<rparr>"

definition init_gic :: "GICD \<Rightarrow> GICC \<Rightarrow> (GICD \<times> GICC) res" where
  "init_gic gicd gicc = bindE (setup_gicd gicd) (\<lambda>gicd. Inr (gicd, setup_gicc gicc))"

subsection \<open>Which interrupts are enabled\<close>

definition gic_enabled :: "GICD \<Rightarrow> nat \<Rightarrow> bool" where
  "gic_enabled gicd intid = bit (gd_isenable gicd (intid div 32)) (intid mod 32)"

lemma intid_split:
  fixes intid :: u16
  shows "unat (drop_bit 5 intid) = unat intid div 32" and "unat (and intid 31) = unat intid mod 32"
proof -
  show "unat (drop_bit 5 intid) = unat intid div 32" by (simp add: drop_bit_eq_div unat_div)
  have "and intid 31 = take_bit 5 intid" by (simp add: take_bit_eq_mask mask_eq_exp_minus_1)
  then show "unat (and intid 31) = unat intid mod 32" by (simp add: take_bit_eq_mod unat_mod)
qed

lemma gicd_enable_interrupt_enabled:
  assumes "unat intid < 1024"
  shows "\<exists>g. gicd_enable_interrupt gicd intid = Inr g
    \<and> (\<forall>i. gic_enabled g i \<longleftrightarrow> gic_enabled gicd i \<or> i = unat intid)"
proof -
  let ?k = "unat intid div 32" and ?b = "unat intid mod 32"
  let ?g = "gicd\<lparr>gd_isenable := (gd_isenable gicd)(?k := or (gd_isenable gicd ?k) (push_bit ?b 1))\<rparr>"
  have "?k < 32" using assms by (simp add: less_mult_imp_div_less)
  then have "gicd_enable_interrupt gicd intid = Inr ?g" by (simp add: gicd_enable_interrupt_def Let_def intid_split)
  moreover have "gic_enabled ?g i \<longleftrightarrow> gic_enabled gicd i \<or> i = unat intid" for i
  proof (cases "i div 32 = ?k")
    case True
    then have "i mod 32 = ?b \<longleftrightarrow> i = unat intid" by (metis div_mult_mod_eq)
    with True show ?thesis by (auto simp: gic_enabled_def bit_simps)
  next
    case False
    then show ?thesis by (auto simp: gic_enabled_def)
  qed
  ultimately show ?thesis by blast
qed

lemma init_gic_ok:
  "\<exists>g c. init_gic gicd gicc = Inr (g, c) \<and> (\<forall>i. gic_enabled g i \<longleftrightarrow> gic_enabled gicd i \<or> i = 97)
     \<and> bit (gd_ctl g) 0 \<and> bit (gc_ctl c) 0
     \<and> (\<forall>i. 8 \<le> i \<and> i < 255 \<longrightarrow> gd_itargets g i = 0x01010101)"
proof -
  let ?g0 = "setup_gicd_targets (gicd\<lparr>gd_ctl := or (gd_ctl gicd) 1\<rparr>)"
  let ?id = "SYS_TIMER_INITID + 1"
  have id: "unat ?id = 97" by (simp add: SYS_TIMER_INITID_def VC_INTID_OFFSET_def)
  from gicd_enable_interrupt_enabled [of ?id ?g0] id obtain g where
    g: "gicd_enable_interrupt ?g0 ?id = Inr g" "\<forall>i. gic_enabled g i \<longleftrightarrow> gic_enabled ?g0 i \<or> i = 97" by auto
  have same: "gic_enabled ?g0 i = gic_enabled gicd i" for i
    by (simp add: gic_enabled_def setup_gicd_targets_def Let_def)
  from g(1) have r: "gd_ctl g = gd_ctl ?g0" "gd_itargets g = gd_itargets ?g0"
    by (auto simp: gicd_enable_interrupt_def Let_def split: if_splits)
  have "init_gic gicd gicc = Inr (g, setup_gicc gicc)" using g(1) by (simp add: init_gic_def setup_gicd_def Let_def)
  moreover have "bit (gd_ctl g) 0" unfolding r(1) by (simp add: setup_gicd_targets_def Let_def bit_simps)
  moreover have "bit (gc_ctl (setup_gicc gicc)) 0" by (simp add: setup_gicc_def bit_simps)
  moreover have "gd_itargets g i = 0x01010101" if "8 \<le> i" "i < 255" for i
    using that unfolding r(2) by (simp add: setup_gicd_targets_def Let_def DEFAULT_CORE_def push_bit_eq_mult)
  ultimately show ?thesis using g(2) same by auto
qed

text \<open>
  Disabling through \<^verbatim>\<open>|=\<close>: the enable bits, read back from the clear register, are written
  too, so every interrupt of the same group of 32 that was enabled is cleared.
\<close>

definition gicd_clear_effect :: "u32 \<Rightarrow> u32 \<Rightarrow> u32" where
  "gicd_clear_effect enabled written = and enabled (not written)"

lemma gicd_disable_clears_group:
  assumes "unat intid < 1024" and "gd_icenable gicd (unat intid div 32) = enabled"
  shows "\<exists>g. gicd_disable_interrupt gicd intid = Inr g
    \<and> gicd_clear_effect enabled (gd_icenable g (unat intid div 32)) = 0"
proof -
  have "unat intid div 32 < 32" using assms(1) by (simp add: less_mult_imp_div_less)
  moreover have "and enabled (not (or enabled x)) = 0" for x :: u32
    by (rule bit_word_eqI) (simp add: bit_simps)
  ultimately show ?thesis using assms(2)
    by (simp add: gicd_disable_interrupt_def Let_def intid_split gicd_clear_effect_def)
qed

end
