(* ===== verification/Kernel.thy ===== *)
theory Kernel
  imports Message_Refine Timer Interrupt Uart
begin

text \<open>
  \<^verbatim>\<open>exception.c\<close>, \<^verbatim>\<open>init_kernel.c\<close> and \<^verbatim>\<open>kernel.c\<close>: dispatch of exceptions, initialisation
  and the main loop.  A user task is the environment: between two runs of the kernel it may
  change its own registers and the memory in any way, and then traps.  A \<open>Trap\<close> is what the
  kernel finds after \<^verbatim>\<open>activate_running_task\<close>: the saved registers, the memory, the
  syndrome register, the acknowledged interrupt and the readings of the counter.
\<close>

subsection \<open>The state of the system\<close>

datatype sync_handler =
    H_create | H_yield | H_exit | H_tid | H_parent_tid | H_send | H_receive | H_reply | H_await_event

datatype irq_handler = Handle_timer_1

datatype exception_type = SYNCHRONOUS_EXCEPTION | IRQ

record System =
  sy_gpio :: GPIO
  sy_aux :: AUX
  sy_kernel :: Kernel
  sy_clocks :: SysClocks
  sy_gicd :: GICD
  sy_gicc :: GICC
  sy_sync :: "nat \<Rightarrow> sync_handler option"   \<comment> \<open>\<^verbatim>\<open>synchronous_exception_handlers\<close>\<close>
  sy_irq :: "nat \<Rightarrow> irq_handler option"     \<comment> \<open>\<^verbatim>\<open>irq_handlers\<close>\<close>

record Trap =
  tr_exc :: exception_type
  tr_esr :: u64
  tr_intid :: u32
  tr_chi :: u32
  tr_clo :: u32
  tr_x :: "nat \<Rightarrow> u64"
  tr_sp :: u64
  tr_spsr :: u64
  tr_pc :: u64
  tr_mem :: mem

definition on_kernel :: "System \<Rightarrow> Kernel res \<Rightarrow> System res" where
  "on_kernel S r = bindE r (\<lambda>K. Inr (S\<lparr>sy_kernel := K\<rparr>))"

subsection \<open>Initialisation\<close>

definition WAIT_TIMER_1 :: nat where "WAIT_TIMER_1 = 97"
definition TICK_TIME :: i32 where "TICK_TIME = 10000"
definition INITIAL_PRIORITY :: i32 where "INITIAL_PRIORITY = 5"

definition init_exception_handlers :: "System \<Rightarrow> System" where
  "init_exception_handlers S = S\<lparr>
     sy_sync := (sy_sync S)(1 := Some H_create, 2 := Some H_yield, 3 := Some H_exit,
       11 := Some H_tid, 12 := Some H_parent_tid,
       21 := Some H_send, 22 := Some H_receive, 23 := Some H_reply, 31 := Some H_await_event),
     sy_irq := (sy_irq S)(WAIT_TIMER_1 := Some Handle_timer_1)\<rparr>"

text \<open>An operation of a serial line works on one channel of the bus.\<close>

definition on_spi :: "AUX \<Rightarrow> nat \<Rightarrow> (SPI \<Rightarrow> SPI res) \<Rightarrow> AUX res" where
  "on_spi aux channel f =
     bindE (nthE (ax_spi aux) channel) (\<lambda>spi. bindE (f spi) (\<lambda>spi.
     bindE (updE (ax_spi aux) channel spi) (\<lambda>spis. Inr (aux\<lparr>ax_spi := spis\<rparr>))))"

definition init_kernel :: "System \<Rightarrow> u32 \<Rightarrow> u32 \<Rightarrow> System res" where
  "init_kernel S chi clo =
     bindE (init_gpio (sy_gpio S)) (\<lambda>gpio.
     bindE (init_spi (sy_aux S) 0) (\<lambda>aux.
     bindE (on_spi aux 0 init_uart) (\<lambda>aux.
     (let S = S\<lparr>sy_gpio := gpio, sy_aux := aux\<rparr>;
          K = sy_kernel S;
          K = K\<lparr>k_memory := memory_init (k_memory K)\<rparr>;
          S = S\<lparr>sy_kernel := init_scheduler K\<rparr>;
          S = init_exception_handlers S
      in bindE (init_gic (sy_gicd S) (sy_gicc S)) (\<lambda>(gicd, gicc).
         let S = S\<lparr>sy_gicd := gicd, sy_gicc := gicc\<rparr>
         in bindE (sys_clock_init (sy_clocks S) 1 TICK_TIME chi clo) (\<lambda>C.
            Inr (S\<lparr>sy_clocks := C\<rparr>)))))))"

definition init_tasks :: "Kernel \<Rightarrow> u64 \<Rightarrow> u64 \<Rightarrow> Kernel res" where
  "init_tasks K initial_user_task idle_task =
     bindE (create_task K INITIAL_PRIORITY initial_user_task (- 1)) (\<lambda>(K, _).
     bindE (create_task K TASK_PRIORITY_MIN idle_task (- 1)) (\<lambda>(K, _).
     Inr K))"

text \<open>\<^verbatim>\<open>main\<close> up to the loop of \<^verbatim>\<open>kmain\<close>.\<close>

definition boot :: "System \<Rightarrow> u32 \<Rightarrow> u32 \<Rightarrow> u64 \<Rightarrow> u64 \<Rightarrow> System res" where
  "boot S chi clo initial_user_task idle_task =
     bindE (init_kernel S chi clo) (\<lambda>S. on_kernel S (init_tasks (sy_kernel S) initial_user_task idle_task))"

subsection \<open>Running a task\<close>

text \<open>The registers and the memory that the trap leaves, saved by \<^verbatim>\<open>save_user_regs\<close>.\<close>

definition activate_running_task :: "Kernel \<Rightarrow> Trap \<Rightarrow> Kernel res" where
  "activate_running_task K tr =
     bindE (derefE (k_current K)) (\<lambda>cur.
     Inr (set_mem (upd_task K cur (\<lambda>d. d\<lparr>t_x := tr_x tr, t_sp := tr_sp tr, t_spsr := tr_spsr tr,
            t_pc := tr_pc tr, t_x30_copy := tr_x tr 30\<rparr>)) (tr_mem tr)))"

text \<open>The registers that the task starts with.\<close>

definition pass_result :: "Task \<Rightarrow> Task" where
  "pass_result task =
     (if t_should_pass_result task then task\<lparr>t_x := (t_x task)(0 := t_result task)\<rparr> else task)"

definition activate :: "Kernel \<Rightarrow> task_ptr \<Rightarrow> Trap \<Rightarrow> Kernel res" where
  "activate K task tr =
     bindE (change_task_state K task RUNNING) (\<lambda>K.
     activate_running_task (upd_task K task pass_result) tr)"

subsection \<open>Exceptions\<close>

definition SVC_CLASS :: u8 where "SVC_CLASS = 0x15"

fun run_handler :: "sync_handler \<Rightarrow> Kernel \<Rightarrow> Kernel res" where
  "run_handler H_create K = sys_create K"
| "run_handler H_yield K = sys_yield K"
| "run_handler H_exit K = sys_exit K"
| "run_handler H_tid K = sys_tid K"
| "run_handler H_parent_tid K = sys_parent_tid K"
| "run_handler H_send K = sys_send K"
| "run_handler H_receive K = sys_receive K"
| "run_handler H_reply K = sys_reply K"
| "run_handler H_await_event K = sys_await_event K"

definition handle_synchronous_exception :: "System \<Rightarrow> u64 \<Rightarrow> System res" where
  "handle_synchronous_exception S esr =
     (let exception_class = ucast (drop_bit 26 esr) :: u8
      in if exception_class = SVC_CLASS
         then
           let imm = ucast esr :: u16
           in bindE (derefE (sy_sync S (unat imm))) (\<lambda>h. on_kernel S (run_handler h (sy_kernel S)))
         else Inr S)"

fun run_irq_handler :: "irq_handler \<Rightarrow> System \<Rightarrow> u32 \<Rightarrow> u32 \<Rightarrow> System res" where
  "run_irq_handler Handle_timer_1 S chi clo =
     bindE (sys_clock_notify_tick (sy_clocks S) 1 chi clo) (\<lambda>C. Inr (S\<lparr>sy_clocks := C\<rparr>))"

definition handle_irq :: "System \<Rightarrow> u32 \<Rightarrow> u32 \<Rightarrow> u32 \<Rightarrow> System res" where
  "handle_irq S intid chi clo =
     (if 1024 \<le> unat intid then Inl OutOfBounds
      else
        let handler = sy_irq S (unat intid)
        in bindE (assertE (handler \<noteq> None)) (\<lambda>_.
           bindE (run_irq_handler (the handler) S chi clo) (\<lambda>S.
           on_kernel S (wake_up_irq_blocked_tasks (sy_kernel S) (sint intid)))))"

definition handle_current_exception :: "System \<Rightarrow> Trap \<Rightarrow> System res" where
  "handle_current_exception S tr =
     (case tr_exc tr of
        SYNCHRONOUS_EXCEPTION \<Rightarrow> handle_synchronous_exception S (tr_esr tr)
      | IRQ \<Rightarrow>
          bindE (handle_irq S (tr_intid tr) (tr_chi tr) (tr_clo tr)) (\<lambda>S.
          Inr (S\<lparr>sy_gicc := clear_interrupt (sy_gicc S) (tr_intid tr)\<rparr>)))"

subsection \<open>The main loop\<close>

text \<open>One round of the loop; the flag says whether the loop goes on.\<close>

definition kmain_step :: "System \<Rightarrow> Trap \<Rightarrow> (System \<times> bool) res" where
  "kmain_step S tr =
     bindE (schedule (sy_kernel S)) (\<lambda>(K, task).
     case task of
       None \<Rightarrow> Inr (S\<lparr>sy_kernel := K\<rparr>, False)
     | Some t \<Rightarrow>
         bindE (on_kernel S (activate K t tr)) (\<lambda>S.
         bindE (handle_current_exception S tr) (\<lambda>S.
         Inr (S, True))))"

fun kmain_loop :: "System \<Rightarrow> Trap list \<Rightarrow> (System \<times> bool) res" where
  "kmain_loop S [] = Inr (S, True)"
| "kmain_loop S (tr # trs) =
     bindE (kmain_step S tr) (\<lambda>(S, going). if going then kmain_loop S trs else Inr (S, False))"

end
