(* ===== verification/Kernel_Safety.thy ===== *)
theory Kernel_Safety
  imports Kernel Uart_Facts
begin

text \<open>
  The kernel as a transition system.  A state is reachable when it is the booted system or
  follows a reachable state by one round of \<^verbatim>\<open>kmain\<close> whose trap is well behaved: the task
  calls a system call that exists, replies only to a task that waits for its reply, awaits an
  event that exists, and a timer interrupt comes before the next one is due.  From every
  reachable state every such round succeeds, and the invariant of the abstract kernel holds.
\<close>

subsection \<open>Well-behaved traps\<close>

text \<open>
  The condition is what keeps the model's rounds from stopping.  It says nothing of the lengths and addresses of the message buffers:
  the memory of the messages is apart from the kernel's own data here.  That the kernel's copying does stay out of
  its data, and for which buffers, is shown in the theory \<open>Memory_Safety\<close>.
\<close>

definition reply_ok :: "Kernel \<Rightarrow> bool" where
  "reply_ok K =
     (case k_current K of
        None \<Rightarrow> False
      | Some c \<Rightarrow>
          (case get_task_by_tid K (ucast (t_x (k_tasks K c) 0)) of
             Inr (Some s) \<Rightarrow> t_state (k_tasks K s) = WATIREPLY \<or> t_state (k_tasks K s) = RUNNING
           | Inr None \<Rightarrow> True
           | Inl _ \<Rightarrow> False))"

definition await_ok :: "Kernel \<Rightarrow> bool" where
  "await_ok K =
     (case k_current K of
        None \<Rightarrow> False
      | Some c \<Rightarrow> (let intid = sint (ucast (t_x (k_tasks K c) 0) :: i32) in 0 \<le> intid \<and> intid < 1022))"

fun call_ok :: "sync_handler \<Rightarrow> Kernel \<Rightarrow> bool" where
  "call_ok H_reply K = reply_ok K"
| "call_ok H_await_event K = await_ok K"
| "call_ok _ K = True"

definition tick_ok :: "System \<Rightarrow> Trap \<Rightarrow> bool" where
  "tick_ok S tr \<longleftrightarrow> tr_intid tr = 97 \<and> sys_timer_full_count (tr_chi tr) (tr_clo tr)
     < ck_next_tick_time (sc_clocks (sy_clocks S) 1) + scast (ck_interval (sc_clocks (sy_clocks S) 1))"

definition trap_ok :: "System \<Rightarrow> Trap \<Rightarrow> bool" where
  "trap_ok S tr =
     (case tr_exc tr of
        SYNCHRONOUS_EXCEPTION \<Rightarrow>
          (if (ucast (drop_bit 26 (tr_esr tr)) :: u8) = SVC_CLASS
           then (case sy_sync S (unat (ucast (tr_esr tr) :: u16)) of
                   None \<Rightarrow> False | Some h \<Rightarrow> call_ok h (sy_kernel S))
           else True)
      | IRQ \<Rightarrow> tick_ok S tr)"

text \<open>The trap \<open>tr\<close> is taken by the task that \<^verbatim>\<open>schedule\<close> picks in \<open>S\<close>.\<close>

definition well_behaved :: "System \<Rightarrow> Trap \<Rightarrow> bool" where
  "well_behaved S tr =
     (case schedule (sy_kernel S) of
        Inr (K, Some t) \<Rightarrow> (case activate K t tr of Inr K \<Rightarrow> trap_ok (S\<lparr>sy_kernel := K\<rparr>) tr | Inl _ \<Rightarrow> True)
      | _ \<Rightarrow> True)"

inductive reach :: "System \<Rightarrow> System \<Rightarrow> bool" for S0 :: System where
  reach_start: "reach S0 S0"
| reach_round: "reach S0 S \<Longrightarrow> well_behaved S tr \<Longrightarrow> kmain_step S tr = Inr (S', True) \<Longrightarrow> reach S0 S'"

inductive_cases reachE: "reach S0 S"

definition system_inv :: "System \<Rightarrow> bool" where
  "system_inv S \<longleftrightarrow> kernel_inv (sy_kernel S) \<and> sy_irq S 97 = Some Handle_timer_1"

subsection \<open>One round\<close>

lemma pass_result_core [simp]: "same_core (pass_result d) d"
  by (simp add: pass_result_def same_core_def)

lemma same_core_regs: "same_core (d\<lparr>t_x := x, t_sp := s, t_spsr := p, t_pc := c, t_x30_copy := y\<rparr>) d"
  by (simp add: same_core_def)

lemma activate_refine:
  assumes rel: "krel K A" and t: "t \<in> set (a_jobs A)" and s: "a_state A t \<noteq> RUNNING"
  shows "\<exists>K'. activate K t tr = Inr K' \<and> krel K' (a_run A t) \<and> t_x (k_tasks K' t) = tr_x tr
    \<and> k_mem K' = tr_mem tr \<and> k_current K' = Some t"
proof -
  from change_task_state_running [OF rel t s] obtain K1 where
    k1: "change_task_state K t RUNNING = Inr K1" "krel K1 (a_run A t)"
    "K1 = upd_task (K\<lparr>k_current := Some t\<rparr>) t (\<lambda>d. d\<lparr>t_state := RUNNING\<rparr>)" by blast
  let ?K2 = "upd_task K1 t pass_result"
  let ?f = "\<lambda>d. d\<lparr>t_x := tr_x tr, t_sp := tr_sp tr, t_spsr := tr_spsr tr, t_pc := tr_pc tr, t_x30_copy := tr_x tr 30\<rparr>"
  let ?K3 = "set_mem (upd_task ?K2 t ?f) (tr_mem tr)"
  have "k_current ?K2 = Some t" by (simp add: k1(3))
  then have "activate K t tr = Inr ?K3" by (simp add: activate_def k1(1) activate_running_task_def)
  moreover have "krel ?K3 (a_run A t)"
  proof -
    have "same_kernel ?K2 K1" by (rule same_kernel_upd_task) simp
    moreover have "same_kernel (upd_task ?K2 t ?f) ?K2" by (rule same_kernel_upd_task) (rule same_core_regs)
    ultimately have "krel (upd_task ?K2 t ?f) (a_run A t)"
      using k1(2) krel_same_kernel by blast
    then show ?thesis by (simp only: krel_set_mem)
  qed
  ultimately show ?thesis by (intro exI [of _ ?K3]) (simp add: k1(3))
qed

lemma reply_ok_target:
  assumes "krel K A" and "running A c" and "reply_ok K"
  shows "reply_target_ok A (send_target K A c)"
proof (cases "send_target K A c")
  case None
  then show ?thesis by (simp add: reply_target_ok_def)
next
  case (Some s)
  then have s: "s \<in> set (a_jobs A)" using a_find_Some by (auto simp: send_target_def)
  have "t_state (k_tasks K s) = WATIREPLY \<or> t_state (k_tasks K s) = RUNNING"
    using assms(3) Some running_kernel(2) [OF assms(1,2)] get_task_by_tid_refine [OF assms(1)]
    by (simp add: reply_ok_def send_target_def)
  then show ?thesis using krel_state [OF assms(1) s] s Some by (simp add: reply_target_ok_def)
qed

text \<open>The trap is the call of \<^verbatim>\<open>Exit\<close>.\<close>

definition exits :: "System \<Rightarrow> Trap \<Rightarrow> bool" where
  "exits S tr \<longleftrightarrow> tr_exc tr = SYNCHRONOUS_EXCEPTION \<and> (ucast (drop_bit 26 (tr_esr tr)) :: u8) = SVC_CLASS
     \<and> sy_sync S (unat (ucast (tr_esr tr) :: u16)) = Some H_exit"

lemma run_handler_ok:
  assumes rel: "krel K A" and inv: "ainv A" and run: "running A c" and ok: "call_ok h K"
  shows "\<exists>K' A'. run_handler h K = Inr K' \<and> krel K' A' \<and> ainv A' \<and> a_extends A A'
    \<and> (h \<noteq> H_exit \<longrightarrow> set (a_jobs A) \<subseteq> set (a_jobs A'))"
proof -
  note cur = running_kernel [OF rel run]
  have "\<exists>K'. sys_exit K = Inr K' \<and> krel K' (a_exit A c)"
    using remove_current_refine [OF rel inv run] by (simp add: sys_exit_def)
  note exit = this
  have recv: "\<forall>r. send_target K A c = Some r \<longrightarrow> r \<in> set (a_jobs A)"
    using a_find_Some by (auto simp: send_target_def)
  have result: ?thesis if "\<exists>K'. run_handler h K = Inr K' \<and> krel K' A'" "ainv A'" "a_extends A A'" "a_jobs A' = a_jobs A" for A'
    using that by (metis order_refl)
  show ?thesis
  proof (cases h)
    case H_create
    then show ?thesis
      using sys_create_refine [OF rel inv run] create_inv [OF inv] priority_index_less [OF clamp_priority_valid]
        create_extends [OF inv] a_jobs_create by (metis run_handler.simps(1))
  next
    case H_yield
    then show ?thesis using rel inv by (auto simp: sys_yield_def intro: a_extends_refl)
  next
    case H_exit
    then show ?thesis using exit exit_inv [OF inv run] exit_extends [OF run] by auto
  next
    case H_tid
    then show ?thesis using sys_tid_refine [OF rel inv run] inv by (auto intro: a_extends_refl)
  next
    case H_parent_tid
    then show ?thesis using sys_parent_tid_refine [OF rel run] inv by (auto intro: a_extends_refl)
  next
    case H_send
    then show ?thesis using sys_send_refine [OF rel inv run] send_inv [OF inv run recv] send_extends by (intro result [of "a_send A c (send_target K A c)"]) auto
  next
    case H_receive
    then show ?thesis using sys_receive_refine [OF rel inv run] receive_inv [OF inv run] receive_extends by (intro result [of "a_receive A c"]) auto
  next
    case H_reply
    then have "reply_target_ok A (send_target K A c)" using reply_ok_target [OF rel run] ok by simp
    then show ?thesis using sys_reply_refine [OF rel inv run] reply_inv [OF inv run] reply_extends H_reply
      by (intro result [of "a_reply A (send_target K A c)"]) auto
  next
    case H_await_event
    let ?i = "sint (ucast (t_x (k_tasks K c) 0) :: i32)"
    have i: "0 \<le> ?i" "?i < 1022" using ok H_await_event cur by (simp_all add: await_ok_def Let_def)
    then have "nat ?i < NUM_INTERRUPT" by (simp add: NUM_INTERRUPT_def nat_less_iff)
    then show ?thesis using sys_await_event_refine [OF rel inv run i] await_inv [OF inv run] await_extends H_await_event
      by (intro result [of "a_await A c (nat ?i)"]) auto
  qed
qed

lemma handle_ok:
  assumes rel: "krel (sy_kernel S) A" and inv: "ainv A" and run: "running A c" and ok: "trap_ok S tr"
    and irq: "sy_irq S 97 = Some Handle_timer_1"
  shows "\<exists>S' A'. handle_current_exception S tr = Inr S' \<and> krel (sy_kernel S') A' \<and> ainv A' \<and> a_extends A A'
    \<and> (\<not> exits S tr \<longrightarrow> set (a_jobs A) \<subseteq> set (a_jobs A')) \<and> sy_irq S' 97 = Some Handle_timer_1"
proof (cases "tr_exc tr")
  case SYNCHRONOUS_EXCEPTION
  show ?thesis
  proof (cases "(ucast (drop_bit 26 (tr_esr tr)) :: u8) = SVC_CLASS")
    case True
    with ok SYNCHRONOUS_EXCEPTION obtain h where h: "sy_sync S (unat (ucast (tr_esr tr) :: u16)) = Some h" "call_ok h (sy_kernel S)"
      by (auto simp: trap_ok_def split: option.splits)
    from run_handler_ok [OF rel inv run h(2)] obtain K' A' where
      "run_handler h (sy_kernel S) = Inr K'" "krel K' A'" "ainv A'" "a_extends A A'"
      "h \<noteq> H_exit \<longrightarrow> set (a_jobs A) \<subseteq> set (a_jobs A')" by blast
    with True h(1) irq SYNCHRONOUS_EXCEPTION show ?thesis
      by (intro exI [of _ "S\<lparr>sy_kernel := K'\<rparr>"] exI [of _ A'])
        (simp add: handle_current_exception_def handle_synchronous_exception_def on_kernel_def exits_def)
  next
    case False
    with SYNCHRONOUS_EXCEPTION rel inv irq show ?thesis
      by (auto simp: handle_current_exception_def handle_synchronous_exception_def intro: a_extends_refl)
  qed
next
  case IRQ
  with ok have t: "tr_intid tr = 97" and early: "sys_timer_full_count (tr_chi tr) (tr_clo tr)
     < ck_next_tick_time (sc_clocks (sy_clocks S) 1) + scast (ck_interval (sc_clocks (sy_clocks S) 1))"
    by (simp_all add: trap_ok_def tick_ok_def)
  from notify_tick_ok [OF _ early] obtain C where
    C: "sys_clock_notify_tick (sy_clocks S) 1 (tr_chi tr) (tr_clo tr) = Inr C" by auto
  from wake_refine [OF rel inv, of 97] obtain K' where
    K': "wake_up_irq_blocked_tasks (sy_kernel S) 97 = Inr K'" "krel K' (a_wake A 97)" by auto
  have "ainv (a_wake A 97)" using wake_inv [OF inv run] by (simp add: NUM_INTERRUPT_def)
  with IRQ t irq C K' wake_extends [of A 97] show ?thesis
    by (auto simp: handle_current_exception_def handle_irq_def on_kernel_def Let_def)
qed

lemma schedule_cases:
  assumes rel: "krel K A" and inv: "ainv A"
  obtains (none) K' where "schedule K = Inr (K', None)" "krel K' A"
      "\<forall>t\<in>set (a_jobs A). a_state A t \<noteq> READY \<and> a_state A t \<noteq> RUNNING"
  | (some) K' t A' where "schedule K = Inr (K', Some t)" "krel K' A'" "t \<in> set (a_jobs A')" "a_state A' t = READY"
      "ainv (a_run A' t)" "running (a_run A' t) t" "a_schedule A = (A', Some t)"
proof (cases "a_order (a_requeue A)")
  case Nil
  have idle: "idle_inv (a_requeue A)" by (rule requeue_idle_inv [OF inv])
  have empty: "\<forall>j<TASK_PRIORITY_MAX. a_ready (a_requeue A) j = []"
    using Nil by (simp add: a_order_def service_order_Nil_iff)
  have none_ready: "\<forall>t\<in>set (a_jobs (a_requeue A)). a_state (a_requeue A) t \<noteq> READY"
  proof
    fix t assume t: "t \<in> set (a_jobs (a_requeue A))"
    then have "a_prio (a_requeue A) t < TASK_PRIORITY_MAX" using idle by (simp add: idle_inv_def jobs_ok_def)
    then show "a_state (a_requeue A) t \<noteq> READY"
      using idle empty t unfolding idle_inv_def ready_ok_def by (metis empty_iff list.set(1))
  qed
  have same: "a_requeue A = A"
  proof (rule ccontr)
    assume "a_requeue A \<noteq> A"
    then obtain c where "a_current A = Some c" "a_requeue A = a_make_ready A c"
      by (auto simp: a_requeue_def split: option.splits if_splits)
    moreover from this have "c \<in> set (a_jobs (a_requeue A))" using idle by (simp add: idle_inv_def)
    ultimately show False using none_ready by auto
  qed
  from schedule_refine [OF rel inv] Nil same obtain K' where "schedule K = Inr (K', None)" "krel K' A"
    by (auto simp: a_schedule_def Let_def)
  then show thesis using none none_ready idle same by (auto simp: idle_inv_def)
next
  case (Cons t ts)
  have idle: "idle_inv (a_requeue A)" by (rule requeue_idle_inv [OF inv])
  then have r: "ready_ok (a_requeue A)" by (simp add: idle_inv_def)
  note h = order_head [OF Cons r]
  let ?A = "a_take (a_requeue A) t"
  have sch: "a_schedule A = (?A, Some t)" using Cons by (simp add: a_schedule_def Let_def)
  with schedule_refine [OF rel inv] obtain K' where "schedule K = Inr (K', Some t)" "krel K' ?A" by auto
  moreover have "t \<in> set (a_jobs ?A)" "a_state ?A t = READY" using h by (simp_all add: a_take_def)
  moreover have "ainv (a_run ?A t)" by (rule run_inv [OF idle Cons])
  moreover have "running (a_run ?A t) t" using h by (simp add: running_def)
  ultimately show thesis using some sch by blast
qed

text \<open>
  A round, seen abstractly: the scheduler takes a task, it runs, and its trap is handled by an operation
  that leaves the other ready tasks in their places.
\<close>

lemma kmain_step_refine:
  assumes A: "krel (sy_kernel S) A" "ainv A" and irq: "sy_irq S 97 = Some Handle_timer_1" and ok: "well_behaved S tr"
    and sch: "a_schedule A = (B, Some t)"
  shows "\<exists>K S' A'. schedule (sy_kernel S) = Inr (K, Some t) \<and> kmain_step S tr = Inr (S', True)
    \<and> krel (sy_kernel S') A' \<and> ainv A' \<and> a_extends (a_run B t) A' \<and> sy_irq S' 97 = Some Handle_timer_1
    \<and> (\<not> exits S tr \<longrightarrow> set (a_jobs (a_run B t)) \<subseteq> set (a_jobs A'))"
  using A
proof (cases rule: schedule_cases)
  case (none K')
  with schedule_refine [OF A] sch show ?thesis by simp
next
  case (some K' u C)
  then have eq: "u = t" "C = B" using sch by simp_all
  note some = some [unfolded eq]
  have "a_state B t \<noteq> RUNNING" using some(4) by simp
  from activate_refine [OF some(2,3) this, of tr] obtain K2 where
    k2: "activate K' t tr = Inr K2" "krel K2 (a_run B t)" by blast
  let ?S = "S\<lparr>sy_kernel := K2\<rparr>"
  have "trap_ok ?S tr" using ok some(1) k2(1) by (simp add: well_behaved_def)
  from handle_ok [OF _ some(5,6) this] k2(2) irq obtain S' A' where
    "handle_current_exception ?S tr = Inr S'" "krel (sy_kernel S') A'" "ainv A'" "a_extends (a_run B t) A'"
    "\<not> exits S tr \<longrightarrow> set (a_jobs (a_run B t)) \<subseteq> set (a_jobs A')" "sy_irq S' 97 = Some Handle_timer_1"
    by (auto simp: exits_def)
  then show ?thesis using some(1) k2(1) by (auto simp: kmain_step_def on_kernel_def)
qed

lemma kmain_step_ok:
  assumes inv: "system_inv S" and ok: "well_behaved S tr"
  shows "\<exists>S' going. kmain_step S tr = Inr (S', going) \<and> system_inv S'"
proof -
  from inv obtain A where A: "krel (sy_kernel S) A" "ainv A" and irq: "sy_irq S 97 = Some Handle_timer_1"
    by (auto simp: system_inv_def kernel_inv_def)
  from A show ?thesis
  proof (cases rule: schedule_cases)
    case (none K')
    with A irq show ?thesis by (auto simp: kmain_step_def system_inv_def kernel_inv_def)
  next
    case (some K' t A')
    from kmain_step_refine [OF A irq ok some(7)] show ?thesis by (auto simp: system_inv_def kernel_inv_def)
  qed
qed

subsection \<open>Booting\<close>

definition fresh_system :: "System \<Rightarrow> bool" where
  "fresh_system S \<longleftrightarrow> static_tasks (sy_kernel S) \<and> gpio_inv (sy_gpio S)
     \<and> length (ax_spi (sy_aux S)) = 2 \<and> 11 \<le> length (sp_rx (ax_spi (sy_aux S) ! 0))"

text \<open>
  The console is set up: the four pins of the bus have their function and no resistor, the others are
  as they were; the bus is configured, and the registers of both lines were written.
\<close>

definition console_set :: "System \<Rightarrow> System \<Rightarrow> bool" where
  "console_set S S' \<longleftrightarrow>
     (\<forall>p. pin_function (sy_gpio S') p = (if p \<in> {18, 19, 20, 21} then GPIO_ALTFN4 else pin_function (sy_gpio S) p))
     \<and> (\<forall>p. pin_resistor (sy_gpio S') p = (if p \<in> {18, 19, 20, 21} then GPIO_NONE else pin_resistor (sy_gpio S) p))
     \<and> (let spi = ax_spi (sy_aux S) ! 0; spi' = ax_spi (sy_aux S') ! 0
        in sp_cntl0 spi' = 0x05204C40 \<and> sp_cntl1 spi' = 0x2
          \<and> (\<exists>ws. sp_tx spi' = sp_tx spi @ ws \<and> transfers [] ws = map (\<lambda>(h, d). [h, d]) uart_setup))"

lemma init_spi_ok:
  assumes "0 < length (ax_spi aux)"
  shows "init_spi aux 0 = Inr (aux\<lparr>ax_enables := or (ax_enables aux) 2,
    ax_spi := (ax_spi aux)[0 := (ax_spi aux ! 0)\<lparr>sp_cntl0 := 0x05204C40, sp_cntl1 := 0x2\<rparr>]\<rparr>)"
  using assms by (simp add: init_spi_def Let_def SPI_CNTL0_SPEED_SHIFT_def SPI_CNTL0_VAR_WIDTH_def SPI_CNTL0_Enable_def
      SPI_CNTL0_In_Rising_def SPI_CNTL0_Clear_FIFOs_def SPI_CNTL0_SO_MSB_FST_def SPI_CNTL1_SI_MSB_FST_def)

lemma init_console_ok:
  assumes "fresh_system S"
  shows "\<exists>gpio aux1 aux. init_gpio (sy_gpio S) = Inr gpio \<and> init_spi (sy_aux S) 0 = Inr aux1
    \<and> on_spi aux1 0 init_uart = Inr aux \<and> (\<forall>S'. sy_gpio S' = gpio \<and> sy_aux S' = aux \<longrightarrow> console_set S S')"
proof -
  let ?spi = "(ax_spi (sy_aux S) ! 0)\<lparr>sp_cntl0 := 0x05204C40, sp_cntl1 := 0x2\<rparr>"
  have fresh: "gpio_inv (sy_gpio S)" "0 < length (ax_spi (sy_aux S))" "11 \<le> length (sp_rx ?spi)"
    using assms by (simp_all add: fresh_system_def)
  obtain gpio where g: "init_gpio (sy_gpio S) = Inr gpio"
    "\<forall>p. pin_function gpio p = (if p \<in> {18, 19, 20, 21} then GPIO_ALTFN4 else pin_function (sy_gpio S) p)"
    "\<forall>p. pin_resistor gpio p = (if p \<in> {18, 19, 20, 21} then GPIO_NONE else pin_resistor (sy_gpio S) p)"
    using init_gpio_ok [OF fresh(1)] by blast
  note aux1 = init_spi_ok [OF fresh(2)]
  let ?ws = "map (\<lambda>(h, d). (False, reg_word h d)) uart_setup"
  have "transfers [] (?ws @ []) = map (\<lambda>(h, d). [h, d]) uart_setup @ transfers [] []" by (rule transfers_registers)
  then show ?thesis using g aux1 init_uart_ok [OF fresh(3)] fresh(2)
    by (simp add: on_spi_def console_set_def write_all_def)
qed

lemma init_kernel_ok:
  assumes "fresh_system S"
  shows "\<exists>S'. init_kernel S chi clo = Inr S' \<and> krel (sy_kernel S') a_init
    \<and> sy_irq S' 97 = Some Handle_timer_1 \<and> console_set S S'
    \<and> ck_next_tick_time (sc_clocks (sy_clocks S') 1) = sys_timer_full_count chi clo + 10000
    \<and> ck_interval (sc_clocks (sy_clocks S') 1) = 10000 \<and> sy_sync S' = sy_sync (init_exception_handlers S)"
proof -
  let ?K = "(sy_kernel S)\<lparr>k_memory := memory_init (k_memory (sy_kernel S))\<rparr>"
  have rel: "krel (init_scheduler ?K) a_init"
    using memory_init_inv assms by (intro init_scheduler_refine) (simp_all add: fresh_system_def static_tasks_def)
  from init_gic_ok [of "sy_gicd S" "sy_gicc S"] obtain g c where gic: "init_gic (sy_gicd S) (sy_gicc S) = Inr (g, c)" by blast
  from init_console_ok [OF assms] obtain gpio aux1 aux where console: "init_gpio (sy_gpio S) = Inr gpio"
    "init_spi (sy_aux S) 0 = Inr aux1" "on_spi aux1 0 init_uart = Inr aux"
    "\<forall>S'. sy_gpio S' = gpio \<and> sy_aux S' = aux \<longrightarrow> console_set S S'" by blast
  show ?thesis
    using rel console
    by (simp add: init_kernel_def init_exception_handlers_def gic Let_def sys_clock_init_def
        sys_timer_set_comparator_def WAIT_TIMER_1_def TICK_TIME_def)
qed

lemma init_tasks_ok:
  assumes rel: "krel K a_init"
  shows "\<exists>K' A. init_tasks K u i = Inr K' \<and> krel K' A \<and> ainv A
    \<and> a_jobs A = [0, 1] \<and> a_prio A 0 = 5 \<and> a_prio A 1 = 0 \<and> a_state A 0 = READY \<and> a_state A 1 = READY
    \<and> a_order A = [0, 1] \<and> a_current A = None"
proof -
  have p: "priority_index (clamp_priority INITIAL_PRIORITY) = 5" "priority_index (clamp_priority TASK_PRIORITY_MIN) = 0"
    by (simp_all add: clamp_priority_def INITIAL_PRIORITY_def TASK_PRIORITY_MIN_def TASK_PRIORITY_MAX_def
        priority_index_def)
  let ?A1 = "fst (a_create a_init 5)"
  let ?A2 = "fst (a_create ?A1 0)"
  have a1: "ainv ?A1" by (rule create_inv [OF ainv_init]) (simp add: TASK_PRIORITY_MAX_def)
  have a2: "ainv ?A2" by (rule create_inv [OF a1]) (simp add: TASK_PRIORITY_MAX_def)
  have c0: "a_created a_init < MAX_TASK_NUM" by (simp add: a_init_def MAX_TASK_NUM_def)
  have c1: "a_created ?A1 < MAX_TASK_NUM" using a_create_spawn [OF c0, of 5] by (simp add: a_init_def MAX_TASK_NUM_def)
  note sp = a_create_spawn [OF c0, of 5] a_create_spawn [OF c1, of 0]
  from create_task_refine [OF rel ainv_init, of INITIAL_PRIORITY u "- 1"] p obtain K1 t where
    k1: "create_task K INITIAL_PRIORITY u (- 1) = Inr (K1, t)" "krel K1 ?A1" by auto
  from create_task_refine [OF k1(2) a1, of TASK_PRIORITY_MIN i "- 1"] p obtain K2 t' where
    k2: "create_task K1 TASK_PRIORITY_MIN i (- 1) = Inr (K2, t')" "krel K2 ?A2" by auto
  have "init_tasks K u i = Inr K2" by (simp add: init_tasks_def k1 k2)
  moreover have "a_jobs ?A2 = [0, 1]" "a_prio ?A2 0 = 5" "a_prio ?A2 1 = 0" "a_state ?A2 0 = READY" "a_state ?A2 1 = READY"
    "a_current ?A2 = None"
    using sp by (simp_all add: a_init_def)
  moreover have "a_ready ?A2 = (\<lambda>_. [])(5 := [0], 0 := [1])" using sp by (simp add: a_init_def)
  then have "a_order ?A2 = [0, 1]"
    by (simp add: a_order_def TASK_PRIORITY_MAX_def numeral_eq_Suc)
  ultimately show ?thesis using k2(2) a2 by blast
qed

lemma boot_ok:
  assumes "fresh_system S"
  shows "\<exists>S'. boot S chi clo u i = Inr S' \<and> system_inv S' \<and> console_set S S'"
proof -
  from init_kernel_ok [OF assms, of chi clo] obtain S1 where
    s1: "init_kernel S chi clo = Inr S1" "krel (sy_kernel S1) a_init" "sy_irq S1 97 = Some Handle_timer_1"
    "console_set S S1" by blast
  from init_tasks_ok [OF s1(2), of u i] obtain K A where
    k: "init_tasks (sy_kernel S1) u i = Inr K" "krel K A" "ainv A" by blast
  have "boot S chi clo u i = Inr (S1\<lparr>sy_kernel := K\<rparr>)" by (simp add: boot_def s1(1) on_kernel_def k(1))
  moreover have "system_inv (S1\<lparr>sy_kernel := K\<rparr>)" using k s1(3) by (auto simp: system_inv_def kernel_inv_def)
  moreover have "console_set S (S1\<lparr>sy_kernel := K\<rparr>)" using s1(4) by (simp add: console_set_def)
  ultimately show ?thesis by blast
qed

subsection \<open>Every reachable state\<close>

lemma reach_inv:
  assumes "reach S0 S" and "system_inv S0"
  shows "system_inv S"
  using assms
proof (induction rule: reach.induct)
  case (reach_round S tr S')
  from kmain_step_ok [OF reach_round.IH [OF reach_round.prems] reach_round.hyps(2)] reach_round.hyps(3)
  show ?case by auto
qed

lemma reach_progress:
  assumes "fresh_system S" and "boot S chi clo u i = Inr S0" and "reach S0 S1" and "well_behaved S1 tr"
  shows "\<exists>S2 going. kmain_step S1 tr = Inr (S2, going)"
proof -
  have "system_inv S0" using boot_ok [OF assms(1), of chi clo u i] assms(2) by auto
  from kmain_step_ok [OF reach_inv [OF assms(3) this] assms(4)] show ?thesis by blast
qed

subsection \<open>What the invariant says of the kernel's own data\<close>

text \<open>A live task is one that the job list leads to under its own number.\<close>

definition live :: "Kernel \<Rightarrow> task_ptr \<Rightarrow> bool" where
  "live K t \<longleftrightarrow> get_task_by_tid K (word_of_nat t) = Inr (Some t)"

lemma live_iff:
  assumes "krel K A" and "jobs_ok A"
  shows "live K t \<longleftrightarrow> t \<in> set (a_jobs A)"
  using get_task_by_tid_refine [OF assms(1)] a_find_job [OF assms(2), of t] a_find_Some [of A "word_of_nat t" t]
  by (auto simp: live_def)

lemma running_unique:
  assumes "system_inv S" and "live (sy_kernel S) t" and "t_state (k_tasks (sy_kernel S) t) = RUNNING"
  shows "k_current (sy_kernel S) = Some t"
proof -
  from assms(1) obtain A where A: "krel (sy_kernel S) A" "ainv A" by (auto simp: system_inv_def kernel_inv_def)
  then have i: "jobs_ok A" "current_ok A" by (simp_all add: ainv_def)
  have t: "t \<in> set (a_jobs A)" using live_iff [OF A(1) i(1)] assms(2) by simp
  have "a_state A t = RUNNING" using assms(3) krel_state [OF A(1) t] by simp
  with i(2) t have "a_current A = Some t" unfolding current_ok_def by blast
  with A(1) show ?thesis by (simp add: krel_current)
qed

lemma task_state_priority:
  assumes "krel K A" and "t \<in> set (a_jobs A)"
  shows "0 \<le> sint (t_priority (k_tasks K t)) \<and> nat (sint (t_priority (k_tasks K t))) = a_prio A t"
  using krel_task [OF assms] by (simp add: task_rel_def valid_priority_def priority_index_def TASK_PRIORITY_MIN_def)

lemma schedule_highest:
  assumes inv: "system_inv S" and sch: "schedule (sy_kernel S) = Inr (K, Some t)"
  shows "live K t \<and> t_state (k_tasks K t) = READY
    \<and> (\<forall>u. live K u \<longrightarrow> t_state (k_tasks K u) \<noteq> RUNNING
         \<and> (t_state (k_tasks K u) = READY \<longrightarrow> sint (t_priority (k_tasks K u)) \<le> sint (t_priority (k_tasks K t))))"
proof -
  from inv obtain A where A: "krel (sy_kernel S) A" "ainv A" by (auto simp: system_inv_def kernel_inv_def)
  let ?B = "a_requeue A"
  have idle: "idle_inv ?B" by (rule requeue_idle_inv [OF A(2)])
  then have jr: "jobs_ok ?B" "ready_ok ?B" by (simp_all add: idle_inv_def)
  from schedule_refine [OF A] sch have "snd (a_schedule A) = Some t" "krel K (fst (a_schedule A))" by auto
  moreover from this obtain ts where cons: "a_order ?B = t # ts"
    by (cases "a_order ?B") (auto simp: a_schedule_def Let_def)
  ultimately have rel: "krel K (a_take ?B t)" by (simp add: a_schedule_def Let_def)
  note h = order_head [OF cons jr(2)]
  have f: "a_jobs (a_take ?B t) = a_jobs ?B" "a_state (a_take ?B t) = a_state ?B" "a_prio (a_take ?B t) = a_prio ?B"
    by (simp_all add: a_take_def)
  have jt: "jobs_ok (a_take ?B t)" using jr(1) by (simp add: jobs_ok_def a_take_def)
  have lv: "live K u \<longleftrightarrow> u \<in> set (a_jobs ?B)" for u using live_iff [OF rel jt] f by simp
  have st: "t_state (k_tasks K u) = a_state ?B u" if "u \<in> set (a_jobs ?B)" for u using krel_state [OF rel, of u] that f by simp
  have pr: "0 \<le> sint (t_priority (k_tasks K u)) \<and> nat (sint (t_priority (k_tasks K u))) = a_prio ?B u"
    if "u \<in> set (a_jobs ?B)" for u using task_state_priority [OF rel, of u] that f by simp
  have le: "a_prio ?B u \<le> a_prio ?B t" if u: "u \<in> set (a_jobs ?B)" "a_state ?B u = READY" for u
  proof (rule ccontr)
    assume "\<not> a_prio ?B u \<le> a_prio ?B t"
    moreover have b: "a_prio ?B u < TASK_PRIORITY_MAX" using jr(1) u(1) by (simp add: jobs_ok_def)
    ultimately have "a_ready ?B (a_prio ?B u) = []" using h(5) by simp
    moreover have "u \<in> set (a_ready ?B (a_prio ?B u))" using jr(2) u b unfolding ready_ok_def by blast
    ultimately show False by simp
  qed
  have "sint (t_priority (k_tasks K u)) \<le> sint (t_priority (k_tasks K t))"
    if "u \<in> set (a_jobs ?B)" "a_state ?B u = READY" for u
    using le [OF that] pr [OF that(1)] pr [OF h(1)] by linarith
  moreover have "a_state ?B u \<noteq> RUNNING" if "u \<in> set (a_jobs ?B)" for u using idle that by (simp add: idle_inv_def)
  ultimately show ?thesis using lv st h by metis
qed

lemma requeue_ready:
  "a_jobs (a_requeue A) = a_jobs A \<and> (a_state (a_requeue A) t = READY \<longrightarrow> a_state A t = READY \<or> a_state A t = RUNNING)"
  by (cases "a_current A") (simp_all add: a_requeue_def)

lemma schedule_stops:
  assumes inv: "system_inv S"
  shows "(\<exists>K. schedule (sy_kernel S) = Inr (K, None)) \<longleftrightarrow>
    (\<forall>t. live (sy_kernel S) t \<longrightarrow> t_state (k_tasks (sy_kernel S) t) \<noteq> READY \<and> t_state (k_tasks (sy_kernel S) t) \<noteq> RUNNING)"
proof -
  from inv obtain A where A: "krel (sy_kernel S) A" "ainv A" by (auto simp: system_inv_def kernel_inv_def)
  then have j: "jobs_ok A" by (simp add: ainv_def)
  note lv = live_iff [OF A(1) j]
  have st: "t_state (k_tasks (sy_kernel S) u) = a_state A u" if "u \<in> set (a_jobs A)" for u
    by (rule krel_state [OF A(1) that])
  from A show ?thesis
  proof (cases rule: schedule_cases)
    case (none K')
    then show ?thesis using lv st by auto
  next
    case (some K' t A')
    have "\<exists>u\<in>set (a_jobs A). a_state A u = READY \<or> a_state A u = RUNNING"
    proof -
      from some(7) obtain ts where "a_order (a_requeue A) = t # ts"
        by (cases "a_order (a_requeue A)") (auto simp: a_schedule_def Let_def)
      moreover have "ready_ok (a_requeue A)" using requeue_idle_inv [OF A(2)] by (simp add: idle_inv_def)
      ultimately have t: "t \<in> set (a_jobs (a_requeue A))" "a_state (a_requeue A) t = READY"
        using order_head by blast+
      have "t \<in> set (a_jobs A) \<and> (a_state A t = READY \<or> a_state A t = RUNNING)"
        using t requeue_ready [of A t] by metis
      then show ?thesis by blast
    qed
    then show ?thesis using some(1) lv st by auto
  qed
qed

lemma schedule_total:
  assumes "system_inv S"
  shows "\<exists>K r. schedule (sy_kernel S) = Inr (K, r)"
proof -
  from assms obtain A where "krel (sy_kernel S) A" "ainv A" by (auto simp: system_inv_def kernel_inv_def)
  then show ?thesis by (cases rule: schedule_cases) auto
qed

end
