(* ===== verification/Kernel_View.thy ===== *)
theory Kernel_View
  imports Kernel_Safety
begin

text \<open>
  The queues of the kernel as one reads them off its data: the tasks found by walking the lists of
  a priority queue from the highest level down.  On them the round of a timer interrupt is described,
  and what the type of the kernel's data promises in every reachable state.
\<close>

subsection \<open>Reading a queue\<close>

fun list_tasks :: "nat \<Rightarrow> (node_ptr \<Rightarrow> TaskNode) \<Rightarrow> node_ptr option \<Rightarrow> task_ptr list" where
  "list_tasks fuel nodes None = []"
| "list_tasks 0 nodes (Some n) = []"
| "list_tasks (Suc fuel) nodes (Some n) = the (tn_task (nodes n)) # list_tasks fuel nodes (tn_next (nodes n))"

definition queued_tasks :: "TaskNodePool \<Rightarrow> PriorityTaskQueue \<Rightarrow> task_ptr list" where
  "queued_tasks pool pq =
     service_order TASK_PRIORITY_MAX (\<lambda>j. list_tasks MAX_TASK_NUM (np_nodes pool) (tl_head (pq_list pq j)))"

definition ready_tasks :: "Kernel \<Rightarrow> task_ptr list" where
  "ready_tasks K = queued_tasks (k_readyq_pool K) (k_readyq K)"

definition event_waiters :: "Kernel \<Rightarrow> nat \<Rightarrow> task_ptr list" where
  "event_waiters K i = queued_tasks (k_irqq_pool K) (k_irqq K i)"

lemma list_tasks_dll:
  assumes "dll h p ns None" and "length ns \<le> fuel"
  shows "list_tasks fuel h (first_or ns None) = map (\<lambda>n. the (tn_task (h n))) ns"
  using assms
proof (induction ns arbitrary: p fuel)
  case (Cons n ns)
  then show ?case by (cases fuel) auto
qed simp

lemma queued_tasks_abs:
  assumes "pqs_abs I p Q C" and "i \<in> I"
  shows "queued_tasks p (Q i) = service_order TASK_PRIORITY_MAX (C i)"
  unfolding queued_tasks_def
proof (rule service_order_cong)
  fix j assume j: "j < TASK_PRIORITY_MAX"
  from assms obtain N where N: "pool_rep (pq_keys I) p (pq_lists Q) N"
    "\<forall>k\<in>pq_keys I. map (\<lambda>n. tn_task (np_nodes p n)) (N k) = map Some (C (fst k) (snd k))"
    by (auto simp: pqs_abs_def)
  have k: "(i, j) \<in> pq_keys I" using assms(2) j by simp
  then have rep: "list_rep (np_nodes p) (pq_list (Q i) j) (N (i, j))"
    using N(1) bspec [of "pq_keys I" "\<lambda>k. list_rep (np_nodes p) (pq_lists Q k) (N k)", OF _ k]
    by (simp add: pool_rep_def pq_lists_def)
  have "map the (map (\<lambda>n. tn_task (np_nodes p n)) (N (i, j))) = map the (map Some (C i j))"
    using bspec [OF N(2) k] by simp
  then have "map (\<lambda>n. the (tn_task (np_nodes p n))) (N (i, j)) = C i j" by (simp add: comp_def)
  then show "list_tasks MAX_TASK_NUM (np_nodes p) (tl_head (pq_list (Q i) j)) = C i j"
    using list_tasks_dll [of "np_nodes p" None "N (i, j)" MAX_TASK_NUM] rep pool_rep_length [OF N(1) k]
    by (simp add: list_rep_def)
qed

lemma ready_tasks_order: "krel K A \<Longrightarrow> ready_tasks K = a_order A"
  using queued_tasks_abs [of "{()}" "k_readyq_pool K" "\<lambda>_. k_readyq K" "\<lambda>_. a_ready A" "()"]
  by (simp add: krel_def queues_rel_def ready_rep_def ready_tasks_def a_order_def)

lemma event_waiters_order:
  "krel K A \<Longrightarrow> i < NUM_INTERRUPT \<Longrightarrow> event_waiters K i = service_order TASK_PRIORITY_MAX (a_irq A i)"
  using queued_tasks_abs [of "{..<NUM_INTERRUPT}" "k_irqq_pool K" "k_irqq K" "a_irq A" i] krel_irqs [of K A]
  by (simp add: event_waiters_def)

lemma set_ready_tasks:
  assumes "krel K A" and "ready_ok A" and "jobs_ok A"
  shows "t \<in> set (ready_tasks K) \<longleftrightarrow> live K t \<and> t_state (k_tasks K t) = READY"
proof -
  have "t \<in> set (ready_tasks K) \<longleftrightarrow> t \<in> set (a_jobs A) \<and> a_state A t = READY"
    using assms(2,3) by (auto simp: ready_tasks_order [OF assms(1)] a_order_def set_service_order ready_ok_def jobs_ok_def)
  then show ?thesis using live_iff [OF assms(1,3)] krel_state [OF assms(1)] by auto
qed

subsection \<open>The types of the kernel's data\<close>

text \<open>
  What the C types leave open: which values the numbers, priorities and pointers of the descriptors
  and queues may have.  A descriptor is one of 64 and holds its own number; its priority indexes the ten
  lists; its block and its node in the job list are its own; the senders it keeps are live tasks that wait
  to send; the queues hold live tasks in the state that belongs to the queue.
\<close>

definition descriptor_typed :: "Kernel \<Rightarrow> task_ptr \<Rightarrow> bool" where
  "descriptor_typed K t \<longleftrightarrow>
     (let d = k_tasks K t
      in t < 64 \<and> t_tid d = word_of_nat t \<and> 0 \<le> sint (t_priority d) \<and> sint (t_priority d) < 10
         \<and> t_state d \<noteq> INITIALIZED
         \<and> (\<exists>b<64. t_memory_block d = Some b \<and> mb_used (k_memory K) ! b)
         \<and> (\<exists>n<64. t_job_node d = Some n \<and> tn_task (np_nodes (k_jobq_pool K) n) = Some t)
         \<and> length (waiting_senders K t) < 64
         \<and> (\<forall>e\<in>set (waiting_senders K t). \<exists>s. e = word_of_nat s \<and> live K s \<and> t_state (k_tasks K s) = WATISEND))"

definition kernel_typed :: "Kernel \<Rightarrow> bool" where
  "kernel_typed K \<longleftrightarrow>
     (\<forall>t. live K t \<longrightarrow> descriptor_typed K t)
     \<and> (\<forall>t u. live K t \<and> live K u \<and> t_memory_block (k_tasks K t) = t_memory_block (k_tasks K u) \<longrightarrow> t = u)
     \<and> (\<forall>t. k_current K = Some t \<longrightarrow> live K t) \<and> unat (k_task_id_cnt K) \<le> 64
     \<and> (\<forall>t\<in>set (ready_tasks K). live K t \<and> t_state (k_tasks K t) = READY)
     \<and> (\<forall>i<1024. \<forall>t\<in>set (event_waiters K i). live K t \<and> t_state (k_tasks K t) = AWATIEVENT)"

lemma map_Some_nth:
  assumes "map f J = map Some ts" and "map g ts = map Some J" and "t \<in> set ts"
  shows "\<exists>n\<in>set J. g t = Some n \<and> f n = Some t"
proof -
  from assms(3) obtain a where a: "a < length ts" "ts ! a = t" by (auto simp: in_set_conv_nth)
  then have "a < length J" "g t = Some (J ! a)" using assms(2) by (metis length_map, metis length_map nth_map)
  moreover from this have "f (J ! a) = Some t" using assms(1) a by (metis nth_map)
  ultimately show ?thesis by (metis nth_mem)
qed

lemma descriptor_typed_ok:
  assumes A: "krel K A" "ainv A" and t: "t \<in> set (a_jobs A)"
  shows "descriptor_typed K t"
proof -
  from A(2) have i: "jobs_ok A" "senders_ok A" by (simp_all add: ainv_def)
  note lv = live_iff [OF A(1) i(1)] and r = krel_task [OF A(1) t] and p = task_state_priority [OF A(1) t]
  have b: "\<exists>b<64. t_memory_block (k_tasks K t) = Some b \<and> mb_used (k_memory K) ! b"
  proof -
    have m: "memory_inv (k_memory K)" "free_blocks (k_memory K) = {0..<MEMORY_BLOCK_MAX_NUM} - used_blocks K A"
      and "\<exists>b<MEMORY_BLOCK_MAX_NUM. t_memory_block (k_tasks K t) = Some b"
      using A(1) t by (simp_all add: krel_def blocks_rel_def)
    then obtain b where b: "b < MEMORY_BLOCK_MAX_NUM" "t_memory_block (k_tasks K t) = Some b" by blast
    then have "b \<notin> free_blocks (k_memory K)" using m(2) t by (auto simp: used_blocks_def)
    then show ?thesis using b m(1) by (auto simp: free_blocks_def memory_inv_def MEMORY_BLOCK_MAX_NUM_def)
  qed
  have n: "\<exists>n<64. t_job_node (k_tasks K t) = Some n \<and> tn_task (np_nodes (k_jobq_pool K) n) = Some t"
  proof -
    from A(1) obtain J where J: "pool_rep {()} (k_jobq_pool K) (\<lambda>_. k_jobq K) (\<lambda>_. J)"
      "map (\<lambda>n. tn_task (np_nodes (k_jobq_pool K) n)) J = map Some (a_jobs A)"
      "map (\<lambda>t. t_job_node (k_tasks K t)) (a_jobs A) = map Some J" unfolding krel_def jobs_rel_def by blast
    from map_Some_nth [OF J(2,3) t] pool_rep_node(1) [OF J(1), of "()"] show ?thesis by (auto simp: MAX_TASK_NUM_def)
  qed
  have "\<exists>s. e = word_of_nat s \<and> live K s \<and> t_state (k_tasks K s) = WATISEND" if e: "e \<in> set (waiting_senders K t)" for e
  proof -
    obtain s where s: "s \<in> set (a_senders A t)" "e = word_of_nat s"
      using e r by (auto simp: waiting_senders_def task_rel_def)
    then have "s \<in> set (a_jobs A) \<and> a_state A s = WATISEND" using i(2) t by (simp add: senders_ok_def)
    with s(2) lv krel_state [OF A(1)] show ?thesis by auto
  qed
  moreover have "length (waiting_senders K t) < 64"
    using r i(2) t by (simp add: waiting_senders_def task_rel_def senders_ok_def MAX_SENDER_CAPACITY_def)
  moreover have "a_prio A t < 10" "a_state A t \<noteq> INITIALIZED" using i(1) t by (simp_all add: jobs_ok_def TASK_PRIORITY_MAX_def)
  moreover have "sint (t_priority (k_tasks K t)) < 10"
    using r by (simp add: task_rel_def valid_priority_def TASK_PRIORITY_MAX_def)
  ultimately show ?thesis
    using r p b n jobs_bound [OF i(1) t] by (simp add: descriptor_typed_def Let_def task_rel_def MAX_TASK_NUM_def)
qed

lemma kernel_typed_ok:
  assumes "kernel_inv K"
  shows "kernel_typed K"
proof -
  from assms obtain A where A: "krel K A" "ainv A" by (auto simp: kernel_inv_def)
  then have i: "jobs_ok A" "ready_ok A" "irq_ok A" "current_ok A" by (simp_all add: ainv_def)
  note lv = live_iff [OF A(1) i(1)]
  have "inj_on (\<lambda>t. t_memory_block (k_tasks K t)) (set (a_jobs A))" using A(1) by (simp add: krel_def blocks_rel_def)
  then have "t = u" if "live K t \<and> live K u \<and> t_memory_block (k_tasks K t) = t_memory_block (k_tasks K u)" for t u
    using that lv by (auto dest: inj_onD)
  moreover have "live K t" if "k_current K = Some t" for t
    using that krel_current [OF A(1)] i(4) lv by (simp add: current_ok_def)
  moreover have "unat (k_task_id_cnt K) \<le> 64"
    using A(1) i(1) by (simp add: krel_def free_rel_def jobs_ok_def MAX_TASK_NUM_def unat_of_nat_small32)
  moreover have "live K t \<and> t_state (k_tasks K t) = AWATIEVENT" if "i' < 1024" "t \<in> set (event_waiters K i')" for i' t
  proof -
    have "i' < NUM_INTERRUPT" using that(1) by (simp add: NUM_INTERRUPT_def)
    with that(2) obtain j where "j < TASK_PRIORITY_MAX" "t \<in> set (a_irq A i' j)"
      by (auto simp: event_waiters_order [OF A(1)] set_service_order)
    with irq_member [OF i(3) \<open>i' < NUM_INTERRUPT\<close>] lv krel_state [OF A(1)] show ?thesis by auto
  qed
  moreover have "live K t \<and> t_state (k_tasks K t) = READY" if "t \<in> set (ready_tasks K)" for t
    using that set_ready_tasks [OF A(1) i(2,1)] by simp
  moreover have "descriptor_typed K t" if "live K t" for t
    using descriptor_typed_ok [OF A] that lv by simp
  ultimately show ?thesis unfolding kernel_typed_def by blast
qed

subsection \<open>The round of a timer interrupt\<close>

lemma wake_waiters:
  assumes inv: "ainv A" and i: "i < NUM_INTERRUPT"
  shows "service_order TASK_PRIORITY_MAX (a_irq (a_wake A i) i) = tl (service_order TASK_PRIORITY_MAX (a_irq A i))"
proof (cases "service_order TASK_PRIORITY_MAX (a_irq A i)")
  case Nil
  then show ?thesis by (simp add: a_wake_def)
next
  case (Cons t ts)
  from inv have irq: "irq_ok A" by (simp add: ainv_def)
  from service_order_head [OF Cons] obtain j where j: "j < TASK_PRIORITY_MAX" "a_irq A i j = t # tl (a_irq A i j)"
    "ts = service_order TASK_PRIORITY_MAX ((a_irq A i)(j := tl (a_irq A i j)))" by blast
  have "t \<in> set (a_irq A i j)" using j(2) by (metis list.set_intros(1))
  then have "a_prio A t = j" using irq_member [OF irq i j(1)] by simp
  then show ?thesis using Cons j(3) by (simp add: a_wake_def Let_def)
qed

lemma wake_head:
  "service_order TASK_PRIORITY_MAX (a_irq A i) = w # ws \<Longrightarrow> a_state (a_wake A i) = (a_state A)(w := READY)"
  "service_order TASK_PRIORITY_MAX (a_irq A i) = [] \<Longrightarrow> a_state (a_wake A i) = a_state A"
  by (simp_all add: a_wake_def Let_def)

lemma irq_requeue [simp]: "a_irq (a_requeue A) = a_irq A"
  by (simp add: a_requeue_def split: option.splits)

lemma irq_scheduled: "a_schedule A = (B, r) \<Longrightarrow> a_irq (a_run B t) = a_irq A"
  by (auto simp: a_schedule_def Let_def a_run_def a_take_def split: list.splits)

lemma timer_round:
  assumes inv: "system_inv S" and sch: "schedule (sy_kernel S) = Inr (K, Some t)"
    and exc: "tr_exc tr = IRQ" and tick: "tick_ok S tr" and w: "event_waiters (sy_kernel S) 97 = ws"
  shows "\<exists>S'. kmain_step S tr = Inr (S', True) \<and> system_inv S' \<and> k_mem (sy_kernel S') = tr_mem tr
    \<and> ck_next_tick_time (sc_clocks (sy_clocks S') 1)
        = ck_next_tick_time (sc_clocks (sy_clocks S) 1) + scast (ck_interval (sc_clocks (sy_clocks S) 1))
    \<and> ck_tick_count (sc_clocks (sy_clocks S') 1) = ck_tick_count (sc_clocks (sy_clocks S) 1) + 1
    \<and> st_C (sc_timer (sy_clocks S')) 1 = ucast (ck_next_tick_time (sc_clocks (sy_clocks S') 1))
    \<and> gc_eoi (sy_gicc S') = 97 \<and> event_waiters (sy_kernel S') 97 = tl ws
    \<and> (ws \<noteq> [] \<longrightarrow> t_state (k_tasks (sy_kernel S') (hd ws)) = READY \<and> hd ws \<in> set (ready_tasks (sy_kernel S')))
    \<and> (\<forall>u. live K u \<and> u \<noteq> t \<and> u \<notin> set (take 1 ws) \<longrightarrow> t_state (k_tasks (sy_kernel S') u) = t_state (k_tasks K u))"
proof -
  from inv obtain A where A: "krel (sy_kernel S) A" "ainv A" and irq: "sy_irq S 97 = Some Handle_timer_1"
    by (auto simp: system_inv_def kernel_inv_def)
  from A obtain B where B: "krel K B" "t \<in> set (a_jobs B)" "a_state B t = READY" "ainv (a_run B t)" "running (a_run B t) t"
    "a_schedule A = (B, Some t)" using sch by (cases rule: schedule_cases) auto
  have jB: "jobs_ok B"
  proof (rule jobs_ok_state [where A = "a_run B t" and s = READY and t = t])
    show "jobs_ok (a_run B t)" using B(4) by (simp add: ainv_def)
    show "a_state B = (a_state (a_run B t))(t := READY)" using B(3) by (auto simp: a_run_def)
  qed (simp_all add: a_run_def)
  have "a_state B t \<noteq> RUNNING" using B(3) by simp
  from activate_refine [OF B(1,2) this, of tr] obtain K2 where
    k2: "activate K t tr = Inr K2" "krel K2 (a_run B t)" "k_mem K2 = tr_mem tr" by blast
  have n: "(97::nat) < NUM_INTERRUPT" by (simp add: NUM_INTERRUPT_def)
  from wake_refine [OF k2(2) B(4), of 97] obtain K3 where
    k3: "wake_up_irq_blocked_tasks K2 97 = Inr K3" "krel K3 (a_wake (a_run B t) 97)" "k_memory K3 = k_memory K2" by auto
  from tick have t97: "tr_intid tr = 97" and early: "sys_timer_full_count (tr_chi tr) (tr_clo tr)
     < ck_next_tick_time (sc_clocks (sy_clocks S) 1) + scast (ck_interval (sc_clocks (sy_clocks S) 1))"
    by (simp_all add: tick_ok_def)
  from notify_tick_ok [OF _ early] obtain C where
    C: "sys_clock_notify_tick (sy_clocks S) 1 (tr_chi tr) (tr_clo tr) = Inr C" by auto
  let ?S = "S\<lparr>sy_kernel := K3, sy_clocks := C, sy_gicc := clear_interrupt (sy_gicc S) 97\<rparr>"
  have step: "kmain_step S tr = Inr (?S, True)"
    using sch k2(1) exc t97 irq C k3(1)
    by (simp add: kmain_step_def on_kernel_def handle_current_exception_def handle_irq_def Let_def)
  have W: "service_order TASK_PRIORITY_MAX (a_irq (a_run B t) 97) = ws"
    using w event_waiters_order [OF A(1) n] irq_scheduled [OF B(6)] by simp
  have aw: "ainv (a_wake (a_run B t) 97)" by (rule wake_inv [OF B(4,5) n])
  have ew: "event_waiters K3 97 = tl ws" using event_waiters_order [OF k3(2) n] wake_waiters [OF B(4) n] W by simp
  have hd: "t_state (k_tasks K3 (hd ws)) = READY \<and> hd ws \<in> set (ready_tasks K3)" if ne: "ws \<noteq> []"
  proof -
    obtain v vs where v: "ws = v # vs" using ne by (cases ws) auto
    have "v \<in> set (a_jobs (a_run B t))"
      using irq_order_head(1) [OF W [unfolded v] _ n] B(4) by (simp add: ainv_def)
    then have j: "v \<in> set (a_jobs (a_wake (a_run B t) 97))" by simp
    have r: "t_state (k_tasks K3 v) = READY" using krel_state [OF k3(2) j] wake_head(1) [OF W [unfolded v]] by simp
    have i: "jobs_ok (a_wake (a_run B t) 97)" "ready_ok (a_wake (a_run B t) 97)" using aw by (simp_all add: ainv_def)
    show ?thesis using r j set_ready_tasks [OF k3(2) i(2,1)] live_iff [OF k3(2) i(1)] v by simp
  qed
  have same: "t_state (k_tasks K3 u) = t_state (k_tasks K u)" if u: "live K u" "u \<noteq> t" "u \<notin> set (take 1 ws)" for u
  proof -
    have uj: "u \<in> set (a_jobs B)" using u(1) live_iff [OF B(1) jB] by simp
    then have "t_state (k_tasks K3 u) = a_state (a_wake (a_run B t) 97) u"
      using krel_state [OF k3(2), of u] by (simp add: a_run_def)
    also have "\<dots> = a_state (a_run B t) u" using wake_head W u(3) by (cases ws) auto
    also have "\<dots> = t_state (k_tasks K u)" using u(2) krel_state [OF B(1) uj] by (simp add: a_run_def)
    finally show ?thesis .
  qed
  have "system_inv ?S" using k3(2) aw irq by (auto simp: system_inv_def kernel_inv_def)
  moreover have "k_mem K3 = tr_mem tr" using k3(3) k2(3) by (simp add: k_mem_def)
  ultimately show ?thesis
    using step ew hd same notify_tick_effect [OF C] by (intro exI [of _ ?S]) (simp add: clear_interrupt_def)
qed

subsection \<open>What scheduling changes\<close>

lemma change_task_state_priority:
  "change_task_state K t s = Inr K' \<Longrightarrow> t_priority (k_tasks K' u) = t_priority (k_tasks K u)"
  by (auto simp: change_task_state_def bindE_assertE bindE_eq_Inr_iff split: if_splits prod.splits)

lemma schedule_priority: "schedule K = Inr (K', r) \<Longrightarrow> t_priority (k_tasks K' u) = t_priority (k_tasks K u)"
  unfolding schedule_def bindE_eq_Inr_iff
  by (auto simp: bindE_assertE bindE_eq_Inr_iff Let_def split: option.splits if_splits prod.splits
      dest!: change_task_state_priority [where u = u])

definition runnable :: "TaskState \<Rightarrow> bool" where
  "runnable s \<longleftrightarrow> s = READY \<or> s = RUNNING"

text \<open>Scheduling makes the running task ready and touches no other.\<close>

lemma schedule_state_effect:
  assumes "ainv A" and "a_schedule A = (B, r)" and "v \<in> set (a_jobs A)"
  shows "a_state B v = (if a_state A v = RUNNING then READY else a_state A v)"
proof -
  have "a_state B = a_state (a_requeue A)"
    using assms(2) by (auto simp: a_schedule_def a_take_def Let_def split: list.splits)
  moreover have "a_state A v = RUNNING \<Longrightarrow> a_current A = Some v"
    using assms(1,3) unfolding ainv_def current_ok_def by blast
  ultimately show ?thesis by (auto simp: a_requeue_def split: option.splits)
qed

lemma schedule_effect:
  assumes inv: "system_inv S"
  shows "\<exists>K r. schedule (sy_kernel S) = Inr (K, r)
    \<and> (\<forall>v. live K v = live (sy_kernel S) v)
    \<and> (\<forall>v. live (sy_kernel S) v \<longrightarrow> t_priority (k_tasks K v) = t_priority (k_tasks (sy_kernel S) v)
         \<and> t_state (k_tasks K v) = (if t_state (k_tasks (sy_kernel S) v) = RUNNING then READY else t_state (k_tasks (sy_kernel S) v)))
    \<and> (case r of
         None \<Rightarrow> \<forall>v. live (sy_kernel S) v \<longrightarrow> \<not> runnable (t_state (k_tasks (sy_kernel S) v))
       | Some t \<Rightarrow> live (sy_kernel S) t \<and> runnable (t_state (k_tasks (sy_kernel S) t))
           \<and> (\<forall>v. live (sy_kernel S) v \<and> runnable (t_state (k_tasks (sy_kernel S) v))
                \<longrightarrow> sint (t_priority (k_tasks (sy_kernel S) v)) \<le> sint (t_priority (k_tasks (sy_kernel S) t))))"
proof -
  from inv obtain A where A: "krel (sy_kernel S) A" "ainv A" by (auto simp: system_inv_def kernel_inv_def)
  from schedule_refine [OF A] obtain K where
    k: "schedule (sy_kernel S) = Inr (K, snd (a_schedule A))" "krel K (fst (a_schedule A))" by blast
  obtain B r where B: "a_schedule A = (B, r)" by (cases "a_schedule A")
  then have k: "schedule (sy_kernel S) = Inr (K, r)" "krel K B" using k by simp_all
  have jobs: "a_jobs B = a_jobs A"
    using B requeue_ready by (auto simp: a_schedule_def Let_def a_take_def split: list.splits)
  note st = schedule_state_effect [OF A(2) B]
  have j: "jobs_ok A" using A(2) by (simp add: ainv_def)
  have "jobs_ok B"
    using requeue_idle_inv [OF A(2)] B by (auto simp: idle_inv_def a_schedule_def Let_def a_take_def jobs_ok_def split: list.splits)
  note lv = live_iff [OF A(1) j] and lv' = live_iff [OF k(2) this]
  have live: "live K v = live (sy_kernel S) v" for v using lv lv' jobs by simp
  have state: "t_state (k_tasks K v) = (if t_state (k_tasks (sy_kernel S) v) = RUNNING then READY else t_state (k_tasks (sy_kernel S) v))"
    if "live (sy_kernel S) v" for v
    using that lv st [of v] krel_state [OF A(1), of v] krel_state [OF k(2), of v] jobs by simp
  note prio = schedule_priority [OF k(1)]
  show ?thesis
  proof (cases r)
    case None
    have "\<forall>v. live (sy_kernel S) v \<longrightarrow> \<not> runnable (t_state (k_tasks (sy_kernel S) v))"
      using schedule_stops [OF inv] k(1) None by (auto simp: runnable_def)
    then show ?thesis using k(1) live state prio None by auto
  next
    case (Some t)
    have h: "live K t" "t_state (k_tasks K t) = READY"
      "\<And>v. live K v \<Longrightarrow> t_state (k_tasks K v) = READY \<Longrightarrow> sint (t_priority (k_tasks K v)) \<le> sint (t_priority (k_tasks K t))"
      using schedule_highest [OF inv] k(1) Some by blast+
    then have "live (sy_kernel S) t \<and> runnable (t_state (k_tasks (sy_kernel S) t))"
      using live state [of t] by (auto simp: runnable_def split: if_splits)
    moreover have "sint (t_priority (k_tasks (sy_kernel S) v)) \<le> sint (t_priority (k_tasks (sy_kernel S) t))"
      if "live (sy_kernel S) v" "runnable (t_state (k_tasks (sy_kernel S) v))" for v
      using h(3) [of v] that live state [of v] prio by (auto simp: runnable_def split: if_splits)
    ultimately show ?thesis using k(1) live state prio Some by auto
  qed
qed

end
