(* ===== verification/Saved_Context.thy ===== *)
theory Saved_Context
  imports Kernel_View
begin

text \<open>
  The context of a task that is not running: the registers, the stack pointer, the status and the program
  counter that \<^verbatim>\<open>save_user_regs\<close> stored at its last trap.  No part of the kernel but the trap itself
  writes them, with three exceptions: \<^verbatim>\<open>create_task\<close> prepares the context of a descriptor that is free,
  \<^verbatim>\<open>remove_current_task\<close> clears the one of the leaving task, and \<^verbatim>\<open>activate\<close> puts a result into
  the first register.
\<close>

definition saved_context :: "Task \<Rightarrow> (nat \<Rightarrow> u64) \<times> u64 \<times> u64 \<times> u64 \<times> u64" where
  "saved_context d = (t_x d, t_sp d, t_spsr d, t_pc d, t_x30_copy d)"

definition trap_context :: "Trap \<Rightarrow> (nat \<Rightarrow> u64) \<times> u64 \<times> u64 \<times> u64 \<times> u64" where
  "trap_context tr = (tr_x tr, tr_sp tr, tr_spsr tr, tr_pc tr, tr_x tr 30)"

lemma saved_context_simps [simp]:
  "saved_context (d\<lparr>t_state := s\<rparr>) = saved_context d" "saved_context (d\<lparr>t_senders := q\<rparr>) = saved_context d"
  "saved_context (assign_result d r) = saved_context d" "saved_context (d\<lparr>t_job_node := n\<rparr>) = saved_context d"
  by (simp_all add: saved_context_def assign_result_def)

lemma saved_context_x: "saved_context d = saved_context e \<Longrightarrow> t_x d = t_x e"
  by (simp add: saved_context_def)

subsection \<open>Every operation leaves the contexts alone\<close>

lemma change_task_state_context:
  "change_task_state K t s = Inr K' \<Longrightarrow> saved_context (k_tasks K' u) = saved_context (k_tasks K u)"
  by (auto simp: change_task_state_def bindE_assertE bindE_eq_Inr_iff split: if_splits prod.splits)

lemma schedule_context:
  assumes "schedule K = Inr (K', r)"
  shows "saved_context (k_tasks K' u) = saved_context (k_tasks K u)"
proof -
  let ?q = "(case k_current K of
          Some cur \<Rightarrow>
            let state = t_state (k_tasks K cur)
            in bindE (assertE (state = RUNNING \<or> state < READY)) (\<lambda>_.
               if state = RUNNING then change_task_state K cur READY else Inr K)
        | None \<Rightarrow> Inr K)"
  from assms obtain K1 where k1: "?q = Inr K1"
    and rest: "(if \<not> ptask_queue_empty (k_readyq K1)
          then bindE (ptask_queue_pop (k_readyq_pool K1) (k_readyq K1)) (\<lambda>(pool, pq, result).
               Inr (K1\<lparr>k_readyq_pool := pool, k_readyq := pq\<rparr>, result))
          else Inr (K1, None)) = Inr (K', r)"
    unfolding schedule_def bindE_eq_Inr_iff by blast
  have "saved_context (k_tasks K1 u) = saved_context (k_tasks K u)"
    using k1 change_task_state_context [of K _ READY K1 u]
    by (auto simp: bindE_assertE Let_def split: option.splits if_splits)
  moreover have "k_tasks K' = k_tasks K1"
    using rest by (auto simp: bindE_eq_Inr_iff split: if_splits prod.splits)
  ultimately show ?thesis by simp
qed

lemma exchange_context:
  "synchronized_send_receive K s from lf r dest lt = Inr (K', n) \<Longrightarrow> saved_context (k_tasks K' u) = saved_context (k_tasks K u)"
  by (auto simp: synchronized_send_receive_def copy_message_eq bindE_eq_Inr_iff Let_def
      split: option.splits if_splits dest: change_task_state_context [where u = u])

lemma register_sender_context:
  "register_sender K r s = Inr (K', ok) \<Longrightarrow> saved_context (k_tasks K' u) = saved_context (k_tasks K u)"
  by (auto simp: register_sender_def bindE_eq_Inr_iff split: prod.splits)

lemma next_sender_context:
  "next_sender K r = Inr (K', e) \<Longrightarrow> saved_context (k_tasks K' u) = saved_context (k_tasks K u)"
  by (auto simp: next_sender_def bindE_eq_Inr_iff split: prod.splits)

lemma sys_send_context:
  "sys_send K = Inr K' \<Longrightarrow> saved_context (k_tasks K' u) = saved_context (k_tasks K u)"
  by (auto simp: sys_send_def bindE_eq_Inr_iff Let_def split: option.splits if_splits prod.splits
      dest!: change_task_state_context [where u = u] exchange_context [where u = u] register_sender_context [where u = u])

lemma sys_receive_context:
  "sys_receive K = Inr K' \<Longrightarrow> saved_context (k_tasks K' u) = saved_context (k_tasks K u)"
  by (auto simp: sys_receive_def bindE_eq_Inr_iff Let_def split: option.splits if_splits prod.splits
      dest!: change_task_state_context [where u = u] exchange_context [where u = u] next_sender_context [where u = u])

lemma sys_reply_context:
  "sys_reply K = Inr K' \<Longrightarrow> saved_context (k_tasks K' u) = saved_context (k_tasks K u)"
  by (auto simp: sys_reply_def bindE_eq_Inr_iff Let_def split: option.splits if_splits prod.splits
      dest!: exchange_context [where u = u])

lemma add_to_irq_queue_tasks: "add_to_irq_queue K i t = Inr K' \<Longrightarrow> k_tasks K' = k_tasks K"
  by (auto simp: add_to_irq_queue_def bindE_assertE bindE_eq_Inr_iff split: if_splits prod.splits)

lemma sys_await_event_context:
  "sys_await_event K = Inr K' \<Longrightarrow> saved_context (k_tasks K' u) = saved_context (k_tasks K u)"
  by (auto simp: sys_await_event_def bindE_eq_Inr_iff Let_def
      dest!: change_task_state_context [where u = u] add_to_irq_queue_tasks)

lemma wake_context:
  "wake_up_irq_blocked_tasks K i = Inr K' \<Longrightarrow> saved_context (k_tasks K' u) = saved_context (k_tasks K u)"
  by (auto simp: wake_up_irq_blocked_tasks_def bindE_assertE bindE_eq_Inr_iff Let_def split: if_splits prod.splits
      dest!: change_task_state_context [where u = u])

lemma create_task_context:
  assumes "create_task K p f par = Inr (K', r)" and "k_task_pool_ptr K \<noteq> Some u"
  shows "saved_context (k_tasks K' u) = saved_context (k_tasks K u)"
  using assms
  by (auto simp: create_task_def bindE_eq_Inr_iff Let_def split: option.splits prod.splits
      dest!: change_task_state_context [where u = u])

lemma sys_create_context:
  "sys_create K = Inr K' \<Longrightarrow> k_task_pool_ptr K \<noteq> Some u \<Longrightarrow> saved_context (k_tasks K' u) = saved_context (k_tasks K u)"
  by (auto simp: sys_create_def bindE_eq_Inr_iff Let_def split: option.splits prod.splits
      dest!: create_task_context [where u = u])

lemma sys_exit_context:
  "sys_exit K = Inr K' \<Longrightarrow> k_current K \<noteq> Some u \<Longrightarrow> saved_context (k_tasks K' u) = saved_context (k_tasks K u)"
  by (auto simp: sys_exit_def remove_current_task_def bindE_eq_Inr_iff Let_def split: prod.splits)

text \<open>The call of a task, but its exit, leaves every context alone, but that of a free descriptor.\<close>

lemma run_handler_context:
  assumes "run_handler h K = Inr K'" and "k_task_pool_ptr K \<noteq> Some u" and "h = H_exit \<longrightarrow> k_current K \<noteq> Some u"
  shows "saved_context (k_tasks K' u) = saved_context (k_tasks K u)"
  using assms
  by (cases h) (auto simp: sys_yield_def sys_tid_def sys_parent_tid_def split: option.splits
      dest: sys_create_context sys_exit_context sys_send_context sys_receive_context sys_reply_context sys_await_event_context)

lemma run_irq_kernel: "run_irq_handler h S chi clo = Inr S' \<Longrightarrow> sy_kernel S' = sy_kernel S"
  by (cases h) (auto simp: bindE_eq_Inr_iff)

lemma irq_handled:
  assumes "handle_current_exception S tr = Inr S'" and "tr_exc tr = IRQ"
  shows "wake_up_irq_blocked_tasks (sy_kernel S) (sint (tr_intid tr)) = Inr (sy_kernel S')"
  using assms
  by (auto simp: handle_current_exception_def handle_irq_def on_kernel_def bindE_eq_Inr_iff bindE_assertE Let_def
      split: if_splits dest!: run_irq_kernel)

lemma handle_context:
  assumes "handle_current_exception S tr = Inr S'" and "k_task_pool_ptr (sy_kernel S) \<noteq> Some u"
    and "exits S tr \<longrightarrow> k_current (sy_kernel S) \<noteq> Some u"
  shows "saved_context (k_tasks (sy_kernel S') u) = saved_context (k_tasks (sy_kernel S) u)"
proof (cases "tr_exc tr")
  case SYNCHRONOUS_EXCEPTION
  with assms show ?thesis
    by (auto simp: handle_current_exception_def handle_synchronous_exception_def on_kernel_def bindE_eq_Inr_iff Let_def
        exits_def split: if_splits dest!: run_handler_context [where u = u])
next
  case IRQ
  from wake_context [OF irq_handled [OF assms(1) this]] show ?thesis .
qed

subsection \<open>One round\<close>

text \<open>The state of the kernel when the task that was picked has trapped.\<close>

lemma scheduled_task:
  assumes inv: "system_inv S" and sch: "schedule (sy_kernel S) = Inr (K, Some t)"
  obtains A B K2 where "krel (sy_kernel S) A" "ainv A" "a_schedule A = (B, Some t)" "krel K B" "activate K t tr = Inr K2"
    "krel K2 (a_run B t)" "ainv (a_run B t)" "running (a_run B t) t" "k_mem K2 = tr_mem tr" "k_current K2 = Some t"
    "sy_irq S 97 = Some Handle_timer_1" "a_jobs B = a_jobs A"
proof -
  from inv obtain A where A: "krel (sy_kernel S) A" "ainv A" and irq: "sy_irq S 97 = Some Handle_timer_1"
    by (auto simp: system_inv_def kernel_inv_def)
  from A obtain B where B: "krel K B" "t \<in> set (a_jobs B)" "a_state B t = READY" "ainv (a_run B t)" "running (a_run B t) t"
    "a_schedule A = (B, Some t)" using sch by (cases rule: schedule_cases) auto
  have "a_state B t \<noteq> RUNNING" using B(3) by simp
  from activate_refine [OF B(1,2) this, of tr] obtain K2 where
    k2: "activate K t tr = Inr K2" "krel K2 (a_run B t)" "k_mem K2 = tr_mem tr" "k_current K2 = Some t" by blast
  have "a_jobs B = a_jobs A"
    using B(6) requeue_ready by (auto simp: a_schedule_def Let_def a_take_def split: list.splits)
  with that A B k2 irq show thesis by blast
qed

lemma activate_context:
  assumes "activate K t tr = Inr K'"
  shows "saved_context (k_tasks K' u) = (if u = t then trap_context tr else saved_context (k_tasks K u))"
proof -
  from assms obtain K1 where k1: "change_task_state K t RUNNING = Inr K1"
    "activate_running_task (upd_task K1 t pass_result) tr = Inr K'"
    by (auto simp: activate_def bindE_eq_Inr_iff)
  have "k_current K1 = Some t" using k1(1) by (auto simp: change_task_state_def bindE_assertE split: if_splits)
  then show ?thesis
    using k1(2) change_task_state_context [OF k1(1), of u]
    by (auto simp: activate_running_task_def saved_context_def trap_context_def)
qed

lemma kmain_step_unfold:
  assumes "schedule (sy_kernel S) = Inr (K, Some t)" and "activate K t tr = Inr K2" and "kmain_step S tr = Inr (S', g)"
  shows "handle_current_exception (S\<lparr>sy_kernel := K2\<rparr>) tr = Inr S'" and "g"
  using assms by (auto simp: kmain_step_def on_kernel_def bindE_eq_Inr_iff)

lemma exits_kernel [simp]: "exits (S\<lparr>sy_kernel := K\<rparr>) tr = exits S tr"
  by (simp add: exits_def)

lemma live_job: "krel K A \<Longrightarrow> ainv A \<Longrightarrow> live K u \<longleftrightarrow> u \<in> set (a_jobs A)"
  by (rule live_iff) (simp_all add: ainv_def)

text \<open>A round gives the task that ran the context of its trap and leaves the contexts of the other live tasks alone.\<close>

lemma round_context:
  assumes inv: "system_inv S" and sch: "schedule (sy_kernel S) = Inr (K, Some t)" and step: "kmain_step S tr = Inr (S', g)"
    and u: "live (sy_kernel S) u" "u = t \<longrightarrow> \<not> exits S tr"
  shows "saved_context (k_tasks (sy_kernel S') u)
    = (if u = t then trap_context tr else saved_context (k_tasks (sy_kernel S) u))"
proof -
  from scheduled_task [OF inv sch, of tr] obtain A B K2 where
    A: "krel (sy_kernel S) A" "ainv A" "activate K t tr = Inr K2" "krel K2 (a_run B t)" "ainv (a_run B t)"
      "k_current K2 = Some t" "a_jobs B = a_jobs A" by metis
  have h: "handle_current_exception (S\<lparr>sy_kernel := K2\<rparr>) tr = Inr S'" by (rule kmain_step_unfold [OF sch A(3) step])
  have uj: "u \<in> set (a_jobs (a_run B t))" using live_job [OF A(1,2)] u(1) A(7) by (simp add: a_run_def)
  have "a_created (a_run B t) \<noteq> u" using fresh_job [of "a_run B t"] A(5) uj by (auto simp: ainv_def)
  then have "k_task_pool_ptr K2 \<noteq> Some u" using A(4) by (auto simp: krel_def free_rel_def)
  then have "saved_context (k_tasks (sy_kernel S') u) = saved_context (k_tasks K2 u)"
    using handle_context [OF h, of u] u(2) A(6) by auto
  then show ?thesis using activate_context [OF A(3), of u] schedule_context [OF sch, of u] by simp
qed

lemma round_live:
  assumes inv: "system_inv S" and sch: "schedule (sy_kernel S) = Inr (K, Some t)" and ok: "well_behaved S tr"
    and step: "kmain_step S tr = Inr (S', g)" and u: "live (sy_kernel S) u" "u = t \<longrightarrow> \<not> exits S tr"
  shows "live (sy_kernel S') u"
proof -
  from scheduled_task [OF inv sch, of tr] obtain A B K2 where
    A: "krel (sy_kernel S) A" "ainv A" "a_schedule A = (B, Some t)" "a_jobs B = a_jobs A" "sy_irq S 97 = Some Handle_timer_1"
    by metis
  from kmain_step_refine [OF A(1,2,5) ok A(3)] step obtain A' where
    A': "krel (sy_kernel S') A'" "ainv A'" "a_extends (a_run B t) A'"
      "\<not> exits S tr \<longrightarrow> set (a_jobs (a_run B t)) \<subseteq> set (a_jobs A')" by auto
  have "u \<in> set (a_jobs A)" using u(1) live_job [OF A(1,2)] by simp
  then have "u \<in> set (a_jobs A')" using A'(3,4) A(4) u(2) by (cases "u = t") (auto simp: a_extends_def a_run_def)
  then show ?thesis using live_job [OF A'(1,2)] by simp
qed

subsection \<open>While other tasks run\<close>

inductive others_run :: "task_ptr \<Rightarrow> System \<Rightarrow> System \<Rightarrow> bool" for t :: task_ptr and S :: System where
  others_start: "others_run t S S"
| others_round: "others_run t S S1 \<Longrightarrow> schedule (sy_kernel S1) = Inr (K, Some u) \<Longrightarrow> u \<noteq> t \<Longrightarrow> well_behaved S1 tr
    \<Longrightarrow> kmain_step S1 tr = Inr (S2, True) \<Longrightarrow> others_run t S S2"

lemma others_run_keeps:
  assumes "others_run t S S'" and "system_inv S" and "live (sy_kernel S) t"
  shows "system_inv S' \<and> live (sy_kernel S') t
    \<and> saved_context (k_tasks (sy_kernel S') t) = saved_context (k_tasks (sy_kernel S) t)"
  using assms
proof (induction rule: others_run.induct)
  case (others_round S1 K u tr S2)
  then have IH: "system_inv S1" "live (sy_kernel S1) t"
    "saved_context (k_tasks (sy_kernel S1) t) = saved_context (k_tasks (sy_kernel S) t)" by simp_all
  have "t \<noteq> u" using others_round.hyps(3) by simp
  then show ?case
    using kmain_step_ok [OF IH(1) others_round.hyps(4)] others_round.hyps(5) IH(3)
      round_live [OF IH(1) others_round.hyps(2,4,5) IH(2)] round_context [OF IH(1) others_round.hyps(2,5) IH(2)] by auto
qed simp

lemma picked_live:
  assumes inv: "system_inv S" and sch: "schedule (sy_kernel S) = Inr (K, Some t)"
  shows "live (sy_kernel S) t"
proof -
  from scheduled_task [OF inv sch] obtain A B where
    "krel (sy_kernel S) A" "ainv A" "running (a_run B t) t" "a_jobs B = a_jobs A" by metis
  then show ?thesis using live_job by (simp add: running_def a_run_def)
qed

lemma picked_state:
  assumes inv: "system_inv S" and sch: "schedule (sy_kernel S) = Inr (K, Some t)"
  shows "t_state (k_tasks (sy_kernel S) t) = READY \<or> t_state (k_tasks (sy_kernel S) t) = RUNNING"
proof -
  from scheduled_task [OF inv sch] obtain A B where
    A: "krel (sy_kernel S) A" "ainv A" "a_schedule A = (B, Some t)" by metis
  have "a_state (a_requeue A) t = READY"
    using A(3) requeue_idle_inv [OF A(2)] order_head(2) [of "a_requeue A" t]
    by (auto simp: a_schedule_def Let_def idle_inv_def split: list.splits)
  moreover have "t \<in> set (a_jobs A)" using picked_live [OF inv sch] live_job [OF A(1,2)] by simp
  ultimately show ?thesis using requeue_ready [of A t] krel_state [OF A(1), of t] by auto
qed

end
