(* ===== verification/Message_Facts.thy ===== *)
theory Message_Facts
  imports Message_Refine
begin

text \<open>
  What the system calls do, on the bytes of the messages and on their error paths, stated
  on the descriptors and the memory alone.
\<close>

subsection \<open>The bytes of a message\<close>

text \<open>
  A transfer of \<open>len\<close> bytes from \<open>src\<close> to \<open>dst\<close>, after the number of the sender has been
  stored at \<open>tidp\<close>: the three regions do not overlap.
\<close>

definition clean_transfer :: "u64 \<Rightarrow> u64 \<Rightarrow> u64 \<Rightarrow> nat \<Rightarrow> bool" where
  "clean_transfer tidp dst src n \<longleftrightarrow> regions_disjoint dst n src n
     \<and> regions_disjoint tidp 4 src n \<and> regions_disjoint tidp 4 dst n"

lemma nonneg_length: "0 \<le> sint (n::i32) \<Longrightarrow> unat (scast n :: u64) = nat (sint n)"
proof -
  assume n: "0 \<le> sint n"
  have b: "nat (sint n) < 2 ^ 64" using sint_lt [of n] by simp
  have "(scast n :: u64) = word_of_nat (nat (sint n))" by (simp only: scast_eq of_nat_nat [OF n])
  then show ?thesis using unat_of_nat_small64 [OF b] by simp
qed

lemma exchange_length_cases: "exchange_length a b = a \<or> exchange_length a b = b"
  by (simp add: exchange_length_def)

lemma exchange_length_min: "sint (exchange_length a b) = min (sint a) (sint b)"
  by (simp add: exchange_length_def min_def)

lemma transfer_bytes:
  assumes m': "m' = memcpy (store_int m tidp v) dst src (scast len)"
    and len: "0 \<le> sint (len :: i32)" and clean: "clean_transfer tidp dst src (nat (sint len))"
  shows "read_bytes m' dst (nat (sint len)) = read_bytes m src (nat (sint len)) \<and> load_int m' tidp = v"
proof -
  let ?n = "nat (sint len)" and ?m = "store_int m tidp v"
  have n: "?n \<le> 2 ^ 64" using sint_lt [of len] by simp
  have m2: "m' = memcpy_loop ?n ?m dst src" by (simp add: m' memcpy_def nonneg_length [OF len])
  have c: "regions_disjoint dst ?n src ?n" "regions_disjoint tidp 4 src ?n" "regions_disjoint tidp 4 dst ?n"
    using clean by (simp_all add: clean_transfer_def)
  have "read_bytes m' dst ?n = read_bytes ?m src ?n"
    unfolding m2 by (rule memcpy_loop_bytes [OF n c(1)])
  also have "read_bytes ?m src ?n = read_bytes m src ?n"
  proof -
    have "?m (src + word_of_nat i) = m (src + word_of_nat i)" if "i < ?n" for i
    proof -
      have "in_region (src + word_of_nat i) src ?n" by (rule in_region_offset [OF that n])
      then have "\<not> in_region (src + word_of_nat i) tidp 4" using c(2) by (auto simp: regions_disjoint_def)
      then show ?thesis by (rule store_int_other)
    qed
    then show ?thesis by (simp add: read_bytes_def)
  qed
  finally have bytes: "read_bytes m' dst ?n = read_bytes m src ?n" .
  have keep: "m' x = ?m x" if "in_region x tidp 4" for x
  proof -
    have "\<not> in_region x dst ?n" using c(3) that by (auto simp: regions_disjoint_def)
    then show ?thesis by (simp add: m2 memcpy_loop_spec [OF n c(1)])
  qed
  have "in_region (tidp + word_of_nat i) tidp 4" if "i < 4" for i using that by (intro in_region_offset) simp_all
  from this [of 0] this [of 1] this [of 2] this [of 3] have
    "m' tidp = ?m tidp" "m' (tidp + 1) = ?m (tidp + 1)" "m' (tidp + 2) = ?m (tidp + 2)" "m' (tidp + 3) = ?m (tidp + 3)"
    using keep by simp_all
  then have "load_int m' tidp = load_int ?m tidp" by (simp add: load_int_def)
  with bytes show ?thesis by (simp add: load_store_int)
qed

lemma send_bytes:
  assumes inv: "kernel_inv K" and c: "caller K c" and r: "addressee K c = Inr (Some r)"
    and w: "t_state (k_tasks K r) = WAITRECEIVE"
    and n: "n = nat (min (sint (ucast (t_x (k_tasks K c) 2) :: i32)) (sint (ucast (t_x (k_tasks K r) 2) :: i32)))"
    and pos: "0 \<le> sint (ucast (t_x (k_tasks K c) 2) :: i32)" "0 \<le> sint (ucast (t_x (k_tasks K r) 2) :: i32)"
    and clean: "clean_transfer (t_x (k_tasks K r) 0) (t_x (k_tasks K r) 1) (t_x (k_tasks K c) 1) n"
  shows "\<exists>K'. sys_send K = Inr K' \<and> kernel_inv K'
    \<and> read_bytes (k_mem K') (t_x (k_tasks K r) 1) n = read_bytes (k_mem K) (t_x (k_tasks K c) 1) n
    \<and> load_int (k_mem K') (t_x (k_tasks K r) 0) = word_of_nat c
    \<and> t_state (k_tasks K' r) = READY \<and> t_result (k_tasks K' r) = word_of_nat n
    \<and> t_state (k_tasks K' c) = WATIREPLY"
proof -
  from send_to_waiting [OF inv c r w] obtain K' len where k: "sys_send K = Inr K'" "kernel_inv K'"
    "len = exchange_length (ucast (t_x (k_tasks K c) 2)) (ucast (t_x (k_tasks K r) 2))"
    "k_mem K' = memcpy (store_int (k_mem K) (t_x (k_tasks K r) 0) (word_of_nat c))
         (t_x (k_tasks K r) 1) (t_x (k_tasks K c) 1) (scast len)"
    "k_tasks K' = (k_tasks K)(r := (assign_result (k_tasks K r) (scast len))\<lparr>t_state := READY\<rparr>,
         c := (k_tasks K c)\<lparr>t_state := WATIREPLY\<rparr>)" by (elim exE conjE)
  have len: "sint len = int n" "0 \<le> sint len" using pos by (simp_all add: k(3) exchange_length_min n)
  then have nn: "nat (sint len) = n" by simp
  have rc: "r \<noteq> c" using w c by (auto simp: caller_def)
  from transfer_bytes [OF k(4) len(2)] clean nn have
    "read_bytes (k_mem K') (t_x (k_tasks K r) 1) n = read_bytes (k_mem K) (t_x (k_tasks K c) 1) n"
    "load_int (k_mem K') (t_x (k_tasks K r) 0) = word_of_nat c" by simp_all
  moreover have "(scast len :: u64) = word_of_nat n" by (simp add: scast_eq len(1))
  ultimately show ?thesis using k(1,2) rc by (intro exI [of _ K'] conjI) (simp_all add: k(5))
qed

lemma reply_bytes:
  assumes inv: "kernel_inv K" and c: "caller K c" and r: "addressee K c = Inr (Some s)"
    and w: "t_state (k_tasks K s) = WATIREPLY"
    and n: "n = nat (min (sint (ucast (t_x (k_tasks K c) 2) :: i32)) (sint (ucast (t_x (k_tasks K s) 4) :: i32)))"
    and pos: "0 \<le> sint (ucast (t_x (k_tasks K c) 2) :: i32)" "0 \<le> sint (ucast (t_x (k_tasks K s) 4) :: i32)"
    and clean: "regions_disjoint (t_x (k_tasks K s) 3) n (t_x (k_tasks K c) 1) n"
  shows "\<exists>K'. sys_reply K = Inr K' \<and> kernel_inv K'
    \<and> read_bytes (k_mem K') (t_x (k_tasks K s) 3) n = read_bytes (k_mem K) (t_x (k_tasks K c) 1) n
    \<and> t_state (k_tasks K' s) = READY \<and> t_result (k_tasks K' s) = word_of_nat n
    \<and> t_state (k_tasks K' c) = RUNNING \<and> t_result (k_tasks K' c) = word_of_nat n
    \<and> t_should_pass_result (k_tasks K' s) \<and> t_should_pass_result (k_tasks K' c)"
proof -
  from reply_wakes [OF inv c r w] obtain K' len where k: "sys_reply K = Inr K'" "kernel_inv K'"
    "len = exchange_length (ucast (t_x (k_tasks K c) 2)) (ucast (t_x (k_tasks K s) 4))"
    "k_mem K' = memcpy (k_mem K) (t_x (k_tasks K s) 3) (t_x (k_tasks K c) 1) (scast len)"
    "k_tasks K' = (k_tasks K)(s := (assign_result (k_tasks K s) (scast len))\<lparr>t_state := READY\<rparr>,
         c := assign_result (k_tasks K c) (scast len))" by (elim exE conjE)
  have len: "sint len = int n" "0 \<le> sint len" using pos by (simp_all add: k(3) exchange_length_min n)
  have nn: "n \<le> 2 ^ 64" using len sint_lt [of len] by simp
  have sc: "s \<noteq> c" "t_state (k_tasks K c) = RUNNING" using w c by (auto simp: caller_def)
  have u: "unat (scast len :: u64) = n" using nonneg_length [OF len(2)] len(1) by simp
  have "read_bytes (k_mem K') (t_x (k_tasks K s) 3) n = read_bytes (k_mem K) (t_x (k_tasks K c) 1) n"
    unfolding k(4) memcpy_def u by (rule memcpy_loop_bytes [OF nn clean])
  moreover have "(scast len :: u64) = word_of_nat n" by (simp add: scast_eq len(1))
  ultimately show ?thesis using k(1,2) sc by (intro exI [of _ K'] conjI) (simp_all add: k(5))
qed

subsection \<open>Queueing and failing\<close>

lemma send_queues:
  assumes inv: "kernel_inv K" and c: "caller K c" and r: "addressee K c = Inr (Some r)"
    and w: "t_state (k_tasks K r) \<noteq> WAITRECEIVE" and room: "length (waiting_senders K r) < 63"
  shows "\<exists>K'. sys_send K = Inr K' \<and> kernel_inv K' \<and> k_mem K' = k_mem K
    \<and> t_state (k_tasks K' c) = WATISEND \<and> waiting_senders K' r = waiting_senders K r @ [word_of_nat c]"
proof -
  from kernel_inv_caller [OF inv c] obtain A where A: "krel K A" "ainv A" "running A c" by blast
  note a = addressee_job [OF A(1) r]
  have w': "a_state A r \<noteq> WAITRECEIVE" using a(3) w by simp
  have cj: "c \<in> set (a_jobs A)" using A(3) by (simp add: running_def)
  have ws: "waiting_senders K r = map word_of_nat (a_senders A r)"
    using krel_task [OF A(1) a(2)] by (simp add: task_rel_def waiting_senders_def)
  with room have len: "length (a_senders A r) < MAX_SENDER_CAPACITY - 1" by (simp add: MAX_SENDER_CAPACITY_def)
  from sys_send_queued [OF A a(1) w'] obtain K' where
    k: "sys_send K = Inr K'" "krel K' (a_send A c (Some r))" "k_mem K' = k_mem K" by blast
  let ?B = "a_send A c (Some r)"
  have B: "a_jobs ?B = a_jobs A" "a_state ?B c = WATISEND" "a_senders ?B r = a_senders A r @ [c]"
    using w' len by (simp_all add: a_send_def)
  have "t_state (k_tasks K' c) = WATISEND" using krel_state [OF k(2), of c] cj B by simp
  moreover have "waiting_senders K' r = waiting_senders K r @ [word_of_nat c]"
    using krel_task [OF k(2), of r] a(2) B ws by (simp add: task_rel_def waiting_senders_def)
  moreover have "kernel_inv K'"
    using k(2) send_inv [OF A(2,3), of "Some r"] a(2) by (intro kernel_invI) simp_all
  ultimately show ?thesis using k(1,3) by blast
qed

lemma send_full:
  assumes inv: "kernel_inv K" and c: "caller K c" and r: "addressee K c = Inr (Some r)"
    and w: "t_state (k_tasks K r) \<noteq> WAITRECEIVE" and full: "length (waiting_senders K r) = 63"
  shows "sys_send K = Inr (give_result K c (- 2))"
proof -
  from kernel_inv_caller [OF inv c] obtain A where A: "krel K A" "ainv A" "running A c" by blast
  note a = addressee_job [OF A(1) r]
  have "length (a_senders A r) = MAX_SENDER_CAPACITY - 1"
    using krel_task [OF A(1) a(2)] full by (simp add: task_rel_def waiting_senders_def MAX_SENDER_CAPACITY_def)
  with sys_send_queued [OF A a(1)] a(3) w show ?thesis by auto
qed

lemma call_to_nobody:
  assumes inv: "kernel_inv K" and c: "caller K c" and r: "addressee K c = Inr None"
  shows "sys_send K = Inr (give_result K c (- 1)) \<and> sys_reply K = Inr (give_result K c (- 1))
    \<and> kernel_inv (give_result K c (- 1))"
proof -
  from kernel_inv_caller [OF inv c] obtain A where A: "krel K A" "ainv A" "running A c" by blast
  have t: "send_target K A c = None" using addressee_target [OF A(1), of c] r by simp
  have "sys_reply K = Inr (give_result K c (- 1))" using reply_find [OF A(1,3)] t by simp
  moreover have "kernel_inv (give_result K c (- 1))" using A(1,2) by (intro kernel_invI) (simp_all only: krel_give_result)
  ultimately show ?thesis using sys_send_missing [OF A(1,3) t] by simp
qed

lemma receive_blocks:
  assumes inv: "kernel_inv K" and c: "caller K c" and none: "waiting_senders K c = []"
  shows "sys_receive K = Inr (upd_task K c (\<lambda>d. d\<lparr>t_state := WAITRECEIVE\<rparr>))
    \<and> kernel_inv (upd_task K c (\<lambda>d. d\<lparr>t_state := WAITRECEIVE\<rparr>))"
proof -
  from kernel_inv_caller [OF inv c] obtain A where A: "krel K A" "ainv A" "running A c" by blast
  have cj: "c \<in> set (a_jobs A)" using A(3) by (simp add: running_def)
  have "a_senders A c = []" using krel_task [OF A(1) cj] none by (simp add: task_rel_def waiting_senders_def)
  from sys_receive_block [OF A(1,3) this] receive_inv [OF A(2,3)] show ?thesis by (auto intro: kernel_invI)
qed

lemma reply_to_ready_halts:
  assumes inv: "kernel_inv K" and c: "caller K c" and r: "addressee K c = Inr (Some s)"
    and w: "t_state (k_tasks K s) = READY"
  shows "sys_reply K = Inl Assertion"
proof -
  from kernel_inv_caller [OF inv c] obtain A where A: "krel K A" "ainv A" "running A c" by blast
  note a = addressee_job [OF A(1) r]
  show ?thesis using sys_reply_ready [OF A(1,3) a(1)] a(3) w by simp
qed

lemma await_unknown_halts:
  assumes inv: "kernel_inv K" and c: "caller K c"
    and i: "sint (ucast (t_x (k_tasks K c) 0) :: i32) < 0 \<or> 1022 \<le> sint (ucast (t_x (k_tasks K c) 0) :: i32)"
  shows "sys_await_event K = Inl Assertion"
proof -
  from kernel_inv_caller [OF inv c] obtain A where A: "krel K A" "ainv A" "running A c" by blast
  show ?thesis by (rule sys_await_event_bad [OF A(1,3) i])
qed

subsection \<open>Creating tasks\<close>

lemma create_numbers:
  assumes inv: "kernel_inv K" and c: "caller K c"
  shows "\<exists>K'. sys_create K = Inr K' \<and> kernel_inv K'
    \<and> (if unat (k_task_id_cnt K) < 64
       then t_result (k_tasks K' c) = ucast (k_task_id_cnt K) \<and> k_task_id_cnt K' = k_task_id_cnt K + 1
         \<and> t_state (k_tasks K' (unat (k_task_id_cnt K))) = READY
         \<and> t_priority (k_tasks K' (unat (k_task_id_cnt K))) = clamp_priority (ucast (t_x (k_tasks K c) 0))
       else t_result (k_tasks K' c) = - 1 \<and> k_task_id_cnt K' = k_task_id_cnt K)"
proof -
  from kernel_inv_caller [OF inv c] obtain A where A: "krel K A" "ainv A" "running A c" by blast
  let ?p = "priority_index (clamp_priority (ucast (t_x (k_tasks K c) 0)))"
  let ?B = "fst (a_create A ?p)"
  from sys_create_refine [OF A] obtain K' where k: "sys_create K = Inr K'" "krel K' ?B"
    "t_result (k_tasks K' c) = (if a_created A < MAX_TASK_NUM then word_of_nat (a_created A) else - 1)" by blast
  have le: "a_created A \<le> 64" using A(2) by (simp add: ainv_def jobs_ok_def MAX_TASK_NUM_def)
  have cnt: "k_task_id_cnt K = word_of_nat (a_created A)" "k_task_id_cnt K' = word_of_nat (a_created ?B)"
    using A(1) k(2) by (simp_all add: krel_def free_rel_def)
  have u: "unat (k_task_id_cnt K) = a_created A" using le by (simp add: cnt(1) unat_of_nat_small32)
  have B: "ainv ?B" by (rule create_inv [OF A(2) priority_index_less [OF clamp_priority_valid]])
  show ?thesis
  proof (cases "a_created A < 64")
    case True
    then have m: "a_created A < MAX_TASK_NUM" by (simp add: MAX_TASK_NUM_def)
    note sp = a_create_spawn [OF m, of ?p]
    have j: "a_created A \<in> set (a_jobs ?B)" "a_state ?B (a_created A) = READY" "a_created ?B = Suc (a_created A)"
      "a_prio ?B (a_created A) = ?p" by (simp_all add: sp)
    have pr: "valid_priority (t_priority (k_tasks K' (a_created A)))" "priority_index (t_priority (k_tasks K' (a_created A))) = ?p"
      using krel_task [OF k(2) j(1)] j(4) by (simp_all add: task_rel_def)
    then have "t_priority (k_tasks K' (a_created A)) = clamp_priority (ucast (t_x (k_tasks K c) 0))"
      using clamp_priority_valid [of "ucast (t_x (k_tasks K c) 0)"]
      by (auto simp: valid_priority_def priority_index_def TASK_PRIORITY_MIN_def eq_nat_nat_iff intro: signed_word_eqI)
    moreover have "t_result (k_tasks K' c) = ucast (k_task_id_cnt K)"
      using k(3) m by (simp add: cnt(1) word_unat_eq_iff unsigned_ucast_eq unat_of_nat_small32 unat_of_nat_small64 take_bit_nat_eq_self MAX_TASK_NUM_def)
    ultimately show ?thesis
      using k(1) kernel_invI [OF k(2) B] krel_state [OF k(2) j(1)] j True u cnt by (intro exI [of _ K']) simp
  next
    case False
    then have "a_created A = 64" using le by simp
    then have "a_created ?B = a_created A" "\<not> a_created A < MAX_TASK_NUM" by (simp_all add: a_create_def Let_def MAX_TASK_NUM_def)
    with False k kernel_invI [OF k(2) B] u cnt show ?thesis by (intro exI [of _ K']) simp
  qed
qed

end
