(* ===== verification/Kernel_Rounds.thy ===== *)
theory Kernel_Rounds
  imports Saved_Context Message_Facts
begin

text \<open>
  What several rounds of the main loop do together: a task goes on where it trapped, a reply completes
  the \<^verbatim>\<open>Send\<close> it answers, and a ready task gets its turn.
\<close>

subsection \<open>A task goes on where it trapped\<close>

lemma pass_result_context:
  "saved_context (pass_result d)
     = (if t_should_pass_result d then ((t_x d)(0 := t_result d), snd (saved_context d)) else saved_context d)"
  by (simp add: pass_result_def saved_context_def)

lemma resumed_context:
  assumes inv: "system_inv S" and sch: "schedule (sy_kernel S) = Inr (K, Some t)" and ok: "well_behaved S tr"
    and stay: "\<not> exits S tr" and step: "kmain_step S tr = Inr (S1, True)" and others: "others_run t S1 S2"
  shows "live (sy_kernel S2) t \<and> saved_context (k_tasks (sy_kernel S2) t) = trap_context tr
    \<and> saved_context (pass_result (k_tasks (sy_kernel S2) t))
      = (if t_should_pass_result (k_tasks (sy_kernel S2) t)
         then ((tr_x tr)(0 := t_result (k_tasks (sy_kernel S2) t)), snd (trap_context tr)) else trap_context tr)"
proof -
  note lv = picked_live [OF inv sch]
  have "system_inv S1" using kmain_step_ok [OF inv ok] step by auto
  moreover have "live (sy_kernel S1) t" using round_live [OF inv sch ok step lv] stay by simp
  moreover have "saved_context (k_tasks (sy_kernel S1) t) = trap_context tr"
    using round_context [OF inv sch step lv] stay by simp
  ultimately have "live (sy_kernel S2) t \<and> saved_context (k_tasks (sy_kernel S2) t) = trap_context tr"
    using others_run_keeps [OF others] by simp
  moreover from this have "t_x (k_tasks (sy_kernel S2) t) = tr_x tr" by (simp add: saved_context_def trap_context_def)
  ultimately show ?thesis by (simp add: pass_result_context)
qed

subsection \<open>The stale result\<close>

definition passed :: "Task \<Rightarrow> bool \<times> u64" where
  "passed d = (t_should_pass_result d, t_result d)"

lemma passed_simps [simp]:
  "passed (d\<lparr>t_state := s\<rparr>) = passed d" "passed (pass_result d) = passed d"
  "passed (d\<lparr>t_x := x, t_sp := a, t_spsr := b, t_pc := c, t_x30_copy := y\<rparr>) = passed d"
  by (simp_all add: passed_def pass_result_def)

lemma change_task_state_passed:
  "change_task_state K t s = Inr K' \<Longrightarrow> passed (k_tasks K' u) = passed (k_tasks K u)"
  by (auto simp: change_task_state_def bindE_assertE bindE_eq_Inr_iff split: if_splits prod.splits)

lemma schedule_passed:
  "schedule K = Inr (K', r) \<Longrightarrow> passed (k_tasks K' u) = passed (k_tasks K u)"
  unfolding schedule_def bindE_eq_Inr_iff
  by (auto simp: bindE_assertE bindE_eq_Inr_iff Let_def split: option.splits if_splits prod.splits
      dest!: change_task_state_passed [where u = u])

lemma activate_passed:
  "activate K t tr = Inr K' \<Longrightarrow> passed (k_tasks K' u) = passed (k_tasks K u)"
  by (auto simp: activate_def activate_running_task_def bindE_eq_Inr_iff
      dest!: change_task_state_passed [where u = u])

lemma wake_passed:
  "wake_up_irq_blocked_tasks K i = Inr K' \<Longrightarrow> passed (k_tasks K' u) = passed (k_tasks K u)"
  by (auto simp: wake_up_irq_blocked_tasks_def bindE_assertE bindE_eq_Inr_iff Let_def split: if_splits prod.splits
      dest!: change_task_state_passed [where u = u])

lemma interrupted_result:
  assumes inv: "system_inv S" and sch: "schedule (sy_kernel S) = Inr (K, Some t)"
    and exc: "tr_exc tr = IRQ" and step: "kmain_step S tr = Inr (S1, True)"
  shows "passed (k_tasks (sy_kernel S1) t) = passed (k_tasks (sy_kernel S) t)"
proof -
  from scheduled_task [OF inv sch, of tr] obtain K2 where a: "activate K t tr = Inr K2" by metis
  note h = kmain_step_unfold(1) [OF sch a step]
  from irq_handled [OF h exc] have "wake_up_irq_blocked_tasks K2 (sint (tr_intid tr)) = Inr (sy_kernel S1)" by simp
  from wake_passed [OF this, of t] activate_passed [OF a, of t] schedule_passed [OF sch, of t] show ?thesis by simp
qed

text \<open>The calls that need no other task.\<close>

lemma call_results:
  assumes "krel K A" and "ainv A" and "running A c"
  shows "\<exists>K'. sys_exit K = Inr K' \<and> krel K' (a_exit A c)"
    and "\<exists>K'. sys_yield K = Inr K' \<and> krel K' A"
    and "\<exists>K'. sys_tid K = Inr K' \<and> krel K' A \<and> passed (k_tasks K' c) = (True, word_of_nat c)"
    and "\<exists>K'. sys_parent_tid K = Inr K' \<and> krel K' A \<and> passed (k_tasks K' c) = (True, scast (t_parent_tid (k_tasks K c)))"
  using remove_current_refine [OF assms] sys_tid_refine [OF assms] running_kernel [OF assms(1,3)] assms(1)
  by (simp_all add: sys_exit_def sys_yield_def sys_parent_tid_def krel_give_result passed_def)

subsection \<open>A reply completes the call of Send\<close>

text \<open>The trap is a system call with the handler \<open>h\<close>.\<close>

definition svc_call :: "System \<Rightarrow> Trap \<Rightarrow> sync_handler \<Rightarrow> bool" where
  "svc_call S tr h \<longleftrightarrow> tr_exc tr = SYNCHRONOUS_EXCEPTION \<and> (ucast (drop_bit 26 (tr_esr tr)) :: u8) = SVC_CLASS
     \<and> sy_sync S (unat (ucast (tr_esr tr) :: u16)) = Some h"

lemma svc_stays: "svc_call S tr h \<Longrightarrow> h \<noteq> H_exit \<Longrightarrow> \<not> exits S tr"
  by (auto simp: svc_call_def exits_def)

lemma svc_round:
  assumes "schedule (sy_kernel S) = Inr (K, Some t)" and "activate K t tr = Inr K2" and "svc_call S tr h"
    and "run_handler h K2 = Inr K3"
  shows "kmain_step S tr = Inr (S\<lparr>sy_kernel := K3\<rparr>, True)"
  using assms
  by (simp add: kmain_step_def on_kernel_def handle_current_exception_def handle_synchronous_exception_def svc_call_def Let_def)

lemma svc_well_behaved:
  assumes "svc_call S tr h" and "\<And>K. call_ok h K"
  shows "well_behaved S tr"
  using assms by (auto simp: well_behaved_def trap_ok_def svc_call_def split: sum.splits option.splits)

lemma running_caller: "running A c \<Longrightarrow> krel K A \<Longrightarrow> caller K c"
  using running_kernel [of K A c] krel_state [of K A c] by (simp add: caller_def)

lemma job_addressee:
  assumes "krel K A" and "ainv A" and "ucast (t_x (k_tasks K c) 0) = (word_of_nat t :: i32)" and "t \<in> set (a_jobs A)"
  shows "addressee K c = Inr (Some t)"
  using get_task_by_tid_refine [OF assms(1)] a_find_job [OF _ assms(4)] assms(2,3)
  by (simp add: addressee_def ainv_def)

lemma scheduled_state:
  "a_schedule A = (B, r) \<Longrightarrow> a_state A u \<noteq> RUNNING \<Longrightarrow> a_state B u = a_state A u"
  by (cases "a_current A") (auto simp: a_schedule_def Let_def a_take_def a_requeue_def split: list.splits if_splits)

lemma reply_round:
  assumes inv: "system_inv S" and sch: "schedule (sy_kernel S) = Inr (K, Some r)" and call: "svc_call S tr H_reply"
    and to: "ucast (tr_x tr 0) = (word_of_nat c :: i32)"
    and c: "live (sy_kernel S) c" "t_state (k_tasks (sy_kernel S) c) = WATIREPLY"
    and x: "t_x (k_tasks (sy_kernel S) c) = x"
    and n: "n = nat (min (sint (ucast (tr_x tr 2) :: i32)) (sint (ucast (x 4) :: i32)))"
    and pos: "0 \<le> sint (ucast (tr_x tr 2) :: i32)" "0 \<le> sint (ucast (x 4) :: i32)"
    and clean: "regions_disjoint (x 3) n (tr_x tr 1) n"
  shows "\<exists>S'. kmain_step S tr = Inr (S', True) \<and> system_inv S'
    \<and> read_bytes (k_mem (sy_kernel S')) (x 3) n = read_bytes (tr_mem tr) (tr_x tr 1) n
    \<and> t_state (k_tasks (sy_kernel S') c) = READY \<and> passed (k_tasks (sy_kernel S') c) = (True, word_of_nat n)
    \<and> t_state (k_tasks (sy_kernel S') r) = RUNNING \<and> passed (k_tasks (sy_kernel S') r) = (True, word_of_nat n)"
proof -
  from scheduled_task [OF inv sch, of tr] obtain A B K2 where
    A: "krel (sy_kernel S) A" "ainv A" "a_schedule A = (B, Some r)" "activate K r tr = Inr K2" "krel K2 (a_run B r)"
      "ainv (a_run B r)" "running (a_run B r) r" "k_mem K2 = tr_mem tr" "sy_irq S 97 = Some Handle_timer_1" "a_jobs B = a_jobs A"
    by metis
  have cj: "c \<in> set (a_jobs A)" using c(1) live_job [OF A(1,2)] by simp
  have w: "a_state A c = WATIREPLY" using krel_state [OF A(1) cj] c(2) by simp
  have rj: "r \<in> set (a_jobs A)" using A(7,10) by (simp add: running_def a_run_def)
  have rc: "r \<noteq> c" using picked_state [OF inv sch] c(2) by auto
  have wB: "a_state (a_run B r) c = WATIREPLY" using scheduled_state [OF A(3), of c] w rc by (simp add: a_run_def)
  have cB: "c \<in> set (a_jobs (a_run B r))" using cj A(10) by (simp add: a_run_def)
  have regs: "t_x (k_tasks K2 r) = tr_x tr" "t_x (k_tasks K2 c) = x"
    using activate_context [OF A(4), of r] activate_context [OF A(4), of c] schedule_context [OF sch, of c] rc x
    by (simp_all add: saved_context_def trap_context_def)
  have cal: "caller K2 r" by (rule running_caller [OF A(7,5)])
  have ad: "addressee K2 r = Inr (Some c)" by (rule job_addressee [OF A(5,6) _ cB]) (simp add: regs to)
  have st: "t_state (k_tasks K2 c) = WATIREPLY" using krel_state [OF A(5) cB] wB by simp
  from reply_bytes [OF kernel_invI [OF A(5,6)] cal ad st, unfolded regs, OF n pos clean] obtain K3 where
    k3: "sys_reply K2 = Inr K3" "kernel_inv K3" "read_bytes (k_mem K3) (x 3) n = read_bytes (k_mem K2) (tr_x tr 1) n"
      "t_state (k_tasks K3 c) = READY" "t_result (k_tasks K3 c) = word_of_nat n" "t_state (k_tasks K3 r) = RUNNING"
      "t_result (k_tasks K3 r) = word_of_nat n" "t_should_pass_result (k_tasks K3 c)" "t_should_pass_result (k_tasks K3 r)"
    by blast
  have "kmain_step S tr = Inr (S\<lparr>sy_kernel := K3\<rparr>, True)" by (rule svc_round [OF sch A(4) call]) (simp add: k3(1))
  then show ?thesis using k3 A(8,9) by (intro exI [of _ "S\<lparr>sy_kernel := K3\<rparr>"]) (simp add: system_inv_def passed_def)
qed

text \<open>
  The whole exchange as the sender sees it: it traps with \<^verbatim>\<open>Send\<close>, other tasks run, and the reply arrives in
  the buffer that it named then, however its registers were used since; it goes on with the length as its result.
\<close>

lemma send_completed:
  assumes inv: "system_inv S0" and sch: "schedule (sy_kernel S0) = Inr (K0, Some c)" and send: "svc_call S0 tr0 H_send"
    and step: "kmain_step S0 tr0 = Inr (S1, True)" and others: "others_run c S1 S2"
    and sch2: "schedule (sy_kernel S2) = Inr (K2, Some r)" and reply: "svc_call S2 tr H_reply"
    and to: "ucast (tr_x tr 0) = (word_of_nat c :: i32)" and w: "t_state (k_tasks (sy_kernel S2) c) = WATIREPLY"
    and n: "n = nat (min (sint (ucast (tr_x tr 2) :: i32)) (sint (ucast (tr_x tr0 4) :: i32)))"
    and pos: "0 \<le> sint (ucast (tr_x tr 2) :: i32)" "0 \<le> sint (ucast (tr_x tr0 4) :: i32)"
    and clean: "regions_disjoint (tr_x tr0 3) n (tr_x tr 1) n"
  shows "\<exists>S3. kmain_step S2 tr = Inr (S3, True) \<and> system_inv S3
    \<and> read_bytes (k_mem (sy_kernel S3)) (tr_x tr0 3) n = read_bytes (tr_mem tr) (tr_x tr 1) n
    \<and> t_state (k_tasks (sy_kernel S3) c) = READY
    \<and> saved_context (pass_result (k_tasks (sy_kernel S3) c)) = ((tr_x tr0)(0 := word_of_nat n), snd (trap_context tr0))"
proof -
  have ok: "well_behaved S0 tr0" by (rule svc_well_behaved [OF send]) simp
  have stay: "\<not> exits S0 tr0" by (rule svc_stays [OF send]) simp
  note r = resumed_context [OF inv sch ok stay step others]
  have "system_inv S1" using kmain_step_ok [OF inv ok] step by auto
  moreover have "live (sy_kernel S1) c" using round_live [OF inv sch ok step picked_live [OF inv sch]] stay by simp
  ultimately have inv2: "system_inv S2" and lv: "live (sy_kernel S2) c" using others_run_keeps [OF others] by simp_all
  have x: "t_x (k_tasks (sy_kernel S2) c) = tr_x tr0" using r by (simp add: saved_context_def trap_context_def)
  from reply_round [OF inv2 sch2 reply to lv w x n pos clean] obtain S3 where
    s3: "kmain_step S2 tr = Inr (S3, True)" "system_inv S3"
      "read_bytes (k_mem (sy_kernel S3)) (tr_x tr0 3) n = read_bytes (tr_mem tr) (tr_x tr 1) n"
      "t_state (k_tasks (sy_kernel S3) c) = READY" "passed (k_tasks (sy_kernel S3) c) = (True, word_of_nat n)" by blast
  have "r \<noteq> c" using picked_state [OF inv2 sch2] w by auto
  moreover have "\<not> exits S2 tr" by (rule svc_stays [OF reply]) simp
  ultimately have "saved_context (k_tasks (sy_kernel S3) c) = trap_context tr0"
    using round_context [OF inv2 sch2 s3(1) lv] r by auto
  then have "t_x (k_tasks (sy_kernel S3) c) = tr_x tr0" "saved_context (k_tasks (sy_kernel S3) c) = trap_context tr0"
    by (simp_all add: saved_context_def trap_context_def)
  then show ?thesis using s3 by (intro exI [of _ S3]) (simp add: pass_result_context passed_def)
qed

end
