(* ===== verification/Task_Program.thy ===== *)
theory Task_Program
  imports Printers Kernel_Rounds
begin

text \<open>
  Programs of tasks, and their runs on the kernel.  A program prints lines, may set static variables and makes
  a call; with the answer it goes on.  \<open>plays\<close> says that a trap of a round is the one that the program of the
  task makes: the registers hold the arguments, the buffers lie in the stack block of the task and hold its
  message, and the blocks of the other tasks are as they were.  What a program gets as its answer is read
  from the registers and the memory that it resumes with.
\<close>

subsection \<open>Programs\<close>

text \<open>A line is a call of \<^verbatim>\<open>printf\<close>: the format and the arguments.\<close>

type_synonym line = "string \<times> pf_arg list"

text \<open>The static variables of the programs, which all tasks share.\<close>

record Statics =
  st_name_server_tid :: i32
  st_msg_len :: i32
  st_receiver_id :: i32

text \<open>
  The calls of \<^verbatim>\<open>syscall.h\<close>.  A message is given by its bytes, a buffer for an answer by its size.
  \<open>Standby\<close> is a point at which a program lets the timer interrupt it, as the idle task does; it may stand in the program of any task.
\<close>

datatype call =
    Create i32 u64 | MyTid | MyParentTid | Yield | Exit
  | Send i32 bytes nat
  | Receive nat
  | Reply i32 bytes
  | AwaitEvent i32
  | Standby

text \<open>The result, and for \<^verbatim>\<open>Receive\<close> the sender, and the bytes that came into the buffer.\<close>

datatype answer = Answer (an_result: i32) (an_tid: i32) (an_bytes: bytes)

codatatype prog =
    Call "line list" Statics call "answer \<Rightarrow> Statics \<Rightarrow> prog"
  | Undefined

definition say :: "line \<Rightarrow> prog \<Rightarrow> prog" where
  "say l p = (case p of Call out g c k \<Rightarrow> Call (l # out) g c k | Undefined \<Rightarrow> Undefined)"

text \<open>A task leaves by calling \<^verbatim>\<open>Exit\<close> or by returning to it.\<close>

definition leave :: "Statics \<Rightarrow> prog" where
  "leave g = Call [] g Exit (\<lambda>_ _. Undefined)"

lemma say_Call [simp]: "say l (Call out g c k) = Call (l # out) g c k"
  by (simp add: say_def)

subsection \<open>Calls as traps\<close>

fun call_handler :: "call \<Rightarrow> sync_handler" where
  "call_handler (Create p f) = H_create"
| "call_handler MyTid = H_tid"
| "call_handler MyParentTid = H_parent_tid"
| "call_handler Yield = H_yield"
| "call_handler Exit = H_exit"
| "call_handler (Send to msg room) = H_send"
| "call_handler (Receive room) = H_receive"
| "call_handler (Reply to msg) = H_reply"
| "call_handler (AwaitEvent e) = H_await_event"
| "call_handler Standby = H_yield"

text \<open>
  The real kernel takes an interrupt of the timer at any point of any task, and an interrupted task that once got a result
  loses its first register (\<open>interrupted_result\<close>); the runs of programs have interrupts at \<open>Standby\<close> only.
\<close>

definition makes_call :: "System \<Rightarrow> Trap \<Rightarrow> call \<Rightarrow> bool" where
  "makes_call S tr c \<longleftrightarrow> (if c = Standby then tr_exc tr = IRQ \<and> tick_ok S tr else svc_call S tr (call_handler c))"

text \<open>The addresses from \<open>a\<close> on lie in a set.\<close>

definition lies_in :: "u64 \<Rightarrow> nat \<Rightarrow> u64 set \<Rightarrow> bool" where
  "lies_in a n R \<longleftrightarrow> (\<forall>x. in_region x a n \<longrightarrow> x \<in> R)"

text \<open>The registers and the memory of a task hold the arguments of its call, with its buffers in \<open>R\<close>.\<close>

fun holds_call :: "(nat \<Rightarrow> u64) \<Rightarrow> mem \<Rightarrow> u64 set \<Rightarrow> call \<Rightarrow> bool" where
  "holds_call x m R (Create p f) \<longleftrightarrow> ucast (x 0) = p \<and> x 1 = f"
| "holds_call x m R (Send to msg room) \<longleftrightarrow> ucast (x 0) = to
     \<and> length msg < 2 ^ 31 \<and> ucast (x 2) = (word_of_nat (length msg) :: i32)
     \<and> read_bytes m (x 1) (length msg) = msg \<and> lies_in (x 1) (length msg) R
     \<and> room < 2 ^ 31 \<and> ucast (x 4) = (word_of_nat room :: i32) \<and> lies_in (x 3) room R"
| "holds_call x m R (Receive room) \<longleftrightarrow> room < 2 ^ 31 \<and> ucast (x 2) = (word_of_nat room :: i32)
     \<and> lies_in (x 0) 4 R \<and> lies_in (x 1) room R \<and> regions_disjoint (x 0) 4 (x 1) room"
| "holds_call x m R (Reply to msg) \<longleftrightarrow> ucast (x 0) = to
     \<and> length msg < 2 ^ 31 \<and> ucast (x 2) = (word_of_nat (length msg) :: i32)
     \<and> read_bytes m (x 1) (length msg) = msg \<and> lies_in (x 1) (length msg) R"
| "holds_call x m R (AwaitEvent e) \<longleftrightarrow> ucast (x 0) = e"
| "holds_call x m R c \<longleftrightarrow> True"

text \<open>
  The answer that a task finds when it is resumed: its result is in the first register, its buffers are
  those it named at the call.  \<^verbatim>\<open>Yield\<close> and the standby have no result.
\<close>

definition answer_in :: "Task \<Rightarrow> mem \<Rightarrow> call \<Rightarrow> answer" where
  "answer_in d m c =
     (let w = ucast (t_x (pass_result d) 0) :: i32; n = nat (sint w)
      in case c of
           Yield \<Rightarrow> Answer 0 0 []
         | Standby \<Rightarrow> Answer 0 0 []
         | Send to msg room \<Rightarrow> Answer w 0 (read_bytes m (t_x d 3) n)
         | Receive room \<Rightarrow> Answer w (load_int m (t_x d 0)) (read_bytes m (t_x d 1) n)
         | _ \<Rightarrow> Answer w 0 [])"

subsection \<open>Runs\<close>

text \<open>
  Where the programs are: a task that has run has made a call and goes on with the continuation; a task that
  has not starts the program at its entry.
\<close>

record Users =
  us_statics :: Statics
  us_cont :: "task_ptr \<Rightarrow> (call \<times> (answer \<Rightarrow> Statics \<Rightarrow> prog)) option"

definition resume :: "(u64 \<Rightarrow> Statics \<Rightarrow> prog) \<Rightarrow> Kernel \<Rightarrow> Users \<Rightarrow> task_ptr \<Rightarrow> prog" where
  "resume code K Us t =
     (case us_cont Us t of
        None \<Rightarrow> code (t_pc (k_tasks K t)) (us_statics Us)
      | Some (c, k) \<Rightarrow> k (answer_in (k_tasks K t) (k_mem K) c) (us_statics Us))"

definition stack_area :: "Kernel \<Rightarrow> task_ptr \<Rightarrow> u64 set" where
  "stack_area K t =
     (case t_memory_block (k_tasks K t) of
        None \<Rightarrow> {}
      | Some i \<Rightarrow> {a. in_region a (block_addr (k_memory K) i) MEMORY_BLOCK_SIZE})"

definition plays :: "(u64 \<Rightarrow> Statics \<Rightarrow> prog) \<Rightarrow> System \<Rightarrow> Users \<Rightarrow> Trap \<Rightarrow> task_ptr \<Rightarrow> line list \<Rightarrow> Users \<Rightarrow> bool" where
  "plays code S Us tr t out Us' \<longleftrightarrow>
     (\<exists>K g c k. schedule (sy_kernel S) = Inr (K, Some t) \<and> resume code K Us t = Call out g c k
        \<and> Us' = \<lparr>us_statics = g, us_cont = (us_cont Us)(t := Some (c, k))\<rparr>
        \<and> makes_call S tr c \<and> holds_call (tr_x tr) (tr_mem tr) (stack_area K t) c
        \<and> (\<forall>u a. live K u \<and> u \<noteq> t \<and> a \<in> stack_area K u \<longrightarrow> tr_mem tr a = k_mem K a))"

text \<open>The lines of a run, each with the task that prints it.\<close>

inductive user_run :: "(u64 \<Rightarrow> Statics \<Rightarrow> prog) \<Rightarrow> System \<Rightarrow> Users \<Rightarrow> nat \<Rightarrow> (task_ptr \<times> line) list \<Rightarrow> System \<Rightarrow> Users \<Rightarrow> bool"
  for code :: "u64 \<Rightarrow> Statics \<Rightarrow> prog" and S0 :: System and Us0 :: Users where
  run_start: "user_run code S0 Us0 0 [] S0 Us0"
| run_round: "user_run code S0 Us0 n out S Us \<Longrightarrow> plays code S Us tr t ls Us' \<Longrightarrow> kmain_step S tr = Inr (S', True)
    \<Longrightarrow> user_run code S0 Us0 (Suc n) (out @ map (Pair t) ls) S' Us'"

inductive_cases user_run_0: "user_run code S0 Us0 0 out S Us"
inductive_cases user_run_Suc: "user_run code S0 Us0 (Suc n) out S Us"

end
