(* ===== verification/Hash_Table.thy ===== *)
theory Hash_Table
  imports Prelude
begin

text \<open>
  The hash table of \<^verbatim>\<open>hash_table.c\<close>.  A key is the bytes of a C string before its null byte;
  plain \<^verbatim>\<open>char\<close> is unsigned on the machine.
\<close>

type_synonym key = "u8 list"

definition HASH_TABLE_MAX_SIZE :: usize where "HASH_TABLE_MAX_SIZE = 64"

record HashTable =
  ht_size :: usize
  ht_data :: "i32 list"
  ht_used :: "bool list"

fun djb2_loop :: "usize \<Rightarrow> key \<Rightarrow> usize" where
  "djb2_loop h [] = h"
| "djb2_loop h (ch # str) = djb2_loop ((push_bit 5 h + h) + ucast ch) str"

definition hash_table_djb2 :: "key \<Rightarrow> usize" where
  "hash_table_djb2 str = djb2_loop 5381 str"

definition hash_table_slot :: "HashTable \<Rightarrow> key \<Rightarrow> nat res" where
  "hash_table_slot self key =
     (if ht_size self = 0 then Inl Overflow else Inr (unat (hash_table_djb2 key mod ht_size self)))"

definition hash_table_init :: "HashTable \<Rightarrow> HashTable res" where
  "hash_table_init self =
     (let self = self\<lparr>ht_size := HASH_TABLE_MAX_SIZE\<rparr>
      in bindE (fold (\<lambda>i r. bindE r (\<lambda>used. updE used i False)) [0..<unat (ht_size self)] (Inr (ht_used self)))
           (\<lambda>used. Inr (self\<lparr>ht_used := used\<rparr>)))"

definition hash_table_add :: "HashTable \<Rightarrow> key \<Rightarrow> i32 \<Rightarrow> (HashTable \<times> bool) res" where
  "hash_table_add self key v =
     bindE (hash_table_slot self key) (\<lambda>hash.
     bindE (nthE (ht_used self) hash) (\<lambda>used.
     if \<not> used then
       bindE (updE (ht_used self) hash True) (\<lambda>u.
       bindE (updE (ht_data self) hash v) (\<lambda>d.
       Inr (self\<lparr>ht_data := d, ht_used := u\<rparr>, True)))
     else Inr (self, False)))"

definition hash_table_has :: "HashTable \<Rightarrow> key \<Rightarrow> bool res" where
  "hash_table_has self key = bindE (hash_table_slot self key) (\<lambda>hash. nthE (ht_used self) hash)"

definition hash_table_get :: "HashTable \<Rightarrow> key \<Rightarrow> i32 res" where
  "hash_table_get self key =
     bindE (hash_table_slot self key) (\<lambda>hash.
     if word_of_nat hash < ht_size self then
       bindE (nthE (ht_used self) hash) (\<lambda>used.
       if used then nthE (ht_data self) hash else Inr 0)
     else Inr 0)"

definition hash_table_remove :: "HashTable \<Rightarrow> key \<Rightarrow> HashTable res" where
  "hash_table_remove self key =
     bindE (hash_table_slot self key) (\<lambda>hash.
     bindE (updE (ht_used self) hash False) (\<lambda>u. Inr (self\<lparr>ht_used := u\<rparr>)))"

subsection \<open>What a table represents\<close>

definition ht_inv :: "HashTable \<Rightarrow> bool" where
  "ht_inv t \<longleftrightarrow> ht_size t = 64 \<and> length (ht_data t) = 64 \<and> length (ht_used t) = 64"

definition slot_of :: "key \<Rightarrow> nat" where
  "slot_of k = unat (hash_table_djb2 k mod 64)"

definition slot_value :: "HashTable \<Rightarrow> nat \<Rightarrow> i32 option" where
  "slot_value t s = (if ht_used t ! s then Some (ht_data t ! s) else None)"

definition hash_table_lookup :: "HashTable \<Rightarrow> key \<Rightarrow> i32 option" where
  "hash_table_lookup t k = slot_value t (slot_of k)"

lemma slot_of_less [simp]: "slot_of k < 64"
  by (simp add: slot_of_def unat_mod)

lemma slot_word [simp]: "word_of_nat (slot_of k) < (64 :: usize)"
proof -
  have "slot_of k < 2 ^ 64" using slot_of_less [of k] by (rule order.strict_trans) simp
  then show ?thesis by (simp add: word_less_nat_alt unat_of_nat_small64)
qed

lemma hash_table_slot_ok [simp]: "ht_inv t \<Longrightarrow> hash_table_slot t k = Inr (slot_of k)"
  by (simp add: ht_inv_def hash_table_slot_def slot_of_def)

lemma hash_table_init_ok:
  assumes "length (ht_data t) = 64" and "length (ht_used t) = 64"
  shows "\<exists>t'. hash_table_init t = Inr t' \<and> ht_inv t' \<and> (\<forall>k. hash_table_lookup t' k = None)"
  using assms fill_loop [of 64 "ht_used t" False]
  by (simp add: hash_table_init_def HASH_TABLE_MAX_SIZE_def ht_inv_def hash_table_lookup_def slot_value_def del: upt_Suc)

lemma hash_table_has_ok: "ht_inv t \<Longrightarrow> hash_table_has t k = Inr (hash_table_lookup t k \<noteq> None)"
  by (simp add: hash_table_has_def hash_table_lookup_def slot_value_def ht_inv_def hash_table_slot_def flip: slot_of_def)

lemma hash_table_get_ok:
  "ht_inv t \<Longrightarrow> hash_table_get t k = Inr (case hash_table_lookup t k of None \<Rightarrow> 0 | Some v \<Rightarrow> v)"
  by (simp add: hash_table_get_def hash_table_lookup_def slot_value_def ht_inv_def hash_table_slot_def flip: slot_of_def)

lemma hash_table_add_ok:
  assumes "ht_inv t"
  shows "\<exists>t'. hash_table_add t k v = Inr (t', hash_table_lookup t k = None) \<and> ht_inv t'
    \<and> (\<forall>k'. hash_table_lookup t' k' =
          (if slot_of k' = slot_of k \<and> hash_table_lookup t k = None then Some v else hash_table_lookup t k'))"
  using assms
  by (simp add: hash_table_add_def hash_table_lookup_def slot_value_def ht_inv_def hash_table_slot_def
        nth_list_update flip: slot_of_def)

lemma hash_table_remove_ok:
  assumes "ht_inv t"
  shows "\<exists>t'. hash_table_remove t k = Inr t' \<and> ht_inv t'
    \<and> (\<forall>k'. hash_table_lookup t' k' = (if slot_of k' = slot_of k then None else hash_table_lookup t k'))"
  using assms
  by (simp add: hash_table_remove_def hash_table_lookup_def slot_value_def ht_inv_def hash_table_slot_def
        nth_list_update flip: slot_of_def)

subsection \<open>The table as a registry\<close>

text \<open>
  The interface the name server uses.  An entry is never replaced, and keys that are
  \<open>same\<close> share one entry.
\<close>

locale registry =
  fixes good :: "'s \<Rightarrow> bool"
    and add :: "'s \<Rightarrow> 'k \<Rightarrow> 'v \<Rightarrow> ('s \<times> bool) res"
    and lookup :: "'s \<Rightarrow> 'k \<Rightarrow> 'v option"
    and same :: "'k \<Rightarrow> 'k \<Rightarrow> bool"
  assumes same_refl: "same k k"
    and same_lookup: "same k' k \<Longrightarrow> lookup s k' = lookup s k"
    and add_ok: "good s \<Longrightarrow> \<exists>s'. add s k v = Inr (s', lookup s k = None) \<and> good s'
      \<and> (\<forall>k'. lookup s' k' = (if same k' k \<and> lookup s k = None then Some v else lookup s k'))"
begin

fun add_all :: "('k \<times> 'v) list \<Rightarrow> 's \<Rightarrow> 's res" where
  "add_all [] s = Inr s"
| "add_all ((k, v) # es) s = bindE (add s k v) (\<lambda>(s, fresh). add_all es s)"

definition first_entry :: "('k \<times> 'v) list \<Rightarrow> 'k \<Rightarrow> 'v option" where
  "first_entry es k = map_option snd (find (\<lambda>e. same k (fst e)) es)"

lemma add_all_first:
  assumes "good s"
  shows "\<exists>s'. add_all es s = Inr s' \<and> good s'
    \<and> (\<forall>k. lookup s' k = (case lookup s k of Some v \<Rightarrow> Some v | None \<Rightarrow> first_entry es k))"
  using assms
proof (induction es arbitrary: s)
  case Nil
  then show ?case by (simp add: first_entry_def split: option.split)
next
  case (Cons e es)
  obtain k v where e: "e = (k, v)" by (cases e)
  from add_ok [OF Cons.prems, of k v] obtain s1 where s1: "add s k v = Inr (s1, lookup s k = None)" "good s1"
    "\<And>k'. lookup s1 k' = (if same k' k \<and> lookup s k = None then Some v else lookup s k')" by blast
  from Cons.IH [OF s1(2)] obtain s2 where s2: "add_all es s1 = Inr s2" "good s2"
    "\<And>k. lookup s2 k = (case lookup s1 k of Some v \<Rightarrow> Some v | None \<Rightarrow> first_entry es k)" by blast
  have "lookup s2 k' = (case lookup s k' of Some v \<Rightarrow> Some v | None \<Rightarrow> first_entry (e # es) k')" for k'
    using same_lookup [of k' k s] by (auto simp: s1(3) s2(3) e first_entry_def split: option.splits)
  with s1(1) s2(1,2) show ?case by (simp add: e)
qed

lemma kept:
  assumes "good s" and "lookup s k = Some v" and "add s k' v' = Inr (s', b)"
  shows "lookup s' k = Some v"
  using assms add_ok [OF assms(1), of k' v'] same_lookup [of k k' s] by auto

end

interpretation names: registry ht_inv hash_table_add hash_table_lookup "\<lambda>k k'. slot_of k = slot_of k'"
  by unfold_locales (simp, simp add: hash_table_lookup_def, rule hash_table_add_ok)

end
