(* ===== verification/Server_Loop.thy ===== *)
theory Server_Loop
  imports Prelude
begin

text \<open>
  The loop the three servers share: \<^verbatim>\<open>while (Receive(&tid, &msg, sizeof msg))\<close>.  A server is a
  step from its state, a sender and a message to its new state and the replies it sends, in
  order; the loop runs on the results of \<^verbatim>\<open>Receive\<close> (length, sender, message) and ends at a
  length of zero.
\<close>

fun serve :: "('s \<Rightarrow> i32 \<Rightarrow> 'm \<Rightarrow> ('s \<times> 'r list) res) \<Rightarrow> 's \<Rightarrow> (i32 \<times> i32 \<times> 'm) list \<Rightarrow> ('s \<times> 'r list) res" where
  "serve step S [] = Inr (S, [])"
| "serve step S ((len, tid, msg) # ms) =
     (if len = 0 then Inr (S, [])
      else bindE (step S tid msg) (\<lambda>(S, replies).
           bindE (serve step S ms) (\<lambda>(S, more). Inr (S, replies @ more))))"

definition nonempty :: "i32 \<times> i32 \<times> 'm \<Rightarrow> bool" where
  "nonempty m \<longleftrightarrow> fst m \<noteq> 0"

lemma serve_stops: "serve step S ((0, tid, msg) # ms) = Inr (S, [])"
  by simp

lemma serve_append:
  "(\<And>m. m \<in> set ms1 \<Longrightarrow> nonempty m) \<Longrightarrow> serve step S (ms1 @ ms2) =
     bindE (serve step S ms1) (\<lambda>(S, replies). bindE (serve step S ms2) (\<lambda>(S, more). Inr (S, replies @ more)))"
proof (induction ms1 arbitrary: S)
  case Nil
  show ?case by (cases "serve step S ms2") auto
next
  case (Cons m ms)
  obtain len tid msg where m: "m = (len, tid, msg)" by (cases m)
  have "len \<noteq> 0" using Cons.prems [of m] by (simp add: m nonempty_def)
  moreover have "serve step S1 (ms @ ms2) =
     bindE (serve step S1 ms) (\<lambda>(S, replies). bindE (serve step S ms2) (\<lambda>(S, more). Inr (S, replies @ more)))" for S1
    using Cons by simp
  ultimately show ?case
    by (simp add: m bindE_def split: sum.split prod.split)
qed

text \<open>
  The contract of a server.  \<open>ok\<close> says which messages its clients send, \<open>needs\<close> how much room a message
  takes, and \<open>inv n S\<close> that \<open>S\<close> is a good state with room for \<open>n\<close> more.
\<close>

locale server =
  fixes step :: "'s \<Rightarrow> i32 \<Rightarrow> 'm \<Rightarrow> ('s \<times> 'r list) res"
    and inv :: "nat \<Rightarrow> 's \<Rightarrow> bool"
    and ok :: "i32 \<Rightarrow> 'm \<Rightarrow> bool"
    and needs :: "'m \<Rightarrow> nat"
  assumes step_ok: "inv (needs msg + n) S \<Longrightarrow> ok tid msg \<Longrightarrow> \<exists>S' rs. step S tid msg = Inr (S', rs) \<and> inv n S'"
begin

definition accepts :: "i32 \<times> i32 \<times> 'm \<Rightarrow> bool" where
  "accepts m \<longleftrightarrow> nonempty m \<and> (case m of (len, tid, msg) \<Rightarrow> ok tid msg)"

definition room_for :: "(i32 \<times> i32 \<times> 'm) list \<Rightarrow> nat" where
  "room_for ms = sum_list (map (\<lambda>(len, tid, msg). needs msg) ms)"

lemma serves:
  assumes "inv (room_for ms + n) S" and "\<And>m. m \<in> set ms \<Longrightarrow> accepts m"
  shows "\<exists>S' rs. serve step S ms = Inr (S', rs) \<and> inv n S'"
  using assms
proof (induction ms arbitrary: S)
  case (Cons m ms)
  obtain len tid msg where m: "m = (len, tid, msg)" by (cases m)
  have a: "len \<noteq> 0" "ok tid msg" using Cons.prems(2) [of m] by (simp_all add: m accepts_def nonempty_def)
  have "inv (needs msg + (room_for ms + n)) S" using Cons.prems(1) by (simp add: m room_for_def add.assoc)
  from step_ok [OF this a(2)] obtain S1 rs1 where s1: "step S tid msg = Inr (S1, rs1)" "inv (room_for ms + n) S1" by blast
  obtain S2 rs2 where "serve step S1 ms = Inr (S2, rs2)" "inv n S2"
    using Cons.IH [OF s1(2)] Cons.prems(2) by auto
  with s1 a(1) show ?case by (simp add: m)
qed (simp add: room_for_def)

end

end
