(* ===== verification/Name_Server.thy ===== *)
theory Name_Server
  imports Hash_Table Server_Loop
begin

text \<open>
  The name server of \<^verbatim>\<open>name_server.c\<close> and its clients.  A name is the string its message
  points to.  The clients call \<^verbatim>\<open>Send\<close>, which is an argument here: from the addressee and
  the message to the result and the reply.  Beside its result, \<open>RegisterAs\<close> says whether it
  yields the processor.
\<close>

definition REGISTER_AS :: u32 where "REGISTER_AS = 0"
definition WHO_IS :: u32 where "WHO_IS = 1"

record NameServerMsg =
  nm_action :: u32
  nm_name :: key
  nm_tid :: i32

record NameServer =
  ns_table :: HashTable
  name_server_tid :: i32

type_synonym name_reply = "i32 \<times> NameServerMsg"

definition name_server_init :: "NameServer \<Rightarrow> i32 \<Rightarrow> NameServer res" where
  "name_server_init S my_tid =
     bindE (hash_table_init (ns_table S)) (\<lambda>t. Inr (S\<lparr>ns_table := t, name_server_tid := my_tid\<rparr>))"

definition name_server_step :: "NameServer \<Rightarrow> i32 \<Rightarrow> NameServerMsg \<Rightarrow> (NameServer \<times> name_reply list) res" where
  "name_server_step S tid msg =
     bindE
       (if nm_action msg = REGISTER_AS then
          bindE (hash_table_add (ns_table S) (nm_name msg) tid) (\<lambda>(t, _). Inr (S\<lparr>ns_table := t\<rparr>, msg))
        else if nm_action msg = WHO_IS then
          bindE (hash_table_has (ns_table S) (nm_name msg)) (\<lambda>has.
          if has then bindE (hash_table_get (ns_table S) (nm_name msg)) (\<lambda>v. Inr (S, msg\<lparr>nm_tid := v\<rparr>))
          else Inr (S, msg\<lparr>nm_tid := - 1\<rparr>))
        else Inr (S, msg))
       (\<lambda>(S, msg). Inr (S, [(tid, msg)]))"

definition name_server :: "NameServer \<Rightarrow> i32 \<Rightarrow> (i32 \<times> i32 \<times> NameServerMsg) list \<Rightarrow> (NameServer \<times> name_reply list) res" where
  "name_server S my_tid ms = bindE (name_server_init S my_tid) (\<lambda>S. serve name_server_step S ms)"

subsection \<open>The clients\<close>

definition RegisterAs :: "(i32 \<Rightarrow> NameServerMsg \<Rightarrow> i32 \<times> NameServerMsg) \<Rightarrow> NameServer \<Rightarrow> i32 \<Rightarrow> key \<Rightarrow> i32 \<times> bool" where
  "RegisterAs send S my_tid nm =
     (case send (name_server_tid S) \<lparr>nm_action = REGISTER_AS, nm_name = nm, nm_tid = my_tid\<rparr> of
        (r, msg) \<Rightarrow> if sint r < 0 then (- 1, False) else (0, True))"

definition WhoIs :: "(i32 \<Rightarrow> NameServerMsg \<Rightarrow> i32 \<times> NameServerMsg) \<Rightarrow> NameServer \<Rightarrow> i32 \<Rightarrow> key \<Rightarrow> i32" where
  "WhoIs send S my_tid nm =
     (case send (name_server_tid S) \<lparr>nm_action = WHO_IS, nm_name = nm, nm_tid = my_tid\<rparr> of
        (r, msg) \<Rightarrow> if sint r < 0 then - 1 else nm_tid msg)"

subsection \<open>What the server answers\<close>

definition names_good :: "nat \<Rightarrow> NameServer \<Rightarrow> bool" where
  "names_good n S \<longleftrightarrow> ht_inv (ns_table S)"

definition registered :: "NameServer \<Rightarrow> key \<Rightarrow> i32 option" where
  "registered S nm = hash_table_lookup (ns_table S) nm"

definition answer :: "NameServer \<Rightarrow> NameServerMsg \<Rightarrow> NameServerMsg" where
  "answer S msg = (if nm_action msg = WHO_IS
     then msg\<lparr>nm_tid := case registered S (nm_name msg) of None \<Rightarrow> - 1 | Some t \<Rightarrow> t\<rparr> else msg)"

lemma name_actions [simp]: "REGISTER_AS \<noteq> WHO_IS" "WHO_IS \<noteq> REGISTER_AS"
  by (simp_all add: REGISTER_AS_def WHO_IS_def)

lemma name_init_ok:
  assumes "length (ht_data (ns_table S)) = 64" and "length (ht_used (ns_table S)) = 64"
  shows "\<exists>S'. name_server_init S my_tid = Inr S' \<and> names_good n S' \<and> name_server_tid S' = my_tid
    \<and> (\<forall>nm. registered S' nm = None)"
  using hash_table_init_ok [OF assms] by (auto simp: name_server_init_def names_good_def registered_def)

lemma name_step_ok:
  assumes good: "names_good n S"
  shows "\<exists>S'. name_server_step S tid msg = Inr (S', [(tid, answer S msg)]) \<and> names_good k S'
    \<and> name_server_tid S' = name_server_tid S
    \<and> (\<forall>nm. registered S' nm =
         (if nm_action msg = REGISTER_AS \<and> slot_of nm = slot_of (nm_name msg) \<and> registered S (nm_name msg) = None
          then Some tid else registered S nm))"
proof -
  have inv: "ht_inv (ns_table S)" using good by (simp add: names_good_def)
  consider "nm_action msg = REGISTER_AS" | "nm_action msg = WHO_IS" | "nm_action msg \<notin> {REGISTER_AS, WHO_IS}" by blast
  then show ?thesis
  proof cases
    case 1
    from hash_table_add_ok [OF inv, of "nm_name msg" tid] obtain t' where
      "hash_table_add (ns_table S) (nm_name msg) tid = Inr (t', registered S (nm_name msg) = None)" "ht_inv t'"
      "\<And>k'. hash_table_lookup t' k' = (if slot_of k' = slot_of (nm_name msg) \<and> registered S (nm_name msg) = None
         then Some tid else registered S k')" unfolding registered_def by blast
    with 1 show ?thesis
      by (intro exI [of _ "S\<lparr>ns_table := t'\<rparr>"])
        (auto simp: name_server_step_def answer_def names_good_def registered_def)
  next
    case 2
    with inv show ?thesis
      by (simp add: name_server_step_def answer_def names_good_def registered_def hash_table_has_ok hash_table_get_ok
          split: option.split)
  next
    case 3
    with inv show ?thesis by (simp add: name_server_step_def answer_def names_good_def)
  qed
qed

interpretation nsrv: server name_server_step names_good "\<lambda>tid msg. True" "\<lambda>msg. 0"
  by unfold_locales (use name_step_ok in blast)

subsection \<open>The first registration of a name counts\<close>

definition registers :: "key \<Rightarrow> i32 \<times> i32 \<times> NameServerMsg \<Rightarrow> bool" where
  "registers nm m \<longleftrightarrow> (case m of (len, tid, msg) \<Rightarrow> nm_action msg = REGISTER_AS \<and> slot_of (nm_name msg) = slot_of nm)"

definition first_registrant :: "(i32 \<times> i32 \<times> NameServerMsg) list \<Rightarrow> key \<Rightarrow> i32 option" where
  "first_registrant ms nm = map_option (fst \<circ> snd) (find (registers nm) ms)"

lemma registered_same: "slot_of nm = slot_of nm' \<Longrightarrow> registered S nm = registered S nm'"
  unfolding registered_def by (rule names.same_lookup)

lemma names_run:
  assumes "names_good n S" and "\<And>m. m \<in> set ms \<Longrightarrow> nonempty m"
  shows "\<exists>S' rs. serve name_server_step S ms = Inr (S', rs) \<and> names_good k S' \<and> length rs = length ms
    \<and> (\<forall>nm. registered S' nm = (case registered S nm of Some t \<Rightarrow> Some t | None \<Rightarrow> first_registrant ms nm))"
  using assms
proof (induction ms arbitrary: S n)
  case Nil
  then show ?case by (simp add: names_good_def first_registrant_def split: option.split)
next
  case (Cons m ms)
  obtain len tid msg where m: "m = (len, tid, msg)" by (rule prod_cases3)
  have len: "len \<noteq> 0" using Cons.prems(2) [of m] by (simp add: m nonempty_def)
  from name_step_ok [OF Cons.prems(1), of tid msg] obtain S1 where
    s1: "name_server_step S tid msg = Inr (S1, [(tid, answer S msg)])" "names_good n S1"
      "\<And>nm. registered S1 nm =
         (if nm_action msg = REGISTER_AS \<and> slot_of nm = slot_of (nm_name msg) \<and> registered S (nm_name msg) = None
          then Some tid else registered S nm)" by blast
  from Cons.IH [OF s1(2)] Cons.prems(2) obtain S2 rs where
    s2: "serve name_server_step S1 ms = Inr (S2, rs)" "names_good k S2" "length rs = length ms"
      "\<And>nm. registered S2 nm = (case registered S1 nm of Some t \<Rightarrow> Some t | None \<Rightarrow> first_registrant ms nm)" by auto
  have "registered S2 nm = (case registered S nm of Some t \<Rightarrow> Some t | None \<Rightarrow> first_registrant (m # ms) nm)" for nm
    using registered_same [of nm "nm_name msg" S]
    by (auto simp: s2(4) s1(3) m first_registrant_def registers_def split: option.splits)
  with s1(1) s2(1,2,3) len show ?case by (simp add: m)
qed

text \<open>The answer to a question that comes after the messages \<open>ms\<close>.\<close>

lemma names_query:
  assumes "length (ht_data (ns_table S)) = 64" and "length (ht_used (ns_table S)) = 64"
    and "\<And>m. m \<in> set ms \<Longrightarrow> nonempty m" and "len \<noteq> 0" and "nm_action msg = WHO_IS"
  shows "\<exists>S' rs. name_server S my_tid (ms @ [(len, tid, msg)])
      = Inr (S', rs @ [(tid, msg\<lparr>nm_tid := case first_registrant ms (nm_name msg) of None \<Rightarrow> - 1 | Some t \<Rightarrow> t\<rparr>)])
    \<and> length rs = length ms"
proof -
  obtain S0 where s0: "name_server_init S my_tid = Inr S0" "names_good 0 S0" "\<And>nm. registered S0 nm = None"
    using name_init_ok [OF assms(1,2)] by blast
  obtain S1 rs where s1: "serve name_server_step S0 ms = Inr (S1, rs)" "names_good 0 S1" "length rs = length ms"
    "\<And>nm. registered S1 nm = first_registrant ms nm"
    using names_run [where ms = ms and k = 0, OF s0(2) assms(3)] by (auto simp: s0(3))
  obtain S2 where s2: "name_server_step S1 tid msg = Inr (S2, [(tid, answer S1 msg)])"
    using name_step_ok [OF s1(2), of tid msg] by blast
  have "serve name_server_step S0 (ms @ [(len, tid, msg)]) = Inr (S2, rs @ [(tid, answer S1 msg)])"
    using serve_append [of ms name_server_step S0 "[(len, tid, msg)]"] assms(3) s1(1) s2 assms(4) by simp
  then show ?thesis using s0(1) s1(3,4) assms(5) by (simp add: name_server_def answer_def)
qed

end
