(* ===== verification/Delay_Queue.thy ===== *)
theory Delay_Queue
  imports Prelude
begin

text \<open>
  The delay queue of \<^verbatim>\<open>clock_server.c\<close>: a singly linked list of nodes in the order of their
  wake-up times.  A pointer to a node is its address in the chunk pool of the server.  The
  field \<^verbatim>\<open>end\<close> is only ever tested for being null.
\<close>

type_synonym dnode_ptr = nat

record DelayQueueNode =
  dn_tid :: i32
  dn_delay :: u32
  dn_next :: "dnode_ptr option"

record DelayQueue =
  dq_front :: "dnode_ptr option"
  dq_end :: "dnode_ptr option"
  dq_size :: u64

type_synonym dnodes = "dnode_ptr \<Rightarrow> DelayQueueNode"

definition delay_queue_init :: "DelayQueue \<Rightarrow> DelayQueue" where
  "delay_queue_init self = self\<lparr>dq_front := None, dq_end := None, dq_size := 0\<rparr>"

text \<open>
  The loop that looks for the place of a node: the last node that is not later, and the node
  after it.  The fuel bounds the walk; the pool has 512 chunks, so a longer walk is endless.
\<close>

definition DELAY_FUEL :: nat where "DELAY_FUEL = 513"

fun delay_queue_seek ::
  "nat \<Rightarrow> dnodes \<Rightarrow> u32 \<Rightarrow> dnode_ptr option \<Rightarrow> dnode_ptr option \<Rightarrow> (dnode_ptr option \<times> dnode_ptr option) res" where
  "delay_queue_seek fuel nodes delay previous_node None = Inr (previous_node, None)"
| "delay_queue_seek 0 nodes delay previous_node (Some c) = Inl Diverges"
| "delay_queue_seek (Suc fuel) nodes delay previous_node (Some c) =
     (if dn_delay (nodes c) \<le> delay
      then delay_queue_seek fuel nodes delay (Some c) (dn_next (nodes c))
      else Inr (previous_node, Some c))"

definition delay_queue_add :: "dnodes \<Rightarrow> DelayQueue \<Rightarrow> dnode_ptr \<Rightarrow> (dnodes \<times> DelayQueue) res" where
  "delay_queue_add nodes self node =
     (let nodes = nodes(node := (nodes node)\<lparr>dn_next := None\<rparr>)
      in bindE
        (if dq_end self \<noteq> None
         then bindE (delay_queue_seek DELAY_FUEL nodes (dn_delay (nodes node)) None (dq_front self))
                (\<lambda>(previous_node, current_node).
                 case previous_node of
                   Some p \<Rightarrow>
                     let nodes = nodes(p := (nodes p)\<lparr>dn_next := Some node\<rparr>)
                     in Inr (nodes(node := (nodes node)\<lparr>dn_next := current_node\<rparr>), self)
                 | None \<Rightarrow>
                     Inr (nodes(node := (nodes node)\<lparr>dn_next := dq_front self\<rparr>), self\<lparr>dq_front := Some node\<rparr>))
         else Inr (nodes, self\<lparr>dq_end := Some node, dq_front := Some node\<rparr>))
        (\<lambda>(nodes, self). Inr (nodes, self\<lparr>dq_size := dq_size self + 1\<rparr>)))"

definition delay_queue_pop :: "dnodes \<Rightarrow> DelayQueue \<Rightarrow> DelayQueue \<times> dnode_ptr option" where
  "delay_queue_pop nodes self =
     (let (self, popped) =
        (case dq_front self of
           Some f \<Rightarrow>
             (if dn_next (nodes f) \<noteq> None then self\<lparr>dq_front := dn_next (nodes f)\<rparr>
              else self\<lparr>dq_front := None, dq_end := None\<rparr>, Some f)
         | None \<Rightarrow> (self, None))
      in (self\<lparr>dq_size := dq_size self - 1\<rparr>, popped))"

subsection \<open>Singly linked lists\<close>

fun sll :: "dnodes \<Rightarrow> dnode_ptr option \<Rightarrow> dnode_ptr list \<Rightarrow> dnode_ptr option \<Rightarrow> bool" where
  "sll h p [] q \<longleftrightarrow> p = q"
| "sll h p (n # ns) q \<longleftrightarrow> p = Some n \<and> sll h (dn_next (h n)) ns q"

lemma sll_append: "sll h p (xs @ ys) q \<longleftrightarrow> (\<exists>r. sll h p xs r \<and> sll h r ys q)"
  by (induction xs arbitrary: p) auto

lemma sll_cong:
  assumes "\<And>n. n \<in> set ns \<Longrightarrow> dn_next (h' n) = dn_next (h n)"
  shows "sll h' p ns q = sll h p ns q"
  using assms by (induction ns arbitrary: p) simp_all

text \<open>The queue \<open>q\<close> holds the nodes \<open>ns\<close>, in the order of their delays.\<close>

definition dq_rep :: "dnodes \<Rightarrow> DelayQueue \<Rightarrow> dnode_ptr list \<Rightarrow> bool" where
  "dq_rep h q ns \<longleftrightarrow> sll h (dq_front q) ns None \<and> distinct ns \<and> sorted (map (\<lambda>n. dn_delay (h n)) ns)
     \<and> (dq_end q = None \<longleftrightarrow> ns = []) \<and> dq_size q = word_of_nat (length ns)"

text \<open>Where a node goes: behind all that are not later.\<close>

definition place :: "('a \<Rightarrow> u32) \<Rightarrow> 'a \<Rightarrow> 'a list \<Rightarrow> 'a list" where
  "place f n ns = takeWhile (\<lambda>m. f m \<le> f n) ns @ n # dropWhile (\<lambda>m. f m \<le> f n) ns"

lemma place_split:
  obtains t r where "ns = t @ r" and "place f n ns = t @ n # r"
  using that [of "takeWhile (\<lambda>m. f m \<le> f n) ns" "dropWhile (\<lambda>m. f m \<le> f n) ns"] by (simp add: place_def)

lemma place_parts:
  obtains t r where "ns = t @ r" and "place f n ns = t @ n # r"
    and "takeWhile (\<lambda>m. f m \<le> f n) ns = t" and "dropWhile (\<lambda>m. f m \<le> f n) ns = r"
  using that [of "takeWhile (\<lambda>m. f m \<le> f n) ns" "dropWhile (\<lambda>m. f m \<le> f n) ns"] by (simp add: place_def)

lemma set_place [simp]: "set (place f n ns) = insert n (set ns)"
proof -
  obtain t r where "ns = t @ r" "place f n ns = t @ n # r" by (rule place_split)
  then show ?thesis by auto
qed

lemma length_place [simp]: "length (place f n ns) = Suc (length ns)"
proof -
  obtain t r where "ns = t @ r" "place f n ns = t @ n # r" by (rule place_split)
  then show ?thesis by simp
qed

lemma distinct_place: "distinct ns \<Longrightarrow> n \<notin> set ns \<Longrightarrow> distinct (place f n ns)"
proof -
  assume d: "distinct ns" "n \<notin> set ns"
  obtain t r where "ns = t @ r" "place f n ns = t @ n # r" by (rule place_split)
  with d show ?thesis by auto
qed

lemma sorted_place: "sorted (map f ns) \<Longrightarrow> sorted (map f (place f n ns))"
proof (induction ns)
  case (Cons m ns)
  show ?case
  proof (cases "f m \<le> f n")
    case True
    then have "place f n (m # ns) = m # place f n ns" by (simp add: place_def)
    with Cons True show ?thesis by auto
  next
    case False
    then have "place f n (m # ns) = n # m # ns" by (simp add: place_def)
    with Cons False show ?thesis by auto
  qed
qed (simp add: place_def)

subsection \<open>Adding and removing\<close>

lemma delay_queue_seek_ok:
  assumes "sll h p ns None" and "length ns < fuel"
  shows "delay_queue_seek fuel h d prev p =
    Inr (if takeWhile (\<lambda>m. dn_delay (h m) \<le> d) ns = [] then prev else Some (last (takeWhile (\<lambda>m. dn_delay (h m) \<le> d) ns)),
         case dropWhile (\<lambda>m. dn_delay (h m) \<le> d) ns of [] \<Rightarrow> None | m # _ \<Rightarrow> Some m)"
  using assms
proof (induction ns arbitrary: p prev fuel)
  case (Cons n ns)
  from Cons.prems obtain g where g: "fuel = Suc g" "length ns < g" by (cases fuel) auto
  from Cons.prems have p: "p = Some n" "sll h (dn_next (h n)) ns None" by simp_all
  show ?case
  proof (cases "dn_delay (h n) \<le> d")
    case True
    have "delay_queue_seek fuel h d prev p = delay_queue_seek g h d (Some n) (dn_next (h n))"
      by (simp add: g(1) p(1) True)
    then show ?thesis using Cons.IH [OF p(2) g(2), of "Some n"] True by simp
  qed (simp add: g(1) p(1))
qed simp

lemma sll_first: "sll h p ns None \<Longrightarrow> p = (case ns of [] \<Rightarrow> None | m # _ \<Rightarrow> Some m)"
  by (cases ns) simp_all

lemma delay_queue_add_ok:
  assumes rep: "dq_rep h q ns" and n: "n \<notin> set ns" and len: "length ns < DELAY_FUEL"
  shows "\<exists>h' q'. delay_queue_add h q n = Inr (h', q') \<and> dq_rep h' q' (place (\<lambda>m. dn_delay (h m)) n ns)
    \<and> (\<forall>m. dn_tid (h' m) = dn_tid (h m) \<and> dn_delay (h' m) = dn_delay (h m))"
proof -
  let ?d = "\<lambda>m. dn_delay (h m)"
  let ?h = "h(n := (h n)\<lparr>dn_next := None\<rparr>)"
  have l: "sll h (dq_front q) ns None" "distinct ns" "sorted (map ?d ns)" "dq_end q = None \<longleftrightarrow> ns = []"
    "dq_size q = word_of_nat (length ns)" using rep by (simp_all add: dq_rep_def)
  have l1: "sll ?h (dq_front q) ns None" using l(1) n by (subst sll_cong) auto
  have d1: "dn_delay (?h m) = ?d m" for m by simp
  have rest: "distinct (place ?d n ns)" "sorted (map ?d (place ?d n ns))" "place ?d n ns \<noteq> []"
    using distinct_place [OF l(2) n] sorted_place [OF l(3)] by (simp_all add: place_def)
  have goal: ?thesis
    if res: "delay_queue_add h q n = Inr (h', q'\<lparr>dq_size := dq_size q + 1\<rparr>)" and end': "dq_end q' \<noteq> None"
      and s: "sll h' (dq_front q') (place ?d n ns) None"
      and same: "\<forall>m. dn_tid (h' m) = dn_tid (h m) \<and> dn_delay (h' m) = dn_delay (h m)" for h' q'
  proof -
    have "dq_rep h' (q'\<lparr>dq_size := dq_size q + 1\<rparr>) (place ?d n ns)"
      using s end' rest l(5) same by (simp add: dq_rep_def)
    with res same show ?thesis by blast
  qed
  show ?thesis
  proof (cases "ns = []")
    case True
    show ?thesis
      by (rule goal [of ?h "q\<lparr>dq_end := Some n, dq_front := Some n\<rparr>"])
        (use True l(4) in \<open>simp_all add: delay_queue_add_def Let_def place_def\<close>)
  next
    case False
    obtain t r where tr: "ns = t @ r" "place ?d n ns = t @ n # r"
      "takeWhile (\<lambda>m. ?d m \<le> ?d n) ns = t" "dropWhile (\<lambda>m. ?d m \<le> ?d n) ns = r" by (rule place_parts)
    have ntr: "n \<notin> set t" "n \<notin> set r" using n tr(1) by auto
    have seek: "delay_queue_seek DELAY_FUEL ?h (?d n) None (dq_front q) =
      Inr (if t = [] then None else Some (last t), case r of [] \<Rightarrow> None | m # _ \<Rightarrow> Some m)"
      using delay_queue_seek_ok [OF l1 len, of "?d n" None] by (simp only: d1 tr(3,4))
    from l1 obtain w where w: "sll ?h (dq_front q) t w" "sll ?h w r None"
      using sll_append [of ?h "dq_front q" t r None] tr(1) by auto
    have we: "w = (case r of [] \<Rightarrow> None | m # _ \<Rightarrow> Some m)" by (rule sll_first [OF w(2)])
    show ?thesis
    proof (cases t rule: rev_cases)
      case Nil
      let ?h2 = "?h(n := (?h n)\<lparr>dn_next := dq_front q\<rparr>)"
      have "sll ?h2 (dq_front q) ns None" using l(1) n by (subst sll_cong [where h = h]) auto
      then have "sll ?h2 (Some n) (place ?d n ns) None" using Nil tr by simp
      moreover have "delay_queue_add h q n = Inr (?h2, q\<lparr>dq_front := Some n, dq_size := dq_size q + 1\<rparr>)"
        using Nil seek l(4) False by (simp add: delay_queue_add_def Let_def)
      ultimately show ?thesis using l(4) False by (intro goal [of ?h2 "q\<lparr>dq_front := Some n\<rparr>"]) simp_all
    next
      case (snoc t0 p)
      have dist: "p \<notin> set t0" "p \<notin> set r" "p \<noteq> n" using l(2) tr(1) snoc ntr by auto
      let ?h2 = "?h(p := (?h p)\<lparr>dn_next := Some n\<rparr>)"
      let ?h3 = "?h2(n := (?h2 n)\<lparr>dn_next := w\<rparr>)"
      from w(1) snoc have t0: "sll ?h (dq_front q) t0 (Some p)" by (auto simp: sll_append)
      have "sll ?h3 (dq_front q) t0 (Some p)" using t0 dist ntr snoc by (subst sll_cong [where h = ?h]) auto
      moreover have "sll ?h3 w r None" using w(2) dist ntr by (subst sll_cong [where h = ?h]) auto
      ultimately have "sll ?h3 (dq_front q) (place ?d n ns) None" using dist by (auto simp: tr(2) snoc sll_append)
      moreover have "delay_queue_add h q n = Inr (?h3, q\<lparr>dq_size := dq_size q + 1\<rparr>)"
        using snoc seek l(4) False by (simp add: delay_queue_add_def Let_def flip: we)
      ultimately show ?thesis using l(4) False dist by (intro goal [of ?h3 q]) simp_all
    qed
  qed
qed

lemma delay_queue_pop_ok:
  assumes rep: "dq_rep h q (n # ns)"
  shows "\<exists>q'. delay_queue_pop h q = (q', Some n) \<and> dq_rep h q' ns"
proof -
  have l: "dq_front q = Some n" "sll h (dn_next (h n)) ns None" "distinct ns" "sorted (map (\<lambda>n. dn_delay (h n)) ns)"
    "dq_end q \<noteq> None" "dq_size q = word_of_nat (Suc (length ns))" using rep by (simp_all add: dq_rep_def)
  show ?thesis
  proof (cases ns)
    case Nil
    with l show ?thesis by (simp add: delay_queue_pop_def dq_rep_def)
  next
    case (Cons m ms)
    with l show ?thesis by (simp add: delay_queue_pop_def dq_rep_def)
  qed
qed

end
