(* ===== verification/Memory_Pool.thy ===== *)
theory Memory_Pool
  imports Interfaces
begin

text \<open>
  The chunk allocator of \<^verbatim>\<open>memory_pool.c\<close> that the servers use for their queue nodes: a
  stack of chunk addresses.  An address is given as its offset in the array \<^verbatim>\<open>data\<close>.
\<close>

definition MEMORY_POOL_SIZE :: nat where "MEMORY_POOL_SIZE = 0x10000"
definition MEMORY_POOL_CHUNK_SIZE :: nat where "MEMORY_POOL_CHUNK_SIZE = 0x80"

definition MEMORY_POOL_CHUNKS :: nat where
  "MEMORY_POOL_CHUNKS = MEMORY_POOL_SIZE div MEMORY_POOL_CHUNK_SIZE"

record MemoryPool =
  mp_data :: "nat \<Rightarrow> u8"
  mp_unused :: "nat list"
  mp_unused_top :: nat

definition memory_pool_init :: "MemoryPool \<Rightarrow> MemoryPool" where
  "memory_pool_init self =
     fold (\<lambda>i s. s\<lparr>mp_unused := (mp_unused s)[mp_unused_top s := i * MEMORY_POOL_CHUNK_SIZE],
                   mp_unused_top := mp_unused_top s + 1\<rparr>)
       [0..<MEMORY_POOL_CHUNKS]
       (self\<lparr>mp_data := (\<lambda>i. if i < MEMORY_POOL_SIZE then 0 else mp_data self i), mp_unused_top := 0\<rparr>)"

definition memory_pool_allocate :: "MemoryPool \<Rightarrow> nat \<Rightarrow> (MemoryPool \<times> nat option) res" where
  "memory_pool_allocate self bytes =
     bindE (assertE (bytes \<le> MEMORY_POOL_CHUNK_SIZE)) (\<lambda>_.
     if mp_unused_top self > 0
     then let top = mp_unused_top self - 1
          in Inr (self\<lparr>mp_unused_top := top\<rparr>, Some (mp_unused self ! top))
     else Inr (self, None))"

definition memory_pool_free :: "MemoryPool \<Rightarrow> nat \<Rightarrow> MemoryPool res" where
  "memory_pool_free self addr =
     (if mp_unused_top self < length (mp_unused self)
      then Inr (self\<lparr>mp_unused := (mp_unused self)[mp_unused_top self := addr],
                     mp_unused_top := mp_unused_top self + 1\<rparr>)
      else Inl OutOfBounds)"

subsection \<open>The pool as an allocator\<close>

definition chunk_addrs :: "nat set" where
  "chunk_addrs = (\<lambda>i. i * MEMORY_POOL_CHUNK_SIZE) ` {0..<MEMORY_POOL_CHUNKS}"

definition free_chunks :: "MemoryPool \<Rightarrow> nat set" where
  "free_chunks p = set (take (mp_unused_top p) (mp_unused p))"

definition memory_pool_inv :: "MemoryPool \<Rightarrow> bool" where
  "memory_pool_inv p \<longleftrightarrow> length (mp_unused p) = MEMORY_POOL_CHUNKS \<and> mp_unused_top p \<le> MEMORY_POOL_CHUNKS
     \<and> distinct (take (mp_unused_top p) (mp_unused p)) \<and> free_chunks p \<subseteq> chunk_addrs"

lemma card_chunk_addrs: "card chunk_addrs = MEMORY_POOL_CHUNKS"
  by (simp add: chunk_addrs_def card_image inj_on_def MEMORY_POOL_CHUNK_SIZE_def)

lemma finite_chunk_addrs: "finite chunk_addrs"
  by (simp add: chunk_addrs_def)

lemma card_free_chunks: "memory_pool_inv p \<Longrightarrow> card (free_chunks p) = mp_unused_top p"
  by (simp add: memory_pool_inv_def free_chunks_def distinct_card min_def)

lemma memory_pool_init_loop:
  assumes "n \<le> length (mp_unused s)" and "mp_unused_top s = 0"
  shows "let s' = fold (\<lambda>i s. s\<lparr>mp_unused := (mp_unused s)[mp_unused_top s := i * MEMORY_POOL_CHUNK_SIZE],
                   mp_unused_top := mp_unused_top s + 1\<rparr>) [0..<n] s
    in mp_unused_top s' = n \<and> length (mp_unused s') = length (mp_unused s)
       \<and> take n (mp_unused s') = map (\<lambda>i. i * MEMORY_POOL_CHUNK_SIZE) [0..<n] \<and> mp_data s' = mp_data s"
  using assms
proof (induction n)
  case (Suc n)
  then show ?case by (simp add: Let_def take_Suc_conv_app_nth)
qed simp

lemma memory_pool_init_ok:
  assumes "length (mp_unused p) = MEMORY_POOL_CHUNKS"
  shows "memory_pool_inv (memory_pool_init p) \<and> free_chunks (memory_pool_init p) = chunk_addrs
    \<and> mp_unused_top (memory_pool_init p) = MEMORY_POOL_CHUNKS"
proof -
  let ?s = "p\<lparr>mp_data := (\<lambda>i. if i < MEMORY_POOL_SIZE then 0 else mp_data p i), mp_unused_top := 0\<rparr>"
  have "mp_unused_top (memory_pool_init p) = MEMORY_POOL_CHUNKS
      \<and> length (mp_unused (memory_pool_init p)) = MEMORY_POOL_CHUNKS
      \<and> take MEMORY_POOL_CHUNKS (mp_unused (memory_pool_init p)) = map (\<lambda>i. i * MEMORY_POOL_CHUNK_SIZE) [0..<MEMORY_POOL_CHUNKS]"
    using memory_pool_init_loop [of MEMORY_POOL_CHUNKS ?s] assms
    unfolding memory_pool_init_def Let_def by simp
  then show ?thesis
    by (simp add: memory_pool_inv_def free_chunks_def chunk_addrs_def distinct_map inj_on_def
        MEMORY_POOL_CHUNK_SIZE_def)
qed

lemma memory_pool_allocate_ok:
  assumes inv: "memory_pool_inv p" and size: "bytes \<le> MEMORY_POOL_CHUNK_SIZE" and top: "0 < mp_unused_top p"
  shows "\<exists>p' a. memory_pool_allocate p bytes = Inr (p', Some a) \<and> memory_pool_inv p' \<and> a \<in> free_chunks p
    \<and> free_chunks p' = free_chunks p - {a} \<and> mp_unused_top p' = mp_unused_top p - 1"
proof -
  obtain k where k: "mp_unused_top p = Suc k" using top by (cases "mp_unused_top p") auto
  with inv have "take (Suc k) (mp_unused p) = take k (mp_unused p) @ [mp_unused p ! k]"
    by (simp add: memory_pool_inv_def take_Suc_conv_app_nth)
  with inv size k show ?thesis
    by (auto simp: memory_pool_allocate_def memory_pool_inv_def free_chunks_def Let_def)
qed

lemma memory_pool_free_ok:
  assumes inv: "memory_pool_inv p" and a: "a \<in> chunk_addrs" "a \<notin> free_chunks p"
  shows "\<exists>p'. memory_pool_free p a = Inr p' \<and> memory_pool_inv p' \<and> free_chunks p' = insert a (free_chunks p)
    \<and> mp_unused_top p' = Suc (mp_unused_top p)"
proof -
  have "card (insert a (free_chunks p)) \<le> card chunk_addrs"
    using inv a finite_chunk_addrs by (intro card_mono) (auto simp: memory_pool_inv_def)
  then have less: "mp_unused_top p < MEMORY_POOL_CHUNKS"
    using a card_free_chunks [OF inv] by (simp add: card_chunk_addrs free_chunks_def)
  let ?p = "p\<lparr>mp_unused := (mp_unused p)[mp_unused_top p := a], mp_unused_top := mp_unused_top p + 1\<rparr>"
  have "take (mp_unused_top ?p) (mp_unused ?p) = take (mp_unused_top p) (mp_unused p) @ [a]"
    using inv less by (simp add: memory_pool_inv_def take_Suc_conv_app_nth)
  with inv a less show ?thesis
    by (auto simp: memory_pool_free_def memory_pool_inv_def free_chunks_def)
qed

definition chunk_alloc_opt :: "MemoryPool \<Rightarrow> (MemoryPool \<times> nat) option" where
  "chunk_alloc_opt p =
     (case memory_pool_allocate p MEMORY_POOL_CHUNK_SIZE of
        Inr (p', Some a) \<Rightarrow> Some (p', a) | _ \<Rightarrow> None)"

definition chunk_release :: "MemoryPool \<Rightarrow> nat \<Rightarrow> MemoryPool" where
  "chunk_release p a = the_res (memory_pool_free p a)"

interpretation chunks: allocator memory_pool_inv free_chunks chunk_alloc_opt chunk_release chunk_addrs
proof
  show "free_chunks p \<subseteq> chunk_addrs" if "memory_pool_inv p" for p
    using that by (simp add: memory_pool_inv_def)
  show "finite chunk_addrs" by (rule finite_chunk_addrs)
  show "(chunk_alloc_opt p = None) = (free_chunks p = {})" if "memory_pool_inv p" for p
    using that card_free_chunks [OF that]
    by (auto simp: chunk_alloc_opt_def memory_pool_allocate_def Let_def free_chunks_def memory_pool_inv_def)
  show "memory_pool_inv p' \<and> c \<in> free_chunks p \<and> free_chunks p' = free_chunks p - {c}"
    if "memory_pool_inv p" "chunk_alloc_opt p = Some (p', c)" for p p' c
  proof -
    have "0 < mp_unused_top p"
      using that(2) by (auto simp: chunk_alloc_opt_def memory_pool_allocate_def split: if_splits)
    from memory_pool_allocate_ok [OF that(1) order_refl this] obtain q a where
      q: "memory_pool_allocate p MEMORY_POOL_CHUNK_SIZE = Inr (q, Some a)" "memory_pool_inv q"
      "a \<in> free_chunks p" "free_chunks q = free_chunks p - {a}" by blast
    have "chunk_alloc_opt p = Some (q, a)" by (simp add: chunk_alloc_opt_def q(1))
    with that(2) have eq: "Some (p', c) = Some (q, a)" by (rule trans [OF sym])
    have "p' = q \<and> c = a" using eq unfolding option.inject prod.inject .
    then show ?thesis using q(2-4) by blast
  qed
  show "memory_pool_inv (chunk_release p c) \<and> free_chunks (chunk_release p c) = insert c (free_chunks p)"
    if "memory_pool_inv p" "c \<in> chunk_addrs" "c \<notin> free_chunks p" for p c
  proof -
    from memory_pool_free_ok [OF that] obtain q where
      "memory_pool_free p c = Inr q" "memory_pool_inv q" "free_chunks q = insert c (free_chunks p)" by blast
    then show ?thesis by (simp add: chunk_release_def)
  qed
qed

end
