(* ===== verification/Clock_Server.thy ===== *)
theory Clock_Server
  imports Delay_Queue Memory_Pool Server_Loop
begin

text \<open>
  The clock server of \<^verbatim>\<open>clock_server.c\<close> and its clients.  The server is a step function on
  its state: the message it received, the replies it sends, in order.  Its clients call
  \<^verbatim>\<open>Send\<close>, which is an argument here: from the message to the result and the reply.
\<close>

definition TICK :: u32 where "TICK = 0"
definition TIME :: u32 where "TIME = 1"
definition DELAY :: u32 where "DELAY = 2"
definition DELAY_UNTIL :: u32 where "DELAY_UNTIL = 3"

record ClockServerMsg =
  cm_action :: u32
  cm_ticks :: u32

record ClockServer =
  cs_pool :: MemoryPool
  cs_nodes :: dnodes
  cs_queue :: DelayQueue
  cs_ticks :: u32

type_synonym clock_reply = "i32 \<times> ClockServerMsg"

definition DELAY_NODE_SIZE :: nat where "DELAY_NODE_SIZE = 16"

definition clock_server_init :: "ClockServer \<Rightarrow> ClockServer" where
  "clock_server_init S = S\<lparr>cs_pool := memory_pool_init (cs_pool S),
     cs_queue := delay_queue_init (cs_queue S), cs_ticks := 0\<rparr>"

text \<open>The loop of a tick: reply to, unlink and free the nodes that are due.\<close>

fun clock_wake :: "nat \<Rightarrow> ClockServer \<Rightarrow> ClockServerMsg \<Rightarrow> dnode_ptr option \<Rightarrow> (ClockServer \<times> clock_reply list) res" where
  "clock_wake fuel S msg None = Inr (S, [])"
| "clock_wake 0 S msg (Some c) = Inl Diverges"
| "clock_wake (Suc fuel) S msg (Some c) =
     (if dn_delay (cs_nodes S c) \<le> cs_ticks S
      then
        let reply = (dn_tid (cs_nodes S c), msg);
            S = S\<lparr>cs_queue := fst (delay_queue_pop (cs_nodes S) (cs_queue S))\<rparr>
        in bindE (memory_pool_free (cs_pool S) c) (\<lambda>pool.
           bindE (clock_wake fuel (S\<lparr>cs_pool := pool\<rparr>) msg (dn_next (cs_nodes S c))) (\<lambda>(S, replies).
           Inr (S, reply # replies)))
      else Inr (S, []))"

definition clock_delay_until :: "ClockServer \<Rightarrow> i32 \<Rightarrow> ClockServerMsg \<Rightarrow> (ClockServer \<times> clock_reply list) res" where
  "clock_delay_until S tid msg =
     (if cm_ticks msg \<le> cs_ticks S then Inr (S, [(tid, msg)])
      else
        bindE (memory_pool_allocate (cs_pool S) DELAY_NODE_SIZE) (\<lambda>(pool, new_node).
        bindE (derefE new_node) (\<lambda>n.
        let nodes = (cs_nodes S)(n := (cs_nodes S n)\<lparr>dn_tid := tid, dn_delay := cm_ticks msg\<rparr>)
        in bindE (delay_queue_add nodes (cs_queue S) n) (\<lambda>(nodes, queue).
           Inr (S\<lparr>cs_pool := pool, cs_nodes := nodes, cs_queue := queue\<rparr>, [])))))"

definition clock_server_step :: "ClockServer \<Rightarrow> i32 \<Rightarrow> ClockServerMsg \<Rightarrow> (ClockServer \<times> clock_reply list) res" where
  "clock_server_step S tid msg =
     (if cm_action msg = TICK then
        let S = S\<lparr>cs_ticks := cs_ticks S + 1\<rparr>;
            first = (tid, msg);
            msg = msg\<lparr>cm_ticks := cs_ticks S\<rparr>
        in bindE (clock_wake DELAY_FUEL S msg (dq_front (cs_queue S))) (\<lambda>(S, replies).
           Inr (S, first # replies))
      else if cm_action msg = TIME then Inr (S, [(tid, msg\<lparr>cm_ticks := cs_ticks S\<rparr>)])
      else if cm_action msg = DELAY then clock_delay_until S tid (msg\<lparr>cm_ticks := cm_ticks msg + cs_ticks S\<rparr>)
      else if cm_action msg = DELAY_UNTIL then clock_delay_until S tid msg
      else Inr (S, []))"

definition clock_server_run :: "ClockServer \<Rightarrow> (i32 \<times> i32 \<times> ClockServerMsg) list \<Rightarrow> (ClockServer \<times> clock_reply list) res" where
  "clock_server_run S ms = serve clock_server_step (clock_server_init S) ms"

subsection \<open>The clients\<close>

definition Time :: "(ClockServerMsg \<Rightarrow> i32 \<times> ClockServerMsg) \<Rightarrow> u32 \<Rightarrow> i32" where
  "Time send stack =
     (case send \<lparr>cm_action = TIME, cm_ticks = stack\<rparr> of (r, msg) \<Rightarrow> if sint r < 0 then - 1 else cm_ticks msg)"

definition Delay :: "(ClockServerMsg \<Rightarrow> i32 \<times> ClockServerMsg) \<Rightarrow> i32 \<Rightarrow> i32" where
  "Delay send ticks =
     (if sint ticks < 0 then - 2
      else case send \<lparr>cm_action = DELAY, cm_ticks = ticks\<rparr> of (r, msg) \<Rightarrow> if sint r < 0 then - 1 else cm_ticks msg)"

definition DelayUntil :: "(ClockServerMsg \<Rightarrow> i32 \<times> ClockServerMsg) \<Rightarrow> i32 \<Rightarrow> i32" where
  "DelayUntil send ticks =
     (if sint ticks < 0 then - 2
      else case send \<lparr>cm_action = DELAY_UNTIL, cm_ticks = ticks\<rparr> of (r, msg) \<Rightarrow> if sint r < 0 then - 1 else cm_ticks msg)"

text \<open>
  The notifier task: it forwards events as ticks until awaiting or sending fails.  The lists
  are the results of its calls; the result is the number of ticks it has sent and whether
  it left through \<^verbatim>\<open>Exit\<close> (rather than by returning).
\<close>

fun clock_server_tick :: "(i32 \<times> i32) list \<Rightarrow> nat \<times> bool option" where
  "clock_server_tick [] = (0, None)"
| "clock_server_tick ((awaited, sent) # rs) =
     (if sint awaited < 0 then (0, Some True)
      else if sint sent < 0 then (1, Some False)
      else case clock_server_tick rs of (n, e) \<Rightarrow> (Suc n, e))"

subsection \<open>What the server's data represents\<close>

fun collect :: "nat \<Rightarrow> dnodes \<Rightarrow> dnode_ptr option \<Rightarrow> dnode_ptr list" where
  "collect 0 h p = []"
| "collect (Suc fuel) h None = []"
| "collect (Suc fuel) h (Some n) = n # collect fuel h (dn_next (h n))"

definition clock_queue :: "ClockServer \<Rightarrow> dnode_ptr list" where
  "clock_queue S = collect DELAY_FUEL (cs_nodes S) (dq_front (cs_queue S))"

text \<open>The tasks that wait, with their wake-up times, in the order of the queue.\<close>

definition entry :: "ClockServer \<Rightarrow> dnode_ptr \<Rightarrow> i32 \<times> u32" where
  "entry S n = (dn_tid (cs_nodes S n), dn_delay (cs_nodes S n))"

definition clock_waiting :: "ClockServer \<Rightarrow> (i32 \<times> u32) list" where
  "clock_waiting S = map (entry S) (clock_queue S)"

definition cs_rep :: "ClockServer \<Rightarrow> dnode_ptr list \<Rightarrow> bool" where
  "cs_rep S ns \<longleftrightarrow> dq_rep (cs_nodes S) (cs_queue S) ns \<and> memory_pool_inv (cs_pool S)
     \<and> set ns \<subseteq> chunk_addrs \<and> free_chunks (cs_pool S) = chunk_addrs - set ns"

definition clock_inv :: "ClockServer \<Rightarrow> bool" where
  "clock_inv S \<longleftrightarrow> cs_rep S (clock_queue S) \<and> (\<forall>n\<in>set (clock_queue S). cs_ticks S < dn_delay (cs_nodes S n))"

lemma collect_sll: "sll h p ns None \<Longrightarrow> length ns < fuel \<Longrightarrow> collect fuel h p = ns"
proof (induction ns arbitrary: p fuel)
  case Nil
  then show ?case by (cases fuel) simp_all
next
  case (Cons n ns)
  then show ?case by (cases fuel) simp_all
qed

lemma cs_rep_length:
  assumes "cs_rep S ns"
  shows "length ns < DELAY_FUEL" and "length ns \<le> 512"
proof -
  have "card (set ns) \<le> card chunk_addrs"
    using assms finite_chunk_addrs by (intro card_mono) (auto simp: cs_rep_def)
  moreover have "card (set ns) = length ns" using assms by (simp add: cs_rep_def dq_rep_def distinct_card)
  ultimately show "length ns < DELAY_FUEL" "length ns \<le> 512"
    by (simp_all add: card_chunk_addrs MEMORY_POOL_CHUNKS_def MEMORY_POOL_SIZE_def MEMORY_POOL_CHUNK_SIZE_def DELAY_FUEL_def)
qed

lemma cs_rep_queue: "cs_rep S ns \<Longrightarrow> clock_queue S = ns"
  using cs_rep_length(1) [of S ns] collect_sll [of "cs_nodes S" "dq_front (cs_queue S)" ns DELAY_FUEL]
  by (simp add: cs_rep_def dq_rep_def clock_queue_def)

lemma clock_invI:
  "cs_rep S ns \<Longrightarrow> (\<And>n. n \<in> set ns \<Longrightarrow> cs_ticks S < dn_delay (cs_nodes S n)) \<Longrightarrow> clock_inv S"
  using cs_rep_queue [of S ns] by (simp add: clock_inv_def)

lemma clock_init_ok:
  assumes "length (mp_unused (cs_pool S)) = MEMORY_POOL_CHUNKS"
  shows "clock_inv (clock_server_init S) \<and> clock_waiting (clock_server_init S) = []
    \<and> cs_ticks (clock_server_init S) = 0"
proof -
  have rep: "cs_rep (clock_server_init S) []"
    using memory_pool_init_ok [OF assms]
    by (simp add: cs_rep_def clock_server_init_def delay_queue_init_def dq_rep_def)
  then show ?thesis using cs_rep_queue [OF rep] clock_invI [OF rep]
    by (simp add: clock_waiting_def clock_server_init_def)
qed

subsection \<open>A tick\<close>

lemma clock_wake_ok:
  assumes "cs_rep S ns" and "length ns < fuel"
  shows "\<exists>S'. clock_wake fuel S msg (dq_front (cs_queue S))
      = Inr (S', map (\<lambda>n. (dn_tid (cs_nodes S n), msg)) (takeWhile (\<lambda>n. dn_delay (cs_nodes S n) \<le> cs_ticks S) ns))
    \<and> cs_rep S' (dropWhile (\<lambda>n. dn_delay (cs_nodes S n) \<le> cs_ticks S) ns)
    \<and> cs_nodes S' = cs_nodes S \<and> cs_ticks S' = cs_ticks S"
  using assms
proof (induction ns arbitrary: S fuel)
  case Nil
  then have "dq_front (cs_queue S) = None" by (simp add: cs_rep_def dq_rep_def)
  with Nil show ?case by simp
next
  case (Cons n ns)
  from Cons.prems(1) have r: "dq_rep (cs_nodes S) (cs_queue S) (n # ns)" "memory_pool_inv (cs_pool S)"
    "set (n # ns) \<subseteq> chunk_addrs" "free_chunks (cs_pool S) = chunk_addrs - set (n # ns)" by (simp_all add: cs_rep_def)
  have front: "dq_front (cs_queue S) = Some n" using r(1) by (simp add: dq_rep_def)
  from Cons.prems(2) obtain g where g: "fuel = Suc g" "length ns < g" by (cases fuel) auto
  show ?case
  proof (cases "dn_delay (cs_nodes S n) \<le> cs_ticks S")
    case False
    with Cons.prems(1) show ?thesis by (simp add: front g(1))
  next
    case True
    from delay_queue_pop_ok [OF r(1)] obtain q' where
      q: "delay_queue_pop (cs_nodes S) (cs_queue S) = (q', Some n)" "dq_rep (cs_nodes S) q' ns" by blast
    have n: "n \<in> chunk_addrs" "n \<notin> free_chunks (cs_pool S)" using r(3,4) by auto
    from memory_pool_free_ok [OF r(2) n] obtain p' where
      p: "memory_pool_free (cs_pool S) n = Inr p'" "memory_pool_inv p'" "free_chunks p' = insert n (free_chunks (cs_pool S))"
      by blast
    let ?S = "S\<lparr>cs_queue := q', cs_pool := p'\<rparr>"
    have nn: "n \<notin> set ns" using r(1) by (simp add: dq_rep_def)
    have "cs_rep ?S ns"
      using q(2) p(2,3) r(3,4) nn by (auto simp: cs_rep_def)
    from Cons.IH [OF this g(2)] obtain S' where S': "clock_wake g ?S msg (dq_front q')
        = Inr (S', map (\<lambda>n. (dn_tid (cs_nodes S n), msg)) (takeWhile (\<lambda>n. dn_delay (cs_nodes S n) \<le> cs_ticks S) ns))"
      "cs_rep S' (dropWhile (\<lambda>n. dn_delay (cs_nodes S n) \<le> cs_ticks S) ns)" "cs_nodes S' = cs_nodes S" "cs_ticks S' = cs_ticks S"
      by auto
    have "dn_next (cs_nodes S n) = dq_front q'"
      using r(1) q(2) sll_first [of "cs_nodes S" "dn_next (cs_nodes S n)" ns] sll_first [of "cs_nodes S" "dq_front q'" ns]
      by (simp add: dq_rep_def)
    then have "clock_wake fuel S msg (dq_front (cs_queue S))
        = Inr (S', (dn_tid (cs_nodes S n), msg) # map (\<lambda>n. (dn_tid (cs_nodes S n), msg))
            (takeWhile (\<lambda>n. dn_delay (cs_nodes S n) \<le> cs_ticks S) ns))"
      using S'(1) q(1) p(1) True by (simp add: front g(1))
    with S'(2-4) True show ?thesis by simp
  qed
qed

lemma sorted_due:
  assumes "sorted (map f ns)" and "\<And>n. n \<in> set ns \<Longrightarrow> c < f n"
  shows "takeWhile (\<lambda>n. f n \<le> c + 1) ns = filter (\<lambda>n. f n = c + 1) ns"
    and "dropWhile (\<lambda>n. f n \<le> c + 1) ns = filter (\<lambda>n. f n \<noteq> c + 1) ns"
    and "\<And>n. n \<in> set ns \<Longrightarrow> f n \<noteq> c + 1 \<Longrightarrow> c + 1 < (f n :: u32)"
proof -
  have due: "f n \<le> c + 1 \<longleftrightarrow> f n = c + 1" if "n \<in> set ns" for n
    using assms(2) [OF that] inc_le [of c "f n"] by auto
  have "takeWhile (\<lambda>n. f n \<le> c + 1) ns = filter (\<lambda>n. f n = c + 1) ns
    \<and> dropWhile (\<lambda>n. f n \<le> c + 1) ns = filter (\<lambda>n. f n \<noteq> c + 1) ns"
    using assms(1) due
  proof (induction ns)
    case (Cons a ns)
    have IH: "takeWhile (\<lambda>n. f n \<le> c + 1) ns = filter (\<lambda>n. f n = c + 1) ns"
      "dropWhile (\<lambda>n. f n \<le> c + 1) ns = filter (\<lambda>n. f n \<noteq> c + 1) ns" using Cons by auto
    have "f n \<noteq> c + 1" if "f a \<noteq> c + 1" "n \<in> set ns" for n
      using Cons.prems(1) Cons.prems(2) [of a] Cons.prems(2) [of n] that by auto
    then show ?case
      using IH Cons.prems(2) [of a] by (cases "f a = c + 1") (auto simp: filter_empty_conv filter_id_conv)
  qed simp
  then show "takeWhile (\<lambda>n. f n \<le> c + 1) ns = filter (\<lambda>n. f n = c + 1) ns"
    and "dropWhile (\<lambda>n. f n \<le> c + 1) ns = filter (\<lambda>n. f n \<noteq> c + 1) ns" by simp_all
  show "c + 1 < f n" if "n \<in> set ns" "f n \<noteq> c + 1" for n
    using due [OF that(1)] that(2) by simp
qed

definition due_at :: "u32 \<Rightarrow> i32 \<times> u32 \<Rightarrow> bool" where
  "due_at c e \<longleftrightarrow> snd e = c"

lemma clock_tick_ok:
  assumes inv: "clock_inv S" and tick: "cm_action msg = TICK"
  shows "\<exists>S'. clock_server_step S tid msg
      = Inr (S', (tid, msg) # map (\<lambda>e. (fst e, msg\<lparr>cm_ticks := cs_ticks S + 1\<rparr>)) (filter (due_at (cs_ticks S + 1)) (clock_waiting S)))
    \<and> clock_inv S' \<and> cs_ticks S' = cs_ticks S + 1
    \<and> clock_waiting S' = filter (\<lambda>e. \<not> due_at (cs_ticks S + 1) e) (clock_waiting S)"
proof -
  let ?S = "S\<lparr>cs_ticks := cs_ticks S + 1\<rparr>" and ?ns = "clock_queue S"
  let ?d = "\<lambda>n. dn_delay (cs_nodes S n)"
  have rep: "cs_rep ?S ?ns" using inv by (simp add: clock_inv_def cs_rep_def)
  have pre: "sorted (map ?d ?ns)" "\<And>n. n \<in> set ?ns \<Longrightarrow> cs_ticks S < ?d n"
    using inv by (simp_all add: clock_inv_def cs_rep_def dq_rep_def)
  note due = sorted_due [of ?d, OF pre]
  from clock_wake_ok [OF rep cs_rep_length(1) [OF rep], of "msg\<lparr>cm_ticks := cs_ticks S + 1\<rparr>"] obtain S' where
    w: "clock_wake DELAY_FUEL ?S (msg\<lparr>cm_ticks := cs_ticks S + 1\<rparr>) (dq_front (cs_queue ?S))
        = Inr (S', map (\<lambda>n. (dn_tid (cs_nodes S n), msg\<lparr>cm_ticks := cs_ticks S + 1\<rparr>)) (filter (\<lambda>n. ?d n = cs_ticks S + 1) ?ns))"
      "cs_rep S' (filter (\<lambda>n. ?d n \<noteq> cs_ticks S + 1) ?ns)" "cs_nodes S' = cs_nodes S" "cs_ticks S' = cs_ticks S + 1"
    using due(1,2) by auto
  have "clock_inv S'" by (rule clock_invI [OF w(2)]) (use due(3) w(3,4) in auto)
  moreover have "clock_waiting S' = filter (\<lambda>e. \<not> due_at (cs_ticks S + 1) e) (clock_waiting S)"
    using w(3) by (simp add: clock_waiting_def cs_rep_queue [OF w(2)] filter_map o_def entry_def due_at_def cong: map_cong)
  moreover have "clock_server_step S tid msg
      = Inr (S', (tid, msg) # map (\<lambda>e. (fst e, msg\<lparr>cm_ticks := cs_ticks S + 1\<rparr>)) (filter (due_at (cs_ticks S + 1)) (clock_waiting S)))"
    using w(1) tick by (simp add: clock_server_step_def Let_def clock_waiting_def filter_map o_def entry_def due_at_def)
  ultimately show ?thesis using w(4) by blast
qed

subsection \<open>A delay\<close>

lemma map_place: "map g (place (\<lambda>m. f (g m)) n ns) = place f (g n) (map g ns)"
  by (simp add: place_def takeWhile_map dropWhile_map o_def)

lemma pool_room:
  assumes "cs_rep S ns"
  shows "mp_unused_top (cs_pool S) = 512 - length ns"
proof -
  have "card (chunk_addrs - set ns) = card chunk_addrs - card (set ns)"
    using assms by (intro card_Diff_subset) (simp_all add: cs_rep_def)
  then show ?thesis
    using assms card_free_chunks [of "cs_pool S"]
    by (simp add: cs_rep_def dq_rep_def distinct_card card_chunk_addrs MEMORY_POOL_CHUNKS_def
          MEMORY_POOL_SIZE_def MEMORY_POOL_CHUNK_SIZE_def)
qed

lemma clock_delay_ok:
  assumes inv: "clock_inv S" and later: "cs_ticks S < cm_ticks msg" and room: "length (clock_waiting S) < 512"
  shows "\<exists>S'. clock_delay_until S tid msg = Inr (S', []) \<and> clock_inv S' \<and> cs_ticks S' = cs_ticks S
    \<and> clock_waiting S' = place snd (tid, cm_ticks msg) (clock_waiting S)"
proof -
  let ?ns = "clock_queue S"
  have rep: "cs_rep S ?ns" "\<And>n. n \<in> set ?ns \<Longrightarrow> cs_ticks S < dn_delay (cs_nodes S n)"
    using inv by (simp_all add: clock_inv_def)
  then have r: "dq_rep (cs_nodes S) (cs_queue S) ?ns" "memory_pool_inv (cs_pool S)"
    "set ?ns \<subseteq> chunk_addrs" "free_chunks (cs_pool S) = chunk_addrs - set ?ns" by (simp_all add: cs_rep_def)
  have "0 < mp_unused_top (cs_pool S)" using room pool_room [OF rep(1)] by (simp add: clock_waiting_def)
  from memory_pool_allocate_ok [OF r(2) _ this, of DELAY_NODE_SIZE] obtain p' a where
    p: "memory_pool_allocate (cs_pool S) DELAY_NODE_SIZE = Inr (p', Some a)" "memory_pool_inv p'"
      "a \<in> free_chunks (cs_pool S)" "free_chunks p' = free_chunks (cs_pool S) - {a}"
    by (auto simp: DELAY_NODE_SIZE_def MEMORY_POOL_CHUNK_SIZE_def)
  have a: "a \<notin> set ?ns" "a \<in> chunk_addrs" using p(3) r(4) by auto
  let ?h = "(cs_nodes S)(a := (cs_nodes S a)\<lparr>dn_tid := tid, dn_delay := cm_ticks msg\<rparr>)"
  have same: "?h n = cs_nodes S n" if "n \<in> set ?ns" for n using that a(1) by auto
  have "sll ?h (dq_front (cs_queue S)) ?ns None = sll (cs_nodes S) (dq_front (cs_queue S)) ?ns None"
    by (rule sll_cong) (simp add: same)
  moreover have "map (\<lambda>n. dn_delay (?h n)) ?ns = map (\<lambda>n. dn_delay (cs_nodes S n)) ?ns"
    using a(1) by (intro map_cong) auto
  ultimately have "dq_rep ?h (cs_queue S) ?ns" using r(1) unfolding dq_rep_def by (simp only:)
  from delay_queue_add_ok [OF this a(1) cs_rep_length(1) [OF rep(1)]] obtain h' q' where
    add: "delay_queue_add ?h (cs_queue S) a = Inr (h', q')"
      "dq_rep h' q' (place (\<lambda>m. dn_delay (?h m)) a ?ns)"
      "\<And>m. dn_tid (h' m) = dn_tid (?h m)" "\<And>m. dn_delay (h' m) = dn_delay (?h m)" by blast
  let ?S = "S\<lparr>cs_pool := p', cs_nodes := h', cs_queue := q'\<rparr>"
  have rep': "cs_rep ?S (place (\<lambda>m. dn_delay (?h m)) a ?ns)"
    using add(2) p(2,4) r(3,4) a by (auto simp: cs_rep_def)
  have ent: "entry ?S m = (if m = a then (tid, cm_ticks msg) else entry S m)" for m
    using add(3,4) [of m] by (simp add: entry_def)
  have "clock_inv ?S"
    by (rule clock_invI [OF rep']) (use later rep(2) add(4) in auto)
  moreover have "clock_waiting ?S = place snd (tid, cm_ticks msg) (clock_waiting S)"
  proof -
    have d: "(\<lambda>m. dn_delay (?h m)) = (\<lambda>m. snd (entry ?S m))"
      using add(4) by (simp add: entry_def fun_eq_iff)
    have "map (entry ?S) (place (\<lambda>m. dn_delay (?h m)) a ?ns) = place snd (entry ?S a) (map (entry ?S) ?ns)"
      unfolding d by (rule map_place)
    moreover have "map (entry ?S) ?ns = map (entry S) ?ns"
      by (rule map_cong) (use a(1) in \<open>auto simp: ent\<close>)
    ultimately show ?thesis by (simp add: clock_waiting_def cs_rep_queue [OF rep'] ent)
  qed
  moreover have "clock_delay_until S tid msg = Inr (?S, [])"
    using p(1) add(1) later by (simp add: clock_delay_until_def not_le)
  ultimately show ?thesis by auto
qed

lemma clock_delay_full:
  assumes inv: "clock_inv S" and later: "cs_ticks S < cm_ticks msg" and full: "length (clock_waiting S) = 512"
  shows "clock_delay_until S tid msg = Inl NullDeref"
proof -
  have rep: "cs_rep S (clock_queue S)" using inv by (simp add: clock_inv_def)
  have "mp_unused_top (cs_pool S) = 0" using full pool_room [OF rep] by (simp add: clock_waiting_def)
  then show ?thesis using later
    by (simp add: clock_delay_until_def memory_pool_allocate_def DELAY_NODE_SIZE_def MEMORY_POOL_CHUNK_SIZE_def not_le)
qed

subsection \<open>The server's loop\<close>

lemma action_codes [simp]:
  "TICK \<noteq> TIME" "TICK \<noteq> DELAY" "TICK \<noteq> DELAY_UNTIL" "TIME \<noteq> TICK" "TIME \<noteq> DELAY" "TIME \<noteq> DELAY_UNTIL"
  "DELAY \<noteq> TICK" "DELAY \<noteq> TIME" "DELAY \<noteq> DELAY_UNTIL" "DELAY_UNTIL \<noteq> TICK" "DELAY_UNTIL \<noteq> TIME" "DELAY_UNTIL \<noteq> DELAY"
  by (simp_all add: TICK_def TIME_def DELAY_def DELAY_UNTIL_def)

text \<open>When a message asks to be woken, and whether its sender has to wait for it.\<close>

definition wakes_at :: "u32 \<Rightarrow> ClockServerMsg \<Rightarrow> u32" where
  "wakes_at c msg = (if cm_action msg = DELAY then cm_ticks msg + c else cm_ticks msg)"

definition must_wait :: "u32 \<Rightarrow> ClockServerMsg \<Rightarrow> bool" where
  "must_wait c msg \<longleftrightarrow> (cm_action msg = DELAY \<or> cm_action msg = DELAY_UNTIL) \<and> c < wakes_at c msg"

text \<open>A task that waited is answered with its own wake-up time.\<close>

definition answered :: "clock_reply list \<Rightarrow> i32 \<times> u32 \<Rightarrow> bool" where
  "answered rs e \<longleftrightarrow> (\<exists>r\<in>set rs. fst r = fst e \<and> cm_ticks (snd r) = snd e)"

text \<open>A step on the time and the waiting tasks.\<close>

definition clock_next :: "u32 \<Rightarrow> (i32 \<times> u32) list \<Rightarrow> i32 \<Rightarrow> ClockServerMsg \<Rightarrow> u32 \<times> (i32 \<times> u32) list" where
  "clock_next c w tid msg =
     (if cm_action msg = TICK then (c + 1, filter (\<lambda>e. \<not> due_at (c + 1) e) w)
      else if must_wait c msg then (c, place snd (tid, wakes_at c msg) w)
      else (c, w))"

lemma clock_step_ok:
  assumes inv: "clock_inv S" and room: "must_wait (cs_ticks S) msg \<Longrightarrow> length (clock_waiting S) < 512"
  shows "\<exists>S' rs. clock_server_step S tid msg = Inr (S', rs) \<and> clock_inv S'
    \<and> (cs_ticks S', clock_waiting S') = clock_next (cs_ticks S) (clock_waiting S) tid msg
    \<and> (\<forall>e\<in>set (clock_waiting S). (snd e = cs_ticks S' \<and> answered rs e) \<or> e \<in> set (clock_waiting S'))"
proof -
  let ?m = "msg\<lparr>cm_ticks := wakes_at (cs_ticks S) msg\<rparr>"
  have delay: "clock_server_step S tid msg = clock_delay_until S tid ?m" if "cm_action msg = DELAY \<or> cm_action msg = DELAY_UNTIL"
    using that by (auto simp: clock_server_step_def wakes_at_def)
  have tick: "\<not> must_wait (cs_ticks S) msg" if "cm_action msg = TICK" using that by (simp add: must_wait_def)
  consider "cm_action msg = TICK" | "must_wait (cs_ticks S) msg"
    | "cm_action msg = DELAY \<or> cm_action msg = DELAY_UNTIL" "\<not> must_wait (cs_ticks S) msg"
    | "cm_action msg \<notin> {TICK, DELAY, DELAY_UNTIL}" "\<not> must_wait (cs_ticks S) msg" by (auto simp: must_wait_def)
  then show ?thesis
  proof cases
    case 1
    from clock_tick_ok [OF inv 1, of tid] obtain S' where S': "clock_server_step S tid msg
      = Inr (S', (tid, msg) # map (\<lambda>e. (fst e, msg\<lparr>cm_ticks := cs_ticks S + 1\<rparr>)) (filter (due_at (cs_ticks S + 1)) (clock_waiting S)))"
      "clock_inv S'" "cs_ticks S' = cs_ticks S + 1"
      "clock_waiting S' = filter (\<lambda>e. \<not> due_at (cs_ticks S + 1) e) (clock_waiting S)" by blast
    have "(snd e = cs_ticks S'
        \<and> answered ((tid, msg) # map (\<lambda>e. (fst e, msg\<lparr>cm_ticks := cs_ticks S + 1\<rparr>)) (filter (due_at (cs_ticks S + 1)) (clock_waiting S))) e)
      \<or> e \<in> set (clock_waiting S')" if "e \<in> set (clock_waiting S)" for e
      using that by (cases e rule: prod.exhaust) (auto simp: S'(3,4) answered_def due_at_def)
    then show ?thesis using S'(1,2) 1 by (intro exI conjI) (assumption | simp add: S'(3,4) clock_next_def)+
  next
    case 2
    then have a: "cm_action msg = DELAY \<or> cm_action msg = DELAY_UNTIL" "cs_ticks S < cm_ticks ?m" by (simp_all add: must_wait_def)
    from clock_delay_ok [OF inv a(2) room [OF 2], of tid] obtain S' where
      "clock_delay_until S tid ?m = Inr (S', [])" "clock_inv S'" "cs_ticks S' = cs_ticks S"
      "clock_waiting S' = place snd (tid, cm_ticks ?m) (clock_waiting S)" by blast
    with 2 a(1) delay [OF a(1)] tick show ?thesis by (intro exI [of _ S'] exI [of _ "[]"]) (auto simp: clock_next_def)
  next
    case 3
    then have "cm_ticks ?m \<le> cs_ticks S" by (simp add: must_wait_def not_less)
    then have "clock_server_step S tid msg = Inr (S, [(tid, ?m)])" using delay [OF 3(1)] by (simp add: clock_delay_until_def)
    with inv 3 show ?thesis by (auto simp: clock_next_def)
  next
    case 4
    with inv show ?thesis by (auto simp: clock_server_step_def clock_next_def)
  qed
qed

text \<open>Ticks need no room, a delay the one of its node.\<close>

definition clock_room :: "nat \<Rightarrow> ClockServer \<Rightarrow> bool" where
  "clock_room n S \<longleftrightarrow> clock_inv S \<and> length (clock_waiting S) + n \<le> 512"

definition clock_needs :: "ClockServerMsg \<Rightarrow> nat" where
  "clock_needs msg = (if cm_action msg = DELAY \<or> cm_action msg = DELAY_UNTIL then 1 else 0)"

lemma clock_next_length: "length (snd (clock_next c w tid msg)) \<le> length w + clock_needs msg"
  using length_filter_le [of "\<lambda>e. \<not> due_at (c + 1) e" w]
  by (auto simp: clock_next_def must_wait_def clock_needs_def length_place intro: le_SucI)

interpretation clk: server clock_server_step clock_room "\<lambda>tid msg. True" clock_needs
proof
  fix msg n S tid
  assume r: "clock_room (clock_needs msg + n) S"
  then have "clock_inv S" "must_wait (cs_ticks S) msg \<Longrightarrow> length (clock_waiting S) < 512"
    by (auto simp: clock_room_def clock_needs_def must_wait_def split: if_splits)
  from clock_step_ok [where msg = msg and tid = tid, OF this] obtain S' rs where
    "clock_server_step S tid msg = Inr (S', rs)" "clock_inv S'"
    "clock_waiting S' = snd (clock_next (cs_ticks S) (clock_waiting S) tid msg)" by (metis snd_conv)
  then show "\<exists>S' rs. clock_server_step S tid msg = Inr (S', rs) \<and> clock_room n S'"
    using r clock_next_length [of "cs_ticks S" "clock_waiting S" tid msg] by (auto simp: clock_room_def)
qed

definition tick_count :: "(i32 \<times> i32 \<times> ClockServerMsg) list \<Rightarrow> nat" where
  "tick_count ms = length (filter (\<lambda>(len, tid, msg). cm_action msg = TICK) ms)"

text \<open>The tasks that have to wait, with their wake-up times, over a sequence of messages; and whether there is always room for them.\<close>

fun delays_asked :: "u32 \<Rightarrow> (i32 \<times> i32 \<times> ClockServerMsg) list \<Rightarrow> (i32 \<times> u32) list" where
  "delays_asked c [] = []"
| "delays_asked c ((len, tid, msg) # ms) = (if must_wait c msg then [(tid, wakes_at c msg)] else [])
     @ delays_asked (if cm_action msg = TICK then c + 1 else c) ms"

fun delays_fit :: "u32 \<Rightarrow> (i32 \<times> u32) list \<Rightarrow> (i32 \<times> i32 \<times> ClockServerMsg) list \<Rightarrow> bool" where
  "delays_fit c w [] \<longleftrightarrow> True"
| "delays_fit c w ((len, tid, msg) # ms) \<longleftrightarrow> (must_wait c msg \<longrightarrow> length w < 512)
     \<and> (case clock_next c w tid msg of (c', w') \<Rightarrow> delays_fit c' w' ms)"

text \<open>There is room when there are not more delays than free chunks, however many ticks come.\<close>

lemma few_delays_fit:
  "length w + clk.room_for ms \<le> 512 \<Longrightarrow> delays_fit c w ms"
proof (induction ms arbitrary: c w)
  case (Cons m ms)
  obtain len tid msg where m: "m = (len, tid, msg)" by (cases m)
  obtain c' w' where n: "clock_next c w tid msg = (c', w')" by fastforce
  have "length w' \<le> length w + clock_needs msg" using clock_next_length [of c w tid msg] n by simp
  moreover have "clk.room_for (m # ms) = clock_needs msg + clk.room_for ms" by (simp add: m clk.room_for_def)
  moreover have "must_wait c msg \<Longrightarrow> clock_needs msg = 1" by (simp add: must_wait_def clock_needs_def)
  ultimately show ?case using Cons.prems Cons.IH [of w' c'] n by (auto simp: m)
qed simp

lemma clock_run_ok:
  assumes "clock_inv S" and "delays_fit (cs_ticks S) (clock_waiting S) ms" and "\<forall>m\<in>set ms. nonempty m"
    and "unat (cs_ticks S) + tick_count ms < 2 ^ 32"
  shows "\<exists>S' rs. serve clock_server_step S ms = Inr (S', rs) \<and> clock_inv S'
    \<and> unat (cs_ticks S') = unat (cs_ticks S) + tick_count ms
    \<and> (\<forall>e\<in>set (clock_waiting S) \<union> set (delays_asked (cs_ticks S) ms).
         if snd e \<le> cs_ticks S' then answered rs e else e \<in> set (clock_waiting S'))"
  using assms
proof (induction ms arbitrary: S)
  case Nil
  then show ?case by (auto simp: tick_count_def clock_inv_def clock_waiting_def entry_def)
next
  case (Cons m ms)
  obtain len tid msg where m: "m = (len, tid, msg)" by (cases m)
  have len: "len \<noteq> 0" using Cons.prems(3) by (simp add: m nonempty_def)
  have "must_wait (cs_ticks S) msg \<Longrightarrow> length (clock_waiting S) < 512" using Cons.prems(2) by (simp add: m)
  from clock_step_ok [where tid = tid, OF Cons.prems(1) this] obtain S1 rs1 where
    s1: "clock_server_step S tid msg = Inr (S1, rs1)" "clock_inv S1"
      "(cs_ticks S1, clock_waiting S1) = clock_next (cs_ticks S) (clock_waiting S) tid msg"
      "\<And>e. e \<in> set (clock_waiting S) \<Longrightarrow> (snd e = cs_ticks S1 \<and> answered rs1 e) \<or> e \<in> set (clock_waiting S1)" by blast
  have ticks: "cs_ticks S1 = (if cm_action msg = TICK then cs_ticks S + 1 else cs_ticks S)"
    using s1(3) by (simp add: clock_next_def split: if_splits)
  have fit: "delays_fit (cs_ticks S1) (clock_waiting S1) ms"
    using Cons.prems(2) by (simp add: m flip: s1(3))
  have c: "tick_count (m # ms) = (if cm_action msg = TICK then Suc (tick_count ms) else tick_count ms)"
    by (simp add: tick_count_def m)
  have "unat (cs_ticks S + 1) = Suc (unat (cs_ticks S))" if "cm_action msg = TICK"
    using Cons.prems(4) c that by (simp add: unat_word_ariths)
  then have t: "unat (cs_ticks S1) + tick_count ms = unat (cs_ticks S) + tick_count (m # ms)"
    using ticks c by simp
  have "\<forall>m\<in>set ms. nonempty m" "unat (cs_ticks S1) + tick_count ms < 2 ^ 32" using Cons.prems(3,4) t by simp_all
  from Cons.IH [OF s1(2) fit this] obtain S' rs where S': "serve clock_server_step S1 ms = Inr (S', rs)" "clock_inv S'"
    "unat (cs_ticks S') = unat (cs_ticks S1) + tick_count ms"
    "\<And>e. e \<in> set (clock_waiting S1) \<union> set (delays_asked (cs_ticks S1) ms)
      \<Longrightarrow> if snd e \<le> cs_ticks S' then answered rs e else e \<in> set (clock_waiting S')" by blast
  have le: "cs_ticks S1 \<le> cs_ticks S'" using S'(3) by (simp add: word_le_nat_alt)
  have later: "if snd e \<le> cs_ticks S' then answered (rs1 @ rs) e else e \<in> set (clock_waiting S')"
    if "e \<in> set (clock_waiting S1) \<union> set (delays_asked (cs_ticks S1) ms)" for e
    using S'(4) [OF that] by (auto simp: answered_def split: if_splits)
  have "if snd e \<le> cs_ticks S' then answered (rs1 @ rs) e else e \<in> set (clock_waiting S')"
    if e: "e \<in> set (clock_waiting S) \<union> set (delays_asked (cs_ticks S) (m # ms))" for e
  proof -
    consider "snd e = cs_ticks S1" "answered rs1 e" | "e \<in> set (clock_waiting S1) \<union> set (delays_asked (cs_ticks S1) ms)"
    proof (cases "e \<in> set (clock_waiting S)")
      case True
      with s1(4) that show ?thesis by blast
    next
      case False
      with e have "e \<in> set (delays_asked (cs_ticks S1) ms) \<or> must_wait (cs_ticks S) msg \<and> e = (tid, wakes_at (cs_ticks S) msg)"
        by (auto simp: m ticks split: if_splits)
      then have "e \<in> set (clock_waiting S1) \<union> set (delays_asked (cs_ticks S1) ms)"
        using s1(3) by (auto simp: clock_next_def must_wait_def split: if_splits)
      with that show ?thesis by blast
    qed
    then show ?thesis
    proof cases
      case 1
      with le show ?thesis by (auto simp: answered_def)
    next
      case 2
      then show ?thesis by (rule later)
    qed
  qed
  moreover have "serve clock_server_step S (m # ms) = Inr (S', rs1 @ rs)"
    using len s1(1) S'(1) by (simp add: m)
  ultimately show ?case using S'(2,3) t by auto
qed

end
