(* ===== verification/Idle.thy ===== *)
theory Idle
  imports Timer "HOL-Library.Signed_Division"
begin

text \<open>
  The idle task of \<^verbatim>\<open>idle.c\<close>: it measures how much of the time passes outside of it and reports
  the share every 50th round.  The counts read from the timer are parameters.  The state is the
  file's global variables.
\<close>

definition REPORT_PERIOD :: int where "REPORT_PERIOD = 50"

record Idle =
  id_execution_time :: u64
  id_enter_time :: u64
  id_last_exit_time :: u64
  id_begin_time :: u64
  id_count :: i32

definition idle_zero :: Idle where
  "idle_zero = \<lparr>id_execution_time = 0, id_enter_time = 0, id_last_exit_time = 0, id_begin_time = 0, id_count = 0\<rparr>"

definition idle_setup :: "SysClocks \<Rightarrow> Idle \<Rightarrow> Idle res" where
  "idle_setup clocks S =
     (let S = S\<lparr>id_count := 0\<rparr>;
          S = S\<lparr>id_last_exit_time := sys_clock_boot_time clocks 1\<rparr>;
          S = S\<lparr>id_begin_time := sys_clock_boot_time clocks 1\<rparr>
      in bindE (assertE (id_last_exit_time S = id_begin_time S)) (\<lambda>_. Inr S))"

text \<open>
  The counts are those of entering and, in a round with a report, of its end; the report is the
  number of the round and the percentage.
\<close>

definition idle_after_enter :: "Idle \<Rightarrow> u64 \<Rightarrow> u64 \<Rightarrow> (Idle \<times> (i32 \<times> u64) list) res" where
  "idle_after_enter S enter reported =
     (let S = S\<lparr>id_enter_time := enter\<rparr>;
          S = S\<lparr>id_execution_time := id_execution_time S + (id_enter_time S - id_last_exit_time S)\<rparr>
      in bindE
        (if sint (id_count S) smod REPORT_PERIOD = 0
         then let period = (id_enter_time S - id_begin_time S) div 100
              in if period = 0 then Inl Overflow
                 else Inr (S\<lparr>id_execution_time := 0, id_begin_time := reported\<rparr>,
                           [(id_count S, id_execution_time S div period)])
         else Inr (S, []))
        (\<lambda>(S, reports).
           if sint (id_count S) = 2 ^ 31 - 1 then Inl Overflow
           else Inr (S\<lparr>id_count := id_count S + 1\<rparr>, reports)))"

definition idle_before_exit :: "Idle \<Rightarrow> u64 \<Rightarrow> Idle" where
  "idle_before_exit S exit = S\<lparr>id_last_exit_time := exit\<rparr>"

text \<open>The endless loop, for as many rounds as there are counts.\<close>

fun idle_rounds :: "Idle \<Rightarrow> (u64 \<times> u64 \<times> u64) list \<Rightarrow> (Idle \<times> (i32 \<times> u64) list) res" where
  "idle_rounds S [] = Inr (S, [])"
| "idle_rounds S ((enter, reported, exit) # rounds) =
     bindE (idle_after_enter S enter reported) (\<lambda>(S, reports).
     bindE (idle_rounds (idle_before_exit S exit) rounds) (\<lambda>(S, more). Inr (S, reports @ more)))"

definition idle :: "SysClocks \<Rightarrow> Idle \<Rightarrow> (u64 \<times> u64 \<times> u64) list \<Rightarrow> (Idle \<times> (i32 \<times> u64) list) res" where
  "idle clocks S rounds = bindE (idle_setup clocks S) (\<lambda>S. idle_rounds S rounds)"

subsection \<open>The share is a percentage\<close>

text \<open>The time outside the task is part of the time since the period began.\<close>

definition idle_inv :: "Idle \<Rightarrow> bool" where
  "idle_inv S \<longleftrightarrow> id_begin_time S \<le> id_last_exit_time S
     \<and> unat (id_execution_time S) \<le> unat (id_last_exit_time S) - unat (id_begin_time S)"

lemma share_bounds:
  fixes e d :: nat
  assumes "e \<le> d" and "100 \<le> d"
  shows "e div (d div 100) \<le> 199" and "10000 \<le> d \<Longrightarrow> e div (d div 100) \<le> 100"
proof -
  let ?q = "d div 100"
  have q: "1 \<le> ?q" using assms(2) by (simp add: div_greater_zero_iff Suc_le_eq)
  have d: "d < 100 * ?q + 100" by linarith
  then have "e < 200 * ?q" using assms(1) q by linarith
  then have "e div ?q < 200" using q by (simp add: div_less_iff_less_mult)
  then show "e div ?q \<le> 199" by simp
  assume "10000 \<le> d"
  then have "100 \<le> ?q" by linarith
  then have "e < 101 * ?q" using d assms(1) by linarith
  then have "e div ?q < 101" using q by (simp add: div_less_iff_less_mult)
  then show "e div ?q \<le> 100" by simp
qed

lemma unat_minus_le: "b \<le> a \<Longrightarrow> unat (a - b :: u64) = unat a - unat b"
  by (simp add: unat_sub)

lemma idle_round_ok:
  assumes inv: "idle_inv S" and t: "id_last_exit_time S \<le> enter" "enter \<le> reported" "reported \<le> exit"
    and n: "0 \<le> sint (id_count S)" "sint (id_count S) < 2 ^ 31 - 1"
  shows "if sint (id_count S) mod 50 = 0 \<and> enter - id_begin_time S < 100
    then idle_after_enter S enter reported = Inl Overflow
    else \<exists>S' rs. idle_after_enter S enter reported = Inr (S', rs) \<and> idle_inv (idle_before_exit S' exit)
      \<and> sint (id_count S') = sint (id_count S) + 1
      \<and> id_begin_time S' = (if sint (id_count S) mod 50 = 0 then reported else id_begin_time S)
      \<and> map fst rs = (if sint (id_count S) mod 50 = 0 then [id_count S] else [])
      \<and> (\<forall>r\<in>set rs. snd r \<le> 199 \<and> (10000 \<le> enter - id_begin_time S \<longrightarrow> snd r \<le> 100))"
proof -
  let ?e = "id_execution_time S + (enter - id_last_exit_time S)"
  have b: "id_begin_time S \<le> id_last_exit_time S" "id_begin_time S \<le> enter" using inv t by (auto simp: idle_inv_def)
  have ord: "unat (id_begin_time S) \<le> unat (id_last_exit_time S)" "unat (id_last_exit_time S) \<le> unat enter"
    "unat enter \<le> unat reported" "unat reported \<le> unat exit"
    using b t by (simp_all add: word_le_nat_alt)
  have e0: "unat (id_execution_time S) \<le> unat (id_last_exit_time S) - unat (id_begin_time S)"
    using inv by (simp add: idle_inv_def)
  have "unat (id_execution_time S) + (unat enter - unat (id_last_exit_time S)) < 2 ^ 64"
    using e0 ord unsigned_less [of enter, where 'a = nat] by simp
  then have "unat ?e = unat (id_execution_time S) + (unat enter - unat (id_last_exit_time S))"
    using unat_minus_le [OF t(1)] by (simp add: unat_word_ariths)
  then have e: "unat ?e \<le> unat enter - unat (id_begin_time S)" using e0 ord by linarith
  have d: "unat (enter - id_begin_time S) = unat enter - unat (id_begin_time S)" by (rule unat_minus_le [OF b(2)])
  have count: "sint (id_count S + 1) = sint (id_count S) + 1"
    using n by (simp add: sint_word_ariths signed_take_bit_int_eq_self)
  have zero: "(enter - id_begin_time S) div 100 = 0 \<longleftrightarrow> enter - id_begin_time S < 100"
    by (simp add: word_unat_eq_iff word_less_nat_alt unat_div div_eq_0_iff)
  have pos: "sint (id_count S) smod 50 = sint (id_count S) mod 50" using n(1) by (auto simp: signed_modulo_int_def sgn_if)
  show ?thesis
  proof (cases "sint (id_count S) mod 50 = 0 \<and> enter - id_begin_time S < 100")
    case True
    then show ?thesis using zero pos by (simp add: idle_after_enter_def REPORT_PERIOD_def Let_def)
  next
    case False
    let ?r = "sint (id_count S) mod 50 = 0" and ?p = "(enter - id_begin_time S) div 100"
    have round: "idle_after_enter S enter reported = Inr
       (if ?r then S\<lparr>id_execution_time := 0, id_enter_time := enter, id_begin_time := reported, id_count := id_count S + 1\<rparr>
        else S\<lparr>id_execution_time := ?e, id_enter_time := enter, id_count := id_count S + 1\<rparr>,
        if ?r then [(id_count S, ?e div ?p)] else [])"
      using False zero pos n(2) by (simp add: idle_after_enter_def REPORT_PERIOD_def Let_def)
    have "unat (?e div ?p) \<le> 199" "10000 \<le> enter - id_begin_time S \<Longrightarrow> unat (?e div ?p) \<le> 100" if ?r
      using share_bounds [OF e [folded d]] False that by (simp_all add: unat_div word_less_nat_alt word_le_nat_alt not_less)
    then have share: "?e div ?p \<le> 199 \<and> (10000 \<le> enter - id_begin_time S \<longrightarrow> ?e div ?p \<le> 100)" if ?r
      using that by (simp add: word_le_nat_alt)
    show ?thesis unfolding round using False count share t b e ord
      by (auto simp: idle_before_exit_def idle_inv_def)
  qed
qed

text \<open>
  The readings of a clock that does not run backwards: a round enters after the last one left, and its own three readings
  are in order.  The period of a report begins when the last report was printed (at boot for the first one), and is at least
  100 microseconds, since the code divides by its hundredth.  The arguments are the number of the round, the begin of the period and the last exit.
\<close>

fun metered :: "int \<Rightarrow> u64 \<Rightarrow> u64 \<Rightarrow> (u64 \<times> u64 \<times> u64) list \<Rightarrow> bool" where
  "metered k begun last_exit [] \<longleftrightarrow> True"
| "metered k begun last_exit ((enter, reported, exit) # rounds) \<longleftrightarrow>
     last_exit \<le> enter \<and> enter \<le> reported \<and> reported \<le> exit
     \<and> (k mod 50 = 0 \<longrightarrow> 100 \<le> enter - begun)
     \<and> metered (k + 1) (if k mod 50 = 0 then reported else begun) exit rounds"

text \<open>The lengths of the periods that are reported.\<close>

fun report_periods :: "int \<Rightarrow> u64 \<Rightarrow> (u64 \<times> u64 \<times> u64) list \<Rightarrow> u64 list" where
  "report_periods k begun [] = []"
| "report_periods k begun ((enter, reported, exit) # rounds) =
     (if k mod 50 = 0 then (enter - begun) # report_periods (k + 1) reported rounds
      else report_periods (k + 1) begun rounds)"

text \<open>The percentage of a period: rounding makes more than 100 of a short one.\<close>

definition share_fits :: "u64 \<Rightarrow> i32 \<times> u64 \<Rightarrow> bool" where
  "share_fits d r \<longleftrightarrow> snd r \<le> 199 \<and> (10000 \<le> d \<longrightarrow> snd r \<le> 100)"

lemma longer_period:
  fixes a b e :: u64
  assumes "a \<le> b" and "b \<le> e"
  shows "e - b \<le> e - a"
  using assms by (simp add: word_le_nat_alt unat_minus_le)

lemma idle_rounds_ok:
  assumes "idle_inv S" and "metered (sint (id_count S)) (id_begin_time S) (id_last_exit_time S) rounds"
    and "0 \<le> sint (id_count S)" and "sint (id_count S) + int (length rounds) < 2 ^ 31"
  shows "\<exists>S' rs. idle_rounds S rounds = Inr (S', rs) \<and> idle_inv S'
    \<and> map (\<lambda>r. sint (fst r)) rs = filter (\<lambda>k. k mod 50 = 0) [sint (id_count S)..sint (id_count S) + int (length rounds) - 1]
    \<and> list_all2 share_fits (report_periods (sint (id_count S)) (id_begin_time S) rounds) rs"
  using assms
proof (induction rounds arbitrary: S)
  case (Cons x rounds)
  obtain enter reported exit where x: "x = (enter, reported, exit)" by (cases x)
  let ?c = "sint (id_count S)"
  have t: "id_last_exit_time S \<le> enter" "enter \<le> reported" "reported \<le> exit"
    and far: "?c mod 50 = 0 \<longrightarrow> 100 \<le> enter - id_begin_time S"
    and rest: "metered (?c + 1) (if ?c mod 50 = 0 then reported else id_begin_time S) exit rounds"
    using Cons.prems(2) x by simp_all
  have n: "?c < 2 ^ 31 - 1" using Cons.prems(4) by simp
  have "\<not> (?c mod 50 = 0 \<and> enter - id_begin_time S < 100)" using far by (auto simp: word_le_nat_alt word_less_nat_alt)
  with idle_round_ok [OF Cons.prems(1) t Cons.prems(3) n] obtain S1 r1 where
    S1: "idle_after_enter S enter reported = Inr (S1, r1)" "idle_inv (idle_before_exit S1 exit)"
      "sint (id_count S1) = ?c + 1" "id_begin_time S1 = (if ?c mod 50 = 0 then reported else id_begin_time S)"
      "map fst r1 = (if ?c mod 50 = 0 then [id_count S] else [])" "\<forall>r\<in>set r1. share_fits (enter - id_begin_time S) r"
    by (auto simp: share_fits_def)
  let ?S = "idle_before_exit S1 exit"
  have c: "sint (id_count ?S) = ?c + 1" "id_begin_time ?S = (if ?c mod 50 = 0 then reported else id_begin_time S)"
    "id_last_exit_time ?S = exit" using S1(3,4) by (simp_all add: idle_before_exit_def)
  have "metered (sint (id_count ?S)) (id_begin_time ?S) (id_last_exit_time ?S) rounds" using rest by (simp only: c)
  moreover have "0 \<le> sint (id_count ?S)" "sint (id_count ?S) + int (length rounds) < 2 ^ 31"
    using c(1) Cons.prems(3,4) by simp_all
  ultimately obtain S' rs where IH: "idle_rounds ?S rounds = Inr (S', rs)" "idle_inv S'"
    "map (\<lambda>r. sint (fst r)) rs = filter (\<lambda>k. k mod 50 = 0) [sint (id_count ?S)..sint (id_count ?S) + int (length rounds) - 1]"
    "list_all2 share_fits (report_periods (sint (id_count ?S)) (id_begin_time ?S) rounds) rs" using Cons.IH [OF S1(2)] by blast
  have "[?c..?c + int (length (x # rounds)) - 1] = ?c # [?c + 1..?c + int (length rounds)]"
    by (subst upto_rec1) simp_all
  moreover have "map (\<lambda>r. sint (fst r)) r1 = (if ?c mod 50 = 0 then [?c] else [])"
    using arg_cong [OF S1(5), of "map sint"] by (simp add: comp_def)
  moreover have "list_all2 share_fits (report_periods ?c (id_begin_time S) (x # rounds)) (r1 @ rs)"
    using IH(4) S1(5,6) by (auto simp: x c)
  ultimately show ?case using S1(1) IH(1-3) c(1) x by auto
qed simp

lemma idle_ok:
  assumes "id_execution_time S = 0" and "metered 0 (sys_clock_boot_time clocks 1) (sys_clock_boot_time clocks 1) rounds"
    and "length rounds < 2 ^ 31"
  shows "\<exists>S' rs. idle clocks S rounds = Inr (S', rs)
    \<and> map (\<lambda>r. sint (fst r)) rs = filter (\<lambda>k. k mod 50 = 0) [0..int (length rounds) - 1]
    \<and> list_all2 share_fits (report_periods 0 (sys_clock_boot_time clocks 1) rounds) rs"
proof -
  let ?b = "sys_clock_boot_time clocks 1"
  let ?S = "S\<lparr>id_last_exit_time := ?b, id_begin_time := ?b, id_count := 0\<rparr>"
  have "idle_setup clocks S = Inr ?S" by (simp add: idle_setup_def assertE_def)
  moreover have "idle_inv ?S" using assms(1) by (simp add: idle_inv_def)
  ultimately show ?thesis using idle_rounds_ok [of ?S rounds] assms(2,3) by (auto simp: idle_def)
qed

end
