(* ===== verification/Task_Code.thy ===== *)
theory Task_Code
  imports Task_Program Name_Server Clock_Server Idle
begin

text \<open>
  The programs of the tasks: the servers and the idle task as the kernel runs them, and the tasks of the
  directory \<^verbatim>\<open>tasks\<close>.  A call of \<^verbatim>\<open>RegisterAs\<close>, \<^verbatim>\<open>WhoIs\<close> or \<^verbatim>\<open>Delay\<close> takes the rest of the
  program as an argument.  What the linker and the hardware decide is an \<open>Image\<close>: the addresses of functions
  and string literals, the strings in memory, what the stack holds before it is written, and the readings of
  the timer.
\<close>

subsection \<open>The image\<close>

record Image =
  im_name_server :: u64
  im_clock_server :: u64
  im_clock_server_tick :: u64
  im_rps_server :: u64
  im_rps_client :: u64
  im_k1_demo :: u64
  im_k3_client :: u64
  im_task_a :: u64
  im_task_b :: u64
  im_sender :: u64
  im_receiver :: u64
  im_string :: "u64 \<Rightarrow> key"
  im_clock_name :: u64                       \<comment> \<open>the literal in \<^verbatim>\<open>clock_server.c\<close>\<close>
  im_clock_name_k3 :: u64                    \<comment> \<open>the literal in \<^verbatim>\<open>k3_user_tasks.c\<close>\<close>
  im_S1 :: u64
  im_R1 :: u64
  im_R1_sender :: u64
  im_junk :: "string \<Rightarrow> i32 \<Rightarrow> nat \<Rightarrow> u8"      \<comment> \<open>what a local variable of a function holds at first\<close>
  im_names :: NameServer
  im_clock :: ClockServer
  im_clocks :: SysClocks
  im_idle :: "nat \<Rightarrow> u64 \<times> u64 \<times> u64"
  im_half :: "i32 \<Rightarrow> nat \<Rightarrow> u32"              \<comment> \<open>by the receiver that the task sends to\<close>
  im_full :: "nat \<Rightarrow> u64"
  im_error :: "nat \<Rightarrow> nat \<Rightarrow> u64 \<times> u64"

text \<open>The bytes of the message buffer of a function, in a task, before they are written.\<close>

definition junk :: "Image \<Rightarrow> string \<Rightarrow> i32 \<Rightarrow> nat \<Rightarrow> bytes" where
  "junk I fn tid n = map (im_junk I fn tid) [0..<n]"

lemma length_junk [simp]: "length (junk I fn tid n) = n"
  by (simp add: junk_def)

text \<open>Strings as the compiler stores them, and a format that ends the line.\<close>

definition ascii :: "string \<Rightarrow> bytes" where
  "ascii s = map of_char s"

definition char_array :: "nat \<Rightarrow> string \<Rightarrow> bytes" where
  "char_array n s = ascii s @ replicate (n - length s) 0"

definition ln :: "string \<Rightarrow> string" where
  "ln s = s @ [CHR 0x0D, CHR 0x0A]"

subsection \<open>Fields of a structure\<close>

definition le32 :: "u32 \<Rightarrow> bytes" where
  "le32 w = [ucast w, ucast (drop_bit 8 w), ucast (drop_bit 16 w), ucast (drop_bit 24 w)]"

definition of_le32 :: "bytes \<Rightarrow> u32" where
  "of_le32 bs = or (ucast (bs ! 0)) (or (push_bit 8 (ucast (bs ! 1))) (or (push_bit 16 (ucast (bs ! 2))) (push_bit 24 (ucast (bs ! 3)))))"

definition put32 :: "nat \<Rightarrow> u32 \<Rightarrow> bytes \<Rightarrow> bytes" where
  "put32 i w bs = take i bs @ le32 w @ drop (i + 4) bs"

definition get32 :: "nat \<Rightarrow> bytes \<Rightarrow> u32" where
  "get32 i bs = of_le32 (drop i bs)"

definition put64 :: "nat \<Rightarrow> u64 \<Rightarrow> bytes \<Rightarrow> bytes" where
  "put64 i w bs = put32 (i + 4) (ucast (drop_bit 32 w)) (put32 i (ucast w) bs)"

definition get64 :: "nat \<Rightarrow> bytes \<Rightarrow> u64" where
  "get64 i bs = or (ucast (get32 i bs)) (push_bit 32 (ucast (get32 (i + 4) bs)))"

lemma of_le32_le32: "of_le32 (le32 w @ bs) = w"
  unfolding of_le32_def le32_def by (rule bit_word_eqI) (auto simp: bit_simps nth_append not_less, rule ccontr, simp)

lemma length_le32 [simp]: "length (le32 w) = 4"
  by (simp add: le32_def)

lemma length_put32 [simp]: "i + 4 \<le> length bs \<Longrightarrow> length (put32 i w bs) = length bs"
  by (simp add: put32_def)

lemma get32_put32: "i + 4 \<le> length bs \<Longrightarrow> get32 i (put32 i w bs) = w"
  by (simp add: get32_def put32_def of_le32_le32)

lemma of_le32_eq:
  assumes "take 4 bs = take 4 cs"
  shows "of_le32 bs = of_le32 cs"
proof -
  have "bs ! i = cs ! i" if "i < 4" for i using assms that by (metis nth_take)
  then show ?thesis by (simp add: of_le32_def)
qed

lemma get32_put32_other:
  assumes "i + 4 \<le> j \<or> j + 4 \<le> i" and "i + 4 \<le> length bs" and "j + 4 \<le> length bs"
  shows "get32 j (put32 i w bs) = get32 j bs"
  unfolding get32_def using assms by (intro of_le32_eq) (auto simp: put32_def drop_take)

lemma put32_put32: "i + 4 \<le> length bs \<Longrightarrow> put32 i v (put32 i w bs) = put32 i v bs"
  by (simp add: put32_def)

text \<open>A message that comes into a buffer.\<close>

definition overlay :: "bytes \<Rightarrow> bytes \<Rightarrow> bytes" where
  "overlay buf msg = msg @ drop (length msg) buf"

subsection \<open>Clients of the servers\<close>

definition NAME_MSG :: nat where "NAME_MSG = 24"
definition CLOCK_MSG :: nat where "CLOCK_MSG = 8"
definition K3_MSG :: nat where "K3_MSG = 8"

definition name_msg :: "Image \<Rightarrow> string \<Rightarrow> u32 \<Rightarrow> u64 \<Rightarrow> i32 \<Rightarrow> bytes" where
  "name_msg I fn action nm tid = put32 16 tid (put64 8 nm (put32 0 action (junk I fn tid NAME_MSG)))"

definition RegisterAs_prog :: "Image \<Rightarrow> u64 \<Rightarrow> (i32 \<Rightarrow> Statics \<Rightarrow> prog) \<Rightarrow> Statics \<Rightarrow> prog" where
  "RegisterAs_prog I nm rest g =
     Call [] g MyTid (\<lambda>a g.
     Call [] g (Send (st_name_server_tid g) (name_msg I ''RegisterAs'' REGISTER_AS nm (an_result a)) NAME_MSG) (\<lambda>a g.
     if sint (an_result a) < 0 then rest (- 1) g
     else Call [] g Yield (\<lambda>_ g. rest 0 g)))"

definition WhoIs_prog :: "Image \<Rightarrow> u64 \<Rightarrow> (i32 \<Rightarrow> Statics \<Rightarrow> prog) \<Rightarrow> Statics \<Rightarrow> prog" where
  "WhoIs_prog I nm rest g =
     Call [] g MyTid (\<lambda>a g.
     let msg = name_msg I ''WhoIs'' WHO_IS nm (an_result a)
     in Call [] g (Send (st_name_server_tid g) msg NAME_MSG) (\<lambda>a g.
        if sint (an_result a) < 0 then rest (- 1) g
        else rest (get32 16 (overlay msg (an_bytes a))) g))"

definition clock_msg :: "u32 \<Rightarrow> u32 \<Rightarrow> bytes" where
  "clock_msg action ticks = le32 action @ le32 ticks"

definition Delay_prog :: "i32 \<Rightarrow> i32 \<Rightarrow> (i32 \<Rightarrow> Statics \<Rightarrow> prog) \<Rightarrow> Statics \<Rightarrow> prog" where
  "Delay_prog tid ticks rest g =
     (let msg = clock_msg DELAY ticks
      in if sint ticks < 0 then rest (- 2) g
         else Call [] g (Send tid msg CLOCK_MSG) (\<lambda>a g.
              if sint (an_result a) < 0 then rest (- 1) g
              else rest (get32 4 (overlay msg (an_bytes a))) g))"

subsection \<open>The servers\<close>

text \<open>
  The loop of a server: the lines and replies of the last message, then the next message.  A message of
  another size, of which a part of the buffer would be left from the last one, is outside the model.
\<close>

type_synonym 's served = "('s \<times> line list \<times> (i32 \<times> bytes) list) res option"

primcorec serve_prog :: "nat \<Rightarrow> ('s \<Rightarrow> i32 \<Rightarrow> bytes \<Rightarrow> ('s \<times> line list \<times> (i32 \<times> bytes) list) res) \<Rightarrow> 's served \<Rightarrow> Statics \<Rightarrow> prog" where
  "serve_prog n step st g =
     (case st of
        None \<Rightarrow> Call [] g Exit (\<lambda>_ _. Undefined)
      | Some r \<Rightarrow> (case r of
          Inl e \<Rightarrow> Undefined
        | Inr p \<Rightarrow> (case snd (snd p) of
            [] \<Rightarrow> Call (fst (snd p)) g (Receive n) (\<lambda>a g. serve_prog n step
                    (if an_result a = 0 then None
                     else if length (an_bytes a) = n then Some (step (fst p) (an_tid a) (an_bytes a))
                     else Some (Inl OutOfBounds)) g)
          | reply # rs \<Rightarrow> Call (fst (snd p)) g (Reply (fst reply) (snd reply)) (\<lambda>_ g. serve_prog n step
                    (Some (Inr (fst p, [], rs))) g))))"

definition name_step :: "Image \<Rightarrow> NameServer \<Rightarrow> i32 \<Rightarrow> bytes \<Rightarrow> (NameServer \<times> line list \<times> (i32 \<times> bytes) list) res" where
  "name_step I S tid buf =
     bindE (name_server_step S tid \<lparr>nm_action = get32 0 buf, nm_name = im_string I (get64 8 buf), nm_tid = get32 16 buf\<rparr>)
       (\<lambda>(S, replies). Inr (S, [], map (\<lambda>(t, msg). (t, put32 16 (nm_tid msg) buf)) replies))"

definition name_server_prog :: "Image \<Rightarrow> Statics \<Rightarrow> prog" where
  "name_server_prog I g =
     Call [] g MyTid (\<lambda>a g.
     serve_prog NAME_MSG (name_step I)
       (Some (bindE (name_server_init (im_names I) (an_result a)) (\<lambda>S. Inr (S, [], []))))
       (g\<lparr>st_name_server_tid := an_result a\<rparr>))"

text \<open>The clock server prints a line when a time to wait for is not in the future.\<close>

definition clock_step :: "ClockServer \<Rightarrow> i32 \<Rightarrow> bytes \<Rightarrow> (ClockServer \<times> line list \<times> (i32 \<times> bytes) list) res" where
  "clock_step S tid buf =
     (let msg = \<lparr>cm_action = get32 0 buf, cm_ticks = get32 4 buf\<rparr>
      in bindE (clock_server_step S tid msg) (\<lambda>(S, replies).
         Inr (S, if cm_action msg \<in> {DELAY, DELAY_UNTIL} \<and> replies \<noteq> [] then [(ln ''ticks mismatch'', [])] else [],
              map (\<lambda>(t, msg). (t, clock_msg (cm_action msg) (cm_ticks msg))) replies)))"

definition clock_server_prog :: "Image \<Rightarrow> Statics \<Rightarrow> prog" where
  "clock_server_prog I =
     RegisterAs_prog I (im_clock_name I) (\<lambda>_ g.
     say (ln ''clock_server successfully registered in name_server'', [])
       (Call [] g (Create 5 (im_clock_server_tick I)) (\<lambda>_ g.
        serve_prog CLOCK_MSG clock_step (Some (Inr (clock_server_init (im_clock I), [], []))) g)))"

text \<open>The loop of the notifier, from its first call on, after \<^verbatim>\<open>AwaitEvent\<close> or after \<^verbatim>\<open>Send\<close>.\<close>

primcorec clock_tick_loop :: "i32 \<Rightarrow> bytes \<Rightarrow> bool \<Rightarrow> answer \<Rightarrow> Statics \<Rightarrow> prog" where
  "clock_tick_loop tid msg awaited a g =
     (if sint (an_result a) < 0 then Call [] g Exit (\<lambda>_ _. Undefined)
      else if awaited then Call [] g (Send tid msg CLOCK_MSG) (\<lambda>b g. clock_tick_loop tid (overlay msg (an_bytes b)) False b g)
      else Call [] g (AwaitEvent 97) (\<lambda>b g. clock_tick_loop tid msg True b g))"

definition clock_server_tick_prog :: "Image \<Rightarrow> Statics \<Rightarrow> prog" where
  "clock_server_tick_prog I g =
     Call [] g MyParentTid (\<lambda>a g.
     Call [] g (AwaitEvent 97) (\<lambda>b g.
     clock_tick_loop (an_result a) (put32 0 TICK (junk I ''clock_server_tick'' (an_result a) CLOCK_MSG)) True b g))"

subsection \<open>The idle task\<close>

definition report_line :: "i32 \<times> u64 \<Rightarrow> line" where
  "report_line r = (ln ''Performance before the %dth IDLE: %d%%'', [A_int (fst r), A_long (snd r)])"

definition idle_enter :: "Image \<Rightarrow> nat \<Rightarrow> Idle \<Rightarrow> (Idle \<times> (i32 \<times> u64) list) res" where
  "idle_enter I n S = (case im_idle I n of (enter, reported, exit) \<Rightarrow> idle_after_enter S enter reported)"

definition idle_again :: "Image \<Rightarrow> nat \<Rightarrow> Idle \<Rightarrow> (Idle \<times> (i32 \<times> u64) list) res" where
  "idle_again I n S = (case im_idle I n of (enter, reported, exit) \<Rightarrow> idle_enter I (Suc n) (idle_before_exit S exit))"

primcorec idle_loop :: "Image \<Rightarrow> nat \<Rightarrow> (Idle \<times> (i32 \<times> u64) list) res \<Rightarrow> Statics \<Rightarrow> prog" where
  "idle_loop I n r g =
     (case r of
        Inl e \<Rightarrow> Undefined
      | Inr p \<Rightarrow> Call (map report_line (snd p)) g Standby (\<lambda>_ g. idle_loop I (Suc n) (idle_again I n (fst p)) g))"

definition idle_start :: "Image \<Rightarrow> (Idle \<times> (i32 \<times> u64) list) res" where
  "idle_start I = bindE (idle_setup (im_clocks I) idle_zero) (\<lambda>S. idle_enter I 0 S)"

definition idle_prog :: "Image \<Rightarrow> Statics \<Rightarrow> prog" where
  "idle_prog I = idle_loop I 0 (idle_start I)"

subsection \<open>The tasks that the kernel starts with\<close>

definition k3_msg :: "u32 \<Rightarrow> u32 \<Rightarrow> bytes" where
  "k3_msg delay num = le32 delay @ le32 num"

function k3_client_loop :: "i32 \<Rightarrow> i32 \<Rightarrow> u32 \<Rightarrow> u32 \<Rightarrow> Statics \<Rightarrow> prog" where
  "k3_client_loop tid clock_server_tid delay num g =
     (if num \<noteq> 0
      then say (ln ''task[%d]: (delay: %u, num: %u)'', [A_int tid, A_int delay, A_int num])
             (Delay_prog clock_server_tid delay (\<lambda>_ g. k3_client_loop tid clock_server_tid delay (num - 1) g) g)
      else leave g)"
  by auto
termination
  by (relation "measure (\<lambda>(tid, srv, delay, num, g). unat num)") (auto simp: measure_unat)

declare k3_client_loop.simps [simp del]

definition k3_client :: "Image \<Rightarrow> Statics \<Rightarrow> prog" where
  "k3_client I g =
     Call [] g MyTid (\<lambda>a g.
     Call [] g MyParentTid (\<lambda>b g.
     let msg = junk I ''k3_client'' (an_result a) K3_MSG
     in Call [] g (Send (an_result b) msg K3_MSG) (\<lambda>c g.
        if sint (an_result c) < 0 then say (ln ''k3_client failed to send'', []) (leave g)
        else
          let msg = overlay msg (an_bytes c)
          in WhoIs_prog I (im_clock_name_k3 I) (\<lambda>clock_server_tid g.
             k3_client_loop (an_result a) clock_server_tid (get32 0 msg) (get32 4 msg) g) g)))"

definition client_priorities :: "i32 list" where "client_priorities = [6, 5, 4, 3]"
definition client_delays :: "u32 list" where "client_delays = [10, 23, 33, 71]"
definition client_nums :: "u32 list" where "client_nums = [20, 9, 6, 3]"

text \<open>The loop that creates the clients; the table has no entries at first.\<close>

fun k3_create_clients :: "Image \<Rightarrow> nat option list \<Rightarrow> nat \<Rightarrow> i32 list \<Rightarrow> (nat option list \<Rightarrow> Statics \<Rightarrow> prog) \<Rightarrow> Statics \<Rightarrow> prog" where
  "k3_create_clients I client_idx i [] rest g = rest client_idx g"
| "k3_create_clients I client_idx i (p # ps) rest g =
     Call [] g (Create p (im_k3_client I)) (\<lambda>a g.
     if sint (an_result a) < 0 \<or> 64 \<le> sint (an_result a) then Undefined
     else k3_create_clients I (client_idx[nat (sint (an_result a)) := Some i]) (i + 1) ps rest g)"

definition k3_row :: "nat option list \<Rightarrow> i32 \<Rightarrow> nat option" where
  "k3_row client_idx tid = (if sint tid < 0 \<or> 64 \<le> sint tid then None else client_idx ! nat (sint tid))"

fun k3_serve_clients :: "nat option list \<Rightarrow> nat \<Rightarrow> Statics \<Rightarrow> prog" where
  "k3_serve_clients client_idx 0 g = leave g"
| "k3_serve_clients client_idx (Suc n) g =
     Call [] g (Receive K3_MSG) (\<lambda>a g.
     case k3_row client_idx (an_tid a) of
       None \<Rightarrow> Undefined
     | Some i \<Rightarrow>
         if i < 4
         then Call [] g (Reply (an_tid a) (k3_msg (client_delays ! i) (client_nums ! i))) (\<lambda>_ g. k3_serve_clients client_idx n g)
         else Undefined)"

definition k3_first_user_task :: "Image \<Rightarrow> Statics \<Rightarrow> prog" where
  "k3_first_user_task I g =
     Call [] g (Create 5 (im_name_server I)) (\<lambda>_ g.
     Call [] g (Create 5 (im_clock_server I)) (\<lambda>_ g.
     k3_create_clients I (replicate 64 None) 0 client_priorities (\<lambda>client_idx g. k3_serve_clients client_idx 4 g) g))"

end
