(* ===== verification/User_Machine.thy ===== *)
theory User_Machine
  imports Task_Program
begin

text \<open>
  What the programs of the tasks see of the kernel: an abstract machine, whose state is the abstract kernel
  and for each task where its program is and what it is waiting for.  Messages are lists of bytes here; there
  are no registers, no memory and no addresses.  The theory \<open>User_Refine\<close> shows that the kernel implements it.
\<close>

subsection \<open>The state\<close>

datatype utask =
    Fresh u64                                             \<comment> \<open>has not run; its entry\<close>
  | Blocked call "answer \<Rightarrow> Statics \<Rightarrow> prog"    \<comment> \<open>waits in a call\<close>
  | Answered answer "answer \<Rightarrow> Statics \<Rightarrow> prog" \<comment> \<open>its call is done\<close>

record Machine =
  ma_kernel :: AKernel
  ma_statics :: Statics
  ma_task :: "task_ptr \<Rightarrow> utask"
  ma_parent :: "task_ptr \<Rightarrow> i32"
  ma_passed :: "task_ptr \<Rightarrow> u64 option"    \<comment> \<open>the result that the kernel keeps passing to the task\<close>

subsection \<open>Calls\<close>

definition set_kernel :: "Machine \<Rightarrow> AKernel \<Rightarrow> Machine" where
  "set_kernel M A = M\<lparr>ma_kernel := A\<rparr>"

definition block :: "Machine \<Rightarrow> task_ptr \<Rightarrow> call \<Rightarrow> (answer \<Rightarrow> Statics \<Rightarrow> prog) \<Rightarrow> Machine" where
  "block M t c k = M\<lparr>ma_task := (ma_task M)(t := Blocked c k)\<rparr>"

text \<open>A call that is done without a result, and one with a result.\<close>

definition complete :: "Machine \<Rightarrow> task_ptr \<Rightarrow> answer \<Rightarrow> (answer \<Rightarrow> Statics \<Rightarrow> prog) \<Rightarrow> Machine" where
  "complete M t a k = M\<lparr>ma_task := (ma_task M)(t := Answered a k)\<rparr>"

definition finish :: "Machine \<Rightarrow> task_ptr \<Rightarrow> u64 \<Rightarrow> i32 \<Rightarrow> bytes \<Rightarrow> (answer \<Rightarrow> Statics \<Rightarrow> prog) \<Rightarrow> Machine" where
  "finish M t r from bs k =
     (complete M t (Answer (ucast r) from bs) k)\<lparr>ma_passed := (ma_passed M)(t := Some r)\<rparr>"

definition u_create :: "Machine \<Rightarrow> task_ptr \<Rightarrow> i32 \<Rightarrow> u64 \<Rightarrow> (answer \<Rightarrow> Statics \<Rightarrow> prog) \<Rightarrow> Machine" where
  "u_create M t priority func k =
     (let A = ma_kernel M; n = a_created A
      in if n < MAX_TASK_NUM
         then
           let M = (set_kernel M (fst (a_create A (priority_index (clamp_priority priority)))))
                \<lparr>ma_task := (ma_task M)(n := Fresh func), ma_parent := (ma_parent M)(n := word_of_nat t),
                 ma_passed := (ma_passed M)(n := None)\<rparr>
           in finish M t (word_of_nat n) 0 [] k
         else finish M t (- 1) 0 [] k)"

text \<open>The bytes that fit, from a message into a buffer.\<close>

definition fitting :: "bytes \<Rightarrow> nat \<Rightarrow> bytes" where
  "fitting msg room = take (min (length msg) room) msg"

definition u_send :: "Machine \<Rightarrow> task_ptr \<Rightarrow> i32 \<Rightarrow> bytes \<Rightarrow> nat \<Rightarrow> (answer \<Rightarrow> Statics \<Rightarrow> prog) \<Rightarrow> Machine option" where
  "u_send M t to msg room k =
     (let A = ma_kernel M
      in case a_find A to of
           None \<Rightarrow> Some (finish M t (- 1) 0 [] k)
         | Some r \<Rightarrow>
             (let M' = set_kernel M (a_send A t (Some r))
              in if a_state A r = WAITRECEIVE
                 then (case ma_task M r of
                         Blocked (Receive n) kr \<Rightarrow>
                           Some (block (finish M' r (word_of_nat (length (fitting msg n))) (word_of_nat t) (fitting msg n) kr)
                                   t (Send to msg room) k)
                       | _ \<Rightarrow> None)
                 else if length (a_senders A r) < MAX_SENDER_CAPACITY - 1 then Some (block M' t (Send to msg room) k)
                 else Some (finish M t (- 2) 0 [] k)))"

definition u_receive :: "Machine \<Rightarrow> task_ptr \<Rightarrow> nat \<Rightarrow> (answer \<Rightarrow> Statics \<Rightarrow> prog) \<Rightarrow> Machine option" where
  "u_receive M t n k =
     (let A = ma_kernel M; M' = set_kernel M (a_receive A t)
      in case a_senders A t of
           [] \<Rightarrow> Some (block M' t (Receive n) k)
         | s # _ \<Rightarrow>
             (case ma_task M s of
                Blocked (Send to msg room) ks \<Rightarrow>
                  Some (finish M' t (word_of_nat (length (fitting msg n))) (word_of_nat s) (fitting msg n) k)
              | _ \<Rightarrow> None))"

definition u_reply :: "Machine \<Rightarrow> task_ptr \<Rightarrow> i32 \<Rightarrow> bytes \<Rightarrow> (answer \<Rightarrow> Statics \<Rightarrow> prog) \<Rightarrow> Machine option" where
  "u_reply M t to msg k =
     (let A = ma_kernel M
      in case a_find A to of
           None \<Rightarrow> Some (finish M t (- 1) 0 [] k)
         | Some s \<Rightarrow>
             (if a_state A s = WATIREPLY
              then (case ma_task M s of
                      Blocked (Send to' msg' room) ks \<Rightarrow>
                        (let M' = finish (set_kernel M (a_reply A (Some s))) s
                                    (word_of_nat (length (fitting msg room))) 0 (fitting msg room) ks
                         in Some (finish M' t (word_of_nat (length (fitting msg room))) 0 [] k))
                    | _ \<Rightarrow> None)
              else None))"

definition u_await :: "Machine \<Rightarrow> task_ptr \<Rightarrow> i32 \<Rightarrow> (answer \<Rightarrow> Statics \<Rightarrow> prog) \<Rightarrow> Machine option" where
  "u_await M t e k =
     (if 0 \<le> sint e \<and> sint e < 1022
      then Some (block (set_kernel M (a_await (ma_kernel M) t (nat (sint e)))) t (AwaitEvent e) k)
      else None)"

text \<open>
  The tick of the timer: the first task that awaits it goes on.  The kernel gives it no result, so it finds
  the last one it got, or else the argument of its call.
\<close>

definition u_tick :: "Machine \<Rightarrow> Machine option" where
  "u_tick M =
     (let A = ma_kernel M; M' = set_kernel M (a_wake A 97)
      in case service_order TASK_PRIORITY_MAX (a_irq A 97) of
           [] \<Rightarrow> Some M'
         | w # _ \<Rightarrow>
             (case ma_task M w of
                Blocked (AwaitEvent e) kw \<Rightarrow>
                  Some (complete M' w (Answer (case ma_passed M w of Some r \<Rightarrow> ucast r | None \<Rightarrow> e) 0 []) kw)
              | _ \<Rightarrow> None))"

fun u_call :: "Machine \<Rightarrow> task_ptr \<Rightarrow> call \<Rightarrow> (answer \<Rightarrow> Statics \<Rightarrow> prog) \<Rightarrow> Machine option" where
  "u_call M t (Create p f) k = Some (u_create M t p f k)"
| "u_call M t MyTid k = Some (finish M t (word_of_nat t) 0 [] k)"
| "u_call M t MyParentTid k = Some (finish M t (scast (ma_parent M t)) 0 [] k)"
| "u_call M t Yield k = Some (complete M t (Answer 0 0 []) k)"
| "u_call M t Exit k = Some (set_kernel M (a_exit (ma_kernel M) t))"
| "u_call M t (Send to msg room) k = u_send M t to msg room k"
| "u_call M t (Receive n) k = u_receive M t n k"
| "u_call M t (Reply to msg) k = u_reply M t to msg k"
| "u_call M t (AwaitEvent e) k = u_await M t e k"
| "u_call M t Standby k = u_tick (complete M t (Answer 0 0 []) k)"

subsection \<open>Rounds\<close>

fun u_resume :: "(u64 \<Rightarrow> Statics \<Rightarrow> prog) \<Rightarrow> Statics \<Rightarrow> utask \<Rightarrow> prog" where
  "u_resume code g (Fresh f) = code f g"
| "u_resume code g (Answered a k) = k a g"
| "u_resume code g (Blocked c k) = Undefined"

text \<open>The message and the buffers of a call have room in the stack block of a task.\<close>

fun fits :: "call \<Rightarrow> bool" where
  "fits (Send to msg room) \<longleftrightarrow> length msg + room \<le> MEMORY_BLOCK_SIZE"
| "fits (Receive n) \<longleftrightarrow> n + 4 \<le> MEMORY_BLOCK_SIZE"
| "fits (Reply to msg) \<longleftrightarrow> length msg \<le> MEMORY_BLOCK_SIZE"
| "fits c \<longleftrightarrow> True"

text \<open>One round: the task that runs, the lines it prints and the new state; none if no task is ready or its call is not well behaved.\<close>

definition u_round :: "(u64 \<Rightarrow> Statics \<Rightarrow> prog) \<Rightarrow> Machine \<Rightarrow> (task_ptr \<times> line list \<times> Machine) option" where
  "u_round code M =
     (case a_schedule (ma_kernel M) of
        (A, None) \<Rightarrow> None
      | (A, Some t) \<Rightarrow>
          (case u_resume code (ma_statics M) (ma_task M t) of
             Undefined \<Rightarrow> None
           | Call out g c k \<Rightarrow>
               if fits c
               then map_option (\<lambda>M. (t, out, M)) (u_call (M\<lparr>ma_kernel := a_run A t, ma_statics := g\<rparr>) t c k)
               else None))"

fun u_rounds :: "(u64 \<Rightarrow> Statics \<Rightarrow> prog) \<Rightarrow> nat \<Rightarrow> Machine \<Rightarrow> ((task_ptr \<times> line list) list \<times> Machine) option" where
  "u_rounds code 0 M = Some ([], M)"
| "u_rounds code (Suc n) M =
     (case u_round code M of
        None \<Rightarrow> None
      | Some (t, out, M) \<Rightarrow> map_option (\<lambda>(more, M). ((t, out) # more, M)) (u_rounds code n M))"

end
