(* ===== verification/Server_Steps.thy ===== *)
theory Server_Steps
  imports Task_Code User_Machine
begin

text \<open>
  The steps of the name server and of the clock server, on messages as bytes: what the server answers and what it
  keeps, with the facts about the fields of the messages.
\<close>

subsection \<open>Messages\<close>

lemma length_put64 [simp]: "i + 8 \<le> length bs \<Longrightarrow> length (put64 i w bs) = length bs"
  by (simp add: put64_def)

lemma length_name_msg [simp]: "length (name_msg I fn action nm tid) = 24"
  by (simp add: name_msg_def NAME_MSG_def)

lemma length_reply_name_msg [simp]: "length (put32 16 v (name_msg I fn action nm tid)) = 24"
  by simp

lemma length_clock_msg [simp]: "length (clock_msg action ticks) = 8"
  by (simp add: clock_msg_def)

lemma length_k3_msg [simp]: "length (k3_msg delay num) = 8"
  by (simp add: k3_msg_def)

lemma overlay_whole [simp]: "length buf = length msg \<Longrightarrow> overlay buf msg = msg"
  by (simp add: overlay_def)

lemma fitting_whole [simp]: "length msg \<le> room \<Longrightarrow> fitting msg room = msg"
  by (simp add: fitting_def)

lemma get32_split: "i = length as \<Longrightarrow> get32 i (as @ le32 w @ bs) = w"
  by (simp add: get32_def of_le32_le32)

lemma list_of_4: "length bs = 4 \<Longrightarrow> \<exists>a b c d. bs = [a, b, c, d]"
  by (auto simp: length_Suc_conv numeral_eq_Suc)

lemma le32_of_le32: "length bs = 4 \<Longrightarrow> le32 (of_le32 bs) = bs"
proof -
  assume "length bs = 4"
  then obtain a b c d where bs: "bs = [a, b, c, d]" using list_of_4 by blast
  show ?thesis unfolding bs le32_def of_le32_def
    by (simp, intro conjI; rule bit_word_eqI; auto simp: bit_simps dest: bit_imp_le_length)
qed

text \<open>The message of the notifier: the number of ticks is what the stack held.\<close>

lemma notifier_msg: "length bs = 8 \<Longrightarrow> put32 0 action bs = clock_msg action (get32 4 bs)"
  using le32_of_le32 [of "drop 4 bs"] by (simp add: put32_def clock_msg_def get32_def)

lemma get_two_words: "get32 0 (le32 a @ le32 b) = a" "get32 4 (le32 a @ le32 b) = b"
  using get32_split [of 0 "[]" a "le32 b"] get32_split [of 4 "le32 a" b "[]"] by simp_all

lemma get_clock_msg [simp]: "get32 0 (clock_msg action ticks) = action" "get32 4 (clock_msg action ticks) = ticks"
  by (simp_all add: clock_msg_def get_two_words)

lemma get_k3_msg [simp]: "get32 0 (k3_msg delay num) = delay" "get32 4 (k3_msg delay num) = num"
  by (simp_all add: k3_msg_def get_two_words)

lemma get64_put64:
  assumes "i + 8 \<le> length bs"
  shows "get64 i (put64 i w bs) = w"
  using assms by (simp add: get64_def put64_def get32_put32 get32_put32_other join_words)

lemma get32_put64_other:
  assumes "j + 4 \<le> i \<or> i + 8 \<le> j" and "i + 8 \<le> length bs" and "j + 4 \<le> length bs"
  shows "get32 j (put64 i w bs) = get32 j bs"
proof -
  have "get32 j (put64 i w bs) = get32 j (put32 i (ucast w) bs)"
    unfolding put64_def by (rule get32_put32_other) (use assms in auto)
  also have "\<dots> = get32 j bs" by (rule get32_put32_other) (use assms in auto)
  finally show ?thesis .
qed

lemma get64_put32_other:
  assumes "j + 8 \<le> i \<or> i + 4 \<le> j" and "i + 4 \<le> length bs" and "j + 8 \<le> length bs"
  shows "get64 j (put32 i w bs) = get64 j bs"
proof -
  have "get32 j (put32 i w bs) = get32 j bs" "get32 (j + 4) (put32 i w bs) = get32 (j + 4) bs"
    by (rule get32_put32_other; use assms in auto)+
  then show ?thesis by (simp add: get64_def)
qed

lemma get_name_msg [simp]:
  "get32 0 (name_msg I fn action nm tid) = action" "get64 8 (name_msg I fn action nm tid) = nm"
  "get32 16 (name_msg I fn action nm tid) = tid" "get32 16 (put32 16 v (name_msg I fn action nm tid)) = v"
  by (simp_all add: name_msg_def NAME_MSG_def get32_put32 get32_put32_other get32_put64_other get64_put64 get64_put32_other)

subsection \<open>The servers\<close>

text \<open>The state that a message leaves the server in.\<close>

fun after :: "('s \<times> line list \<times> (i32 \<times> bytes) list) res \<Rightarrow> 's" where
  "after (Inr (S, out, rs)) = S"

lemma register_step:
  assumes good: "names_good n S" and fresh: "registered S (im_string I nm) = None"
  shows "name_step I S t (name_msg I fn REGISTER_AS nm v)
      = Inr (after (name_step I S t (name_msg I fn REGISTER_AS nm v)), [], [(t, put32 16 v (name_msg I fn REGISTER_AS nm v))])"
    and "registered (after (name_step I S t (name_msg I fn REGISTER_AS nm v))) (im_string I nm) = Some t"
    and "names_good k (after (name_step I S t (name_msg I fn REGISTER_AS nm v)))"
proof -
  let ?m = "\<lparr>nm_action = REGISTER_AS, nm_name = im_string I nm, nm_tid = v\<rparr>"
  from name_step_ok [OF good, of t ?m k] obtain S' where S': "name_server_step S t ?m = Inr (S', [(t, answer S ?m)])"
    "names_good k S'" "\<forall>nm. registered S' nm =
         (if nm_action ?m = REGISTER_AS \<and> slot_of nm = slot_of (nm_name ?m) \<and> registered S (nm_name ?m) = None
          then Some t else registered S nm)" by blast
  then show "name_step I S t (name_msg I fn REGISTER_AS nm v)
      = Inr (after (name_step I S t (name_msg I fn REGISTER_AS nm v)), [], [(t, put32 16 v (name_msg I fn REGISTER_AS nm v))])"
    "registered (after (name_step I S t (name_msg I fn REGISTER_AS nm v))) (im_string I nm) = Some t"
    "names_good k (after (name_step I S t (name_msg I fn REGISTER_AS nm v)))"
    using fresh by (simp_all add: name_step_def answer_def)
qed

lemma who_is_step:
  assumes good: "names_good n S" and "registered S (im_string I nm) = Some v"
  shows "name_step I S t (name_msg I fn WHO_IS nm t') = Inr (S, [], [(t, put32 16 v (name_msg I fn WHO_IS nm t'))])"
proof -
  let ?m = "\<lparr>nm_action = WHO_IS, nm_name = im_string I nm, nm_tid = t'\<rparr>"
  from name_step_ok [OF good, of t ?m n] obtain S' where "name_server_step S t ?m = Inr (S', [(t, answer S ?m)])" by blast
  moreover from this have "S' = S" by (auto simp: name_server_step_def bindE_eq_Inr_iff split: if_splits)
  ultimately show ?thesis using assms(2) by (simp add: name_step_def answer_def)
qed

definition delayed :: "ClockServer \<Rightarrow> i32 \<Rightarrow> u32 \<Rightarrow> ClockServer" where
  "delayed S t d = after (clock_step S t (clock_msg DELAY d))"

definition ticked :: "ClockServer \<Rightarrow> i32 \<Rightarrow> u32 \<Rightarrow> ClockServer" where
  "ticked S t v = after (clock_step S t (clock_msg TICK v))"

lemma clock_delay_step:
  assumes inv: "clock_inv S" and room: "length (clock_waiting S) < 512" and d: "0 < d" "unat (cs_ticks S) + unat d < 2 ^ 32"
  shows "clock_step S t (clock_msg DELAY d) = Inr (delayed S t d, [], [])"
    and "clock_inv (delayed S t d)" and "cs_ticks (delayed S t d) = cs_ticks S"
    and "clock_waiting (delayed S t d) = place snd (t, d + cs_ticks S) (clock_waiting S)"
proof -
  let ?m = "\<lparr>cm_action = DELAY, cm_ticks = d + cs_ticks S\<rparr>"
  have "unat (d + cs_ticks S) = unat d + unat (cs_ticks S)" using d(2) by (simp add: unat_word_ariths)
  then have "cs_ticks S < cm_ticks ?m" using d(1) by (simp add: word_less_nat_alt)
  from clock_delay_ok [OF inv this room, of t] obtain S' where
    S': "clock_delay_until S t ?m = Inr (S', [])" "clock_inv S'" "cs_ticks S' = cs_ticks S"
      "clock_waiting S' = place snd (t, d + cs_ticks S) (clock_waiting S)" by auto
  have "clock_step S t (clock_msg DELAY d) = Inr (S', [], [])"
    using S'(1) by (simp add: clock_step_def clock_server_step_def Let_def)
  moreover from this have "delayed S t d = S'" by (simp add: delayed_def)
  ultimately show "clock_step S t (clock_msg DELAY d) = Inr (delayed S t d, [], [])" "clock_inv (delayed S t d)"
    "cs_ticks (delayed S t d) = cs_ticks S" "clock_waiting (delayed S t d) = place snd (t, d + cs_ticks S) (clock_waiting S)"
    using S' by simp_all
qed

lemma clock_tick_step:
  assumes inv: "clock_inv S"
  shows "clock_step S t (clock_msg TICK v) = Inr (ticked S t v, [], (t, clock_msg TICK v)
      # map (\<lambda>e. (fst e, clock_msg TICK (cs_ticks S + 1))) (filter (due_at (cs_ticks S + 1)) (clock_waiting S)))"
    and "clock_inv (ticked S t v)" and "cs_ticks (ticked S t v) = cs_ticks S + 1"
    and "clock_waiting (ticked S t v) = filter (\<lambda>e. \<not> due_at (cs_ticks S + 1) e) (clock_waiting S)"
proof -
  let ?m = "\<lparr>cm_action = TICK, cm_ticks = v\<rparr>"
  from clock_tick_ok [OF inv, of ?m t] obtain S' where
    S': "clock_server_step S t ?m
      = Inr (S', (t, ?m) # map (\<lambda>e. (fst e, ?m\<lparr>cm_ticks := cs_ticks S + 1\<rparr>)) (filter (due_at (cs_ticks S + 1)) (clock_waiting S)))"
      "clock_inv S'" "cs_ticks S' = cs_ticks S + 1"
      "clock_waiting S' = filter (\<lambda>e. \<not> due_at (cs_ticks S + 1) e) (clock_waiting S)" by auto
  have "clock_step S t (clock_msg TICK v) = Inr (S', [], (t, clock_msg TICK v)
      # map (\<lambda>e. (fst e, clock_msg TICK (cs_ticks S + 1))) (filter (due_at (cs_ticks S + 1)) (clock_waiting S)))"
    using S'(1) by (simp add: clock_step_def Let_def comp_def)
  moreover from this have "ticked S t v = S'" by (simp add: ticked_def)
  ultimately show "clock_step S t (clock_msg TICK v) = Inr (ticked S t v, [], (t, clock_msg TICK v)
      # map (\<lambda>e. (fst e, clock_msg TICK (cs_ticks S + 1))) (filter (due_at (cs_ticks S + 1)) (clock_waiting S)))"
    "clock_inv (ticked S t v)" "cs_ticks (ticked S t v) = cs_ticks S + 1"
    "clock_waiting (ticked S t v) = filter (\<lambda>e. \<not> due_at (cs_ticks S + 1) e) (clock_waiting S)"
    using S' by simp_all
qed

end
