(* ===== verification/Task_Part.thy ===== *)
theory Task_Part
  imports User_Machine
begin

text \<open>
  The part of a descriptor that belongs to its task: the saved context, the result that is passed to it, its
  parent and its stack block.  A kernel operation changes it for the tasks it is about only, and it never
  moves a stack block.
\<close>

definition own_part :: "Task \<Rightarrow> ((nat \<Rightarrow> u64) \<times> u64 \<times> u64 \<times> u64 \<times> u64) \<times> (bool \<times> u64) \<times> i32 \<times> nat option" where
  "own_part d = (saved_context d, passed d, t_parent_tid d, t_memory_block d)"

lemma own_part_simps [simp]:
  "own_part (d\<lparr>t_state := s\<rparr>) = own_part d" "own_part (d\<lparr>t_senders := q\<rparr>) = own_part d"
  "own_part (d\<lparr>t_job_node := n\<rparr>) = own_part d"
  by (simp_all add: own_part_def passed_def)

lemma own_part_fields:
  assumes "own_part d = own_part e"
  shows "t_x d = t_x e" "t_pc d = t_pc e" "t_should_pass_result d = t_should_pass_result e" "t_result d = t_result e"
    "t_parent_tid d = t_parent_tid e" "t_memory_block d = t_memory_block e"
  using assms by (simp_all add: own_part_def saved_context_def passed_def)

definition mem_base :: "Kernel \<Rightarrow> u64" where
  "mem_base K = mb_base (k_memory K)"

lemma mem_base_simps [simp]:
  "mem_base (upd_task K t f) = mem_base K" "mem_base (set_mem K m) = mem_base K" "mem_base (give_result K t r) = mem_base K"
  "mem_base (K\<lparr>k_current := c\<rparr>) = mem_base K" "mem_base (K\<lparr>k_readyq_pool := p, k_readyq := q\<rparr>) = mem_base K"
  "mem_base (K\<lparr>k_irqq_pool := p, k_irqq := i\<rparr>) = mem_base K" "mem_base (K\<lparr>k_jobq_pool := p, k_jobq := j\<rparr>) = mem_base K"
  by (simp_all add: mem_base_def)

text \<open>Nothing but the bytes of the messages and the state of the queues changes.\<close>

definition keeps :: "Kernel \<Rightarrow> Kernel \<Rightarrow> task_ptr \<Rightarrow> bool" where
  "keeps K K' u \<longleftrightarrow> own_part (k_tasks K' u) = own_part (k_tasks K u) \<and> mem_base K' = mem_base K"

lemma keeps_refl [simp]: "keeps K K u"
  by (simp add: keeps_def)

lemma keeps_trans: "keeps K K1 u \<Longrightarrow> keeps K1 K2 u \<Longrightarrow> keeps K K2 u"
  by (simp add: keeps_def)

lemma keeps_area: "keeps K K' u \<Longrightarrow> stack_area K' u = stack_area K u"
  by (simp add: keeps_def stack_area_def mem_base_def block_addr_def own_part_def split: option.split)

lemma change_task_state_keeps: "change_task_state K t s = Inr K' \<Longrightarrow> keeps K K' u \<and> k_mem K' = k_mem K"
  by (auto simp: change_task_state_def bindE_assertE bindE_eq_Inr_iff keeps_def k_mem_def split: if_splits prod.splits)

lemma schedule_keeps: "schedule K = Inr (K', r) \<Longrightarrow> keeps K K' u \<and> k_mem K' = k_mem K"
  unfolding schedule_def bindE_eq_Inr_iff
  by (auto simp: bindE_assertE bindE_eq_Inr_iff Let_def keeps_def k_mem_def split: option.splits if_splits prod.splits
      dest!: change_task_state_keeps [where u = u])

lemma activate_keeps: "activate K t tr = Inr K' \<Longrightarrow> u \<noteq> t \<Longrightarrow> keeps K K' u"
proof -
  assume a: "activate K t tr = Inr K'" and u: "u \<noteq> t"
  from a obtain K1 where k1: "change_task_state K t RUNNING = Inr K1"
    "activate_running_task (upd_task K1 t pass_result) tr = Inr K'"
    by (auto simp: activate_def bindE_eq_Inr_iff)
  have "k_current K1 = Some t" using k1(1) by (auto simp: change_task_state_def bindE_assertE split: if_splits)
  then have "keeps K1 K' u" using k1(2) u by (auto simp: activate_running_task_def keeps_def)
  with change_task_state_keeps [OF k1(1), of u] show ?thesis using keeps_trans by blast
qed

lemma pass_result_fields [simp]:
  "t_parent_tid (pass_result d) = t_parent_tid d" "t_memory_block (pass_result d) = t_memory_block d"
  by (simp_all add: pass_result_def)

text \<open>Of the task that runs, the context is that of its trap; the result, the parent and the block stay.\<close>

lemma activate_runner:
  assumes "activate K t tr = Inr K'"
  shows "passed (k_tasks K' t) = passed (k_tasks K t)" "t_parent_tid (k_tasks K' t) = t_parent_tid (k_tasks K t)"
    "t_memory_block (k_tasks K' t) = t_memory_block (k_tasks K t)" "mem_base K' = mem_base K" "t_x (k_tasks K' t) = tr_x tr"
proof -
  from assms obtain K1 where k1: "change_task_state K t RUNNING = Inr K1"
    "activate_running_task (upd_task K1 t pass_result) tr = Inr K'"
    by (auto simp: activate_def bindE_eq_Inr_iff)
  have cur: "k_current K1 = Some t" using k1(1) by (auto simp: change_task_state_def bindE_assertE split: if_splits)
  have k: "own_part (k_tasks K1 t) = own_part (k_tasks K t)" "mem_base K1 = mem_base K"
    using change_task_state_keeps [OF k1(1), of t] by (simp_all add: keeps_def)
  show "passed (k_tasks K' t) = passed (k_tasks K t)" "t_parent_tid (k_tasks K' t) = t_parent_tid (k_tasks K t)"
    "t_memory_block (k_tasks K' t) = t_memory_block (k_tasks K t)" "mem_base K' = mem_base K" "t_x (k_tasks K' t) = tr_x tr"
    using k1(2) cur k by (auto simp: activate_running_task_def own_part_def)
qed

subsection \<open>The calls\<close>

lemma exchange_keeps:
  "synchronized_send_receive K s from lf r dest lt = Inr (K', n) \<Longrightarrow> r \<noteq> Some u \<Longrightarrow> keeps K K' u"
  by (auto simp: synchronized_send_receive_def copy_message_eq bindE_eq_Inr_iff Let_def keeps_def
      split: option.splits if_splits dest!: change_task_state_keeps [where u = u])

lemma register_sender_keeps: "register_sender K r s = Inr (K', ok) \<Longrightarrow> keeps K K' u"
  by (auto simp: register_sender_def bindE_eq_Inr_iff keeps_def split: prod.splits)

lemma next_sender_keeps: "next_sender K r = Inr (K', e) \<Longrightarrow> keeps K K' u"
  by (auto simp: next_sender_def bindE_eq_Inr_iff keeps_def split: prod.splits)

lemma sys_receive_keeps:
  "sys_receive K = Inr K' \<Longrightarrow> k_current K \<noteq> Some u \<Longrightarrow> keeps K K' u"
  by (auto simp: sys_receive_def get_current_task_def bindE_eq_Inr_iff Let_def keeps_def split: option.splits if_splits prod.splits
      dest!: change_task_state_keeps [where u = u] exchange_keeps [where u = u] next_sender_keeps [where u = u])

lemma add_to_irq_queue_keeps: "add_to_irq_queue K i t = Inr K' \<Longrightarrow> keeps K K' u \<and> k_mem K' = k_mem K"
  by (auto simp: add_to_irq_queue_def bindE_assertE bindE_eq_Inr_iff keeps_def k_mem_def split: if_splits prod.splits)

lemma sys_await_event_keeps: "sys_await_event K = Inr K' \<Longrightarrow> keeps K K' u \<and> k_mem K' = k_mem K"
  by (auto simp: sys_await_event_def bindE_eq_Inr_iff Let_def keeps_def
      dest!: change_task_state_keeps [where u = u] add_to_irq_queue_keeps [where u = u])

lemma wake_keeps: "wake_up_irq_blocked_tasks K i = Inr K' \<Longrightarrow> keeps K K' u \<and> k_mem K' = k_mem K"
  by (auto simp: wake_up_irq_blocked_tasks_def bindE_assertE bindE_eq_Inr_iff Let_def keeps_def k_mem_def
      split: if_splits prod.splits dest!: change_task_state_keeps [where u = u])

lemma allocate_block_base: "memory_allocate_block M = (M', b) \<Longrightarrow> mb_base M' = mb_base M \<and> mb_mem M' = mb_mem M"
  by (auto simp: memory_allocate_block_def split: option.splits)

lemma create_task_keeps:
  assumes "create_task K p f par = Inr (K', r)" and "k_task_pool_ptr K \<noteq> Some u"
  shows "keeps K K' u \<and> k_mem K' = k_mem K"
  using assms
  by (auto simp: create_task_def bindE_eq_Inr_iff Let_def keeps_def mem_base_def k_mem_def split: option.splits prod.splits
      dest!: change_task_state_keeps [where u = u] allocate_block_base)

lemma create_task_new:
  assumes "create_task K p f par = Inr (K', Some t)"
  shows "t_pc (k_tasks K' t) = f \<and> \<not> t_should_pass_result (k_tasks K' t) \<and> t_parent_tid (k_tasks K' t) = par"
  using assms
  by (auto simp: create_task_def bindE_eq_Inr_iff Let_def keeps_def own_part_def passed_def saved_context_def
      split: option.splits prod.splits dest!: change_task_state_keeps [where u = t])

lemma sys_exit_keeps: "sys_exit K = Inr K' \<Longrightarrow> k_current K \<noteq> Some u \<Longrightarrow> keeps K K' u"
  by (auto simp: sys_exit_def remove_current_task_def memory_free_block_def bindE_eq_Inr_iff Let_def keeps_def mem_base_def
      split: prod.splits option.splits if_splits)

text \<open>The calls that exchange messages do not move the stack blocks.\<close>

lemma change_task_state_base: "change_task_state K t s = Inr K' \<Longrightarrow> mem_base K' = mem_base K"
  using change_task_state_keeps by (simp add: keeps_def)

lemma exchange_base: "synchronized_send_receive K s from lf r dest lt = Inr (K', n) \<Longrightarrow> mem_base K' = mem_base K"
  by (auto simp: synchronized_send_receive_def copy_message_eq bindE_eq_Inr_iff Let_def
      split: option.splits if_splits dest: change_task_state_base)

lemma register_sender_base: "register_sender K r s = Inr (K', ok) \<Longrightarrow> mem_base K' = mem_base K"
  using register_sender_keeps by (simp add: keeps_def)

lemma sys_send_base: "sys_send K = Inr K' \<Longrightarrow> mem_base K' = mem_base K"
  by (auto simp: sys_send_def bindE_eq_Inr_iff Let_def split: option.splits if_splits prod.splits
      dest!: change_task_state_base exchange_base register_sender_base)

lemma next_sender_base: "next_sender K r = Inr (K', e) \<Longrightarrow> mem_base K' = mem_base K"
  using next_sender_keeps by (simp add: keeps_def)

lemma sys_receive_base: "sys_receive K = Inr K' \<Longrightarrow> mem_base K' = mem_base K"
  by (auto simp: sys_receive_def bindE_eq_Inr_iff Let_def split: option.splits if_splits prod.splits
      dest!: change_task_state_base exchange_base next_sender_base)

lemma sys_reply_base: "sys_reply K = Inr K' \<Longrightarrow> mem_base K' = mem_base K"
  by (auto simp: sys_reply_def bindE_eq_Inr_iff Let_def split: option.splits if_splits prod.splits dest!: exchange_base)

text \<open>Queueing a sender changes no task's part, nor the memory.\<close>

lemma sys_send_keeps:
  assumes "sys_send K = Inr K'" and "get_current_task K = Some c"
    and "get_task_by_tid K (ucast (t_x (k_tasks K c) 0)) = Inr (Some r)" and "t_state (k_tasks K r) \<noteq> WAITRECEIVE"
    and "K' \<noteq> give_result K c (- 2)" and "k_mem K' = k_mem K"
  shows "keeps K K' u"
proof -
  from assms obtain K1 ok where k1: "register_sender K r c = Inr (K1, ok)"
    "(if ok then change_task_state K1 c WATISEND else Inr (give_result K1 c (- 2))) = Inr K'"
    by (auto simp: sys_send_def get_send_args_def Let_def bindE_eq_Inr_iff)
  show ?thesis
  proof (cases ok)
    case True
    with k1 show ?thesis using register_sender_keeps change_task_state_keeps keeps_trans by (metis (full_types))
  next
    case False
    with k1 have "register_sender K r c = Inr (K1, False)" "K' = give_result K1 c (- 2)" by simp_all
    then have "K1 = K"
      by (auto simp: register_sender_def queue_push_def bindE_eq_Inr_iff bindE_assertE Let_def upd_task_def split: if_splits prod.splits)
    with \<open>K' = give_result K1 c (- 2)\<close> assms(5) show ?thesis by simp
  qed
qed

definition family :: "Task \<Rightarrow> i32 \<times> nat option" where
  "family d = (t_parent_tid d, t_memory_block d)"

lemma family_simps [simp]:
  "family (d\<lparr>t_state := s\<rparr>) = family d" "family (d\<lparr>t_senders := q\<rparr>) = family d" "family (assign_result d r) = family d"
  by (simp_all add: family_def assign_result_def)

lemma change_task_state_family: "change_task_state K t s = Inr K' \<Longrightarrow> family (k_tasks K' u) = family (k_tasks K u)"
  using change_task_state_keeps [of K t s K' u] by (simp add: keeps_def own_part_def family_def)

lemma exchange_family:
  "synchronized_send_receive K s from lf r dest lt = Inr (K', n) \<Longrightarrow> family (k_tasks K' u) = family (k_tasks K u)"
  by (auto simp: synchronized_send_receive_def copy_message_eq bindE_eq_Inr_iff Let_def
      split: option.splits if_splits dest: change_task_state_family [where u = u])

lemma sys_receive_runner:
  assumes "sys_receive K = Inr K'" and "k_current K = Some t"
  shows "t_parent_tid (k_tasks K' t) = t_parent_tid (k_tasks K t) \<and> t_memory_block (k_tasks K' t) = t_memory_block (k_tasks K t)"
proof -
  have next_family: "family (k_tasks K1 t) = family (k_tasks K t)" if "next_sender K t = Inr (K1, e)" for K1 e
    using next_sender_keeps [OF that, of t] by (simp add: keeps_def own_part_def family_def)
  have "family (k_tasks K' t) = family (k_tasks K t)"
    using assms
    by (auto simp: sys_receive_def get_current_task_def bindE_eq_Inr_iff Let_def split: option.splits if_splits prod.splits
        dest!: change_task_state_family [where u = t] exchange_family [where u = t] next_family)
  then show ?thesis by (simp add: family_def)
qed

end
