(* ===== verification/User_Relation.thy ===== *)
theory User_Relation
  imports Task_Part
begin

text \<open>
  The relation between the kernel and the abstract machine: every task finds the answer that the machine gives it,
  and its buffers and the message of its call are still as it left them.  The calls that are about one task keep
  the relation.
\<close>

subsection \<open>Memory that a task can rely on\<close>

definition agree :: "u64 set \<Rightarrow> mem \<Rightarrow> mem \<Rightarrow> bool" where
  "agree R m m' \<longleftrightarrow> (\<forall>a\<in>R. m' a = m a)"

lemma agree_refl [simp]: "agree R m m"
  by (simp add: agree_def)

lemma agree_trans: "agree R m m1 \<Longrightarrow> agree R m1 m2 \<Longrightarrow> agree R m m2"
  by (simp add: agree_def)

lemma lies_in_less: "lies_in a n R \<Longrightarrow> k \<le> n \<Longrightarrow> lies_in a k R"
  by (auto simp: lies_in_def in_region_def)

lemma read_bytes_agree: "agree R m m' \<Longrightarrow> lies_in a n R \<Longrightarrow> n \<le> 2 ^ 64 \<Longrightarrow> read_bytes m' a n = read_bytes m a n"
  by (simp add: read_bytes_def agree_def lies_in_def in_region_offset)

lemma load_int_agree: "agree R m m' \<Longrightarrow> lies_in a 4 R \<Longrightarrow> load_int m' a = load_int m a"
  using in_region_offset [of 0 4 a] in_region_offset [of 1 4 a] in_region_offset [of 2 4 a] in_region_offset [of 3 4 a]
  by (simp add: load_int_def agree_def lies_in_def)

lemma read_bytes_take: "k \<le> n \<Longrightarrow> read_bytes m a k = take k (read_bytes m a n)"
  by (simp add: read_bytes_def take_map)

lemma holds_call_agree: "agree R m m' \<Longrightarrow> holds_call x m' R c = holds_call x m R c"
  by (cases c) (auto simp: read_bytes_agree)

lemma lies_disjoint: "lies_in a n R \<Longrightarrow> lies_in b k R' \<Longrightarrow> R \<inter> R' = {} \<Longrightarrow> regions_disjoint a n b k"
  by (auto simp: lies_in_def regions_disjoint_def)

subsection \<open>The stack blocks\<close>

lemma block_regions_disjoint:
  assumes "in_region a (block_addr M i) MEMORY_BLOCK_SIZE" and "in_region a (block_addr M j) MEMORY_BLOCK_SIZE"
    and "i < MEMORY_BLOCK_MAX_NUM" and "j < MEMORY_BLOCK_MAX_NUM"
  shows "i = j"
proof -
  let ?B = "0x100000 :: nat"
  define y where "y = a - mb_base M"
  have at: "unat (y - word_of_nat (k * ?B)) < ?B" if "in_region a (block_addr M k) MEMORY_BLOCK_SIZE" for k
    using that by (simp add: in_region_def block_addr_def MEMORY_BLOCK_SIZE_def y_def algebra_simps)
  have y: "unat y = k * ?B + unat (y - word_of_nat (k * ?B))" if k: "k < 64" and u: "unat (y - word_of_nat (k * ?B)) < ?B" for k
  proof -
    have "y = word_of_nat (k * ?B) + (y - word_of_nat (k * ?B))" by simp
    also have "\<dots> = word_of_nat (k * ?B + unat (y - word_of_nat (k * ?B)))" by simp
    finally have e: "unat y = unat (word_of_nat (k * ?B + unat (y - word_of_nat (k * ?B))) :: u64)" by simp
    have "k * ?B + unat (y - word_of_nat (k * ?B)) < 2 ^ 64" using k u by simp
    with e show ?thesis by (simp only: unat_of_nat_small64)
  qed
  have "i * ?B + unat (y - word_of_nat (i * ?B)) = j * ?B + unat (y - word_of_nat (j * ?B))"
    using y [of i] y [of j] at [OF assms(1)] at [OF assms(2)] assms(3,4) by (simp add: MEMORY_BLOCK_MAX_NUM_def)
  moreover have "i = j" if e: "i * ?B + p = j * ?B + q" and b: "p < ?B" "q < ?B" for p q :: nat
  proof -
    have "(i * ?B + p) div ?B = i" "(j * ?B + q) div ?B = j" using b by simp_all
    with e show ?thesis by metis
  qed
  ultimately show ?thesis using at [OF assms(1)] at [OF assms(2)] by blast
qed

lemma areas_disjoint:
  assumes rel: "krel K A" and t: "t \<in> set (a_jobs A)" "u \<in> set (a_jobs A)" "t \<noteq> u"
  shows "stack_area K t \<inter> stack_area K u = {}"
proof -
  from rel have b: "\<forall>t\<in>set (a_jobs A). \<exists>i<MEMORY_BLOCK_MAX_NUM. t_memory_block (k_tasks K t) = Some i"
    "inj_on (\<lambda>t. t_memory_block (k_tasks K t)) (set (a_jobs A))" by (simp_all add: krel_def blocks_rel_def)
  from b(1) t obtain i j where ij: "t_memory_block (k_tasks K t) = Some i" "i < MEMORY_BLOCK_MAX_NUM"
    "t_memory_block (k_tasks K u) = Some j" "j < MEMORY_BLOCK_MAX_NUM" by metis
  then have "i \<noteq> j" using inj_onD [OF b(2), of t u] t by auto
  then show ?thesis using ij block_regions_disjoint [of _ "k_memory K" i j] by (auto simp: stack_area_def)
qed

subsection \<open>The relation\<close>

definition passed_ok :: "Kernel \<Rightarrow> Machine \<Rightarrow> task_ptr \<Rightarrow> bool" where
  "passed_ok K M t \<longleftrightarrow> t_parent_tid (k_tasks K t) = ma_parent M t
     \<and> ma_passed M t = (if t_should_pass_result (k_tasks K t) then Some (t_result (k_tasks K t)) else None)"

definition holds_answer :: "Kernel \<Rightarrow> task_ptr \<Rightarrow> call \<Rightarrow> answer \<Rightarrow> bool" where
  "holds_answer K t c a \<longleftrightarrow> (\<forall>m'. agree (stack_area K t) (k_mem K) m' \<longrightarrow> answer_in (k_tasks K t) m' c = a)"

definition task_ok :: "Users \<Rightarrow> Kernel \<Rightarrow> Machine \<Rightarrow> task_ptr \<Rightarrow> bool" where
  "task_ok Us K M t \<longleftrightarrow> passed_ok K M t
     \<and> (case ma_task M t of
          Fresh f \<Rightarrow> us_cont Us t = None \<and> t_pc (k_tasks K t) = f
        | Blocked c k \<Rightarrow> us_cont Us t = Some (c, k) \<and> holds_call (t_x (k_tasks K t)) (k_mem K) (stack_area K t) c
        | Answered a k \<Rightarrow> \<exists>c. us_cont Us t = Some (c, k) \<and> holds_answer K t c a)"

definition users_ok :: "Users \<Rightarrow> Machine \<Rightarrow> bool" where
  "users_ok Us M \<longleftrightarrow> us_statics Us = ma_statics M \<and> (\<forall>u \<ge> a_created (ma_kernel M). us_cont Us u = None)"

definition machine_rel :: "Users \<Rightarrow> Kernel \<Rightarrow> Machine \<Rightarrow> bool" where
  "machine_rel Us K M \<longleftrightarrow> krel K (ma_kernel M) \<and> ainv (ma_kernel M) \<and> users_ok Us M
     \<and> (\<forall>u\<in>set (a_jobs (ma_kernel M)). task_ok Us K M u)"

text \<open>The task \<open>t\<close> has trapped with the call \<open>c\<close>.\<close>

definition at_call :: "Users \<Rightarrow> Kernel \<Rightarrow> Machine \<Rightarrow> task_ptr \<Rightarrow> call \<Rightarrow> (answer \<Rightarrow> Statics \<Rightarrow> prog) \<Rightarrow> bool" where
  "at_call Us K M t c k \<longleftrightarrow> krel K (ma_kernel M) \<and> ainv (ma_kernel M) \<and> users_ok Us M \<and> running (ma_kernel M) t
     \<and> (\<forall>u\<in>set (a_jobs (ma_kernel M)). u \<noteq> t \<longrightarrow> task_ok Us K M u)
     \<and> passed_ok K M t \<and> us_cont Us t = Some (c, k) \<and> holds_call (t_x (k_tasks K t)) (k_mem K) (stack_area K t) c"

lemma pass_result_first: "t_x (pass_result d) 0 = (if t_should_pass_result d then t_result d else t_x d 0)"
  by (simp add: pass_result_def)

lemma task_ok_frame:
  assumes ok: "task_ok Us K M t" and keep: "keeps K K' t" and mem: "agree (stack_area K t) (k_mem K) (k_mem K')"
    and same: "us_cont Us' t = us_cont Us t" "ma_task M' t = ma_task M t" "ma_parent M' t = ma_parent M t"
      "ma_passed M' t = ma_passed M t"
  shows "task_ok Us' K' M' t"
proof -
  note f = own_part_fields [of "k_tasks K' t" "k_tasks K t"]
  have p: "own_part (k_tasks K' t) = own_part (k_tasks K t)" using keep by (simp add: keeps_def)
  note area = keeps_area [OF keep]
  have ans: "answer_in (k_tasks K' t) m c = answer_in (k_tasks K t) m c" for m c
    using f [OF p] by (cases c) (simp_all add: answer_in_def pass_result_first Let_def)
  show ?thesis
    using ok mem f [OF p] agree_trans [OF mem] holds_call_agree [OF mem]
    by (auto simp: task_ok_def passed_ok_def same area holds_answer_def ans split: utask.splits)
qed

lemma machine_relI:
  assumes "krel K (ma_kernel M)" and "ainv (ma_kernel M)" and "users_ok Us M"
    and "\<And>u. u \<in> set (a_jobs (ma_kernel M)) \<Longrightarrow> task_ok Us K M u"
  shows "machine_rel Us K M"
  using assms by (simp add: machine_rel_def)

lemma at_callE:
  assumes "at_call Us K M t c k"
  obtains "krel K (ma_kernel M)" "ainv (ma_kernel M)" "users_ok Us M" "running (ma_kernel M) t" "passed_ok K M t"
    "us_cont Us t = Some (c, k)" "holds_call (t_x (k_tasks K t)) (k_mem K) (stack_area K t) c"
    "\<And>u. u \<in> set (a_jobs (ma_kernel M)) \<Longrightarrow> u \<noteq> t \<Longrightarrow> task_ok Us K M u" "t \<in> set (a_jobs (ma_kernel M))"
    "k_current K = Some t"
  using assms running_kernel [of K "ma_kernel M" t] by (auto simp: at_call_def)

subsection \<open>Results\<close>


lemma result_length: "n < 2 ^ 31 \<Longrightarrow> nat (sint (word_of_nat n :: i32)) = n"
  by (simp add: sint_of_nat_small32)

lemma error_1 [simp]: "(ucast (- 1 :: u64) :: i32) = - 1"
  by (rule bit_word_eqI) (simp add: bit_simps)

lemma error_2 [simp]: "(ucast (- 2 :: u64) :: i32) = - 2"
  by (simp add: unsigned_ucast_eq word_uint_eq_iff)

lemma answered_plain:
  assumes "t_should_pass_result (k_tasks K t)" and "t_result (k_tasks K t) = r" and "\<not> 0 < sint (ucast r :: i32) \<or> (\<forall>to msg room. c \<noteq> Send to msg room)"
    and "c \<noteq> Yield" and "c \<noteq> Standby" and "\<forall>n. c \<noteq> Receive n"
  shows "holds_answer K t c (Answer (ucast r) 0 [])"
  using assms by (cases c) (auto simp: holds_answer_def answer_in_def pass_result_first read_bytes_def)

subsection \<open>Calls of one task\<close>

lemma machine_simps [simp]:
  "ma_kernel (set_kernel M A) = A" "ma_task (set_kernel M A) = ma_task M" "ma_parent (set_kernel M A) = ma_parent M"
  "ma_passed (set_kernel M A) = ma_passed M" "ma_statics (set_kernel M A) = ma_statics M"
  "ma_kernel (block M t c k) = ma_kernel M" "ma_task (block M t c k) = (ma_task M)(t := Blocked c k)"
  "ma_parent (block M t c k) = ma_parent M" "ma_passed (block M t c k) = ma_passed M" "ma_statics (block M t c k) = ma_statics M"
  "ma_kernel (complete M t a k) = ma_kernel M" "ma_task (complete M t a k) = (ma_task M)(t := Answered a k)"
  "ma_parent (complete M t a k) = ma_parent M" "ma_passed (complete M t a k) = ma_passed M"
  "ma_statics (complete M t a k) = ma_statics M"
  "ma_kernel (finish M t r from bs k) = ma_kernel M"
  "ma_task (finish M t r from bs k) = (ma_task M)(t := Answered (Answer (ucast r) from bs) k)"
  "ma_parent (finish M t r from bs k) = ma_parent M" "ma_passed (finish M t r from bs k) = (ma_passed M)(t := Some r)"
  "ma_statics (finish M t r from bs k) = ma_statics M"
  by (simp_all add: set_kernel_def block_def complete_def finish_def)

text \<open>The tasks that a call does not touch.\<close>

lemma after_call:
  assumes at: "at_call Us K M t c k" and rel: "krel K' (ma_kernel M')" "ainv (ma_kernel M')" "users_ok Us M'"
    and others: "\<And>u. u \<in> set (a_jobs (ma_kernel M')) \<Longrightarrow> u \<noteq> t \<Longrightarrow> u \<notin> X \<Longrightarrow> u \<in> set (a_jobs (ma_kernel M)) \<and> keeps K K' u
      \<and> agree (stack_area K u) (k_mem K) (k_mem K') \<and> ma_task M' u = ma_task M u \<and> ma_parent M' u = ma_parent M u
      \<and> ma_passed M' u = ma_passed M u"
    and touched: "\<And>u. u \<in> set (a_jobs (ma_kernel M')) \<Longrightarrow> u = t \<or> u \<in> X \<Longrightarrow> task_ok Us K' M' u"
  shows "machine_rel Us K' M'"
proof (rule machine_relI [OF rel])
  fix u assume u: "u \<in> set (a_jobs (ma_kernel M'))"
  show "task_ok Us K' M' u"
  proof (cases "u = t \<or> u \<in> X")
    case True
    with touched u show ?thesis by blast
  next
    case False
    with others [OF u] have o: "u \<in> set (a_jobs (ma_kernel M))" "keeps K K' u" "agree (stack_area K u) (k_mem K) (k_mem K')"
      "ma_task M' u = ma_task M u" "ma_parent M' u = ma_parent M u" "ma_passed M' u = ma_passed M u" by simp_all
    from at o(1) False have "task_ok Us K M u" by (simp add: at_call_def)
    from task_ok_frame [OF this o(2,3) refl o(4-6)] show ?thesis .
  qed
qed

text \<open>The caller gets its result at once.\<close>

lemma result_call:
  assumes at: "at_call Us K M t c k" and c: "c \<noteq> Yield" "c \<noteq> Standby" "\<forall>n. c \<noteq> Receive n"
    and r: "\<not> 0 < sint (ucast r :: i32) \<or> (\<forall>to msg room. c \<noteq> Send to msg room)"
  shows "machine_rel Us (give_result K t r) (finish M t r 0 [] k)"
proof -
  from at show ?thesis
  proof (cases rule: at_callE)
    case 1
    show ?thesis
    proof (rule after_call [where X = "{}", OF at])
      have a: "holds_answer (give_result K t r) t c (Answer (ucast r) 0 [])"
        by (rule answered_plain) (use c r in \<open>simp_all add: assign_result_def\<close>)
      then show "task_ok Us (give_result K t r) (finish M t r 0 [] k) u" if "u = t \<or> u \<in> {}" for u
        using that 1(5,6) by (auto simp: task_ok_def passed_ok_def assign_result_def)
    qed (use 1 in \<open>simp_all add: krel_give_result keeps_def users_ok_def\<close>)
  qed
qed

lemma my_tid_call:
  assumes at: "at_call Us K M t MyTid k"
  shows "\<exists>K'. sys_tid K = Inr K' \<and> machine_rel Us K' (finish M t (word_of_nat t) 0 [] k)"
  using at
proof (cases rule: at_callE)
  case 1
  from sys_tid_refine [OF 1(1,2,4)] result_call [OF at] show ?thesis by auto
qed

lemma my_parent_call:
  assumes at: "at_call Us K M t MyParentTid k"
  shows "\<exists>K'. sys_parent_tid K = Inr K' \<and> machine_rel Us K' (finish M t (scast (ma_parent M t)) 0 [] k)"
  using at
proof (cases rule: at_callE)
  case 1
  have "sys_parent_tid K = Inr (give_result K t (scast (ma_parent M t)))"
    using running_kernel(1) [OF 1(1,4)] 1(5) by (simp add: sys_parent_tid_def passed_ok_def)
  with result_call [OF at] show ?thesis by auto
qed

lemma yield_call:
  assumes at: "at_call Us K M t c k" and c: "c = Yield \<or> c = Standby"
  shows "machine_rel Us K (complete M t (Answer 0 0 []) k)"
  using at
proof (cases rule: at_callE)
  case 1
  have "holds_answer K t c (Answer 0 0 [])" using c by (auto simp: holds_answer_def answer_in_def Let_def)
  with 1 show ?thesis
    by (intro after_call [where X = "{}", OF at]) (auto simp: users_ok_def task_ok_def passed_ok_def)
qed

lemma exit_call:
  assumes at: "at_call Us K M t Exit k"
  shows "\<exists>K'. sys_exit K = Inr K' \<and> machine_rel Us K' (set_kernel M (a_exit (ma_kernel M) t))"
  using at
proof (cases rule: at_callE)
  case 1
  from remove_current_refine [OF 1(1,2,4)] obtain K' where
    k: "sys_exit K = Inr K'" "krel K' (a_exit (ma_kernel M) t)" by (auto simp: sys_exit_def)
  have dist: "distinct (a_jobs (ma_kernel M))" using 1(2) by (simp add: ainv_def jobs_ok_def)
  have mem: "agree (stack_area K u) (k_mem K) (k_mem K')" if u: "u \<in> set (a_jobs (ma_kernel M))" "u \<noteq> t" for u
  proof -
    from k(1) 1(10) obtain i where "t_memory_block (k_tasks K t) = Some i"
      "k_mem K' = zero_range (k_mem K) (block_addr (k_memory K) i) MEMORY_BLOCK_SIZE"
      by (auto simp: sys_exit_def remove_current_task_def memory_free_block_def bindE_eq_Inr_iff Let_def k_mem_def
          split: prod.splits option.splits if_splits)
    moreover have "stack_area K t \<inter> stack_area K u = {}" by (rule areas_disjoint [OF 1(1,9) u(1)]) (use u(2) in simp)
    ultimately show ?thesis by (auto simp: agree_def stack_area_def zero_range_at MEMORY_BLOCK_SIZE_def)
  qed
  have "machine_rel Us K' (set_kernel M (a_exit (ma_kernel M) t))"
  proof (rule after_call [where X = "{}", OF at])
    show "task_ok Us K' (set_kernel M (a_exit (ma_kernel M) t)) u"
      if "u \<in> set (a_jobs (ma_kernel (set_kernel M (a_exit (ma_kernel M) t))))" "u = t \<or> u \<in> {}" for u
      using that dist by (simp add: a_exit_def)
  qed (use 1 k mem dist exit_inv [OF 1(2,4)] sys_exit_keeps [OF k(1)] in \<open>auto simp: users_ok_def a_exit_def\<close>)
  with k(1) show ?thesis by blast
qed

lemma create_call:
  assumes at: "at_call Us K M t (Create p f) k"
  shows "\<exists>K'. sys_create K = Inr K' \<and> machine_rel Us K' (u_create M t p f k)"
  using at
proof (cases rule: at_callE)
  case 1
  let ?A = "ma_kernel M"
  let ?n = "a_created ?A"
  let ?pr = "priority_index (clamp_priority p)"
  have x: "ucast (t_x (k_tasks K t) 0) = p" "t_x (k_tasks K t) 1 = f" using 1(7) by simp_all
  from sys_create_refine [OF 1(1,2,4), unfolded x] obtain K' where
    k: "sys_create K = Inr K'" "krel K' (fst (a_create ?A ?pr))"
      "t_result (k_tasks K' t) = (if ?n < MAX_TASK_NUM then word_of_nat ?n else - 1)" "t_should_pass_result (k_tasks K' t)" by blast
  from k(1) 1(10) x obtain K1 new where
    k1: "create_task K p f (t_tid (k_tasks K t)) = Inr (K1, new)"
      "K' = give_result K1 t (case new of Some u \<Rightarrow> scast (t_tid (k_tasks K1 u)) | None \<Rightarrow> - 1)"
    by (auto simp: sys_create_def get_current_task_def bindE_eq_Inr_iff Let_def split: option.splits)
  have tn: "t \<noteq> ?n" using fresh_job [of ?A] 1(2,9) by (auto simp: ainv_def)
  have pool: "k_task_pool_ptr K = (if ?n < MAX_TASK_NUM then Some ?n else None)" using 1(1) by (simp add: krel_def free_rel_def)
  have keep: "keeps K K1 u \<and> k_mem K1 = k_mem K" if "u \<noteq> ?n" for u
    using create_task_keeps [OF k1(1), of u] that pool by (simp split: if_splits)
  have inv: "ainv (fst (a_create ?A ?pr))" by (rule create_inv [OF 1(2) priority_index_less [OF clamp_priority_valid]])
  have parent: "t_parent_tid (k_tasks K' t) = ma_parent M t"
    using keep [OF tn] 1(5) by (simp add: k1(2) assign_result_def keeps_def own_part_def passed_ok_def)
  have ans: "holds_answer K' t (Create p f) (Answer (ucast r) 0 [])" if "t_result (k_tasks K' t) = r" for r
    by (rule answered_plain) (use that k(4) in simp_all)
  show ?thesis
  proof (cases "?n < MAX_TASK_NUM")
    case True
    have sp: "a_create ?A ?pr = (a_make_ready (a_spawn ?A ?pr) ?n, Some ?n)" by (rule a_create_spawn [OF True])
    have "snd (a_create ?A ?pr) = new"
      using create_task_refine [OF 1(1,2), of p f "t_tid (k_tasks K t)"] k1(1) by auto
    then have new: "new = Some ?n" using sp by simp
    note n1 = create_task_new [OF k1(1) [unfolded new]]
    let ?M = "u_create M t p f k"
    have M: "ma_kernel ?M = fst (a_create ?A ?pr)" "ma_task ?M = (ma_task M)(?n := Fresh f, t := Answered (Answer (word_of_nat ?n) 0 []) k)"
      "ma_parent ?M = (ma_parent M)(?n := word_of_nat t)" "ma_passed ?M = (ma_passed M)(?n := None, t := Some (word_of_nat ?n))"
      "ma_statics ?M = ma_statics M"
      using True by (simp_all add: u_create_def Let_def ucast_tid MAX_TASK_NUM_def)
    have jobs: "a_jobs (ma_kernel ?M) = a_jobs ?A @ [?n]" "a_created (ma_kernel ?M) = Suc ?n"
      by (simp_all add: M(1) a_create_def Let_def True)
    have "machine_rel Us K' ?M"
    proof (rule after_call [where X = "{?n}", OF at])
      show "users_ok Us ?M" using 1(3) jobs by (simp add: users_ok_def M(5))
      show "u \<in> set (a_jobs ?A) \<and> keeps K K' u \<and> agree (stack_area K u) (k_mem K) (k_mem K') \<and> ma_task ?M u = ma_task M u
        \<and> ma_parent ?M u = ma_parent M u \<and> ma_passed ?M u = ma_passed M u"
        if "u \<in> set (a_jobs (ma_kernel ?M))" "u \<noteq> t" "u \<notin> {?n}" for u
        using that jobs(1) keep [of u] by (simp add: M k1(2) keeps_def)
      have "task_ok Us K' ?M t"
        using ans [OF k(3)] True k(3,4) 1(6) parent tn
        by (simp add: task_ok_def passed_ok_def M ucast_tid MAX_TASK_NUM_def)
      moreover have "task_ok Us K' ?M ?n"
        using n1 tn 1(3) krel_tid [OF 1(1,9)] by (simp add: task_ok_def passed_ok_def M k1(2) users_ok_def)
      ultimately show "task_ok Us K' ?M u" if "u = t \<or> u \<in> {?n}" for u using that by auto
    qed (simp_all only: M(1) k(2) inv)
    with k(1) show ?thesis by blast
  next
    case False
    then have c: "fst (a_create ?A ?pr) = ?A" "u_create M t p f k = finish M t (- 1) 0 [] k"
      by (simp_all add: a_create_def u_create_def Let_def)
    have "create_task K p f (t_tid (k_tasks K t)) = Inr (K, None)"
      using False pool by (simp add: create_task_def)
    with k1 have "K' = give_result K t (- 1)" by simp
    with result_call [OF at, of "- 1"] k(1) show ?thesis by (simp add: c(2))
  qed
qed

lemma await_call:
  assumes at: "at_call Us K M t (AwaitEvent e) k" and M': "u_await M t e k = Some M'"
  shows "\<exists>K'. sys_await_event K = Inr K' \<and> machine_rel Us K' M'"
  using at
proof (cases rule: at_callE)
  case 1
  let ?A = "a_await (ma_kernel M) t (nat (sint e))"
  from M' have e: "0 \<le> sint e" "sint e < 1022" and M': "M' = block (set_kernel M ?A) t (AwaitEvent e) k"
    by (simp_all add: u_await_def split: if_splits)
  have x: "ucast (t_x (k_tasks K t) 0) = e" using 1(7) by simp
  from sys_await_event_refine [OF 1(1,2,4), unfolded x, OF e] obtain K' where k: "sys_await_event K = Inr K'" "krel K' ?A" by blast
  note keep = sys_await_event_keeps [OF k(1)]
  have "nat (sint e) < NUM_INTERRUPT" using e by (simp add: NUM_INTERRUPT_def nat_less_iff)
  then have inv: "ainv ?A" using await_inv [OF 1(2,4)] by simp
  have "machine_rel Us K' M'"
  proof (rule after_call [where X = "{}", OF at])
    have "own_part (k_tasks K' t) = own_part (k_tasks K t)" using keep [of t] by (simp add: keeps_def)
    then show "task_ok Us K' M' u" if "u = t \<or> u \<in> {}" for u
      using that 1(5-7) own_part_fields [of "k_tasks K' t" "k_tasks K t"] by (simp add: task_ok_def passed_ok_def M')
  qed (use 1(3) k inv keep in \<open>simp_all add: M' users_ok_def a_await_def Let_def\<close>)
  with k(1) show ?thesis by blast
qed

text \<open>The tick: the task that awaits it finds the result that was passed to it last.\<close>

lemma tick_rel:
  assumes rel: "machine_rel Us K M" and run: "running (ma_kernel M) t" and M': "u_tick M = Some M'"
  shows "\<exists>K'. wake_up_irq_blocked_tasks K 97 = Inr K' \<and> machine_rel Us K' M'"
proof -
  let ?A = "ma_kernel M"
  from rel have A: "krel K ?A" "ainv ?A" "users_ok Us M" "\<And>u. u \<in> set (a_jobs ?A) \<Longrightarrow> task_ok Us K M u"
    by (simp_all add: machine_rel_def)
  from wake_refine [OF A(1,2), of 97] obtain K' where
    k: "wake_up_irq_blocked_tasks K 97 = Inr K'" "krel K' (a_wake ?A 97)" by auto
  have inv: "ainv (a_wake ?A 97)" using wake_inv [OF A(2) run] by (simp add: NUM_INTERRUPT_def)
  note keep = wake_keeps [OF k(1)]
  have created: "a_created (a_wake ?A 97) = a_created ?A"
    by (simp add: a_wake_def a_make_ready_def a_set_state_def Let_def split: list.split)
  have same: "task_ok Us K' M1 u" if "u \<in> set (a_jobs ?A)" "ma_task M1 u = ma_task M u" "ma_parent M1 u = ma_parent M u"
      "ma_passed M1 u = ma_passed M u" for M1 u
    by (rule task_ok_frame [OF A(4) [OF that(1)] _ _ refl that(2-4)]) (use keep [of u] in simp_all)
  show ?thesis
  proof (cases "service_order TASK_PRIORITY_MAX (a_irq ?A 97)")
    case Nil
    then have "M' = set_kernel M (a_wake ?A 97)" using M' by (simp add: u_tick_def Let_def)
    then have "machine_rel Us K' M'" using k(2) inv A(3) same by (intro machine_relI) (auto simp: users_ok_def created)
    with k(1) show ?thesis by blast
  next
    case (Cons w ws)
    with M' obtain e kw where w: "ma_task M w = Blocked (AwaitEvent e) kw"
      and M1: "M' = complete (set_kernel M (a_wake ?A 97)) w (Answer (case ma_passed M w of Some r \<Rightarrow> ucast r | None \<Rightarrow> e) 0 []) kw"
      by (auto simp: u_tick_def Let_def split: utask.splits call.splits)
    have "task_ok Us K' M' u" if u: "u \<in> set (a_jobs ?A)" for u
    proof (cases "u = w")
      case False
      then show ?thesis by (intro same [OF u]) (simp_all add: M1)
    next
      case True
      have ok: "task_ok Us K M w" using A(4) u True by simp
      have "own_part (k_tasks K' w) = own_part (k_tasks K w)" using keep [of w] by (simp add: keeps_def)
      from own_part_fields [OF this] ok w have "passed_ok K' M w" "us_cont Us w = Some (AwaitEvent e, kw)"
        "ucast (t_x (k_tasks K' w) 0) = e" by (simp_all add: task_ok_def passed_ok_def)
      then show ?thesis
        by (auto simp: True M1 task_ok_def passed_ok_def holds_answer_def answer_in_def pass_result_first Let_def)
    qed
    then have "machine_rel Us K' M'" using k(2) inv A(3) by (intro machine_relI) (simp_all add: M1 users_ok_def created)
    with k(1) show ?thesis by blast
  qed
qed

end
