(* ===== verification/User_Refine.thy ===== *)
theory User_Refine
  imports User_Relation
begin

text \<open>
  The kernel implements the abstract machine: a round in which the picked task makes the call of its program
  is a round of the machine, and afterwards every task finds the answer that the machine gives it.
\<close>

subsection \<open>Messages\<close>

lemma exchange_words:
  assumes "a < 2 ^ 31" and "b < 2 ^ 31"
  shows "exchange_length (word_of_nat a) (word_of_nat b) = word_of_nat (min a b)"
  using assms by (simp add: exchange_length_def sint_of_nat_small32 min_def)

text \<open>What a transfer between the blocks of two tasks leaves in the memory.\<close>

lemma transfer_between:
  assumes len: "n \<le> length msg" "length msg < 2 ^ 31" and src: "read_bytes m src (length msg) = msg" "lies_in src (length msg) R"
    and dst: "lies_in tidp 4 R'" "lies_in dst n R'" "regions_disjoint tidp 4 dst n" and dis: "R \<inter> R' = {}"
    and m': "m' = memcpy (store_int m tidp v) dst src (scast (word_of_nat n :: i32))"
  shows "read_bytes m' dst n = take n msg" "load_int m' tidp = v" "Q \<inter> R' = {} \<Longrightarrow> agree Q m m'"
proof -
  have s: "lies_in src n R" using lies_in_less [OF src(2) len(1)] .
  have n: "nat (sint (word_of_nat n :: i32)) = n" "0 \<le> sint (word_of_nat n :: i32)" using len by (simp_all add: sint_of_nat_small32)
  have clean: "clean_transfer tidp dst src n"
    using lies_disjoint [OF dst(2) s] lies_disjoint [OF dst(1) s] dst(3) dis by (simp add: clean_transfer_def Int_commute)
  from transfer_bytes [OF m' n(2)] clean n(1) have t: "read_bytes m' dst n = read_bytes m src n" "load_int m' tidp = v" by simp_all
  show "load_int m' tidp = v" by (rule t(2))
  show "read_bytes m' dst n = take n msg" using t(1) read_bytes_take [OF len(1), of m src] src(1) by simp
  have u: "unat (scast (word_of_nat n :: i32) :: u64) = n" using len by (simp add: scast_tid unat_of_nat_small64)
  have n64: "n \<le> 2 ^ 64" using len by simp
  have d: "regions_disjoint dst n src n" using clean by (simp add: clean_transfer_def)
  show "agree Q m m'" if q: "Q \<inter> R' = {}"
  proof -
    have "m' a = m a" if "a \<in> Q" for a
    proof -
      have "\<not> in_region a dst n" "\<not> in_region a tidp 4" using that q dst(1,2) by (auto simp: lies_in_def)
      then show ?thesis by (simp add: m' memcpy_def u memcpy_loop_spec [OF n64 d] store_int_other)
    qed
    then show ?thesis by (simp add: agree_def)
  qed
qed

lemma copy_between:
  assumes len: "n \<le> length msg" "length msg < 2 ^ 31" and src: "read_bytes m src (length msg) = msg" "lies_in src (length msg) R"
    and dst: "lies_in dst n R'" and dis: "R \<inter> R' = {}" and m': "m' = memcpy m dst src (scast (word_of_nat n :: i32))"
  shows "read_bytes m' dst n = take n msg" "Q \<inter> R' = {} \<Longrightarrow> agree Q m m'"
proof -
  have s: "lies_in src n R" using lies_in_less [OF src(2) len(1)] .
  have n64: "n \<le> 2 ^ 64" using len by simp
  have u: "unat (scast (word_of_nat n :: i32) :: u64) = n" using len by (simp add: scast_tid unat_of_nat_small64)
  have d: "regions_disjoint dst n src n" using lies_disjoint [OF dst s] dis by (simp add: Int_commute)
  show "read_bytes m' dst n = take n msg"
    using memcpy_loop_bytes [OF n64 d, of m] read_bytes_take [OF len(1), of m src] src(1) by (simp add: m' memcpy_def u)
  show "agree Q m m'" if q: "Q \<inter> R' = {}"
    using q dst by (auto simp: agree_def m' memcpy_def u memcpy_loop_spec [OF n64 d] lies_in_def)
qed

lemma length_fitting [simp]: "length (fitting msg room) = min (length msg) room"
  by (simp add: fitting_def)

lemma received:
  assumes "t_x (k_tasks K t) = x" and "t_should_pass_result (k_tasks K t)" and "t_result (k_tasks K t) = word_of_nat n" and n: "n < 2 ^ 31"
    and "lies_in (x 0) 4 (stack_area K t)" and "lies_in (x 1) n (stack_area K t)"
    and "read_bytes (k_mem K) (x 1) n = bs" and "load_int (k_mem K) (x 0) = v"
  shows "holds_answer K t (Receive room) (Answer (word_of_nat n) v bs)"
  using assms
  by (simp add: holds_answer_def answer_in_def pass_result_first Let_def ucast_tid sint_of_nat_small32 read_bytes_agree load_int_agree)

lemma replied:
  assumes "t_x (k_tasks K t) = x" and "t_should_pass_result (k_tasks K t)" and "t_result (k_tasks K t) = word_of_nat n" and n: "n < 2 ^ 31"
    and "lies_in (x 3) n (stack_area K t)" and "read_bytes (k_mem K) (x 3) n = bs"
  shows "holds_answer K t (Send to msg room) (Answer (word_of_nat n) 0 bs)"
  using assms
  by (simp add: holds_answer_def answer_in_def pass_result_first Let_def ucast_tid sint_of_nat_small32 read_bytes_agree)

lemma task_ok_blocked:
  assumes "task_ok Us K M u" and "ma_task M u = Blocked c k"
  shows "passed_ok K M u" "us_cont Us u = Some (c, k)" "holds_call (t_x (k_tasks K u)) (k_mem K) (stack_area K u) c"
  using assms by (simp_all add: task_ok_def)

lemma send_created [simp]: "a_created (a_send A c r) = a_created A"
  by (simp add: a_send_def a_make_ready_def a_set_state_def Let_def split: option.split)

lemma receive_created [simp]: "a_created (a_receive A c) = a_created A"
  by (simp add: a_receive_def a_set_state_def split: list.split)

lemma reply_created [simp]: "a_created (a_reply A s) = a_created A"
  by (simp add: a_reply_def a_make_ready_def a_set_state_def Let_def split: option.split)

text \<open>The caller waits now; its registers, its message and its result are as they were.\<close>

lemma blocked_caller:
  assumes at: "at_call Us K M t c k" and keep: "keeps K K' t" and mem: "agree (stack_area K t) (k_mem K) (k_mem K')"
    and M': "ma_task M' t = Blocked c k" "ma_parent M' t = ma_parent M t" "ma_passed M' t = ma_passed M t"
  shows "task_ok Us K' M' t"
proof -
  have "own_part (k_tasks K' t) = own_part (k_tasks K t)" using keep by (simp add: keeps_def)
  from own_part_fields [OF this] at show ?thesis
    by (simp add: at_call_def task_ok_def passed_ok_def M' keeps_area [OF keep] holds_call_agree [OF mem])
qed

lemma send_waiting_call:
  assumes at: "at_call Us K M t (Send to msg room) k" and r: "a_find (ma_kernel M) to = Some r"
    and w: "a_state (ma_kernel M) r = WAITRECEIVE" and b: "ma_task M r = Blocked (Receive n) kr"
  shows "\<exists>K'. sys_send K = Inr K' \<and> machine_rel Us K'
    (block (finish (set_kernel M (a_send (ma_kernel M) t (Some r))) r (word_of_nat (length (fitting msg n))) (word_of_nat t) (fitting msg n) kr)
      t (Send to msg room) k)"
  using at
proof (cases rule: at_callE)
  case 1
  let ?A = "ma_kernel M"
  let ?n = "min (length msg) n"
  let ?M = "block (finish (set_kernel M (a_send ?A t (Some r))) r (word_of_nat ?n) (word_of_nat t) (fitting msg n) kr) t (Send to msg room) k"
  have rj: "r \<in> set (a_jobs ?A)" using a_find_Some [OF r] by simp
  have rt: "r \<noteq> t" using running_other [OF 1(4), of r] w by simp
  let ?x = "t_x (k_tasks K t)" and ?y = "t_x (k_tasks K r)"
  note rok = task_ok_blocked [OF 1(8) [OF rj rt] b]
  from 1(7) have x: "ucast (?x 0) = to" "length msg < 2 ^ 31" "ucast (?x 2) = (word_of_nat (length msg) :: i32)"
    "read_bytes (k_mem K) (?x 1) (length msg) = msg" "lies_in (?x 1) (length msg) (stack_area K t)" by simp_all
  from rok(3) have y: "n < 2 ^ 31" "ucast (?y 2) = (word_of_nat n :: i32)" "lies_in (?y 0) 4 (stack_area K r)"
    "lies_in (?y 1) n (stack_area K r)" "regions_disjoint (?y 0) 4 (?y 1) n" by simp_all
  have tgt: "send_target K ?A t = Some r" using r x(1) by (simp add: send_target_def)
  from sys_send_waiting [OF 1(1,2,4) tgt w] x(2,3) y(1,2) obtain K' where k: "sys_send K = Inr K'" "krel K' (a_send ?A t (Some r))"
    "k_mem K' = memcpy (store_int (k_mem K) (?y 0) (word_of_nat t)) (?y 1) (?x 1) (scast (word_of_nat ?n :: i32))"
    "k_tasks K' = (k_tasks K)(r := (assign_result (k_tasks K r) (scast (word_of_nat ?n :: i32)))\<lparr>t_state := READY\<rparr>,
         t := (k_tasks K t)\<lparr>t_state := WATIREPLY\<rparr>)"
    by (auto simp: exchange_words)
  have base: "mem_base K' = mem_base K" by (rule sys_send_base [OF k(1)])
  have keep: "keeps K K' u" if "u \<noteq> r" for u using that base by (simp add: keeps_def k(4))
  have dis: "stack_area K t \<inter> stack_area K r = {}" by (rule areas_disjoint [OF 1(1,9) rj]) (use rt in simp)
  have ln: "?n \<le> length msg" "?n < 2 ^ 31" using x(2) by simp_all
  have sub: "lies_in (?y 1) ?n (stack_area K r)" "regions_disjoint (?y 0) 4 (?y 1) ?n"
    using lies_in_less [OF y(4), of ?n] y(5) by (auto simp: regions_disjoint_def in_region_def)
  note tr = transfer_between [OF ln(1) x(2,4,5) y(3) sub dis k(3)]
  have ra: "stack_area K' r = stack_area K r" using base by (simp add: stack_area_def k(4) rt block_addr_def mem_base_def split: option.split)
  have "holds_answer K' r (Receive n) (Answer (word_of_nat ?n) (word_of_nat t) (fitting msg n))"
    by (rule received [where x = ?y])
      (use rt tr(1,2) y(3) sub(1) ln(2) in \<open>simp_all add: k(4) assign_result_def scast_tid ra fitting_def\<close>)
  then have rnew: "task_ok Us K' ?M r"
    using rok(1,2) rt ln(2) by (simp add: task_ok_def passed_ok_def k(4) assign_result_def scast_tid ucast_tid)
  have inv: "ainv (a_send ?A t (Some r))" by (rule send_inv [OF 1(2,4)]) (use rj in simp)
  have "machine_rel Us K' ?M"
  proof (rule after_call [where X = "{r}", OF at])
    show "users_ok Us ?M" using 1(3) by (simp add: users_ok_def)
    show "u \<in> set (a_jobs ?A) \<and> keeps K K' u \<and> agree (stack_area K u) (k_mem K) (k_mem K') \<and> ma_task ?M u = ma_task M u
        \<and> ma_parent ?M u = ma_parent M u \<and> ma_passed ?M u = ma_passed M u"
      if "u \<in> set (a_jobs (ma_kernel ?M))" "u \<noteq> t" "u \<notin> {r}" for u
      using that keep [of u] tr(3) [OF areas_disjoint [OF 1(1), of u r]] rj by simp
    have "task_ok Us K' ?M t"
      by (rule blocked_caller [OF at keep tr(3) [OF dis]]) (use rt in simp_all)
    then show "task_ok Us K' ?M u" if "u = t \<or> u \<in> {r}" for u using that rnew by auto
  qed (simp_all add: k(2) inv)
  with k(1) show ?thesis by simp
qed

lemma send_call:
  assumes at: "at_call Us K M t (Send to msg room) k" and M': "u_send M t to msg room k = Some M'"
  shows "\<exists>K'. sys_send K = Inr K' \<and> machine_rel Us K' M'"
  using at
proof (cases rule: at_callE)
  case 1
  let ?A = "ma_kernel M"
  have tgt: "send_target K ?A t = a_find ?A to" using 1(7) by (simp add: send_target_def)
  have err: "machine_rel Us (give_result K t r) (finish M t r 0 [] k)" if "r = - 1 \<or> r = - 2" for r
    by (rule result_call [OF at]) (use that in auto)
  show ?thesis
  proof (cases "a_find ?A to")
    case None
    then have "M' = finish M t (- 1) 0 [] k" using M' by (simp add: u_send_def)
    with sys_send_missing [OF 1(1,4)] None tgt err show ?thesis by auto
  next
    case (Some r)
    note r = tgt [unfolded Some]
    have rj: "r \<in> set (a_jobs ?A)" using a_find_Some [OF Some] by simp
    show ?thesis
    proof (cases "a_state ?A r = WAITRECEIVE")
      case True
      with M' Some obtain n kr where "ma_task M r = Blocked (Receive n) kr"
        "M' = block (finish (set_kernel M (a_send ?A t (Some r))) r (word_of_nat (length (fitting msg n))) (word_of_nat t) (fitting msg n) kr)
           t (Send to msg room) k"
        by (auto simp: u_send_def Let_def split: utask.splits call.splits)
      with send_waiting_call [OF at Some True] show ?thesis by simp
    next
      case False
      from sys_send_queued [OF 1(1,2,4) r False] obtain K' where
        k: "sys_send K = Inr K'" "krel K' (a_send ?A t (Some r))" "k_mem K' = k_mem K"
          "length (a_senders ?A r) = MAX_SENDER_CAPACITY - 1 \<longrightarrow> K' = give_result K t (- 2)" by blast
      show ?thesis
      proof (cases "length (a_senders ?A r) < MAX_SENDER_CAPACITY - 1")
        case full: False
        have "length (a_senders ?A r) < MAX_SENDER_CAPACITY" using 1(2) rj by (simp add: ainv_def senders_ok_def)
        with full have "length (a_senders ?A r) = MAX_SENDER_CAPACITY - 1" by simp
        moreover have "M' = finish M t (- 2) 0 [] k" using M' Some False full by (simp add: u_send_def Let_def)
        ultimately show ?thesis using k(1,4) err by simp
      next
        case room: True
        have M1: "M' = block (set_kernel M (a_send ?A t (Some r))) t (Send to msg room) k"
          using M' Some False room by (simp add: u_send_def Let_def)
        have "a_state (a_send ?A t (Some r)) t = WATISEND" using False room by (simp add: a_send_def)
        then have "t_state (k_tasks K' t) = WATISEND" using krel_state [OF k(2), of t] 1(9) by simp
        moreover have "t_state (k_tasks K t) = RUNNING" using running_kernel(3,4) [OF 1(1,4)] krel_state [OF 1(1)] by simp
        ultimately have ne: "K' \<noteq> give_result K t (- 2)" by (auto simp: assign_result_def)
        have keep: "keeps K K' u" for u
        proof (rule sys_send_keeps [OF k(1) running_kernel(1) [OF 1(1,4)] _ _ ne k(3)])
          show "get_task_by_tid K (ucast (t_x (k_tasks K t) 0)) = Inr (Some r)"
            using get_task_by_tid_refine [OF 1(1)] r by (simp add: send_target_def)
          show "t_state (k_tasks K r) \<noteq> WAITRECEIVE" using krel_state [OF 1(1) rj] False by simp
        qed
        have inv: "ainv (a_send ?A t (Some r))" by (rule send_inv [OF 1(2,4)]) (use rj in simp)
        have "machine_rel Us K' M'"
        proof (rule after_call [where X = "{}", OF at])
          show "task_ok Us K' M' u" if "u = t \<or> u \<in> {}" for u
            using that blocked_caller [OF at keep [of t]] k(3) by (simp add: M1)
        qed (use 1(3) k(2,3) inv keep in \<open>simp_all add: M1 users_ok_def\<close>)
        with k(1) show ?thesis by blast
      qed
    qed
  qed
qed

lemma receive_call:
  assumes at: "at_call Us K M t (Receive n) k" and M': "u_receive M t n k = Some M'"
  shows "\<exists>K'. sys_receive K = Inr K' \<and> machine_rel Us K' M'"
  using at
proof (cases rule: at_callE)
  case 1
  let ?A = "ma_kernel M"
  have inv: "ainv (a_receive ?A t)" by (rule receive_inv [OF 1(2,4)])
  show ?thesis
  proof (cases "a_senders ?A t")
    case Nil
    from sys_receive_block [OF 1(1,4) Nil] obtain K' where k: "sys_receive K = Inr K'" "krel K' (a_receive ?A t)"
      "K' = upd_task K t (\<lambda>d. d\<lparr>t_state := WAITRECEIVE\<rparr>)" by blast
    have keep: "keeps K K' u" for u by (simp add: k(3) keeps_def)
    have M1: "M' = block (set_kernel M (a_receive ?A t)) t (Receive n) k" using M' Nil by (simp add: u_receive_def Let_def)
    have "machine_rel Us K' M'"
    proof (rule after_call [where X = "{}", OF at])
      show "task_ok Us K' M' u" if "u = t \<or> u \<in> {}" for u
        using that blocked_caller [OF at keep [of t]] by (simp add: M1 k(3))
    qed (use 1(3) k(2) inv keep in \<open>simp_all add: M1 users_ok_def, simp_all add: k(3)\<close>)
    with k(1) show ?thesis by blast
  next
    case (Cons s ss)
    with M' obtain to msg room ks where b: "ma_task M s = Blocked (Send to msg room) ks"
      and M1: "M' = finish (set_kernel M (a_receive ?A t)) t (word_of_nat (min (length msg) n)) (word_of_nat s) (fitting msg n) k"
      by (auto simp: u_receive_def Let_def split: utask.splits call.splits)
    have sj: "s \<in> set (a_jobs ?A)" "a_state ?A s = WATISEND" using 1(2,9) Cons by (auto simp: ainv_def senders_ok_def)
    have st: "s \<noteq> t" using running_other [OF 1(4), of s] sj(2) by simp
    let ?n = "min (length msg) n" and ?x = "t_x (k_tasks K s)" and ?y = "t_x (k_tasks K t)"
    note sok = task_ok_blocked [OF 1(8) [OF sj(1) st] b]
    from sok(3) have x: "length msg < 2 ^ 31" "ucast (?x 2) = (word_of_nat (length msg) :: i32)"
      "read_bytes (k_mem K) (?x 1) (length msg) = msg" "lies_in (?x 1) (length msg) (stack_area K s)" by simp_all
    from 1(7) have y: "n < 2 ^ 31" "ucast (?y 2) = (word_of_nat n :: i32)" "lies_in (?y 0) 4 (stack_area K t)"
      "lies_in (?y 1) n (stack_area K t)" "regions_disjoint (?y 0) 4 (?y 1) n" by simp_all
    from sys_receive_take [OF 1(1,2,4) Cons] x(1,2) y(1,2) obtain K' where k: "sys_receive K = Inr K'" "krel K' (a_receive ?A t)"
      "k_mem K' = memcpy (store_int (k_mem K) (?y 0) (word_of_nat s)) (?y 1) (?x 1) (scast (word_of_nat ?n :: i32))"
      "t_result (k_tasks K' t) = scast (word_of_nat ?n :: i32)" "t_should_pass_result (k_tasks K' t)"
      by (auto simp: exchange_words)
    have keep: "keeps K K' u" if "u \<noteq> t" for u by (rule sys_receive_keeps [OF k(1)]) (use that 1(10) in simp)
    have dis: "stack_area K s \<inter> stack_area K t = {}" by (rule areas_disjoint [OF 1(1) sj(1) 1(9) st])
    have ln: "?n \<le> length msg" "?n < 2 ^ 31" using x(1) by simp_all
    have sub: "lies_in (?y 1) ?n (stack_area K t)" "regions_disjoint (?y 0) 4 (?y 1) ?n"
      using lies_in_less [OF y(4), of ?n] y(5) by (auto simp: regions_disjoint_def in_region_def)
    note tr = transfer_between [OF ln(1) x(1,3,4) y(3) sub dis k(3)]
    have d: "t_x (k_tasks K' t) = ?y" using saved_context_x [OF sys_receive_context [OF k(1)]] .
    have priv: "t_parent_tid (k_tasks K' t) = t_parent_tid (k_tasks K t) \<and> stack_area K' t = stack_area K t"
      using sys_receive_runner [OF k(1) 1(10)] sys_receive_base [OF k(1)]
      by (simp add: stack_area_def block_addr_def mem_base_def split: option.split)
    have "holds_answer K' t (Receive n) (Answer (word_of_nat ?n) (word_of_nat s) (fitting msg n))"
      by (rule received [where x = ?y]) (use d k(4,5) tr(1,2) y(3) sub(1) ln(2) priv in \<open>simp_all add: scast_tid fitting_def\<close>)
    then have tnew: "task_ok Us K' M' t"
      using 1(5,6) k(4,5) ln(2) priv by (simp add: M1 task_ok_def passed_ok_def scast_tid ucast_tid)
    have "machine_rel Us K' M'"
    proof (rule after_call [where X = "{}", OF at])
      show "u \<in> set (a_jobs ?A) \<and> keeps K K' u \<and> agree (stack_area K u) (k_mem K) (k_mem K') \<and> ma_task M' u = ma_task M u
          \<and> ma_parent M' u = ma_parent M u \<and> ma_passed M' u = ma_passed M u"
        if "u \<in> set (a_jobs (ma_kernel M'))" "u \<noteq> t" "u \<notin> {}" for u
        using that keep [of u] tr(3) [OF areas_disjoint [OF 1(1), of u t]] 1(9) by (simp add: M1)
      show "task_ok Us K' M' u" if "u = t \<or> u \<in> {}" for u using that tnew by auto
    qed (use 1(3) k(2) inv in \<open>simp_all add: M1 users_ok_def\<close>)
    with k(1) show ?thesis by blast
  qed
qed

lemma reply_call:
  assumes at: "at_call Us K M t (Reply to msg) k" and M': "u_reply M t to msg k = Some M'"
  shows "\<exists>K'. sys_reply K = Inr K' \<and> machine_rel Us K' M'"
  using at
proof (cases rule: at_callE)
  case 1
  let ?A = "ma_kernel M"
  have tgt: "send_target K ?A t = a_find ?A to" using 1(7) by (simp add: send_target_def)
  show ?thesis
  proof (cases "a_find ?A to")
    case None
    then have "M' = finish M t (- 1) 0 [] k" using M' by (simp add: u_reply_def)
    moreover have "sys_reply K = Inr (give_result K t (- 1))" using reply_find [OF 1(1,4)] tgt None by simp
    moreover have "machine_rel Us (give_result K t (- 1)) (finish M t (- 1) 0 [] k)" by (rule result_call [OF at]) auto
    ultimately show ?thesis by auto
  next
    case (Some s)
    note s = tgt [unfolded Some]
    have sj: "s \<in> set (a_jobs ?A)" using a_find_Some [OF Some] by simp
    from M' Some obtain to' msg' room ks where w: "a_state ?A s = WATIREPLY" and b: "ma_task M s = Blocked (Send to' msg' room) ks"
      and M1: "M' = finish (finish (set_kernel M (a_reply ?A (Some s))) s (word_of_nat (min (length msg) room)) 0 (fitting msg room) ks)
         t (word_of_nat (min (length msg) room)) 0 [] k"
      by (auto simp: u_reply_def Let_def split: utask.splits call.splits if_splits)
    have st: "s \<noteq> t" using running_other [OF 1(4), of s] w by simp
    let ?n = "min (length msg) room" and ?x = "t_x (k_tasks K t)" and ?y = "t_x (k_tasks K s)"
    note sok = task_ok_blocked [OF 1(8) [OF sj st] b]
    from 1(7) have x: "length msg < 2 ^ 31" "ucast (?x 2) = (word_of_nat (length msg) :: i32)"
      "read_bytes (k_mem K) (?x 1) (length msg) = msg" "lies_in (?x 1) (length msg) (stack_area K t)" by simp_all
    from sok(3) have y: "room < 2 ^ 31" "ucast (?y 4) = (word_of_nat room :: i32)" "lies_in (?y 3) room (stack_area K s)" by simp_all
    from sys_reply_waiting [OF 1(1,2,4) s w] x(1,2) y(1,2) obtain K' where k: "sys_reply K = Inr K'" "krel K' (a_reply ?A (Some s))"
      "k_mem K' = memcpy (k_mem K) (?y 3) (?x 1) (scast (word_of_nat ?n :: i32))"
      "k_tasks K' = (k_tasks K)(s := (assign_result (k_tasks K s) (scast (word_of_nat ?n :: i32)))\<lparr>t_state := READY\<rparr>,
         t := assign_result (k_tasks K t) (scast (word_of_nat ?n :: i32)))"
      by (auto simp: exchange_words)
    note base = sys_reply_base [OF k(1)]
    have keep: "keeps K K' u" if "u \<noteq> s" "u \<noteq> t" for u using that base by (simp add: keeps_def k(4))
    have dis: "stack_area K t \<inter> stack_area K s = {}" by (rule areas_disjoint [OF 1(1,9) sj]) (use st in simp)
    have ln: "?n \<le> length msg" "?n < 2 ^ 31" using x(1) by simp_all
    have sub: "lies_in (?y 3) ?n (stack_area K s)" using lies_in_less [OF y(3), of ?n] by simp
    note tr = copy_between [OF ln(1) x(1,3,4) sub dis k(3)]
    have sa: "stack_area K' s = stack_area K s"
      using base by (simp add: stack_area_def k(4) st assign_result_def block_addr_def mem_base_def split: option.split)
    have "holds_answer K' s (Send to' msg' room) (Answer (word_of_nat ?n) 0 (fitting msg room))"
      by (rule replied [where x = ?y])
        (use st tr(1) sub ln(2) in \<open>simp_all add: k(4) assign_result_def scast_tid sa fitting_def\<close>)
    then have snew: "task_ok Us K' M' s"
      using sok(1,2) st ln(2) by (simp add: M1 task_ok_def passed_ok_def k(4) assign_result_def scast_tid ucast_tid)
    have "holds_answer K' t (Reply to msg) (Answer (ucast (word_of_nat ?n :: u64)) 0 [])"
      by (rule answered_plain) (use ln(2) in \<open>simp_all add: k(4) assign_result_def scast_tid\<close>)
    then have tnew: "task_ok Us K' M' t"
      using 1(5,6) st ln(2) by (simp add: M1 task_ok_def passed_ok_def k(4) assign_result_def scast_tid)
    have "reply_target_ok ?A (Some s)" using w sj by (simp add: reply_target_ok_def)
    then have inv: "ainv (a_reply ?A (Some s))" by (rule reply_inv [OF 1(2,4)])
    have "machine_rel Us K' M'"
    proof (rule after_call [where X = "{s}", OF at])
      show "u \<in> set (a_jobs ?A) \<and> keeps K K' u \<and> agree (stack_area K u) (k_mem K) (k_mem K') \<and> ma_task M' u = ma_task M u
          \<and> ma_parent M' u = ma_parent M u \<and> ma_passed M' u = ma_passed M u"
        if "u \<in> set (a_jobs (ma_kernel M'))" "u \<noteq> t" "u \<notin> {s}" for u
        using that keep [of u] tr(2) [OF areas_disjoint [OF 1(1), of u s]] sj by (simp add: M1)
      show "task_ok Us K' M' u" if "u = t \<or> u \<in> {s}" for u using that snew tnew by auto
    qed (use 1(3) k(2) inv in \<open>simp_all add: M1 users_ok_def\<close>)
    with k(1) show ?thesis by blast
  qed
qed

text \<open>Every call but the standby.\<close>

lemma call_refined:
  assumes at: "at_call Us K M t c k" and M': "u_call M t c k = Some M'" and c: "c \<noteq> Standby"
  shows "\<exists>K'. run_handler (call_handler c) K = Inr K' \<and> machine_rel Us K' M'"
proof (cases c)
  case (Create p f)
  with create_call [of Us K M t p f k] at M' show ?thesis by simp
next
  case MyTid
  with my_tid_call [of Us K M t k] at M' show ?thesis by simp
next
  case MyParentTid
  with my_parent_call [of Us K M t k] at M' show ?thesis by simp
next
  case Yield
  with yield_call [OF at] M' show ?thesis by (simp add: sys_yield_def)
next
  case Exit
  with exit_call [of Us K M t k] at M' show ?thesis by simp
next
  case (Send to msg room)
  with send_call [of Us K M t to msg room k M'] at M' show ?thesis by simp
next
  case (Receive n)
  with receive_call [of Us K M t n k M'] at M' show ?thesis by simp
next
  case (Reply to msg)
  with reply_call [of Us K M t to msg k M'] at M' show ?thesis by simp
next
  case (AwaitEvent e)
  with await_call [of Us K M t e k M'] at M' show ?thesis by simp
qed (use c in simp)

subsection \<open>Rounds\<close>

lemma u_rounds_last:
  "u_rounds code (Suc n) M = Some (rs, M') \<Longrightarrow>
     \<exists>rs1 M1 t out. u_rounds code n M = Some (rs1, M1) \<and> u_round code M1 = Some (t, out, M') \<and> rs = rs1 @ [(t, out)]"
proof (induction n arbitrary: M rs)
  case 0
  then show ?case by (auto split: option.splits)
next
  case (Suc n)
  from Suc.prems obtain t out M2 rs2 where r: "u_round code M = Some (t, out, M2)" "u_rounds code (Suc n) M2 = Some (rs2, M')"
    "rs = (t, out) # rs2" by (auto simp del: u_rounds.simps(2) simp: u_rounds.simps(2) [of code "Suc n" M] split: option.splits)
  from Suc.IH [OF r(2)] obtain rs1 M1 t1 out1 where
    "u_rounds code n M2 = Some (rs1, M1)" "u_round code M1 = Some (t1, out1, M')" "rs2 = rs1 @ [(t1, out1)]" by blast
  with r show ?case by (intro exI [of _ "(t, out) # rs1"]) auto
qed

lemma irq_round:
  assumes "schedule (sy_kernel S) = Inr (K, Some t)" and "activate K t tr = Inr K2" and exc: "tr_exc tr = IRQ" and ok: "tick_ok S tr"
    and irq: "sy_irq S 97 = Some Handle_timer_1" and w: "wake_up_irq_blocked_tasks K2 97 = Inr K3"
  shows "\<exists>S'. kmain_step S tr = Inr (S', True) \<and> sy_kernel S' = K3 \<and> sy_irq S' = sy_irq S"
proof -
  from ok have t: "tr_intid tr = 97" and early: "sys_timer_full_count (tr_chi tr) (tr_clo tr)
     < ck_next_tick_time (sc_clocks (sy_clocks S) 1) + scast (ck_interval (sc_clocks (sy_clocks S) 1))"
    by (simp_all add: tick_ok_def)
  from notify_tick_ok [OF _ early] obtain C where
    C: "sys_clock_notify_tick (sy_clocks S) 1 (tr_chi tr) (tr_clo tr) = Inr C" by auto
  show ?thesis
    using assms(1,2) exc irq t C w
    by (simp add: kmain_step_def on_kernel_def handle_current_exception_def handle_irq_def Let_def)
qed

lemma resume_machine:
  assumes "task_ok Us K M t" and "us_statics Us = ma_statics M" and "u_resume code (ma_statics M) (ma_task M t) = Call out g c k"
  shows "resume code K Us t = Call out g c k"
proof (cases "ma_task M t")
  case (Fresh f)
  with assms show ?thesis by (simp add: resume_def task_ok_def)
next
  case (Blocked c k)
  with assms show ?thesis by simp
next
  case (Answered a k')
  with assms obtain c' where c: "us_cont Us t = Some (c', k')" "holds_answer K t c' a" by (auto simp: task_ok_def)
  have "answer_in (k_tasks K t) (k_mem K) c' = a" using c(2) by (simp add: holds_answer_def)
  with c(1) assms(2,3) Answered show ?thesis by (simp add: resume_def)
qed

lemma schedule_created: "a_schedule A = (B, r) \<Longrightarrow> a_created B = a_created A \<and> a_jobs B = a_jobs A"
  by (auto simp: a_schedule_def a_requeue_def a_take_def a_make_ready_def a_set_state_def Let_def split: list.splits option.splits if_splits)

lemma round_refined:
  assumes rel: "machine_rel Us (sy_kernel S) M" and irq: "sy_irq S 97 = Some Handle_timer_1"
    and round: "u_round code M = Some (t, out, M')" and play: "plays code S Us tr t' out' Us'"
  shows "t' = t \<and> out' = out \<and> (\<exists>S'. kmain_step S tr = Inr (S', True) \<and> machine_rel Us' (sy_kernel S') M' \<and> sy_irq S' = sy_irq S)"
proof -
  let ?A = "ma_kernel M"
  from rel have A: "krel (sy_kernel S) ?A" "ainv ?A" "us_statics Us = ma_statics M" "users_ok Us M"
    by (simp_all add: machine_rel_def users_ok_def)
  from round obtain B g c k where B: "a_schedule ?A = (B, Some t)" and prog: "u_resume code (ma_statics M) (ma_task M t) = Call out g c k"
    and call: "u_call (M\<lparr>ma_kernel := a_run B t, ma_statics := g\<rparr>) t c k = Some M'"
    by (auto simp: u_round_def split: prod.splits option.splits prog.splits if_splits)
  from A(1,2) obtain K where K: "schedule (sy_kernel S) = Inr (K, Some t)" "krel K B" "t \<in> set (a_jobs B)" "a_state B t = READY"
    "ainv (a_run B t)" "running (a_run B t) t"
    by (cases rule: schedule_cases) (use B schedule_refine [OF A(1,2)] in auto)
  note sc = schedule_created [OF B]
  note keep = schedule_keeps [OF K(1)]
  have ok: "task_ok Us K M u" if "u \<in> set (a_jobs ?A)" for u
  proof -
    have "task_ok Us (sy_kernel S) M u" using rel that by (simp add: machine_rel_def)
    from task_ok_frame [OF this, of K] keep [of u] show ?thesis by simp
  qed
  have tj: "t \<in> set (a_jobs ?A)" using K(3) sc by simp
  have res: "resume code K Us t = Call out g c k" by (rule resume_machine [OF ok [OF tj] A(3) prog])
  from play K(1) res have t': "t' = t" and out': "out' = out"
    and Us': "Us' = \<lparr>us_statics = g, us_cont = (us_cont Us)(t := Some (c, k))\<rparr>"
    and mc: "makes_call S tr c" and hc: "holds_call (tr_x tr) (tr_mem tr) (stack_area K t) c"
    and safe: "\<And>u a. live K u \<Longrightarrow> u \<noteq> t \<Longrightarrow> a \<in> stack_area K u \<Longrightarrow> tr_mem tr a = k_mem K a"
    by (auto simp: plays_def)
  have ne: "a_state B t \<noteq> RUNNING" using K(4) by simp
  from activate_refine [OF K(2,3) ne, of tr] obtain K2 where
    k2: "activate K t tr = Inr K2" "krel K2 (a_run B t)" "k_mem K2 = tr_mem tr" by blast
  note ru = activate_runner [OF k2(1)]
  let ?M = "M\<lparr>ma_kernel := a_run B t, ma_statics := g\<rparr>"
  have jobs: "a_jobs (a_run B t) = a_jobs ?A" "a_created (a_run B t) = a_created ?A" using sc by (simp_all add: a_run_def a_set_state_def)
  have at: "at_call Us' K2 ?M t c k"
    unfolding at_call_def
  proof (intro conjI ballI impI)
    have "t < a_created ?A" using A(2) tj by (auto simp: ainv_def jobs_ok_def)
    then show "users_ok Us' ?M" using A(4) by (auto simp: users_ok_def Us' jobs)
    have "stack_area K2 t = stack_area K t"
      using ru by (simp add: stack_area_def block_addr_def mem_base_def split: option.split)
    then show "holds_call (t_x (k_tasks K2 t)) (k_mem K2) (stack_area K2 t) c" using hc ru(5) k2(3) by simp
    show "passed_ok K2 ?M t" using ok [OF tj] ru by (simp add: task_ok_def passed_ok_def passed_def)
    fix u assume u: "u \<in> set (a_jobs (ma_kernel ?M))" "u \<noteq> t"
    then have uj: "u \<in> set (a_jobs ?A)" using jobs by simp
    have inv: "ainv (a_run B t)" by (rule K(5))
    have "live K u"
    proof -
      have "jobs_ok B" using inv K(4) by (auto simp: ainv_def jobs_ok_def a_run_def a_set_state_def split: if_splits)
      then show ?thesis using live_iff [OF K(2)] uj sc by simp
    qed
    then have "agree (stack_area K u) (k_mem K) (k_mem K2)" using safe u(2) by (simp add: agree_def k2(3))
    from task_ok_frame [OF ok [OF uj] activate_keeps [OF k2(1) u(2)] this, of Us' ?M] u(2) show "task_ok Us' K2 ?M u"
      by (simp add: Us')
  qed (use k2 K in \<open>simp_all add: Us'\<close>)
  show ?thesis
  proof (cases "c = Standby")
    case True
    note y = yield_call [OF at] 
    have "running (ma_kernel (complete ?M t (Answer 0 0 []) k)) t" using K(6) by simp
    from tick_rel [OF y this] call True obtain K3 where
      k3: "wake_up_irq_blocked_tasks K2 97 = Inr K3" "machine_rel Us' K3 M'" by auto
    from irq_round [OF K(1) k2(1) _ _ irq k3(1)] mc True k3(2) t' out' show ?thesis by (auto simp: makes_call_def)
  next
    case False
    from call_refined [OF at call False] obtain K3 where k3: "run_handler (call_handler c) K2 = Inr K3" "machine_rel Us' K3 M'" by blast
    have "svc_call S tr (call_handler c)" using mc False by (simp add: makes_call_def)
    from svc_round [OF K(1) k2(1) this k3(1)] k3(2) t' out' show ?thesis by (intro conjI exI [of _ "S\<lparr>sy_kernel := K3\<rparr>"]) simp_all
  qed
qed

definition all_lines :: "(task_ptr \<times> line list) list \<Rightarrow> (task_ptr \<times> line) list" where
  "all_lines rs = concat (map (\<lambda>(t, ls). map (Pair t) ls) rs)"

text \<open>A run of \<open>n\<close> rounds, while the machine has rounds to make.\<close>

lemma run_refined:
  assumes run: "user_run code S Us n out S' Us'" and rel: "machine_rel Us (sy_kernel S) M" and irq: "sy_irq S 97 = Some Handle_timer_1"
    and rounds: "u_rounds code n M = Some (rs, M')"
  shows "out = all_lines rs \<and> machine_rel Us' (sy_kernel S') M' \<and> sy_irq S' 97 = Some Handle_timer_1"
  using run rounds
proof (induction n arbitrary: out S' Us' rs M')
  case 0
  then show ?case using rel irq by (auto elim: user_run_0 simp: all_lines_def)
next
  case (Suc n)
  from Suc.prems(1) obtain out1 S1 Us1 tr t ls where r: "user_run code S Us n out1 S1 Us1" "plays code S1 Us1 tr t ls Us'"
    "kmain_step S1 tr = Inr (S', True)" "out = out1 @ map (Pair t) ls" by (auto elim: user_run_Suc)
  from Suc.prems(2) obtain rs1 M1 t1 ls1 where m: "u_rounds code n M = Some (rs1, M1)" "u_round code M1 = Some (t1, ls1, M')" "rs = rs1 @ [(t1, ls1)]"
    using u_rounds_last [of code n M] by auto
  from Suc.IH [OF r(1) m(1)] have IH: "out1 = all_lines rs1" "machine_rel Us1 (sy_kernel S1) M1" "sy_irq S1 97 = Some Handle_timer_1"
    by simp_all
  from round_refined [OF IH(2,3) m(2) r(2)] r(3,4) m(3) IH(1,3) show ?case by (auto simp: all_lines_def)
qed

end
