(* ===== verification/Machine_Runs.thy ===== *)
theory Machine_Runs
  imports User_Refine "HOL-Library.Sublist"
begin

text \<open>
  Runs of the kernel and runs of the abstract machine.  A run of the kernel prints what the machine prints in as many
  rounds; where the machine has rounds to make, the kernel can make them; and where the machine is stuck, no run
  goes on.
\<close>

subsection \<open>Runs of the machine\<close>

text \<open>The lines of \<open>n\<close> rounds, after those in \<open>out\<close>.\<close>

fun u_run :: "(u64 \<Rightarrow> Statics \<Rightarrow> prog) \<Rightarrow> nat \<Rightarrow> (task_ptr \<times> line) list \<Rightarrow> Machine \<Rightarrow> ((task_ptr \<times> line) list \<times> Machine) option" where
  "u_run code 0 out M = Some (out, M)"
| "u_run code (Suc n) out M =
     (case u_round code M of None \<Rightarrow> None | Some (t, ls, M) \<Rightarrow> u_run code n (out @ map (Pair t) ls) M)"

lemmas u_run_numeral = u_run.simps(2) [of _ "pred_numeral k" for k, folded numeral_eq_Suc]
  u_run.simps(2) [of _ 0, folded One_nat_def]

definition u_stuck :: "(u64 \<Rightarrow> Statics \<Rightarrow> prog) \<Rightarrow> Machine \<Rightarrow> bool" where
  "u_stuck code M \<longleftrightarrow> (\<exists>A t. a_schedule (ma_kernel M) = (A, Some t) \<and> (\<forall>c k. ma_task M t \<noteq> Blocked c k) \<and> u_resume code (ma_statics M) (ma_task M t) = Undefined)"

lemma u_run_add: "u_run code (m + n) out M = (case u_run code m out M of None \<Rightarrow> None | Some (out, M) \<Rightarrow> u_run code n out M)"
  by (induction m arbitrary: out M) (auto split: option.splits)

lemma u_run_out: "u_run code n out M = map_option (apfst ((@) out)) (u_run code n [] M)"
proof (induction n arbitrary: out M)
  case (Suc n)
  show ?case
    by (subst (1 2) u_run.simps(2), simp split: option.split add: Suc [of "out @ _"] Suc [of "map _ _"] option.map_comp)
      (auto simp: comp_def apfst_def map_prod_def split: prod.splits intro!: option.map_cong)
qed (simp add: apfst_def)

lemma u_run_then:
  assumes "u_run code m [] M = Some (out, M1)" and "u_run code n [] M1 = Some (out', M2)"
  shows "u_run code (m + n) [] M = Some (out @ out', M2)"
  using assms by (simp add: u_run_add u_run_out [of code n out])

lemma u_run_take:
  assumes "u_run code n [] M = Some (out, M')" and "m \<le> n"
  shows "\<exists>out1 M1. u_run code m [] M = Some (out1, M1) \<and> prefix out1 out"
proof -
  have "u_run code (m + (n - m)) [] M = Some (out, M')" using assms by simp
  then obtain out1 M1 where m: "u_run code m [] M = Some (out1, M1)" "u_run code (n - m) out1 M1 = Some (out, M')"
    by (auto simp: u_run_add split: option.splits)
  then have "prefix out1 out" by (auto simp: u_run_out [of _ _ out1])
  with m(1) show ?thesis by blast
qed

subsection \<open>Runs on the kernel\<close>

lemma u_run_rounds: "u_run code n out M = map_option (\<lambda>(rs, M). (out @ all_lines rs, M)) (u_rounds code n M)"
proof (induction n arbitrary: out M)
  case (Suc n)
  show ?case
    by (auto simp: Suc all_lines_def option.map_comp comp_def split: option.split prod.split intro!: option.map_cong)
qed (simp add: all_lines_def)

lemma run_machine:
  assumes "user_run code S Us n out S' Us'" and "machine_rel Us (sy_kernel S) M" and "sy_irq S 97 = Some Handle_timer_1"
    and "u_run code n [] M = Some (out', M')"
  shows "out = out' \<and> machine_rel Us' (sy_kernel S') M'"
proof -
  from assms(4) obtain rs where "u_rounds code n M = Some (rs, M')" "out' = all_lines rs" by (auto simp: u_run_rounds)
  with run_refined [OF assms(1-3)] show ?thesis by blast
qed

lemma stuck_no_play:
  assumes rel: "machine_rel Us (sy_kernel S) M" and stuck: "u_stuck code M"
  shows "\<not> plays code S Us tr t ls Us'"
proof
  assume play: "plays code S Us tr t ls Us'"
  let ?A = "ma_kernel M"
  from rel have A: "krel (sy_kernel S) ?A" "ainv ?A" "us_statics Us = ma_statics M" by (simp_all add: machine_rel_def users_ok_def)
  from stuck obtain B u where B: "a_schedule ?A = (B, Some u)" "\<forall>c k. ma_task M u \<noteq> Blocked c k"
    "u_resume code (ma_statics M) (ma_task M u) = Undefined" by (auto simp: u_stuck_def)
  from A(1,2) obtain K where K: "schedule (sy_kernel S) = Inr (K, Some u)" "u \<in> set (a_jobs B)"
    by (cases rule: schedule_cases) (use B schedule_refine [OF A(1,2)] in auto)
  have "task_ok Us (sy_kernel S) M u" using rel K(2) schedule_created [OF B(1)] by (simp add: machine_rel_def)
  from task_ok_frame [OF this, of K] schedule_keeps [OF K(1), of u] have ok: "task_ok Us K M u" by simp
  have "resume code K Us u = Undefined"
  proof (cases "ma_task M u")
    case (Fresh f)
    with ok B(3) A(3) show ?thesis by (simp add: resume_def task_ok_def)
  next
    case (Answered a k)
    with ok obtain c where c: "us_cont Us u = Some (c, k)" "holds_answer K u c a" by (auto simp: task_ok_def)
    have "answer_in (k_tasks K u) (k_mem K) c = a" using c(2) by (simp add: holds_answer_def)
    with c(1) B(3) A(3) Answered show ?thesis by (simp add: resume_def)
  qed (use B(2) in simp)
  with play K(1) show False by (auto simp: plays_def)
qed

lemma user_run_take:
  assumes "user_run code S Us n out S' Us'" and "m \<le> n"
  shows "\<exists>out1 S1 Us1. user_run code S Us m out1 S1 Us1 \<and> prefix out1 out
    \<and> (m < n \<longrightarrow> (\<exists>tr t ls Us2. plays code S1 Us1 tr t ls Us2))"
  using assms
proof (induction n arbitrary: out S' Us')
  case 0
  then show ?case by auto
next
  case (Suc n)
  from Suc.prems(1) obtain out1 S1 Us1 tr t ls where r: "user_run code S Us n out1 S1 Us1" "plays code S1 Us1 tr t ls Us'"
    "out = out1 @ map (Pair t) ls" by (auto elim: user_run_Suc)
  consider "m = Suc n" | "m = n" | "m < n" using Suc.prems(2) by linarith
  then show ?case
  proof cases
    case 1
    with Suc.prems(1) show ?thesis by blast
  next
    case 2
    with r show ?thesis by (intro exI [of _ out1] exI [of _ S1] exI [of _ Us1]) auto
  next
    case 3
    with Suc.IH [OF r(1)] r(3) show ?thesis by (fastforce intro: prefix_order.trans)
  qed
qed

text \<open>A run and the rounds of the machine: the shorter one's lines come first in the other's, and no run goes on where the machine is stuck.\<close>

lemma run_compared:
  assumes run: "user_run code S Us n out S' Us'" and rel: "machine_rel Us (sy_kernel S) M" "sy_irq S 97 = Some Handle_timer_1"
    and m: "u_run code m [] M = Some (o1, M1)"
  shows "m \<le> n \<Longrightarrow> prefix o1 out" and "n \<le> m \<Longrightarrow> prefix out o1" and "m < n \<Longrightarrow> \<not> u_stuck code M1"
proof -
  show "prefix o1 out" if "m \<le> n" using user_run_take [OF run that] run_machine [OF _ rel m] by blast
  show "prefix out o1" if "n \<le> m" using u_run_take [OF m that] run_machine [OF run rel] by blast
  show "\<not> u_stuck code M1" if "m < n" using user_run_take [OF run, of m] that run_machine [OF _ rel m] stuck_no_play by fastforce
qed

subsection \<open>Every round of the machine is a round of the kernel\<close>

text \<open>The numbers of the calls in \<^verbatim>\<open>asm_syscall.S\<close>.\<close>

fun handler_code :: "sync_handler \<Rightarrow> nat" where
  "handler_code H_create = 1"
| "handler_code H_yield = 2"
| "handler_code H_exit = 3"
| "handler_code H_tid = 11"
| "handler_code H_parent_tid = 12"
| "handler_code H_send = 21"
| "handler_code H_receive = 22"
| "handler_code H_reply = 23"
| "handler_code H_await_event = 31"

definition ready_for_ticks :: "nat \<Rightarrow> System \<Rightarrow> bool" where
  "ready_for_ticks k S \<longleftrightarrow> (\<forall>h. sy_sync S (handler_code h) = Some h)
     \<and> ck_interval (sc_clocks (sy_clocks S) 1) = 10000
     \<and> unat (ck_next_tick_time (sc_clocks (sy_clocks S) 1)) + 10000 * (k + 1) < 2 ^ 64"

text \<open>The trap of a call: the message and the buffer for the answer lie at the start of the stack block.\<close>

fun call_message :: "call \<Rightarrow> bytes" where
  "call_message (Send to msg room) = msg"
| "call_message (Reply to msg) = msg"
| "call_message c = []"

fun call_registers :: "u64 \<Rightarrow> call \<Rightarrow> nat \<Rightarrow> u64" where
  "call_registers b (Create p f) = (\<lambda>_. 0)(0 := ucast p, 1 := f)"
| "call_registers b (Send to msg room) = (\<lambda>_. 0)(0 := ucast to, 1 := b, 2 := word_of_nat (length msg), 3 := b + word_of_nat (length msg), 4 := word_of_nat room)"
| "call_registers b (Receive room) = (\<lambda>_. 0)(0 := b, 1 := b + 4, 2 := word_of_nat room)"
| "call_registers b (Reply to msg) = (\<lambda>_. 0)(0 := ucast to, 1 := b, 2 := word_of_nat (length msg))"
| "call_registers b (AwaitEvent e) = (\<lambda>_. 0)(0 := ucast e)"
| "call_registers b c = (\<lambda>_. 0)"

definition call_memory :: "mem \<Rightarrow> u64 \<Rightarrow> bytes \<Rightarrow> mem" where
  "call_memory m b msg = (\<lambda>a. if in_region a b (length msg) then msg ! unat (a - b) else m a)"

definition call_trap :: "System \<Rightarrow> mem \<Rightarrow> u64 \<Rightarrow> call \<Rightarrow> Trap" where
  "call_trap S m b c =
     (let next = ck_next_tick_time (sc_clocks (sy_clocks S) 1)
      in \<lparr>tr_exc = (if c = Standby then IRQ else SYNCHRONOUS_EXCEPTION), tr_esr = 0x54000000 + word_of_nat (handler_code (call_handler c)),
          tr_intid = 97, tr_chi = ucast (drop_bit 32 next), tr_clo = ucast next, tr_x = call_registers b c, tr_sp = b, tr_spsr = 0,
          tr_pc = 0, tr_mem = call_memory m b (call_message c)\<rparr>)"

lemma offset_at:
  fixes x b :: u64
  assumes "unat (x - (b + word_of_nat k)) + k < 2 ^ 64"
  shows "unat (x - b) = unat (x - (b + word_of_nat k)) + k"
proof -
  let ?y = "x - (b + word_of_nat k)"
  have "x - b = word_of_nat (unat ?y + k)" by simp
  then show ?thesis using assms by (simp only: unat_of_nat_small64)
qed

lemma lies_in_block:
  assumes "k + n \<le> MEMORY_BLOCK_SIZE"
  shows "lies_in (b + word_of_nat k) n {a. in_region a b MEMORY_BLOCK_SIZE}"
  unfolding lies_in_def in_region_def mem_Collect_eq
proof (intro allI impI)
  fix x assume x: "unat (x - (b + word_of_nat k)) < n"
  then have "unat (x - (b + word_of_nat k)) + k < 2 ^ 64" using assms by (simp add: MEMORY_BLOCK_SIZE_def)
  then show "unat (x - b) < MEMORY_BLOCK_SIZE" using offset_at [of x b k] x assms by simp
qed

lemma after_disjoint:
  assumes "k + n \<le> MEMORY_BLOCK_SIZE"
  shows "regions_disjoint b k (b + word_of_nat k) n"
  unfolding regions_disjoint_def in_region_def
proof (intro allI notI, elim conjE)
  fix x assume x: "unat (x - b) < k" "unat (x - (b + word_of_nat k)) < n"
  then have "unat (x - (b + word_of_nat k)) + k < 2 ^ 64" using assms by (simp add: MEMORY_BLOCK_SIZE_def)
  then show False using offset_at [of x b k] x(1) by simp
qed

lemma read_call_memory: "length msg < 2 ^ 64 \<Longrightarrow> read_bytes (call_memory m b msg) b (length msg) = msg"
  by (rule nth_equalityI) (simp_all add: read_bytes_def call_memory_def in_region_def unat_of_nat_small64)

lemma call_held:
  assumes fit: "fits c" and R: "{a. in_region a b MEMORY_BLOCK_SIZE} \<subseteq> R"
  shows "holds_call (call_registers b c) (call_memory m b (call_message c)) R c"
proof -
  have lie: "lies_in (b + word_of_nat k) n R" if "k + n \<le> MEMORY_BLOCK_SIZE" for k n
    using lies_in_block [OF that, of b] R by (auto simp: lies_in_def)
  note lie0 = lie [of 0, simplified]
  have u: "(ucast (word_of_nat n :: u64) :: i32) = word_of_nat n" for n
    by (rule bit_word_eqI) (simp add: bit_simps)
  have wide: "(ucast (ucast w :: u64) :: i32) = w" for w :: i32
    by (rule bit_word_eqI) (simp add: bit_simps)
  show ?thesis
  proof (cases c)
    case (Create p f)
    then show ?thesis by (simp add: wide)
  next
    case (Send to msg room)
    with fit have n: "length msg + room \<le> MEMORY_BLOCK_SIZE" by simp
    with Send lie0 [of "length msg"] lie [OF n] read_call_memory [of msg m b] show ?thesis
      by (simp add: u wide MEMORY_BLOCK_SIZE_def)
  next
    case (Receive room)
    with fit have n: "4 + room \<le> MEMORY_BLOCK_SIZE" by simp
    with Receive lie0 [of 4] lie [OF n] after_disjoint [OF n, of b] show ?thesis by (simp add: u wide MEMORY_BLOCK_SIZE_def)
  next
    case (Reply to msg)
    with fit have n: "length msg \<le> MEMORY_BLOCK_SIZE" by simp
    with Reply lie0 [OF n] read_call_memory [of msg m b] show ?thesis by (simp add: u wide MEMORY_BLOCK_SIZE_def)
  qed (simp_all add: wide)
qed

lemma full_count_join: "sys_timer_full_count (ucast (drop_bit 32 w)) (ucast w) = w"
proof -
  have "sys_timer_full_count (ucast (drop_bit 32 w)) (ucast w)
    = or (ucast (ucast w :: u32)) (push_bit 32 (ucast (ucast (drop_bit 32 w) :: u32)))"
    unfolding sys_timer_full_count_def
    by (subst add.commute, rule disjunctive_add) (auto simp: bit_simps)
  then show ?thesis by (simp add: join_words)
qed

lemma call_made:
  assumes "ready_for_ticks k S"
  shows "makes_call S (call_trap S m b c) c"
proof (cases "c = Standby")
  case True
  have "ck_next_tick_time (sc_clocks (sy_clocks S) 1) < ck_next_tick_time (sc_clocks (sy_clocks S) 1) + 10000"
    using assms by (simp add: ready_for_ticks_def word_less_nat_alt unat_word_ariths)
  with True assms show ?thesis
    by (simp add: makes_call_def tick_ok_def call_trap_def Let_def full_count_join ready_for_ticks_def)
next
  case False
  let ?h = "call_handler c"
  have "(ucast (drop_bit 26 (0x54000000 + word_of_nat (handler_code ?h) :: u64)) :: u8) = SVC_CLASS
      \<and> unat (ucast (0x54000000 + word_of_nat (handler_code ?h) :: u64) :: u16) = handler_code ?h"
    by (cases ?h) (simp_all add: SVC_CLASS_def)
  with False assms show ?thesis
    by (simp add: makes_call_def svc_call_def call_trap_def Let_def ready_for_ticks_def)
qed

text \<open>A round of the kernel changes the clock by a tick, if at all, and no handler.\<close>

lemma round_keeps_ready:
  assumes step: "kmain_step S tr = Inr (S', going)" and ready: "ready_for_ticks (Suc k) S" and ok: "tr_exc tr = IRQ \<longrightarrow> tr_intid tr = 97"
    and irq: "sy_irq S 97 = Some Handle_timer_1"
  shows "ready_for_ticks k S'"
proof -
  from step obtain K1 r where s: "schedule (sy_kernel S) = Inr (K1, r)" by (auto simp: kmain_step_def bindE_eq_Inr_iff)
  have frame: "sy_clocks S' = sy_clocks S \<or> sys_clock_notify_tick (sy_clocks S) 1 (tr_chi tr) (tr_clo tr) = Inr (sy_clocks S')"
    and sync: "sy_sync S' = sy_sync S"
  proof (atomize (full), cases r)
    case None
    with step s show "(sy_clocks S' = sy_clocks S \<or> sys_clock_notify_tick (sy_clocks S) 1 (tr_chi tr) (tr_clo tr) = Inr (sy_clocks S'))
      \<and> sy_sync S' = sy_sync S" by (auto simp: kmain_step_def)
  next
    case (Some t)
    with step s obtain K2 where "handle_current_exception (S\<lparr>sy_kernel := K2\<rparr>) tr = Inr S'"
      by (auto simp: kmain_step_def on_kernel_def bindE_eq_Inr_iff)
    then show "(sy_clocks S' = sy_clocks S \<or> sys_clock_notify_tick (sy_clocks S) 1 (tr_chi tr) (tr_clo tr) = Inr (sy_clocks S'))
      \<and> sy_sync S' = sy_sync S"
      using ok irq
      by (cases "tr_exc tr") (auto simp: handle_current_exception_def handle_synchronous_exception_def handle_irq_def on_kernel_def
          Let_def bindE_eq_Inr_iff bindE_assertE split: if_splits)
  qed
  from frame show ?thesis
  proof
    assume "sy_clocks S' = sy_clocks S"
    with sync ready show ?thesis by (simp add: ready_for_ticks_def)
  next
    assume C: "sys_clock_notify_tick (sy_clocks S) 1 (tr_chi tr) (tr_clo tr) = Inr (sy_clocks S')"
    have "unat (ck_next_tick_time (sc_clocks (sy_clocks S) 1) + 10000) = unat (ck_next_tick_time (sc_clocks (sy_clocks S) 1)) + 10000"
      using ready by (simp add: ready_for_ticks_def unat_word_ariths)
    with ready notify_tick_effect(1,2) [OF C] sync show ?thesis by (simp add: ready_for_ticks_def)
  qed
qed

lemma conforming_trap:
  assumes rel: "machine_rel Us (sy_kernel S) M" and ready: "ready_for_ticks k S" and round: "u_round code M = Some (t, out, M')"
  shows "\<exists>m b c Us'. plays code S Us (call_trap S m b c) t out Us'"
proof -
  let ?A = "ma_kernel M"
  from rel have A: "krel (sy_kernel S) ?A" "ainv ?A" "us_statics Us = ma_statics M" by (simp_all add: machine_rel_def users_ok_def)
  from round obtain B g c k where B: "a_schedule ?A = (B, Some t)" and prog: "u_resume code (ma_statics M) (ma_task M t) = Call out g c k"
    and fit: "fits c" by (auto simp: u_round_def split: prod.splits option.splits prog.splits if_splits)
  from A(1,2) obtain K where K: "schedule (sy_kernel S) = Inr (K, Some t)" "krel K B" "t \<in> set (a_jobs B)" "ainv (a_run B t)" "a_state B t = READY"
    by (cases rule: schedule_cases) (use B schedule_refine [OF A(1,2)] in auto)
  have "task_ok Us (sy_kernel S) M t" using rel K(3) schedule_created [OF B] by (simp add: machine_rel_def)
  from task_ok_frame [OF this, of K] schedule_keeps [OF K(1), of t] have ok: "task_ok Us K M t" by simp
  have res: "resume code K Us t = Call out g c k" by (rule resume_machine [OF ok A(3) prog])
  from K(2,3) obtain i where i: "t_memory_block (k_tasks K t) = Some i" by (auto simp: krel_def blocks_rel_def)
  let ?b = "block_addr (k_memory K) i"
  have area: "stack_area K t = {a. in_region a ?b MEMORY_BLOCK_SIZE}" by (simp add: stack_area_def i)
  let ?m = "k_mem K"
  have hold: "holds_call (call_registers ?b c) (call_memory ?m ?b (call_message c)) (stack_area K t) c"
    using call_held [OF fit] area by blast
  have jobs: "jobs_ok B" using K(4,5) by (auto simp: ainv_def jobs_ok_def a_run_def a_set_state_def split: if_splits)
  have safe: "\<forall>u a. live K u \<and> u \<noteq> t \<and> a \<in> stack_area K u \<longrightarrow> call_memory ?m ?b (call_message c) a = ?m a"
  proof (intro allI impI, elim conjE)
    fix u a assume u: "live K u" "u \<noteq> t" "a \<in> stack_area K u"
    have "u \<in> set (a_jobs B)" using u(1) live_iff [OF K(2) jobs] by simp
    then have "a \<notin> stack_area K t" using areas_disjoint [OF K(2) _ K(3) u(2)] u(3) by blast
    moreover have "length (call_message c) \<le> MEMORY_BLOCK_SIZE" using fit by (cases c) simp_all
    ultimately show "call_memory ?m ?b (call_message c) a = ?m a" by (auto simp: call_memory_def area in_region_def)
  qed
  have "plays code S Us (call_trap S ?m ?b c) t out \<lparr>us_statics = g, us_cont = (us_cont Us)(t := Some (c, k))\<rparr>"
    unfolding plays_def using K(1) res call_made [OF ready, of ?m ?b c] hold safe
    by (intro exI [of _ K] exI [of _ g] exI [of _ c] exI [of _ k] conjI) (simp_all add: call_trap_def Let_def)
  then show ?thesis by blast
qed

text \<open>While the machine makes rounds, the kernel can make them.\<close>

lemma run_exists:
  assumes "machine_rel Us (sy_kernel S) M" and "sy_irq S 97 = Some Handle_timer_1" and "ready_for_ticks (n + k) S"
    and "u_run code n [] M = Some (out, M')"
  shows "\<exists>S' Us'. user_run code S Us n out S' Us' \<and> ready_for_ticks k S'"
  using assms(3,4)
proof (induction n arbitrary: k out M')
  case 0
  then show ?case by (auto intro: run_start)
next
  case (Suc n)
  from Suc.prems(2) have "u_run code (n + Suc 0) [] M = Some (out, M')" by simp
  then obtain out1 M1 t ls where m: "u_run code n [] M = Some (out1, M1)" "u_round code M1 = Some (t, ls, M')" "out = out1 @ map (Pair t) ls"
    unfolding u_run_add by (auto split: option.splits)
  from Suc.IH [of "Suc k", OF _ m(1)] Suc.prems(1) obtain S1 Us1 where
    r: "user_run code S Us n out1 S1 Us1" "ready_for_ticks (Suc k) S1" by auto
  have rel: "machine_rel Us1 (sy_kernel S1) M1" using run_machine [OF r(1) assms(1,2) m(1)] by simp
  from m(1) obtain rs where "u_rounds code n M = Some (rs, M1)" by (auto simp: u_run_rounds)
  with run_refined [OF r(1) assms(1,2)] have irq: "sy_irq S1 97 = Some Handle_timer_1" by simp
  from conforming_trap [OF rel r(2) m(2)] obtain mm b c Us2 where p: "plays code S1 Us1 (call_trap S1 mm b c) t ls Us2" by blast
  from round_refined [OF rel irq m(2) p] obtain S2 where s: "kmain_step S1 (call_trap S1 mm b c) = Inr (S2, True)" by blast
  have "ready_for_ticks k S2" by (rule round_keeps_ready [OF s r(2) _ irq]) (simp add: call_trap_def Let_def)
  with run_round [OF r(1) p s] m(3) show ?case by blast
qed

end
