(* ===== verification/Machine_Boot.thy ===== *)
theory Machine_Boot
  imports Machine_Runs
begin

text \<open>
  The machine that the booted kernel implements: two tasks that have not run.
\<close>

subsection \<open>Functions that are given by a list\<close>

text \<open>Functions that are given by a list of their first values.\<close>

definition fl :: "'a \<Rightarrow> 'a list \<Rightarrow> nat \<Rightarrow> 'a" where
  "fl d xs n = (if n < length xs then xs ! n else d)"

lemma fl_upd: "n < length xs \<Longrightarrow> (fl d xs)(n := v) = fl d (xs[n := v])"
  by (auto simp: fl_def fun_eq_iff)

lemma fl_nth: "fl d (x # xs) 0 = x" "fl d (x # xs) 1 = fl d xs 0" "fl d (x # xs) (numeral n) = fl d xs (pred_numeral n)"
  by (simp_all add: fl_def numeral_eq_Suc)

lemma list_update_at: "(x # xs)[0 := v] = v # xs" "(x # xs)[1 := v] = x # xs[0 := v]"
  "(x # xs)[numeral n := v] = x # xs[pred_numeral n := v]"
  by (simp_all add: numeral_eq_Suc)

subsection \<open>Booting\<close>

definition boot_kernel :: AKernel where
  "boot_kernel = \<lparr>a_jobs = [0, 1], a_ready = fl [] [[1], [], [], [], [], [0], [], [], [], []], a_irq = (\<lambda>_ _. []),
     a_state = fl INITIALIZED ([READY, READY, INITIALIZED, INITIALIZED, INITIALIZED, INITIALIZED, INITIALIZED, INITIALIZED, INITIALIZED]), a_prio = fl 0 [5, 0, 0, 0, 0, 0, 0, 0, 0],
     a_senders = fl [] [[], [], [], [], [], [], [], [], []], a_current = None, a_created = 2\<rparr>"

definition boot_machine :: "u64 \<Rightarrow> u64 \<Rightarrow> Machine" where
  "boot_machine initial_task idle_task = \<lparr>ma_kernel = boot_kernel,
     ma_statics = \<lparr>st_name_server_tid = 0, st_msg_len = 0, st_receiver_id = 0\<rparr>,
     ma_task = fl (Fresh 0) [Fresh initial_task, Fresh idle_task, Fresh 0, Fresh 0, Fresh 0, Fresh 0, Fresh 0, Fresh 0, Fresh 0],
     ma_parent = fl 0 [- 1, - 1, 0, 0, 0, 0, 0, 0, 0], ma_passed = fl None [None, None, None, None, None, None, None, None, None]\<rparr>"

definition zero_statics :: Statics where
  "zero_statics = \<lparr>st_name_server_tid = 0, st_msg_len = 0, st_receiver_id = 0\<rparr>"

definition start_users :: Users where
  "start_users = \<lparr>us_statics = zero_statics, us_cont = (\<lambda>_. None)\<rparr>"

lemma const_fl: "(\<lambda>_. d) = fl d (replicate k d)"
  by (auto simp: fl_def)

lemma boot_kernel_created: "fst (a_create (fst (a_create a_init 5)) 0) = boot_kernel"
proof -
  have r: "replicate 9 d = [d, d, d, d, d, d, d, d, d]" "replicate 10 d = [d, d, d, d, d, d, d, d, d, d]" for d
    by (simp_all add: numeral_eq_Suc)
  have i: "a_init = \<lparr>a_jobs = [], a_ready = fl [] (replicate 10 []), a_irq = (\<lambda>_ _. []), a_state = fl INITIALIZED (replicate 9 INITIALIZED),
      a_prio = fl 0 (replicate 9 0), a_senders = fl [] (replicate 9 []), a_current = None, a_created = 0\<rparr>"
    unfolding a_init_def const_fl [symmetric] ..
  show ?thesis
    by (simp add: i r a_create_def a_make_ready_def a_set_state_def Let_def MAX_TASK_NUM_def boot_kernel_def
       fl_upd fl_nth list_update_at del: One_nat_def list_update.simps(2))
qed

lemma boot_machine_rel:
  assumes rel: "krel K a_init" and tasks: "init_tasks K u i = Inr K'"
  shows "machine_rel start_users K' (boot_machine u i)"
proof -
  let ?A1 = "fst (a_create a_init 5)"
  have p: "priority_index (clamp_priority INITIAL_PRIORITY) = 5" "priority_index (clamp_priority TASK_PRIORITY_MIN) = 0"
    by (simp_all add: clamp_priority_def INITIAL_PRIORITY_def TASK_PRIORITY_MIN_def TASK_PRIORITY_MAX_def
        priority_index_def)
  have a1: "ainv ?A1" by (rule create_inv [OF ainv_init]) (simp add: TASK_PRIORITY_MAX_def)
  have a2: "ainv boot_kernel" using create_inv [OF a1, of 0] boot_kernel_created by (simp add: TASK_PRIORITY_MAX_def)
  have c0: "a_created a_init = 0" "a_created ?A1 = 1"
    using a_create_spawn [of a_init 5] by (simp_all add: a_init_def MAX_TASK_NUM_def)
  have c: "snd (a_create a_init 5) = Some 0" "snd (a_create ?A1 0) = Some 1"
    using a_create_spawn [of a_init 5] a_create_spawn [of ?A1 0] c0 by (simp_all add: MAX_TASK_NUM_def)
  from create_task_refine [OF rel ainv_init, of INITIAL_PRIORITY u "- 1"] p c obtain K1 where
    k1: "create_task K INITIAL_PRIORITY u (- 1) = Inr (K1, Some 0)" "krel K1 ?A1" by auto
  from create_task_refine [OF k1(2) a1, of TASK_PRIORITY_MIN i "- 1"] p c obtain K2 where
    k2: "create_task K1 TASK_PRIORITY_MIN i (- 1) = Inr (K2, Some 1)" "krel K2 boot_kernel" by (auto simp: boot_kernel_created)
  have K': "K' = K2" using tasks by (simp add: init_tasks_def k1 k2)
  have "k_task_pool_ptr K1 = Some 1" using k1(2) c0 by (simp add: krel_def free_rel_def MAX_TASK_NUM_def)
  then have "own_part (k_tasks K2 0) = own_part (k_tasks K1 0)" using create_task_keeps [OF k2(1), of 0] by (simp add: keeps_def)
  from own_part_fields [OF this] create_task_new [OF k1(1)] create_task_new [OF k2(1)] have new:
    "t_pc (k_tasks K2 0) = u" "t_pc (k_tasks K2 1) = i" "\<not> t_should_pass_result (k_tasks K2 0)" "\<not> t_should_pass_result (k_tasks K2 1)"
    "t_parent_tid (k_tasks K2 0) = - 1" "t_parent_tid (k_tasks K2 1) = - 1" by simp_all
  show ?thesis
    unfolding K'
  proof (rule machine_relI)
    fix v assume "v \<in> set (a_jobs (ma_kernel (boot_machine u i)))"
    then have "v = 0 \<or> v = 1" by (simp add: boot_machine_def boot_kernel_def)
    then show "task_ok start_users K2 (boot_machine u i) v"
      using new by (elim disjE) (simp_all add: task_ok_def passed_ok_def boot_machine_def fl_nth start_users_def del: One_nat_def)
  qed (use k2 a2 in \<open>simp_all add: boot_machine_def users_ok_def start_users_def zero_statics_def\<close>)
qed

lemma booted_machine:
  assumes fresh: "fresh_system S" and boot: "boot S chi clo u i = Inr S0"
  shows "machine_rel start_users (sy_kernel S0) (boot_machine u i) \<and> sy_irq S0 97 = Some Handle_timer_1
    \<and> sy_sync S0 = sy_sync (init_exception_handlers S)
    \<and> ck_next_tick_time (sc_clocks (sy_clocks S0) 1) = sys_timer_full_count chi clo + 10000
    \<and> ck_interval (sc_clocks (sy_clocks S0) 1) = 10000"
proof -
  from init_kernel_ok [OF fresh, of chi clo] obtain S1 where s1: "init_kernel S chi clo = Inr S1" "krel (sy_kernel S1) a_init"
    "sy_irq S1 97 = Some Handle_timer_1" "ck_next_tick_time (sc_clocks (sy_clocks S1) 1) = sys_timer_full_count chi clo + 10000"
    "ck_interval (sc_clocks (sy_clocks S1) 1) = 10000" "sy_sync S1 = sy_sync (init_exception_handlers S)" by blast
  from init_tasks_ok [OF s1(2), of u i] obtain K where k: "init_tasks (sy_kernel S1) u i = Inr K" by blast
  have "S0 = S1\<lparr>sy_kernel := K\<rparr>" using boot by (simp add: boot_def s1(1) on_kernel_def k)
  with boot_machine_rel [OF s1(2) k] s1 show ?thesis by simp
qed

lemma booted_ready:
  assumes "fresh_system S" and "boot S chi clo u i = Inr S0" and "unat (sys_timer_full_count chi clo) < 2 ^ 63" and "k < 2 ^ 32"
  shows "ready_for_ticks k S0"
proof -
  note b = booted_machine [OF assms(1,2)]
  have "sy_sync S0 (handler_code h) = Some h" for h
    using b by (cases h) (simp_all add: init_exception_handlers_def)
  moreover have "unat (sys_timer_full_count chi clo + 10000) = unat (sys_timer_full_count chi clo) + 10000"
    using assms(3) by (simp add: unat_word_ariths)
  ultimately show ?thesis using b assms(3,4) by (simp add: ready_for_ticks_def)
qed

lemma run_prints:
  assumes fresh: "fresh_system S" and boot: "boot S chi clo u i = Inr S0" and run: "user_run code S0 start_users n out S' Us'"
    and m: "u_run code m [] (boot_machine u i) = Some (ls, M)" and n: "m \<le> n"
  shows "prefix ls out"
  by (rule run_compared(1) [OF run _ _ m n]) (use booted_machine [OF fresh boot] in blast)+

lemma run_there:
  assumes fresh: "fresh_system S" and boot: "boot S chi clo u i = Inr S0" and time: "unat (sys_timer_full_count chi clo) < 2 ^ 63"
    and m: "u_run code m [] (boot_machine u i) = Some (ls, M)" and small: "m < 2 ^ 32"
  shows "\<exists>S' Us'. user_run code S0 start_users m ls S' Us'"
  using run_exists [of start_users S0 "boot_machine u i" m 0 code ls M] booted_machine [OF fresh boot]
    booted_ready [OF fresh boot time, of "m + 0"] m small by auto

end
