(* ===== verification/Machine_Execution.thy ===== *)
theory Machine_Execution
  imports Server_Steps Machine_Boot
begin

text \<open>
  Executing programs on the abstract machine by simplification: the loops of the programs one call at a time, and
  the bundles of facts that carry a round.
\<close>

subsection \<open>Programs, one call at a time\<close>

text \<open>What a program does after a call is left as it is until its answer is there.\<close>

lemma Call_cong: "out = out' \<Longrightarrow> Call out g c k = Call out' g c k" by simp
lemma Blocked_cong: "Blocked c k = Blocked c k" by simp
lemma Answered_cong: "a = a' \<Longrightarrow> Answered a k = Answered a' k" by simp
lemma RegisterAs_cong: "RegisterAs_prog I a k g = RegisterAs_prog I a k g" by simp
lemma WhoIs_cong: "WhoIs_prog I a k g = WhoIs_prog I a k g" by simp

lemma service_order_10:
  "service_order TASK_PRIORITY_MAX C = C 9 @ C 8 @ C 7 @ C 6 @ C 5 @ C 4 @ C 3 @ C 2 @ C 1 @ C 0"
  by (simp add: TASK_PRIORITY_MAX_def numeral_eq_Suc)

lemma priority_levels: "priority_index (clamp_priority 5) = 5" "priority_index (clamp_priority 6) = 6"
  "priority_index (clamp_priority 4) = 4" "priority_index (clamp_priority 3) = 3"
  by (simp_all add: clamp_priority_def TASK_PRIORITY_MIN_def TASK_PRIORITY_MAX_def priority_index_def)

lemmas serve_clients = k3_serve_clients.simps(1)
  k3_serve_clients.simps(2) [of _ "pred_numeral k" for k, folded numeral_eq_Suc]
  k3_serve_clients.simps(2) [of _ 0, folded One_nat_def]

lemmas u_rounds_numeral = u_rounds.simps(2) [of _ "pred_numeral k" for k, folded numeral_eq_Suc]
  u_rounds.simps(2) [of _ 0, folded One_nat_def]

text \<open>The loops, one call at a time.\<close>

lemma serve_prog_step:
  "serve_prog n step None g = Call [] g Exit (\<lambda>_ _. Undefined)"
  "serve_prog n step (Some (Inl e)) g = Undefined"
  "serve_prog n step (Some (Inr (S, out, []))) g = Call out g (Receive n)
     (\<lambda>a. serve_prog n step (if an_result a = 0 then None
        else if length (an_bytes a) = n then Some (step S (an_tid a) (an_bytes a)) else Some (Inl OutOfBounds)))"
  "serve_prog n step (Some (Inr (S, out, (t, msg) # rs))) g = Call out g (Reply t msg) (\<lambda>_. serve_prog n step (Some (Inr (S, [], rs))))"
  by (simp_all add: serve_prog.code cong del: if_weak_cong)

lemma clock_tick_loop_step:
  "\<not> sint (an_result a) < 0 \<Longrightarrow> clock_tick_loop tid msg True a g
     = Call [] g (Send tid msg CLOCK_MSG) (\<lambda>b. clock_tick_loop tid (overlay msg (an_bytes b)) False b)"
  "\<not> sint (an_result a) < 0 \<Longrightarrow> clock_tick_loop tid msg False a g = Call [] g (AwaitEvent 97) (clock_tick_loop tid msg True)"
  by (simp_all add: clock_tick_loop.code)

definition client_line :: "i32 \<Rightarrow> u32 \<Rightarrow> u32 \<Rightarrow> line" where
  "client_line tid delay num = (ln ''task[%d]: (delay: %u, num: %u)'', [A_int tid, A_int delay, A_int num])"

lemma k3_client_loop_step:
  "num \<noteq> 0 \<Longrightarrow> 0 \<le> sint delay \<Longrightarrow> k3_client_loop tid srv delay num g
     = Call [client_line tid delay num] g (Send srv (clock_msg DELAY delay) CLOCK_MSG) (\<lambda>_. k3_client_loop tid srv delay (num - 1))"
  "k3_client_loop tid srv delay 0 g = leave g"
  by (subst k3_client_loop.simps, simp add: Delay_prog_def Let_def client_line_def)+

lemmas programs = k3_first_user_task_def name_server_prog_def serve_prog_step RegisterAs_prog_def WhoIs_prog_def
  clock_server_prog_def clock_server_tick_prog_def clock_tick_loop_step k3_client_def k3_client_loop_step k3_create_clients.simps
  serve_clients NAME_MSG_def CLOCK_MSG_def K3_MSG_def client_priorities_def client_delays_def client_nums_def
  leave_def k3_row_def

lemmas machine = u_round_def fits.simps MEMORY_BLOCK_SIZE_def a_schedule_def a_requeue_def a_order_def service_order_10 a_take_def a_make_ready_def
  a_set_state_def a_run_def Let_def u_create_def finish_def complete_def block_def set_kernel_def a_create_def MAX_TASK_NUM_def
  priority_levels u_send_def u_receive_def u_reply_def u_await_def u_tick_def a_send_def a_receive_def a_reply_def
  a_await_def a_wake_def a_exit_def a_find_def MAX_SENDER_CAPACITY_def fl_upd fl_nth list_update_at

text \<open>The text of a line.\<close>

definition line_text :: "line \<Rightarrow> bytes res" where
  "line_text l = vs_text (ascii (fst l)) (snd l)"

end
