(* ===== verification/Program_Start.thy ===== *)
theory Program_Start
  imports Machine_Execution
begin

text \<open>
  The start of the configured program on the abstract machine, from the first round of the first task to the
  first round of the idle task: the servers, the clients and the notifier make their calls, and each ends up
  waiting.  The 62 rounds are executed by the simplifier.
\<close>

definition name_server_waits :: "Image \<Rightarrow> NameServer \<Rightarrow> utask" where
  "name_server_waits I S = Blocked (Receive 24) (\<lambda>a. serve_prog 24 (name_step I)
     (if an_result a = 0 then None else if length (an_bytes a) = 24 then Some (name_step I S (an_tid a) (an_bytes a)) else Some (Inl OutOfBounds)))"

definition clock_server_waits :: "ClockServer \<Rightarrow> utask" where
  "clock_server_waits S = Blocked (Receive 8) (\<lambda>a. serve_prog 8 clock_step
     (if an_result a = 0 then None else if length (an_bytes a) = 8 then Some (clock_step S (an_tid a) (an_bytes a)) else Some (Inl OutOfBounds)))"

definition notifier_waits :: "u32 \<Rightarrow> utask" where
  "notifier_waits v = Blocked (AwaitEvent 97) (clock_tick_loop 3 (clock_msg TICK v) True)"

definition client_waits :: "i32 \<Rightarrow> u32 \<Rightarrow> u32 \<Rightarrow> utask" where
  "client_waits tid delay num = Blocked (Send 3 (clock_msg DELAY delay) 8) (\<lambda>_. k3_client_loop tid 3 delay num)"

definition point :: "task_ptr option \<Rightarrow> task_ptr list \<Rightarrow> TaskState list \<Rightarrow> u64 option list \<Rightarrow> utask list \<Rightarrow> Machine" where
  "point cur jobs states results tasks = \<lparr>ma_kernel = \<lparr>a_jobs = jobs, a_ready = fl [] [[1], [], [], [], [], [], [], [], [], []],
       a_irq = (\<lambda>_ _. [])(97 := (\<lambda>_. [])(5 := [8])),
       a_state = fl INITIALIZED ([RUNNING, READY, WAITRECEIVE, WAITRECEIVE] @ states @ [AWATIEVENT]),
       a_prio = fl 0 [5, 0, 5, 5, 6, 5, 4, 3, 5], a_senders = fl [] [[], [], [], [], [], [], [], [], []], a_current = cur, a_created = 9\<rparr>,
     ma_statics = \<lparr>st_name_server_tid = 2, st_msg_len = 0, st_receiver_id = 0\<rparr>,
     ma_task = fl (Fresh 0) tasks, ma_parent = fl 0 [- 1, - 1, 0, 0, 0, 0, 0, 0, 3],
     ma_passed = fl None ([Some 8, None, Some 24, Some 8] @ results)\<rparr>"

definition clock_line :: line where
  "clock_line = (ln ''clock_server successfully registered in name_server'', [])"

lemma start:
  fixes I :: Image and code :: "u64 \<Rightarrow> Statics \<Rightarrow> prog"
  assumes code: "code u = k3_first_user_task I" "code (im_name_server I) = name_server_prog I"
    "code (im_clock_server I) = clock_server_prog I" "code (im_clock_server_tick I) = clock_server_tick_prog I"
    "code (im_k3_client I) = k3_client I"
  assumes names: "name_server_init (im_names I) 2 = Inr N0"
    "name_step I N0 3 (name_msg I ''RegisterAs'' REGISTER_AS (im_clock_name I) 3)
       = Inr (N1, [], [(3, put32 16 3 (name_msg I ''RegisterAs'' REGISTER_AS (im_clock_name I) 3))])"
    "\<And>t. name_step I N1 t (name_msg I ''WhoIs'' WHO_IS (im_clock_name_k3 I) t)
       = Inr (N1, [], [(t, put32 16 3 (name_msg I ''WhoIs'' WHO_IS (im_clock_name_k3 I) t))])"
  assumes clock: "clock_step (clock_server_init (im_clock I)) 4 (clock_msg DELAY 10) = Inr (C1, [], [])"
    "clock_step C1 5 (clock_msg DELAY 23) = Inr (C2, [], [])" "clock_step C2 6 (clock_msg DELAY 33) = Inr (C3, [], [])"
    "clock_step C3 7 (clock_msg DELAY 71) = Inr (C4, [], [])"
  shows "u_run code 62 [] (boot_machine u i) = Some (
      [(3, clock_line), (4, client_line 4 10 20), (5, client_line 5 23 9), (6, client_line 6 33 6), (7, client_line 7 71 3)],
      point (Some 3) [1, 2, 3, 4, 5, 6, 7, 8] [WATIREPLY, WATIREPLY, WATIREPLY, WATIREPLY] [Some 24, Some 24, Some 24, Some 24, Some 3]
        [Answered (Answer 8 0 []) (\<lambda>_. k3_serve_clients ((replicate 64 None)[4 := Some 0, 5 := Some 1, 6 := Some 2, 7 := Some 3]) 0),
         Fresh i, name_server_waits I N1, clock_server_waits C4, client_waits 4 10 19, client_waits 5 23 8, client_waits 6 33 5,
         client_waits 7 71 2, notifier_waits (get32 4 (junk I ''clock_server_tick'' 3 8))])"
  by (simp add: u_run_numeral programs machine code names clock boot_machine_def boot_kernel_def
      point_def name_server_waits_def clock_server_waits_def notifier_waits_def client_waits_def clock_line_def
      notifier_msg
      del: One_nat_def list_update.simps(2) u_run.simps(2) k3_serve_clients.simps(2) 
      cong: Call_cong Blocked_cong Answered_cong RegisterAs_cong WhoIs_cong)

end
