(* ===== verification/Program_Ticks.thy ===== *)
theory Program_Ticks
  imports Program_Start "HOL-Library.Multiset"
begin

text \<open>
  A tick of the configured program on the abstract machine: the idle task's standby ends, the notifier tells the clock
  server, and the client that is due, if there is one, goes on to its next delay or leaves.
\<close>

subsection \<open>The idle task\<close>

definition idle_state :: "Image \<Rightarrow> nat \<Rightarrow> (Idle \<times> (i32 \<times> u64) list) res" where
  "idle_state I n = rec_nat (idle_start I) (\<lambda>n r. case r of Inl e \<Rightarrow> Inl e | Inr p \<Rightarrow> idle_again I n (fst p)) n"

lemma idle_loop_step:
  "idle_loop I n (Inl e) g = Undefined"
  "idle_loop I n (Inr (S, rs)) g = Call (map report_line rs) g Standby (\<lambda>_. idle_loop I (Suc n) (idle_again I n S))"
  by (simp_all add: idle_loop.code)

definition idle_waits :: "Image \<Rightarrow> nat \<Rightarrow> Idle \<Rightarrow> utask" where
  "idle_waits I n S = Answered (Answer 0 0 []) (\<lambda>_. idle_loop I (Suc n) (idle_again I n S))"

subsection \<open>The rounds of a tick\<close>

lemmas tick_rounds = u_run_numeral programs machine idle_loop_step idle_waits_def point_def clock_server_waits_def
  notifier_waits_def client_waits_def

lemma length_4: "length xs = 4 \<Longrightarrow> \<exists>a b c d. xs = [a, b, c, d]"
  by (auto simp: length_Suc_conv numeral_eq_Suc)

lemma tick_none:
  assumes idle: "\<And>g. u_resume code g U1 = idle_loop I n (Inr (S, rs)) g"
    and find: "find (\<lambda>t. word_of_nat t = (3::i32)) js = Some 3" "find (\<lambda>t. word_of_nat t = (8::i32)) js = Some 8"
    and cur: "cur = Some 3 \<or> cur = None" and q: "\<not> sint (ucast q :: i32) < 0"
    and len: "length ss = 4" "length ps = 4" "length us = 4"
    and clock: "clock_step C 8 (clock_msg TICK v) = Inr (C', [], [(8, clock_msg TICK v)])"
  shows "u_run code 5 [] (point cur js ss (ps @ [Some q]) ([U0, U1, NS, clock_server_waits C] @ us @ [notifier_waits v]))
    = Some (map (Pair 1) (map report_line rs),
        point (Some 3) js ss (ps @ [Some 8]) ([U0, idle_waits I n S, NS, clock_server_waits C'] @ us @ [notifier_waits v]))"
proof -
  obtain s4 s5 s6 s7 p4 p5 p6 p7 u4 u5 u6 u7 where e: "ss = [s4, s5, s6, s7]" "ps = [p4, p5, p6, p7]" "us = [u4, u5, u6, u7]"
    using len length_4 by metis
  show ?thesis
    using cur by (elim disjE; simp add: tick_rounds e idle find clock q del: One_nat_def list_update.simps(2) u_run.simps(2)
      cong: Call_cong Blocked_cong Answered_cong)
qed

lemma tick_more:
  assumes idle: "\<And>g. u_resume code g U1 = idle_loop I n (Inr (S, rs)) g"
    and find: "find (\<lambda>t. word_of_nat t = (3::i32)) js = Some 3" "find (\<lambda>t. word_of_nat t = (8::i32)) js = Some 8"
    and cur: "cur = Some 3 \<or> cur = None" and q: "\<not> sint (ucast q :: i32) < 0"
    and len: "length ss = 4" "length ps = 4" "length us = 4"
    and c: "i \<in> {0, 1, 2, 3}" and findc: "find (\<lambda>t. word_of_nat t = (word_of_nat (4 + i) :: i32)) js = Some (4 + i)"
    and waits: "ss ! i = WATIREPLY" "us ! i = client_waits (word_of_nat (4 + i)) d k" and more: "k \<noteq> 0" "0 \<le> sint d"
    and clock: "clock_step C 8 (clock_msg TICK v) = Inr (C', [], [(8, clock_msg TICK v), (word_of_nat (4 + i), clock_msg TICK w)])"
      "clock_step C' (word_of_nat (4 + i)) (clock_msg DELAY d) = Inr (C'', [], [])"
  shows "u_run code 8 [] (point cur js ss (ps @ [Some q]) ([U0, U1, NS, clock_server_waits C] @ us @ [notifier_waits v]))
    = Some (map (Pair 1) (map report_line rs) @ [(4 + i, client_line (word_of_nat (4 + i)) d k)],
        point (Some 3) js ss (ps[i := Some 8] @ [Some 8])
          ([U0, idle_waits I n S, NS, clock_server_waits C''] @ us[i := client_waits (word_of_nat (4 + i)) d (k - 1)] @ [notifier_waits v]))"
proof -
  obtain s4 s5 s6 s7 p4 p5 p6 p7 u4 u5 u6 u7 where e: "ss = [s4, s5, s6, s7]" "ps = [p4, p5, p6, p7]" "us = [u4, u5, u6, u7]"
    using len length_4 by metis
  show ?thesis
    using c cur
    by (elim insertE emptyE disjE; insert waits findc clock; simp add: tick_rounds e idle find q more
        del: One_nat_def list_update.simps(2) u_run.simps(2) cong: Call_cong Blocked_cong Answered_cong)
qed

lemma tick_last:
  assumes idle: "\<And>g. u_resume code g U1 = idle_loop I n (Inr (S, rs)) g"
    and find: "find (\<lambda>t. word_of_nat t = (3::i32)) js = Some 3" "find (\<lambda>t. word_of_nat t = (8::i32)) js = Some 8"
    and cur: "cur = Some 3 \<or> cur = None" and q: "\<not> sint (ucast q :: i32) < 0"
    and len: "length ss = 4" "length ps = 4" "length us = 4"
    and c: "i \<in> {0, 1, 2, 3}" and findc: "find (\<lambda>t. word_of_nat t = (word_of_nat (4 + i) :: i32)) js = Some (4 + i)"
    and waits: "ss ! i = WATIREPLY" "us ! i = client_waits (word_of_nat (4 + i)) d 0"
    and clock: "clock_step C 8 (clock_msg TICK v) = Inr (C', [], [(8, clock_msg TICK v), (word_of_nat (4 + i), clock_msg TICK w)])"
  shows "u_run code 7 [] (point cur js ss (ps @ [Some q]) ([U0, U1, NS, clock_server_waits C] @ us @ [notifier_waits v]))
    = Some (map (Pair 1) (map report_line rs),
        point (if i < 2 then Some 3 else None) (remove1 (4 + i) js) (ss[i := RUNNING]) (ps[i := Some 8] @ [Some 8])
          ([U0, idle_waits I n S, NS, clock_server_waits C']
           @ us[i := Answered (Answer 8 0 (clock_msg TICK w)) (\<lambda>_. k3_client_loop (word_of_nat (4 + i)) 3 d 0)] @ [notifier_waits v]))"
proof -
  obtain s4 s5 s6 s7 p4 p5 p6 p7 u4 u5 u6 u7 where e: "ss = [s4, s5, s6, s7]" "ps = [p4, p5, p6, p7]" "us = [u4, u5, u6, u7]"
    using len length_4 by metis
  show ?thesis
    using c cur
    by (elim insertE emptyE disjE; insert waits findc clock; simp add: tick_rounds e idle find q
        del: One_nat_def list_update.simps(2) u_run.simps(2) cong: Call_cong Blocked_cong)
qed

subsection \<open>The scene between two ticks\<close>

text \<open>
  For each of the four clients the number of delays it has left after the one it waits in, or nothing when it
  has left.  Client \<open>i\<close> is task \<open>4 + i\<close>; it wakes up after so many of its delays.
\<close>

type_synonym clients = "nat option list"

definition wake_time :: "nat \<Rightarrow> nat \<Rightarrow> nat" where
  "wake_time i r = unat (client_delays ! i) * (unat (client_nums ! i) - r)"

definition waiting :: "clients \<Rightarrow> nat list" where
  "waiting cl = filter (\<lambda>i. cl ! i \<noteq> None) [0..<4]"

definition due :: "nat \<Rightarrow> clients \<Rightarrow> nat list" where
  "due t cl = filter (\<lambda>i. wake_time i (the (cl ! i)) = t) (waiting cl)"

definition clock_entry :: "clients \<Rightarrow> nat \<Rightarrow> i32 \<times> u32" where
  "clock_entry cl i = (word_of_nat (4 + i), word_of_nat (wake_time i (the (cl ! i))))"

definition live_jobs :: "clients \<Rightarrow> task_ptr list" where
  "live_jobs cl = [1, 2, 3] @ map (\<lambda>i. 4 + i) (waiting cl) @ [8]"

text \<open>One tick: the lines, the clients afterwards and the number of rounds.\<close>

fun answer_due :: "nat list \<Rightarrow> clients \<Rightarrow> (nat \<times> nat) list \<times> clients \<times> nat" where
  "answer_due [] cl = ([], cl, 5)"
| "answer_due (i # is) cl =
     (case cl ! i of
        Some (Suc r) \<Rightarrow> ([(i, Suc r)], cl[i := Some r], 8)
      | _ \<Rightarrow> ([], cl[i := None], 7))"

definition said :: "nat \<times> nat \<Rightarrow> task_ptr \<times> line" where
  "said l = (4 + fst l, client_line (word_of_nat (4 + fst l)) (client_delays ! fst l) (word_of_nat (snd l)))"

definition scene_clients :: "nat \<Rightarrow> clients \<Rightarrow> TaskState list \<Rightarrow> utask list \<Rightarrow> bool" where
  "scene_clients t cl ss us \<longleftrightarrow> (\<forall>i<4. \<forall>r. cl ! i = Some r \<longrightarrow> r < unat (client_nums ! i) \<and> t < wake_time i r
     \<and> ss ! i = WATIREPLY \<and> us ! i = client_waits (word_of_nat (4 + i)) (client_delays ! i) (word_of_nat r))"

definition scene_clock :: "nat \<Rightarrow> clients \<Rightarrow> ClockServer \<Rightarrow> bool" where
  "scene_clock t cl C \<longleftrightarrow> clock_inv C \<and> cs_ticks C = word_of_nat t \<and> mset (clock_waiting C) = mset (map (clock_entry cl) (waiting cl))"

definition scene :: "(u64 \<Rightarrow> Statics \<Rightarrow> prog) \<Rightarrow> Image \<Rightarrow> nat \<Rightarrow> clients \<Rightarrow> Machine \<Rightarrow> bool" where
  "scene code I t cl M \<longleftrightarrow> (\<exists>cur ss ps q U0 U1 NS C us v.
     M = point cur (live_jobs cl) ss (ps @ [Some q]) ([U0, U1, NS, clock_server_waits C] @ us @ [notifier_waits v])
     \<and> (cur = Some 3 \<or> cur = None) \<and> \<not> sint (ucast q :: i32) < 0
     \<and> length cl = 4 \<and> length ss = 4 \<and> length ps = 4 \<and> length us = 4
     \<and> (\<forall>c k. U1 \<noteq> Blocked c k) \<and> (\<forall>g. u_resume code g U1 = idle_loop I t (idle_state I t) g)
     \<and> scene_clients t cl ss us \<and> scene_clock t cl C)"

lemma set_waiting: "i \<in> set (waiting cl) \<longleftrightarrow> i < 4 \<and> cl ! i \<noteq> None"
  by (auto simp: waiting_def)

lemma distinct_waiting [simp]: "distinct (waiting cl)"
  by (simp add: waiting_def)

lemma less_4: "i < 4 \<Longrightarrow> i \<in> {0, 1, 2, 3 :: nat}"
  by auto

lemma client_tables: "i < 4 \<Longrightarrow> unat (client_delays ! i) \<le> 71 \<and> unat (client_nums ! i) \<le> 20
    \<and> 0 \<le> sint (client_delays ! i) \<and> 0 < client_delays ! i \<and> unat (client_delays ! i) * unat (client_nums ! i) \<le> 213"
  by (drule less_4, elim insertE emptyE) (simp_all add: client_delays_def client_nums_def)

lemma wake_time_bound: "i < 4 \<Longrightarrow> wake_time i r \<le> 213"
  unfolding wake_time_def using client_tables [of i] by (metis diff_le_self le_trans mult_le_mono2)

lemma wake_time_next:
  assumes "i < 4" and "Suc r < unat (client_nums ! i)"
  shows "wake_time i r = wake_time i (Suc r) + unat (client_delays ! i)"
proof -
  have "unat (client_nums ! i) - r = Suc (unat (client_nums ! i) - Suc r)" using assms by simp
  then show ?thesis by (simp add: wake_time_def)
qed

text \<open>Jobs are found by their numbers.\<close>

lemma job_find:
  assumes "t \<in> set js" and "\<And>u. u \<in> set js \<Longrightarrow> u < 64"
  shows "find (\<lambda>u. word_of_nat u = (word_of_nat t :: i32)) js = Some t"
proof -
  have eq: "(word_of_nat u = (word_of_nat t :: i32)) = (u = t)" if "u \<in> set js" for u
    using assms(2) [OF that] assms(2) [OF assms(1)] by (auto simp: word_unat_eq_iff unat_of_nat_small32)
  show ?thesis using assms(1) eq by (induction js) auto
qed

lemma live_jobs_less: "u \<in> set (live_jobs cl) \<Longrightarrow> u < 64"
  by (auto simp: live_jobs_def set_waiting)

lemma live_find:
  "find (\<lambda>u. word_of_nat u = (3 :: i32)) (live_jobs cl) = Some 3"
  "find (\<lambda>u. word_of_nat u = (8 :: i32)) (live_jobs cl) = Some 8"
  "i \<in> set (waiting cl) \<Longrightarrow> find (\<lambda>u. word_of_nat u = (word_of_nat (4 + i) :: i32)) (live_jobs cl) = Some (4 + i)"
  using job_find [of 3 "live_jobs cl"] job_find [of 8 "live_jobs cl"] job_find [of "4 + i" "live_jobs cl"] live_jobs_less
  by (auto simp: live_jobs_def)

lemma waiting_update:
  assumes "length cl = 4"
  shows "cl ! i \<noteq> None \<Longrightarrow> i < 4 \<Longrightarrow> waiting (cl[i := Some r]) = waiting cl" "i < 4 \<Longrightarrow> waiting (cl[i := None]) = remove1 i (waiting cl)"
proof -
  show "waiting (cl[i := Some r]) = waiting cl" if "cl ! i \<noteq> None" "i < 4"
    using that assms by (auto simp: waiting_def nth_list_update intro!: filter_cong)
  have "remove1 i (filter P [0..<4]) = filter (\<lambda>j. P j \<and> i \<noteq> j) [0..<4]" for P :: "nat \<Rightarrow> bool"
    by (simp add: distinct_remove1_removeAll removeAll_filter_not_eq)
  then show "waiting (cl[i := None]) = remove1 i (waiting cl)" if "i < 4"
    using that assms by (auto simp: waiting_def nth_list_update intro!: filter_cong)
qed

lemma map_remove1_inj: "inj_on f (insert x (set xs)) \<Longrightarrow> remove1 (f x) (map f xs) = map f (remove1 x xs)"
  by (induction xs) (auto simp: inj_on_def)

lemma live_jobs_exit: "i \<in> set (waiting cl) \<Longrightarrow> length cl = 4 \<Longrightarrow> remove1 (4 + i) (live_jobs cl) = live_jobs (cl[i := None])"
  using inj_on_def [of "(+) 4" "insert i (set (waiting cl))"]
  by (auto simp: live_jobs_def waiting_update set_waiting remove1_append map_remove1_inj)

text \<open>The entries that the clock server answers at a tick.\<close>

lemma clock_due:
  assumes cl: "scene_clients t cl ss us" and C: "scene_clock t cl C"
  shows "mset (filter (due_at (cs_ticks C + 1)) (clock_waiting C)) = mset (map (clock_entry cl) (due (Suc t) cl))"
    and "mset (filter (\<lambda>e. \<not> due_at (cs_ticks C + 1) e) (clock_waiting C))
      = mset (map (clock_entry cl) (filter (\<lambda>i. i \<notin> set (due (Suc t) cl)) (waiting cl)))"
proof -
  have e: "due_at (cs_ticks C + 1) (clock_entry cl i) \<longleftrightarrow> wake_time i (the (cl ! i)) = Suc t" if i: "i \<in> set (waiting cl)" for i
  proof -
    obtain r where r: "i < 4" "cl ! i = Some r" using i by (auto simp: set_waiting)
    have "t < wake_time i r" "wake_time i r \<le> 213" using cl r wake_time_bound [of i r] by (auto simp: scene_clients_def)
    moreover from this have "(word_of_nat (wake_time i r) = (word_of_nat (Suc t) :: u32)) = (wake_time i r = Suc t)"
      by (simp add: word_unat_eq_iff unat_of_nat_small32 del: of_nat_Suc)
    ultimately show ?thesis using C r by (simp add: due_at_def clock_entry_def scene_clock_def add.commute)
  qed
  have m: "mset (clock_waiting C) = mset (map (clock_entry cl) (waiting cl))" using C by (simp add: scene_clock_def)
  have "filter P (map (clock_entry cl) (waiting cl)) = map (clock_entry cl) (filter (P \<circ> clock_entry cl) (waiting cl))" for P
    by (simp add: filter_map)
  then have f: "mset (filter P (clock_waiting C)) = mset (map (clock_entry cl) (filter (P \<circ> clock_entry cl) (waiting cl)))" for P
    using arg_cong [OF m, of "filter_mset P"] by (metis mset_filter)
  show "mset (filter (due_at (cs_ticks C + 1)) (clock_waiting C)) = mset (map (clock_entry cl) (due (Suc t) cl))"
    unfolding f due_def by (rule arg_cong [of _ _ mset], rule arg_cong [of _ _ "map (clock_entry cl)"], rule filter_cong) (simp_all add: e)
  show "mset (filter (\<lambda>e. \<not> due_at (cs_ticks C + 1) e) (clock_waiting C))
      = mset (map (clock_entry cl) (filter (\<lambda>i. i \<notin> set (due (Suc t) cl)) (waiting cl)))"
    unfolding f by (rule arg_cong [of _ _ mset], rule arg_cong [of _ _ "map (clock_entry cl)"], rule filter_cong) (auto simp: e due_def)
qed

lemma mset_map_split:
  assumes "distinct xs" and "x \<in> set xs"
  shows "mset (map f xs) = add_mset (f x) (mset (map f (filter (\<lambda>y. y \<noteq> x) xs)))"
proof -
  obtain as bs where xs: "xs = as @ x # bs" using assms(2) by (meson split_list)
  then have "filter (\<lambda>y. y \<noteq> x) as = as" "filter (\<lambda>y. y \<noteq> x) bs = bs" using assms(1) by (auto simp: filter_id_conv)
  then show ?thesis by (simp add: xs)
qed

lemma mset_place: "mset (place f n ns) = add_mset n (mset ns)"
proof -
  obtain as bs where "ns = as @ bs" "place f n ns = as @ n # bs" by (rule place_split)
  then show ?thesis by simp
qed

lemma mset_length: "mset xs = mset ys \<Longrightarrow> length xs = length ys"
  by (metis size_mset)

lemma waiting_length: "length (waiting cl) \<le> 4"
  using length_filter_le [of _ "[0..<4]"] by (simp add: waiting_def)

text \<open>The scene of the next tick.\<close>

lemma next_clock_none:
  assumes cl: "scene_clients t cl ss us" and C: "scene_clock t cl C" and due: "due (Suc t) cl = []"
  shows "clock_step C 8 (clock_msg TICK v) = Inr (ticked C 8 v, [], [(8, clock_msg TICK v)])" and "scene_clock (Suc t) cl (ticked C 8 v)"
proof -
  have inv: "clock_inv C" using C by (simp add: scene_clock_def)
  note k = clock_tick_step [OF inv, of 8 v] and d = clock_due [OF cl C, unfolded due]
  have "filter (due_at (cs_ticks C + 1)) (clock_waiting C) = []"
    using d(1) by (simp only: list.map mset.simps mset_zero_iff)
  then show "clock_step C 8 (clock_msg TICK v) = Inr (ticked C 8 v, [], [(8, clock_msg TICK v)])" using k(1) by simp
  show "scene_clock (Suc t) cl (ticked C 8 v)" using k d(2) C by (simp add: scene_clock_def add.commute)
qed

lemma next_clock_one:
  assumes cl: "scene_clients t cl ss us" and C: "scene_clock t cl C" and due: "due (Suc t) cl = [i]"
  shows "clock_step C 8 (clock_msg TICK v) = Inr (ticked C 8 v, [], [(8, clock_msg TICK v), (word_of_nat (4 + i), clock_msg TICK (word_of_nat (Suc t)))])"
    and "clock_inv (ticked C 8 v)" and "cs_ticks (ticked C 8 v) = word_of_nat (Suc t)"
    and "mset (clock_waiting (ticked C 8 v)) = mset (map (clock_entry cl) (filter (\<lambda>j. j \<noteq> i) (waiting cl)))"
proof -
  have inv: "clock_inv C" and t: "cs_ticks C = word_of_nat t" using C by (simp_all add: scene_clock_def)
  note k = clock_tick_step [OF inv, of 8 v] and d = clock_due [OF cl C, unfolded due]
  have "filter (due_at (cs_ticks C + 1)) (clock_waiting C) = [clock_entry cl i]"
    using d(1) by (simp only: list.map mset.simps mset_single_iff)
  then show "clock_step C 8 (clock_msg TICK v) = Inr (ticked C 8 v, [], [(8, clock_msg TICK v), (word_of_nat (4 + i), clock_msg TICK (word_of_nat (Suc t)))])"
    using k(1) t by (simp add: clock_entry_def add.commute)
  show "clock_inv (ticked C 8 v)" "cs_ticks (ticked C 8 v) = word_of_nat (Suc t)"
    "mset (clock_waiting (ticked C 8 v)) = mset (map (clock_entry cl) (filter (\<lambda>j. j \<noteq> i) (waiting cl)))"
    using k d(2) t by (simp_all add: add.commute)
qed

lemma next_scene_none:
  assumes "scene_clients t cl ss us" and "due (Suc t) cl = []"
  shows "scene_clients (Suc t) cl ss us"
proof -
  have "Suc t \<noteq> wake_time i r" if "i < 4" "cl ! i = Some r" for i r
  proof -
    have "i \<in> set (waiting cl)" using that by (simp add: set_waiting)
    then show ?thesis using assms(2) that by (auto simp: due_def filter_empty_conv)
  qed
  then show ?thesis using assms(1) unfolding scene_clients_def by (metis Suc_lessI)
qed

lemma due_client:
  assumes "due (Suc t) cl = [i]"
  shows "i \<in> set (waiting cl)" and "i < 4" and "wake_time i (the (cl ! i)) = Suc t"
    and "j < 4 \<Longrightarrow> cl ! j = Some r \<Longrightarrow> j \<noteq> i \<Longrightarrow> wake_time j r \<noteq> Suc t"
proof -
  have "set (due (Suc t) cl) = {i}" using assms by simp
  then have m: "j \<in> set (waiting cl) \<and> wake_time j (the (cl ! j)) = Suc t \<longleftrightarrow> j = i" for j
    unfolding due_def set_filter by blast
  show "i \<in> set (waiting cl)" "i < 4" "wake_time i (the (cl ! i)) = Suc t" using m [of i] by (simp_all add: set_waiting)
  show "wake_time j r \<noteq> Suc t" if "j < 4" "cl ! j = Some r" "j \<noteq> i" using m [of j] that by (simp add: set_waiting)
qed

lemma next_scene_last:
  assumes cl: "scene_clients t cl ss us" and due: "due (Suc t) cl = [i]" and len: "length cl = 4" "length ss = 4" "length us = 4"
  shows "scene_clients (Suc t) (cl[i := None]) (ss[i := s]) (us[i := u])"
proof -
  note d = due_client [OF due]
  have "r < unat (client_nums ! j) \<and> Suc t < wake_time j r \<and> ss[i := s] ! j = WATIREPLY
      \<and> us[i := u] ! j = client_waits (word_of_nat (4 + j)) (client_delays ! j) (word_of_nat r)"
    if j: "j < 4" "cl[i := None] ! j = Some r" for j r
  proof -
    have n: "j \<noteq> i" "cl ! j = Some r" using j len d(2) by (auto simp: nth_list_update split: if_splits)
    with cl j(1) d(4) [OF j(1) n(2,1)] show ?thesis by (auto simp: scene_clients_def intro: Suc_lessI)
  qed
  then show ?thesis by (simp add: scene_clients_def)
qed

lemma next_scene_more:
  assumes cl: "scene_clients t cl ss us" and due: "due (Suc t) cl = [i]" and r: "cl ! i = Some (Suc r)"
    and len: "length cl = 4" "length ss = 4" "length us = 4"
  shows "scene_clients (Suc t) (cl[i := Some r]) ss (us[i := client_waits (word_of_nat (4 + i)) (client_delays ! i) (word_of_nat r)])"
proof -
  note d = due_client [OF due]
  have i: "Suc r < unat (client_nums ! i)" "ss ! i = WATIREPLY" using cl d(2) r by (auto simp: scene_clients_def)
  have "0 < unat (client_delays ! i)" using client_tables [OF d(2)] by (simp add: word_less_nat_alt)
  then have w: "Suc t < wake_time i r" using wake_time_next [OF d(2) i(1)] d(3) r by simp
  have "q < unat (client_nums ! j) \<and> Suc t < wake_time j q \<and> ss ! j = WATIREPLY
      \<and> us[i := client_waits (word_of_nat (4 + i)) (client_delays ! i) (word_of_nat r)] ! j
         = client_waits (word_of_nat (4 + j)) (client_delays ! j) (word_of_nat q)"
    if j: "j < 4" "cl[i := Some r] ! j = Some q" for j q
  proof (cases "j = i")
    case True
    with j len d(2) i w show ?thesis by auto
  next
    case False
    then have n: "cl ! j = Some q" using j by simp
    with False cl j(1) d(4) [OF j(1) n False] show ?thesis by (auto simp: scene_clients_def intro: Suc_lessI)
  qed
  then show ?thesis by (simp add: scene_clients_def)
qed

lemma next_clock_more:
  assumes cl: "scene_clients t cl ss us" and C: "scene_clock t cl C" and due: "due (Suc t) cl = [i]" and r: "cl ! i = Some (Suc r)"
    and len: "length cl = 4"
  shows "clock_step (ticked C 8 v) (word_of_nat (4 + i)) (clock_msg DELAY (client_delays ! i))
      = Inr (delayed (ticked C 8 v) (word_of_nat (4 + i)) (client_delays ! i), [], [])"
    and "scene_clock (Suc t) (cl[i := Some r]) (delayed (ticked C 8 v) (word_of_nat (4 + i)) (client_delays ! i))"
proof -
  note d = due_client [OF due] and k = next_clock_one [OF cl C due, of v] and tb = client_tables [OF due_client(2) [OF due]]
  have t: "Suc t \<le> 213" using d(3) wake_time_bound [OF d(2), of "the (cl ! i)"] by simp
  have "length (clock_waiting (ticked C 8 v)) < 512"
    using mset_length [OF k(4)] le_trans [OF length_filter_le waiting_length, of "\<lambda>j. j \<noteq> i" cl] by simp
  moreover have "unat (cs_ticks (ticked C 8 v)) + unat (client_delays ! i) < 2 ^ 32"
    using t tb by (simp add: k(3) unat_of_nat_small32 del: of_nat_Suc)
  ultimately have s: "clock_step (ticked C 8 v) (word_of_nat (4 + i)) (clock_msg DELAY (client_delays ! i))
      = Inr (delayed (ticked C 8 v) (word_of_nat (4 + i)) (client_delays ! i), [], [])"
    "clock_inv (delayed (ticked C 8 v) (word_of_nat (4 + i)) (client_delays ! i))"
    "cs_ticks (delayed (ticked C 8 v) (word_of_nat (4 + i)) (client_delays ! i)) = cs_ticks (ticked C 8 v)"
    "clock_waiting (delayed (ticked C 8 v) (word_of_nat (4 + i)) (client_delays ! i))
      = place snd (word_of_nat (4 + i), client_delays ! i + cs_ticks (ticked C 8 v)) (clock_waiting (ticked C 8 v))"
    using clock_delay_step [OF k(2), of "client_delays ! i" "word_of_nat (4 + i)"] tb by simp_all
  show "clock_step (ticked C 8 v) (word_of_nat (4 + i)) (clock_msg DELAY (client_delays ! i))
      = Inr (delayed (ticked C 8 v) (word_of_nat (4 + i)) (client_delays ! i), [], [])" by (rule s(1))
  have e: "clock_entry (cl[i := Some r]) i = (word_of_nat (4 + i), client_delays ! i + word_of_nat (Suc t))"
    using wake_time_next [OF d(2), of r] cl d r len by (simp add: clock_entry_def scene_clients_def)
  have "map (clock_entry (cl[i := Some r])) (filter (\<lambda>j. j \<noteq> i) (waiting cl)) = map (clock_entry cl) (filter (\<lambda>j. j \<noteq> i) (waiting cl))"
    by (auto simp: clock_entry_def)
  then have "mset (clock_waiting (delayed (ticked C 8 v) (word_of_nat (4 + i)) (client_delays ! i)))
      = mset (map (clock_entry (cl[i := Some r])) (waiting cl))"
    unfolding s(4) mset_place k(4) mset_map_split [OF distinct_waiting d(1)] e by (simp only: k(3))
  then show "scene_clock (Suc t) (cl[i := Some r]) (delayed (ticked C 8 v) (word_of_nat (4 + i)) (client_delays ! i))"
    using s(2,3) k(3) waiting_update(1) [OF len, of i r] d(2) r by (simp add: scene_clock_def)
qed

text \<open>A tick: the lines of the idle task, those of the client that is due, and the scene of the next tick.\<close>

lemma scene_tick:
  assumes scene: "scene code I t cl M" and idle: "idle_state I t = Inr (S, rs)" and one: "length (due (Suc t) cl) \<le> 1"
    and tick: "answer_due (due (Suc t) cl) cl = (ls, cl', n)"
  shows "\<exists>M'. u_run code n [] M = Some (map (Pair 1) (map report_line rs) @ map said ls, M') \<and> scene code I (Suc t) cl' M'"
proof -
  from scene obtain cur ss ps q U0 U1 NS C us v where
    M: "M = point cur (live_jobs cl) ss (ps @ [Some q]) ([U0, U1, NS, clock_server_waits C] @ us @ [notifier_waits v])"
    and cur: "cur = Some 3 \<or> cur = None" and q: "\<not> sint (ucast q :: i32) < 0"
    and len: "length cl = 4" "length ss = 4" "length ps = 4" "length us = 4"
    and go: "\<And>g. u_resume code g U1 = idle_loop I t (idle_state I t) g" and cl: "scene_clients t cl ss us" and C: "scene_clock t cl C"
    unfolding scene_def by blast
  note base = go [unfolded idle] live_find(1,2) cur q len(2-4)
  have go': "u_resume code g (idle_waits I t S) = idle_loop I (Suc t) (idle_state I (Suc t)) g" for g
    by (simp add: idle_waits_def idle_state_def idle [unfolded idle_state_def])
  have ok: "scene code I (Suc t) cl2 (point cur2 (live_jobs cl2) ss2 (ps2 @ [Some 8])
      ([U0, idle_waits I t S, NS, clock_server_waits C2] @ us2 @ [notifier_waits v]))"
    if "cur2 = Some 3 \<or> cur2 = None" "length cl2 = 4" "length ss2 = 4" "length ps2 = 4" "length us2 = 4"
      "scene_clients (Suc t) cl2 ss2 us2" "scene_clock (Suc t) cl2 C2" for cur2 cl2 ss2 ps2 us2 C2
    unfolding scene_def using that go' by (intro exI conjI) (auto intro: refl simp: idle_waits_def)
  show ?thesis
  proof (cases "due (Suc t) cl")
    case Nil
    note c = next_clock_none [OF cl C Nil]
    show ?thesis
      using tick_none [OF base c(1)] ok [OF _ len next_scene_none [OF cl Nil] c(2)] tick Nil by (auto simp: M)
  next
    case (Cons i others)
    then have due: "due (Suc t) cl = [i]" using one by simp
    note d = due_client [OF due] and c = next_clock_one [OF cl C due, of v]
    have i: "i \<in> {0, 1, 2, 3}" by (rule less_4 [OF d(2)])
    obtain r where r: "cl ! i = Some r" using d(1) by (auto simp: set_waiting)
    have w: "ss ! i = WATIREPLY" "us ! i = client_waits (word_of_nat (4 + i)) (client_delays ! i) (word_of_nat r)"
      "r < unat (client_nums ! i)" using cl d(2) r by (auto simp: scene_clients_def)
    show ?thesis
    proof (cases r)
      case 0
      then have w0: "us ! i = client_waits (word_of_nat (4 + i)) (client_delays ! i) 0" using w(2) by simp
      note tl = tick_last [OF base i live_find(3) [OF d(1)] w(1) w0 c(1)]
      have "scene_clock (Suc t) (cl[i := None]) (ticked C 8 v)"
      proof -
        have "map (clock_entry (cl[i := None])) (filter (\<lambda>j. j \<noteq> i) (waiting cl)) = map (clock_entry cl) (filter (\<lambda>j. j \<noteq> i) (waiting cl))"
          by (auto simp: clock_entry_def)
        moreover have "remove1 i (waiting cl) = filter (\<lambda>j. j \<noteq> i) (waiting cl)"
          by (auto simp: distinct_remove1_removeAll removeAll_filter_not_eq intro: filter_cong)
        ultimately show ?thesis using c(2-4) waiting_update(2) [OF len(1) d(2)] by (simp only: scene_clock_def)
      qed
      from ok [where ?cur2.0 = "if i < 2 then Some 3 else None" and ?ps2.0 = "ps[i := Some 8]", OF _ _ _ _ _ next_scene_last [OF cl due len(1,2,4)] this] tl
      show ?thesis using tick due r 0 len live_jobs_exit [OF d(1) len(1)] by (auto simp: M)
    next
      case (Suc r')
      note m = next_clock_more [OF cl C due r [unfolded Suc] len(1), of v]
      have "unat (word_of_nat r :: u32) = r" using client_tables [OF d(2)] w(3) by (intro unat_of_nat_small32) simp
      then have k: "(word_of_nat r :: u32) \<noteq> 0" "0 \<le> sint (client_delays ! i)" "(word_of_nat r :: u32) - 1 = word_of_nat r'"
        using client_tables [OF d(2)] Suc by auto
      note tm = tick_more [OF base i live_find(3) [OF d(1)] w(1,2) k(1,2) c(1) m(1)]
      have lj: "live_jobs (cl[i := Some r']) = live_jobs cl"
        using waiting_update(1) [OF len(1), of i r'] r d(2) by (simp add: live_jobs_def)
      from ok [where ?cur2.0 = "Some 3" and ?ps2.0 = "ps[i := Some 8]", OF _ _ _ _ _ next_scene_more [OF cl due r [unfolded Suc] len(1,2,4)] m(2)] tm
      show ?thesis using tick due r Suc len lj k(3) by (auto simp: M said_def)
    qed
  qed
qed

end
