(* ===== verification/Program_Transcript.thy ===== *)
theory Program_Transcript
  imports Program_Ticks
begin

text \<open>
  All ticks of the configured program: what it prints, tick by tick, as long as the idle task goes on.
\<close>

subsection \<open>Many ticks\<close>

text \<open>
  Per tick the numbers that the clients print and the number of rounds, as long as no two clients are due at once.
\<close>

fun ticks :: "nat \<Rightarrow> nat \<Rightarrow> clients \<Rightarrow> ((nat \<times> nat) list \<times> nat) list" where
  "ticks 0 t cl = []"
| "ticks (Suc k) t cl = (case answer_due (due (Suc t) cl) cl of (ls, cl, n) \<Rightarrow> (ls, n) # ticks k (Suc t) cl)"

fun one_due :: "nat \<Rightarrow> nat \<Rightarrow> clients \<Rightarrow> bool" where
  "one_due 0 t cl = True"
| "one_due (Suc k) t cl \<longleftrightarrow> length (due (Suc t) cl) \<le> 1 \<and> one_due k (Suc t) (fst (snd (answer_due (due (Suc t) cl) cl)))"

definition rounds_of :: "((nat \<times> nat) list \<times> nat) list \<Rightarrow> nat" where
  "rounds_of ts = sum_list (map snd ts)"

text \<open>The lines of the task \<open>1\<close> before each tick, and those of the clients after it.\<close>

definition reports :: "Image \<Rightarrow> nat \<Rightarrow> line list" where
  "reports I t = (case idle_state I t of Inl e \<Rightarrow> [] | Inr (S, rs) \<Rightarrow> map report_line rs)"

fun transcript :: "Image \<Rightarrow> nat \<Rightarrow> ((nat \<times> nat) list \<times> nat) list \<Rightarrow> (task_ptr \<times> line) list" where
  "transcript I t [] = []"
| "transcript I t ((ls, n) # ts) = map (Pair 1) (reports I t) @ map said ls @ transcript I (Suc t) ts"

lemma after_enter_count:
  assumes "idle_after_enter S enter reported = Inr (S', rs)" and count: "sint (id_count S) = int t"
  shows "sint (id_count S') = int (Suc t) \<and> map fst rs = (if t mod 50 = 0 then [word_of_nat t] else [])"
proof -
  have "word_of_int (sint (id_count S)) = id_count S" by simp
  then have w: "id_count S = word_of_nat t" using count by simp
  have less: "int t \<noteq> 2 ^ 31 - 1" and c: "id_count S' = id_count S + 1"
    and r: "map fst rs = (if int t smod 50 = 0 then [id_count S] else [])"
    using assms by (auto simp: idle_after_enter_def REPORT_PERIOD_def Let_def bindE_eq_Inr_iff split: if_splits)
  have "int t < 2 ^ 31" using sint_less [of "id_count S"] count by simp
  then have "sint (id_count S + 1) = int t + 1"
    using less count by (simp add: sint_word_ariths signed_take_bit_int_eq_self)
  moreover have "int t smod 50 = int (t mod 50)" by (simp add: signed_modulo_int_def sgn_if zmod_int)
  ultimately show ?thesis using c r w by simp
qed

lemma idle_state_count:
  "idle_state I t = Inr (S, rs) \<Longrightarrow> sint (id_count S) = int (Suc t) \<and> map fst rs = (if t mod 50 = 0 then [word_of_nat t] else [])"
proof (induction t arbitrary: S rs)
  case 0
  then obtain S0 enter reported exit where s: "idle_setup (im_clocks I) idle_zero = Inr S0" "im_idle I 0 = (enter, reported, exit)"
    "idle_after_enter S0 enter reported = Inr (S, rs)"
    by (cases "im_idle I 0") (auto simp: idle_state_def idle_start_def idle_enter_def bindE_eq_Inr_iff)
  have "sint (id_count S0) = int 0" using s(1) by (auto simp: idle_setup_def Let_def bindE_eq_Inr_iff)
  from after_enter_count [OF s(3) this] show ?case by simp
next
  case (Suc t)
  then obtain S0 rs0 enter reported exit enter' reported' exit' where s: "idle_state I t = Inr (S0, rs0)"
    "im_idle I t = (enter, reported, exit)" "im_idle I (Suc t) = (enter', reported', exit')"
    "idle_after_enter (idle_before_exit S0 exit) enter' reported' = Inr (S, rs)"
    by (cases "im_idle I t"; cases "im_idle I (Suc t)")
      (auto simp: idle_state_def idle_again_def idle_enter_def split: sum.splits)
  have "sint (id_count (idle_before_exit S0 exit)) = int (Suc t)" using Suc.IH [OF s(1)] by (simp add: idle_before_exit_def)
  from after_enter_count [OF s(4) this] show ?case .
qed

lemma scene_stuck:
  assumes "scene code I t cl M" and "idle_state I t = Inl e"
  shows "u_stuck code M"
proof -
  from assms(1) obtain cur ss ps q U0 U1 NS C us v where
    M: "M = point cur (live_jobs cl) ss (ps @ [Some q]) ([U0, U1, NS, clock_server_waits C] @ us @ [notifier_waits v])"
    and cur: "cur = Some 3 \<or> cur = None" and nb: "\<forall>c k. U1 \<noteq> Blocked c k" and go: "\<And>g. u_resume code g U1 = idle_loop I t (idle_state I t) g"
    unfolding scene_def by blast
  from cur have "\<exists>A. a_schedule (ma_kernel M) = (A, Some 1)"
    by (elim disjE) (simp_all add: M point_def machine del: One_nat_def list_update.simps(2))
  moreover have "u_resume code (ma_statics M) (ma_task M 1) = Undefined" "\<forall>c k. ma_task M 1 \<noteq> Blocked c k"
    using go nb by (simp_all add: M point_def fl_nth assms(2) idle_loop_step del: One_nat_def)
  ultimately show ?thesis by (auto simp: u_stuck_def)
qed

text \<open>Either \<open>k\<close> ticks pass, or the idle task goes wrong before one of them.\<close>

definition idle_fine :: "Image \<Rightarrow> nat \<Rightarrow> nat \<Rightarrow> bool" where
  "idle_fine I t k \<longleftrightarrow> (\<forall>j<k. \<exists>p. idle_state I (t + j) = Inr p)"

lemma idle_fine_Suc: "idle_fine I t (Suc k) \<longleftrightarrow> (\<exists>p. idle_state I t = Inr p) \<and> idle_fine I (Suc t) k"
  by (auto simp: idle_fine_def less_Suc_eq_0_disj)

lemma scene_ticks:
  assumes "scene code I t cl M" and "one_due k t cl"
  shows "(\<exists>M'. u_run code (rounds_of (ticks k t cl)) [] M = Some (transcript I t (ticks k t cl), M') \<and> idle_fine I t k)
    \<or> (\<exists>j<k. \<exists>M'. u_run code (rounds_of (ticks j t cl)) [] M = Some (transcript I t (ticks j t cl), M') \<and> u_stuck code M'
         \<and> (\<exists>e. idle_state I (t + j) = Inl e) \<and> idle_fine I t j)"
  using assms
proof (induction k arbitrary: t cl M)
  case 0
  then show ?case by (simp add: rounds_of_def idle_fine_def)
next
  case (Suc k)
  show ?case
  proof (cases "idle_state I t")
    case (Inl e)
    with scene_stuck [OF Suc.prems(1) Inl] show ?thesis by (intro disjI2 exI [of _ 0]) (simp add: rounds_of_def idle_fine_def)
  next
    case (Inr p)
    obtain S rs where p: "p = (S, rs)" by (cases p)
    obtain ls cl' n where tick: "answer_due (due (Suc t) cl) cl = (ls, cl', n)" by (metis prod_cases3)
    from Suc.prems(2) tick have one: "length (due (Suc t) cl) \<le> 1" "one_due k (Suc t) cl'" by simp_all
    from scene_tick [OF Suc.prems(1) Inr [unfolded p] one(1) tick] obtain M1 where
      M1: "u_run code n [] M = Some (map (Pair 1) (map report_line rs) @ map said ls, M1)" "scene code I (Suc t) cl' M1" by blast
    have r: "rounds_of (ticks (Suc j) t cl) = n + rounds_of (ticks j (Suc t) cl')" for j by (simp add: tick rounds_of_def)
    have tr: "transcript I t (ticks (Suc j) t cl) = (map (Pair 1) (map report_line rs) @ map said ls) @ transcript I (Suc t) (ticks j (Suc t) cl')" for j
      by (simp add: tick reports_def Inr p)
    have fine: "idle_fine I (Suc t) j \<Longrightarrow> idle_fine I t (Suc j)" for j by (simp add: idle_fine_Suc Inr)
    from Suc.IH [OF M1(2) one(2)] show ?thesis
    proof (elim disjE exE conjE)
      fix M' assume "u_run code (rounds_of (ticks k (Suc t) cl')) [] M1 = Some (transcript I (Suc t) (ticks k (Suc t) cl'), M')"
        and "idle_fine I (Suc t) k"
      with u_run_then [OF M1(1) this(1)] fine show ?thesis unfolding r [symmetric] tr [symmetric] by blast
    next
      fix j M' e assume j: "j < k" "u_run code (rounds_of (ticks j (Suc t) cl')) [] M1 = Some (transcript I (Suc t) (ticks j (Suc t) cl'), M')"
        "u_stuck code M'" "idle_state I (Suc t + j) = Inl e" "idle_fine I (Suc t) j"
      from u_run_then [OF M1(1) j(2)] have "u_run code (rounds_of (ticks (Suc j) t cl)) [] M = Some (transcript I t (ticks (Suc j) t cl), M')"
        unfolding r [symmetric] tr [symmetric] .
      with j fine show ?thesis by (intro disjI2 exI [of _ "Suc j"]) auto
    qed
  qed
qed

subsection \<open>The ticks of the configured clients\<close>

fun clients_after :: "nat \<Rightarrow> nat \<Rightarrow> clients \<Rightarrow> clients" where
  "clients_after 0 t cl = cl"
| "clients_after (Suc k) t cl = clients_after k (Suc t) (fst (snd (answer_due (due (Suc t) cl) cl)))"

lemma ticks_add: "ticks (j + k) t cl = ticks j t cl @ ticks k (t + j) (clients_after j t cl)"
  by (induction j arbitrary: t cl) (auto split: prod.split)

lemma one_due_add: "one_due (j + k) t cl \<longleftrightarrow> one_due j t cl \<and> one_due k (t + j) (clients_after j t cl)"
  by (induction j arbitrary: t cl) auto

abbreviation gone :: clients where "gone \<equiv> [None, None, None, None]"

lemma due_gone [simp]: "due t gone = []"
  by (simp add: due_def waiting_def numeral_eq_Suc)

lemma ticks_gone: "ticks k t gone = replicate k ([], 5) \<and> one_due k t gone"
  by (induction k arbitrary: t) auto

text \<open>
  What is printed tick by tick: a report of the idle task before every 50th tick from the first on, and the numbers of a client.
\<close>

fun items :: "nat \<Rightarrow> ((nat \<times> nat) list \<times> nat) list \<Rightarrow> (nat + nat \<times> nat) list" where
  "items t [] = []"
| "items t ((ls, n) # ts) = (if t mod 50 = 0 then [Inl t] else []) @ map Inr ls @ items (Suc t) ts"

lemma items_append: "items t (as @ bs) = items t as @ items (t + length as) bs"
  by (induction t as rule: items.induct) auto

lemma length_ticks [simp]: "length (ticks k t cl) = k"
  by (induction k arbitrary: t cl) (auto split: prod.split)

fun summary :: "nat \<Rightarrow> nat \<Rightarrow> clients \<Rightarrow> (nat + nat \<times> nat) list \<Rightarrow> nat \<Rightarrow> (bool \<times> (nat + nat \<times> nat) list \<times> nat \<times> clients)" where
  "summary 0 t cl ls n = (True, ls, n, cl)"
| "summary (Suc k) t cl ls n =
     (let d = due (t + 1) cl; ls = (if t mod 50 = 0 then ls @ [Inl t] else ls)
      in case answer_due d cl of
           (ls', cl', n') \<Rightarrow> if length d \<le> 1 then summary k (t + 1) cl' (ls @ map Inr ls') (n + n') else (False, [], 0, cl))"

lemma summary_ticks:
  "summary k t cl ls n = (True, ls', n', cl') \<Longrightarrow> one_due k t cl \<and> ls' = ls @ items t (ticks k t cl)
    \<and> n' = n + rounds_of (ticks k t cl) \<and> cl' = clients_after k t cl"
proof (induction k arbitrary: t cl ls n)
  case (Suc k)
  obtain ls1 cl1 n1 where a: "answer_due (due (Suc t) cl) cl = (ls1, cl1, n1)" by (metis prod_cases3)
  with Suc.prems have d: "length (due (Suc t) cl) \<le> 1"
    "summary k (Suc t) cl1 ((if t mod 50 = 0 then ls @ [Inl t] else ls) @ map Inr ls1) (n + n1) = (True, ls', n', cl')"
    by (simp_all add: Let_def split: if_splits)
  from Suc.IH [OF d(2)] a d(1) show ?case by (simp add: rounds_of_def)
qed (simp add: rounds_of_def)

definition first_clients :: clients where
  "first_clients = [Some 19, Some 8, Some 5, Some 2]"

lemma wake_times: "wake_time 0 r = 10 * (20 - r)" "wake_time 1 r = 23 * (9 - r)" "wake_time 2 r = 33 * (6 - r)" "wake_time 3 r = 71 * (3 - r)"
  by (simp_all add: wake_time_def client_delays_def client_nums_def)

lemma due_4: "due t [a, b, c, d] = (case a of Some r \<Rightarrow> if wake_time 0 r = t then [0] else [] | None \<Rightarrow> [])
    @ (case b of Some r \<Rightarrow> if wake_time 1 r = t then [1] else [] | None \<Rightarrow> [])
    @ (case c of Some r \<Rightarrow> if wake_time 2 r = t then [2] else [] | None \<Rightarrow> [])
    @ (case d of Some r \<Rightarrow> if wake_time 3 r = t then [3] else [] | None \<Rightarrow> [])"
  by (simp add: due_def waiting_def numeral_eq_Suc split: option.split)

lemmas summary_numeral = summary.simps(2) [of "pred_numeral k" for k, folded numeral_eq_Suc] summary.simps(2) [of 0, folded One_nat_def]

lemma answer_numeral: "cl ! i = Some (numeral r) \<Longrightarrow> answer_due (i # is) cl = ([(i, numeral r)], cl[i := Some (pred_numeral r)], 8)"
  "cl ! i = Some 1 \<Longrightarrow> answer_due (i # is) cl = ([(i, 1)], cl[i := Some 0], 8)"
  "cl ! i = Some 0 \<Longrightarrow> answer_due (i # is) cl = ([], cl[i := None], 7)"
  by (simp_all add: numeral_eq_Suc)

lemma first_summary: "summary 213 0 first_clients [] 0 = (True, [
   Inl 0, Inr (0, 19), Inr (0, 18), Inr (1, 8), Inr (0, 17), Inr (2, 5), Inr (0, 16), Inr (1, 7), Inr (0, 15), Inl 50,
   Inr (0, 14), Inr (2, 4), Inr (1, 6), Inr (0, 13), Inr (3, 2), Inr (0, 12), Inr (0, 11), Inr (1, 5), Inr (2, 3),
   Inr (0, 10), Inl 100, Inr (0, 9), Inr (1, 4), Inr (0, 8), Inr (0, 7), Inr (2, 2), Inr (1, 3), Inr (0, 6),
   Inr (3, 1), Inr (0, 5), Inl 150, Inr (0, 4), Inr (1, 2), Inr (2, 1), Inr (0, 3), Inr (0, 2), Inr (1, 1),
   Inr (0, 1), Inl 200],
   1175, gone)"
  by (simp add: summary_numeral first_clients_def due_4 wake_times answer_numeral list_update_at Let_def
      del: One_nat_def list_update.simps(2) answer_due.simps(2) summary.simps(2))

subsection \<open>The text of the lines\<close>

text \<open>
  The section \<^verbatim>\<open>Output\<close> of \<^verbatim>\<open>README.md\<close>: a report of the idle task, given by the number of the
  round without the measured percentage, or a line of a server or client.
\<close>

datatype readme_line = Share nat | Line string

definition readme :: "readme_line list" where
  "readme = [
     Line ''clock_server successfully registered in name_server'', Line ''task[4]: (delay: 10, num: 20)'',
     Line ''task[5]: (delay: 23, num: 9)'', Line ''task[6]: (delay: 33, num: 6)'',
     Line ''task[7]: (delay: 71, num: 3)'', Share 0, Line ''task[4]: (delay: 10, num: 19)'',
     Line ''task[4]: (delay: 10, num: 18)'', Line ''task[5]: (delay: 23, num: 8)'',
     Line ''task[4]: (delay: 10, num: 17)'', Line ''task[6]: (delay: 33, num: 5)'',
     Line ''task[4]: (delay: 10, num: 16)'', Line ''task[5]: (delay: 23, num: 7)'',
     Line ''task[4]: (delay: 10, num: 15)'', Share 50, Line ''task[4]: (delay: 10, num: 14)'',
     Line ''task[6]: (delay: 33, num: 4)'', Line ''task[5]: (delay: 23, num: 6)'',
     Line ''task[4]: (delay: 10, num: 13)'', Line ''task[7]: (delay: 71, num: 2)'',
     Line ''task[4]: (delay: 10, num: 12)'', Line ''task[4]: (delay: 10, num: 11)'',
     Line ''task[5]: (delay: 23, num: 5)'', Line ''task[6]: (delay: 33, num: 3)'',
     Line ''task[4]: (delay: 10, num: 10)'', Share 100, Line ''task[4]: (delay: 10, num: 9)'',
     Line ''task[5]: (delay: 23, num: 4)'', Line ''task[4]: (delay: 10, num: 8)'',
     Line ''task[4]: (delay: 10, num: 7)'', Line ''task[6]: (delay: 33, num: 2)'',
     Line ''task[5]: (delay: 23, num: 3)'', Line ''task[4]: (delay: 10, num: 6)'',
     Line ''task[7]: (delay: 71, num: 1)'', Line ''task[4]: (delay: 10, num: 5)'', Share 150,
     Line ''task[4]: (delay: 10, num: 4)'', Line ''task[5]: (delay: 23, num: 2)'',
     Line ''task[6]: (delay: 33, num: 1)'', Line ''task[4]: (delay: 10, num: 3)'',
     Line ''task[4]: (delay: 10, num: 2)'', Line ''task[5]: (delay: 23, num: 1)'',
     Line ''task[4]: (delay: 10, num: 1)'', Share 200, Share 250, Share 300, Share 350, Share 400, Share 450,
     Share 500, Share 550, Share 600]"

fun shows_line :: "readme_line \<Rightarrow> task_ptr \<times> line \<Rightarrow> bool" where
  "shows_line (Share n) (t, l) \<longleftrightarrow> t = 1 \<and> (\<exists>share. l = report_line (word_of_nat n, share))"
| "shows_line (Line s) (t, l) \<longleftrightarrow> t \<noteq> 1 \<and> line_text l = Inr (ascii (ln s))"

definition readme_lines :: "string list" where
  "readme_lines = concat (map (\<lambda>r. case r of Share n \<Rightarrow> [] | Line s \<Rightarrow> [s]) readme)"

text \<open>The numbers in the lines of the clients: client, and what it has left.\<close>

definition client_numbers :: "(nat \<times> nat) list" where
  "client_numbers = [(0, 20), (1, 9), (2, 6), (3, 3),
     (0, 19), (0, 18), (1, 8), (0, 17), (2, 5), (0, 16), (1, 7), (0, 15), (0, 14), (2, 4), (1, 6), (0, 13), (3, 2), (0, 12),
     (0, 11), (1, 5), (2, 3), (0, 10), (0, 9), (1, 4), (0, 8), (0, 7), (2, 2), (1, 3), (0, 6), (3, 1), (0, 5), (0, 4), (1, 2),
     (2, 1), (0, 3), (0, 2), (1, 1), (0, 1)]"

lemma client_line_text:
  assumes k: "k < 64"
  shows "line_text (client_line (word_of_nat k) d n) = Inr (ascii ''task['' @ number_text False 10 k @ ascii '']: (delay: ''
    @ number_text False 10 (unat d) @ ascii '', num: '' @ number_text False 10 (unat n) @ ascii (ln '')''))"
proof -
  let ?ps = "[P_text (ascii ''task[''), P_int False False 0 (word_of_nat k), P_text (ascii '']: (delay: ''), P_uns False False 0 d,
     P_text (ascii '', num: ''), P_uns False False 0 n, P_text (ascii (ln '')''))]"
  have "sint (word_of_nat k :: i32) = int k" using k by (simp add: signed_of_nat signed_take_bit_int_eq_self)
  then show ?thesis
    using vs_text_pieces [of ?ps]
    by (simp add: line_text_def client_line_def ln_def ascii_def directive_def width_text_def width_ok_def PERCENT_def)
qed

lemma clock_line_text: "line_text clock_line = Inr (ascii (ln ''clock_server successfully registered in name_server''))"
  using vs_text_pieces [of "[P_text (ascii (ln ''clock_server successfully registered in name_server''))]"]
  by (simp add: line_text_def clock_line_def ln_def ascii_def PERCENT_def)

lemma readme_text: "map line_text (clock_line # map (snd \<circ> said) client_numbers) = map (\<lambda>s. Inr (ascii (ln s))) readme_lines"
  by (simp add: readme_lines_def readme_def client_numbers_def clock_line_text said_def
      client_line_text [where k = "numeral m" for m, unfolded of_nat_numeral] client_delays_def number_text_def digits_of.simps ascii_def ln_def)

subsection \<open>The configured program\<close>

text \<open>
  The two tasks that the kernel creates are those of \<^verbatim>\<open>config.c\<close>.  What the linker makes of the program: the
  entries of the tasks are the code of their functions, the two literals with the name of the clock server are equal
  strings, and the arrays have their sizes.
\<close>

definition config :: "(u64 \<Rightarrow> Statics \<Rightarrow> prog) \<Rightarrow> Image \<Rightarrow> u64 \<Rightarrow> u64 \<Rightarrow> bool" where
  "config code I initial_task idle_task \<longleftrightarrow> code idle_task = idle_prog I \<and> code initial_task = k3_first_user_task I"

definition linked :: "(u64 \<Rightarrow> Statics \<Rightarrow> prog) \<Rightarrow> Image \<Rightarrow> u64 \<Rightarrow> u64 \<Rightarrow> bool" where
  "linked code I initial_task idle_task \<longleftrightarrow>
     config code I initial_task idle_task \<and> code (im_name_server I) = name_server_prog I
     \<and> code (im_clock_server I) = clock_server_prog I \<and> code (im_clock_server_tick I) = clock_server_tick_prog I
     \<and> code (im_k3_client I) = k3_client I
     \<and> im_string I (im_clock_name I) = ascii ''clock_server'' \<and> im_string I (im_clock_name_k3 I) = ascii ''clock_server''
     \<and> length (ht_data (ns_table (im_names I))) = 64 \<and> length (ht_used (ns_table (im_names I))) = 64
     \<and> length (mp_unused (cs_pool (im_clock I))) = MEMORY_POOL_CHUNKS"

definition start_lines :: "(task_ptr \<times> line) list" where
  "start_lines = (3, clock_line) # map said (take 4 client_numbers)"

lemma start_scene:
  assumes "linked code I u i"
  shows "\<exists>M. u_run code 62 [] (boot_machine u i) = Some (start_lines, M) \<and> scene code I 0 first_clients M"
proof -
  note c = assms [unfolded linked_def config_def]
  obtain N0 where n0: "name_server_init (im_names I) 2 = Inr N0" "names_good 0 N0" "\<And>nm. registered N0 nm = None"
    using name_init_ok [of "im_names I" 2 0] c by blast
  let ?reg = "name_msg I ''RegisterAs'' REGISTER_AS (im_clock_name I) 3"
  let ?N1 = "after (name_step I N0 3 ?reg)"
  note reg = register_step [where I = I and nm = "im_clock_name I" and fn = "''RegisterAs''" and t = 3 and v = 3, OF n0(2) n0(3)]
  have who: "name_step I ?N1 t (name_msg I ''WhoIs'' WHO_IS (im_clock_name_k3 I) t)
      = Inr (?N1, [], [(t, put32 16 3 (name_msg I ''WhoIs'' WHO_IS (im_clock_name_k3 I) t))])" for t
    by (rule who_is_step [OF reg(3) [where k = 0]]) (use reg(2) c in simp)
  let ?C0 = "clock_server_init (im_clock I)"
  let ?C1 = "delayed ?C0 4 10"
  let ?C2 = "delayed ?C1 5 23"
  let ?C3 = "delayed ?C2 6 33"
  let ?C4 = "delayed ?C3 7 71"
  have c0: "clock_inv ?C0" "clock_waiting ?C0 = []" "cs_ticks ?C0 = 0" using clock_init_ok [of "im_clock I"] c by simp_all
  have c1: "clock_step ?C0 4 (clock_msg DELAY 10) = Inr (?C1, [], [])" "clock_inv ?C1" "cs_ticks ?C1 = 0" "mset (clock_waiting ?C1) = {#(4, 10)#}"
    using clock_delay_step [OF c0(1), of 10 4] c0 by (simp_all add: mset_place)
  have "length (clock_waiting ?C1) = 1" using c1(4) by (metis size_mset size_single)
  then have c2: "clock_step ?C1 5 (clock_msg DELAY 23) = Inr (?C2, [], [])" "clock_inv ?C2" "cs_ticks ?C2 = 0"
    "mset (clock_waiting ?C2) = {#(5, 23), (4, 10)#}"
    using clock_delay_step [OF c1(2), of 23 5] c1 by (simp_all add: mset_place)
  have "length (clock_waiting ?C2) = 2" using c2(4) by (simp flip: size_mset)
  then have c3: "clock_step ?C2 6 (clock_msg DELAY 33) = Inr (?C3, [], [])" "clock_inv ?C3" "cs_ticks ?C3 = 0"
    "mset (clock_waiting ?C3) = {#(6, 33), (5, 23), (4, 10)#}"
    using clock_delay_step [OF c2(2), of 33 6] c2 by (simp_all add: mset_place)
  have "length (clock_waiting ?C3) = 3" using c3(4) by (simp flip: size_mset)
  then have c4: "clock_step ?C3 7 (clock_msg DELAY 71) = Inr (?C4, [], [])" "clock_inv ?C4" "cs_ticks ?C4 = 0"
    "mset (clock_waiting ?C4) = {#(7, 71), (6, 33), (5, 23), (4, 10)#}"
    using clock_delay_step [OF c3(2), of 71 7] c3 by (simp_all add: mset_place)
  let ?us = "[client_waits 4 10 19, client_waits 5 23 8, client_waits 6 33 5, client_waits 7 71 2]"
  let ?M = "point (Some 3) [1, 2, 3, 4, 5, 6, 7, 8] [WATIREPLY, WATIREPLY, WATIREPLY, WATIREPLY] [Some 24, Some 24, Some 24, Some 24, Some 3]
        [Answered (Answer 8 0 []) (\<lambda>_. k3_serve_clients ((replicate 64 None)[4 := Some 0, 5 := Some 1, 6 := Some 2, 7 := Some 3]) 0),
         Fresh i, name_server_waits I ?N1, clock_server_waits ?C4, client_waits 4 10 19, client_waits 5 23 8, client_waits 6 33 5,
         client_waits 7 71 2, notifier_waits (get32 4 (junk I ''clock_server_tick'' 3 8))]"
  have run: "u_run code 62 [] (boot_machine u i) = Some (
      [(3, clock_line), (4, client_line 4 10 20), (5, client_line 5 23 9), (6, client_line 6 33 6), (7, client_line 7 71 3)], ?M)"
    by (rule start [where ?N0.0 = N0]) (use c n0(1) reg(1) who c1(1) c2(1) c3(1) c4(1) in simp_all)
  have w: "waiting first_clients = [0, 1, 2, 3]" by (simp add: waiting_def first_clients_def numeral_eq_Suc)
  have cl: "scene_clients 0 first_clients [WATIREPLY, WATIREPLY, WATIREPLY, WATIREPLY] ?us"
    unfolding scene_clients_def
  proof (intro allI impI)
    fix j r assume j: "j < (4 :: nat)" "first_clients ! j = Some r"
    show "r < unat (client_nums ! j) \<and> 0 < wake_time j r \<and> [WATIREPLY, WATIREPLY, WATIREPLY, WATIREPLY] ! j = WATIREPLY
        \<and> ?us ! j = client_waits (word_of_nat (4 + j)) (client_delays ! j) (word_of_nat r)"
      using less_4 [OF j(1)] j(2)
      by (elim insertE emptyE) (auto simp: first_clients_def client_nums_def client_delays_def wake_times simp del: One_nat_def)
  qed
  have ck: "scene_clock 0 first_clients ?C4"
  proof -
    have "map (clock_entry first_clients) (waiting first_clients) = [(4, 10), (5, 23), (6, 33), (7, 71)]"
      unfolding w by (simp add: clock_entry_def first_clients_def wake_times del: One_nat_def)
    then show ?thesis using c4 by (simp add: scene_clock_def)
  qed
  have "scene code I 0 first_clients ?M"
    unfolding scene_def
    by (intro exI [of _ "Some 3"] exI [of _ "[WATIREPLY, WATIREPLY, WATIREPLY, WATIREPLY]"] exI [of _ "[Some 24, Some 24, Some 24, Some 24]"]
        exI [of _ 3] exI [of _ "Answered (Answer 8 0 []) (\<lambda>_. k3_serve_clients ((replicate 64 None)[4 := Some 0, 5 := Some 1, 6 := Some 2, 7 := Some 3]) 0)"]
        exI [of _ "Fresh i"] exI [of _ "name_server_waits I ?N1"] exI [of _ ?C4] exI [of _ ?us] exI conjI)
      (use cl ck c in \<open>simp_all add: live_jobs_def w first_clients_def [symmetric] idle_prog_def idle_state_def\<close>, simp_all add: first_clients_def)
  moreover have "start_lines = [(3, clock_line), (4, client_line 4 10 20), (5, client_line 5 23 9), (6, client_line 6 33 6), (7, client_line 7 71 3)]"
    by (simp add: start_lines_def client_numbers_def said_def client_delays_def)
  ultimately show ?thesis using run by auto
qed

end
