(* ===== verification/Program_Output.thy ===== *)
theory Program_Output
  imports Program_Transcript
begin

text \<open>
  What the configured program prints on the kernel: the section \<^verbatim>\<open>Output\<close> of \<^verbatim>\<open>README.md\<close>, but for
  the percentages in the reports of the idle task, which are measured; and that the program goes on.
\<close>

subsection \<open>What the program prints\<close>

definition numbers_in :: "(nat + nat \<times> nat) list \<Rightarrow> (nat \<times> nat) list" where
  "numbers_in xs = concat (map (\<lambda>x. case x of Inl t \<Rightarrow> [] | Inr c \<Rightarrow> [c]) xs)"

lemma numbers_items: "numbers_in (items t ts) = concat (map fst ts)"
proof -
  have "numbers_in (xs @ ys) = numbers_in xs @ numbers_in ys" "numbers_in (map Inr ls) = ls" "numbers_in [Inl k] = []" "numbers_in [] = []"
    for xs ys ls k
    by (simp_all add: numbers_in_def comp_def)
  then show ?thesis by (induction t ts rule: items.induct) simp_all
qed

lemmas first_items = summary_ticks [OF first_summary, THEN conjunct2, THEN conjunct1, unfolded append_Nil, symmetric]

lemma first_ticks:
  "one_due 213 0 first_clients" "concat (map fst (ticks 213 0 first_clients)) = drop 4 client_numbers"
  "rounds_of (ticks 213 0 first_clients) = 1175" "clients_after 213 0 first_clients = gone"
proof -
  have "numbers_in (items 0 (ticks 213 0 first_clients)) = drop 4 client_numbers"
    unfolding first_items by (simp add: client_numbers_def numbers_in_def)
  then show "concat (map fst (ticks 213 0 first_clients)) = drop 4 client_numbers" by (simp only: numbers_items)
qed (use summary_ticks [OF first_summary] in simp_all)

lemma later_ticks: "one_due (213 + k) 0 first_clients"
  "ticks (213 + k) 0 first_clients = ticks 213 0 first_clients @ replicate k ([], 5)"
  using first_ticks ticks_gone [of k 213] by (simp_all only: one_due_add ticks_add add_0)

lemma every_one_due: "one_due k 0 first_clients"
proof (cases "k \<le> 213")
  case True
  then have "one_due (k + (213 - k)) 0 first_clients" using first_ticks(1) by simp
  then show ?thesis unfolding one_due_add by simp
next
  case False
  then show ?thesis using later_ticks(1) [of "k - 213"] by simp
qed

text \<open>The lines of the servers and the clients, as against those of the idle task.\<close>

definition printed :: "(task_ptr \<times> line) list \<Rightarrow> bytes res list" where
  "printed out = map (line_text \<circ> snd) (filter (\<lambda>l. fst l \<noteq> 1) out)"

lemma printed_append: "printed (xs @ ys) = printed xs @ printed ys"
  by (simp add: printed_def)

lemma printed_prefix: "prefix xs ys \<Longrightarrow> prefix (printed xs) (printed ys)"
  by (auto simp: prefix_def printed_append)

lemma printed_said: "printed (map said ls) = map (line_text \<circ> snd \<circ> said) ls"
proof -
  have "filter (\<lambda>l. fst l \<noteq> 1) (map said ls) = map said ls" by (simp add: filter_id_conv said_def)
  then show ?thesis by (simp add: printed_def)
qed

lemma printed_reports: "printed (map (Pair 1) ls) = []"
  by (simp add: printed_def)

lemma printed_transcript: "printed (transcript I t ts) = map (line_text \<circ> snd \<circ> said) (concat (map fst ts))"
  by (induction I t ts rule: transcript.induct) (simp_all add: printed_append printed_said printed_reports comp_def del: One_nat_def, simp add: printed_def)

definition readme_texts :: "bytes res list" where
  "readme_texts = map (\<lambda>s. Inr (ascii (ln s))) readme_lines"

lemma printed_program:
  "printed (start_lines @ transcript I 0 (ticks k 0 first_clients))
     = take 1 readme_texts @ map (line_text \<circ> snd \<circ> said) (take 4 client_numbers @ concat (map fst (ticks k 0 first_clients)))"
proof -
  have "printed ((3, clock_line) # xs) = line_text clock_line # printed xs" for xs by (simp add: printed_def)
  moreover have "take 1 readme_texts = [line_text clock_line]" by (simp add: readme_texts_def readme_lines_def readme_def clock_line_text)
  ultimately show ?thesis by (simp add: start_lines_def printed_append printed_said printed_transcript)
qed

lemma printed_complete: "213 \<le> k \<Longrightarrow> printed (start_lines @ transcript I 0 (ticks k 0 first_clients)) = readme_texts"
proof -
  assume "213 \<le> k"
  then have "ticks k 0 first_clients = ticks 213 0 first_clients @ replicate (k - 213) ([], 5)" using later_ticks(2) [of "k - 213"] by simp
  moreover have "concat (map fst (replicate j ([], 5 :: nat))) = ([] :: (nat \<times> nat) list)" for j by (induction j) simp_all
  ultimately have "concat (map fst (ticks k 0 first_clients)) = drop 4 client_numbers" using first_ticks(2) by simp
  then have "printed (start_lines @ transcript I 0 (ticks k 0 first_clients)) = take 1 readme_texts @ map (line_text \<circ> snd \<circ> said) client_numbers"
    unfolding printed_program by (simp only: append_take_drop_id)
  moreover have r: "readme_texts = line_text clock_line # map (line_text \<circ> snd \<circ> said) client_numbers"
    using readme_text by (simp add: readme_texts_def comp_def)
  have "take 1 readme_texts = [line_text clock_line]" unfolding r by simp
  ultimately show ?thesis using r by simp
qed

lemma printed_so_far: "prefix (printed (start_lines @ transcript I 0 (ticks k 0 first_clients))) readme_texts"
proof -
  have "ticks (k + 213) 0 first_clients = ticks k 0 first_clients @ ticks 213 (0 + k) (clients_after k 0 first_clients)" by (rule ticks_add)
  then have "prefix (printed (start_lines @ transcript I 0 (ticks k 0 first_clients)))
      (printed (start_lines @ transcript I 0 (ticks (k + 213) 0 first_clients)))"
    unfolding printed_program by simp
  then show ?thesis using printed_complete [of "k + 213" I] by simp
qed

text \<open>
  A run of the program prints the transcript: what came before the first tick, then tick by tick; it ends where the
  idle task goes wrong, if it does.
\<close>

lemma rounds_grow: "5 * k \<le> rounds_of (ticks k t cl)"
proof (induction k arbitrary: t cl)
  case (Suc k)
  obtain ls cl' n where a: "answer_due (due (Suc t) cl) cl = (ls, cl', n)" by (metis prod_cases3)
  then have "5 \<le> n" by (cases "due (Suc t) cl") (auto split: option.splits nat.splits)
  then show ?case using a Suc [of "Suc t" cl'] by (simp add: rounds_of_def)
qed simp

lemma machine_transcript:
  assumes "linked code I u i"
  shows "(\<exists>M'. u_run code (62 + rounds_of (ticks k 0 first_clients)) [] (boot_machine u i)
        = Some (start_lines @ transcript I 0 (ticks k 0 first_clients), M') \<and> idle_fine I 0 k)
    \<or> (\<exists>j<k. \<exists>M'. u_run code (62 + rounds_of (ticks j 0 first_clients)) [] (boot_machine u i)
        = Some (start_lines @ transcript I 0 (ticks j 0 first_clients), M') \<and> u_stuck code M' \<and> (\<exists>e. idle_state I j = Inl e)
          \<and> idle_fine I 0 j)"
proof -
  from start_scene [OF assms] obtain M where M: "u_run code 62 [] (boot_machine u i) = Some (start_lines, M)" "scene code I 0 first_clients M"
    by blast
  from scene_ticks [OF M(2) every_one_due, of k] u_run_then [OF M(1)] show ?thesis by (elim disjE exE conjE) (fastforce, fastforce)
qed

lemma program_transcript:
  assumes fresh: "fresh_system S" and boot: "boot S chi clo u i = Inr S0" and link: "linked code I u i"
    and run: "user_run code S0 start_users n out S' Us'"
  shows "\<exists>k. prefix out (start_lines @ transcript I 0 (ticks k 0 first_clients)) \<and> idle_fine I 0 k"
    and "62 + rounds_of (ticks k 0 first_clients) \<le> n \<Longrightarrow> prefix (start_lines @ transcript I 0 (ticks k 0 first_clients)) out \<and> idle_fine I 0 k"
proof -
  note b = booted_machine [OF fresh boot]
  note cmp = run_compared [OF run, of "boot_machine u i"]
  show "\<exists>k. prefix out (start_lines @ transcript I 0 (ticks k 0 first_clients)) \<and> idle_fine I 0 k"
    using machine_transcript [OF link, of n]
  proof (elim disjE exE conjE)
    fix M' assume m: "u_run code (62 + rounds_of (ticks n 0 first_clients)) [] (boot_machine u i)
        = Some (start_lines @ transcript I 0 (ticks n 0 first_clients), M')" "idle_fine I 0 n"
    have "n \<le> 62 + rounds_of (ticks n 0 first_clients)" using rounds_grow [of n 0 first_clients] by simp
    with cmp(2) [OF _ _ m(1)] b m(2) show ?thesis by blast
  next
    fix j M' e assume m: "u_run code (62 + rounds_of (ticks j 0 first_clients)) [] (boot_machine u i)
        = Some (start_lines @ transcript I 0 (ticks j 0 first_clients), M')" "u_stuck code M'" "idle_fine I 0 j"
    then have "n \<le> 62 + rounds_of (ticks j 0 first_clients)" using cmp(3) [OF _ _ m(1)] b by (metis not_le)
    with cmp(2) [OF _ _ m(1)] b m(3) show ?thesis by blast
  qed
  show "prefix (start_lines @ transcript I 0 (ticks k 0 first_clients)) out \<and> idle_fine I 0 k" if n: "62 + rounds_of (ticks k 0 first_clients) \<le> n"
    using machine_transcript [OF link, of k]
  proof (elim disjE exE conjE)
    fix M' assume m: "u_run code (62 + rounds_of (ticks k 0 first_clients)) [] (boot_machine u i)
        = Some (start_lines @ transcript I 0 (ticks k 0 first_clients), M')" "idle_fine I 0 k"
    with cmp(1) [OF _ _ m(1) n] b show ?thesis by blast
  next
    fix j M' e assume m: "j < k" "u_run code (62 + rounds_of (ticks j 0 first_clients)) [] (boot_machine u i)
        = Some (start_lines @ transcript I 0 (ticks j 0 first_clients), M')" "u_stuck code M'"
    have "rounds_of (ticks (j + (k - j)) 0 first_clients) = rounds_of (ticks j 0 first_clients) + rounds_of (ticks (k - j) j (clients_after j 0 first_clients))"
      by (simp only: ticks_add rounds_of_def map_append sum_list.append add_0)
    then have "rounds_of (ticks j 0 first_clients) < rounds_of (ticks k 0 first_clients)"
      using rounds_grow [of "k - j" j "clients_after j 0 first_clients"] m(1) by simp
    then show ?thesis using cmp(3) [OF _ _ m(2)] m(3) b n by simp
  qed
qed

lemma program_output:
  assumes "fresh_system S" and "boot S chi clo u i = Inr S0" and "linked code I u i"
    and "user_run code S0 start_users n out S' Us'"
  shows "prefix (printed out) readme_texts \<and> (1237 \<le> n \<longrightarrow> printed out = readme_texts)"
proof -
  from program_transcript(1) [OF assms] obtain k where "prefix out (start_lines @ transcript I 0 (ticks k 0 first_clients))" by blast
  then have p: "prefix (printed out) readme_texts" using printed_prefix printed_so_far prefix_order.trans by blast
  moreover have "printed out = readme_texts" if n: "1237 \<le> n"
  proof -
    have "prefix (start_lines @ transcript I 0 (ticks 213 0 first_clients)) out"
      using program_transcript(2) [OF assms, of 213] n first_ticks(3) by simp
    from printed_prefix [OF this] have "prefix readme_texts (printed out)" using printed_complete [of 213 I] by simp
    with p show ?thesis by (rule prefix_order.antisym)
  qed
  ultimately show ?thesis by blast
qed

subsection \<open>The reports of the idle task\<close>

fun item_shown :: "nat + nat \<times> nat \<Rightarrow> task_ptr \<times> line \<Rightarrow> bool" where
  "item_shown (Inl n) x \<longleftrightarrow> (\<exists>share. x = (1, report_line (word_of_nat n, share)))"
| "item_shown (Inr c) x \<longleftrightarrow> x = said c"

lemma reports_shown:
  assumes "idle_state I t = Inr p"
  shows "list_all2 item_shown (if t mod 50 = 0 then [Inl t] else []) (map (Pair 1) (reports I t))"
proof -
  obtain S rs where p: "p = (S, rs)" by (cases p)
  from idle_state_count [OF assms [unfolded p]] have "map fst rs = (if t mod 50 = 0 then [word_of_nat t] else [])" by simp
  then show ?thesis by (auto simp: reports_def assms p map_eq_Cons_conv) blast
qed

lemma transcript_items: "idle_fine I t (length ts) \<Longrightarrow> list_all2 item_shown (items t ts) (transcript I t ts)"
proof (induction t ts rule: items.induct)
  case (2 t ls n ts)
  then obtain p where p: "idle_state I t = Inr p" and fine: "idle_fine I (Suc t) (length ts)" by (auto simp: idle_fine_Suc)
  have "list_all2 item_shown (map Inr ls) (map said ls)" by (simp add: list_all2_map1 list_all2_map2 list.rel_refl)
  with reports_shown [OF p] "2.IH" [OF fine] show ?case by (simp add: list_all2_appendI)
qed simp

text \<open>The lines of the first 601 ticks are those of \<^verbatim>\<open>README.md\<close>.\<close>

fun item_line :: "readme_line \<Rightarrow> nat + nat \<times> nat \<Rightarrow> bool" where
  "item_line (Share n) (Inl m) \<longleftrightarrow> n = m"
| "item_line (Line s) (Inr c) \<longleftrightarrow> line_text (snd (said c)) = Inr (ascii (ln s))"
| "item_line r x \<longleftrightarrow> False"

lemma item_line_shown: "item_line r x \<Longrightarrow> item_shown x y \<Longrightarrow> shows_line r y"
  by (cases r; cases x; cases y) (auto simp: said_def)

lemma items_gone: "items t (replicate k ([], n)) = map Inl (filter (\<lambda>t. t mod 50 = 0) [t..<t + k])"
  by (induction k arbitrary: t) (simp_all add: upt_conv_Cons del: upt_Suc)

lemma no_reports: "(\<And>t. a \<le> t \<Longrightarrow> t < b \<Longrightarrow> t mod 50 \<noteq> 0) \<Longrightarrow> filter (\<lambda>t. t mod 50 = 0) [a..<b] = ([] :: nat list)"
  by (auto simp: filter_empty_conv)

lemma between_reports:
  assumes "50 * k < t" and "t < 50 * k + (50 :: nat)"
  shows "t mod 50 \<noteq> 0"
proof -
  have "t div 50 = k" by (rule div_nat_eqI) (use assms in simp_all)
  then show ?thesis using div_mult_mod_eq [of t 50] assms by linarith
qed

lemma block_reports: "filter (\<lambda>t. t mod 50 = 0) [50 * k..<50 * k + 50] = [50 * k :: nat]"
proof -
  have "filter (\<lambda>t. t mod 50 = 0) [Suc (50 * k)..<50 * k + 50] = []" by (rule no_reports, rule between_reports [of k]) simp_all
  then show ?thesis by (simp add: upt_conv_Cons)
qed

lemma blocks_reports: "filter (\<lambda>t. t mod 50 = 0) [50 * a..<50 * (a + n)] = map (\<lambda>k. 50 * k) [a..<a + n :: nat]"
proof (induction n)
  case (Suc n)
  have "[50 * a..<50 * (a + Suc n)] = [50 * a..<50 * (a + n)] @ [50 * (a + n)..<50 * (a + n) + 50]"
    using upt_add_eq_append [of "50 * a" "50 * (a + n)" 50] by (simp add: add.commute)
  then show ?case using Suc block_reports [of "a + n"] by simp
qed simp


lemma last_reports: "filter (\<lambda>t. t mod 50 = 0) [213..<601] = [250, 300, 350, 400, 450, 500, 550, 600 :: nat]"
proof -
  have "[213..<601 :: nat] = [213..<250] @ [250..<600] @ [600..<601]"
    using upt_add_eq_append [of 213 250 350] upt_add_eq_append [of 213 600 1] by (simp del: upt_rec_numeral)
  moreover have "filter (\<lambda>t. t mod 50 = 0) [213..<250] = ([] :: nat list)"
    by (rule no_reports, rule between_reports [of 4]) simp_all
  moreover have "filter (\<lambda>t. t mod 50 = 0) [250..<600] = map (\<lambda>k. 50 * k) [5..<12 :: nat]"
    using blocks_reports [of 5 7] by (simp del: upt_rec_numeral)
  moreover have "filter (\<lambda>t. t mod 50 = 0) [600..<601] = [600 :: nat]" "[5..<12] = [5, 6, 7, 8, 9, 10, 11 :: nat]"
    by simp_all
  ultimately show ?thesis by (simp del: upt_rec_numeral)
qed

lemma readme_items: "list_all2 item_line (drop 5 readme) (items 0 (ticks 601 0 first_clients))"
proof -
  have "ticks (213 + 388) 0 first_clients = ticks 213 0 first_clients @ replicate 388 ([], 5)" by (rule later_ticks(2))
  then have "items 0 (ticks 601 0 first_clients) = items 0 (ticks 213 0 first_clients) @ map Inl (filter (\<lambda>t. t mod 50 = 0) [213..<601])"
    using items_append [of 0 "ticks 213 0 first_clients" "replicate 388 ([], 5)"] by (simp add: items_gone del: upt_rec_numeral)
  then show ?thesis
    unfolding last_reports first_items
    by (simp add: readme_def said_def client_line_text [where k = "numeral m" for m, unfolded of_nat_numeral] client_delays_def
        number_text_def digits_of.simps ascii_def ln_def)
qed

lemma readme_start: "list_all2 shows_line (take 5 readme) start_lines"
  by (simp add: readme_def start_lines_def clock_line_text said_def client_numbers_def
      client_line_text [where k = "numeral m" for m, unfolded of_nat_numeral] client_delays_def
      number_text_def digits_of.simps ascii_def ln_def)

lemma fine_less: "idle_fine I t k \<Longrightarrow> j \<le> k \<Longrightarrow> idle_fine I t j"
  by (auto simp: idle_fine_def)

lemma transcript_append: "transcript I t (as @ bs) = transcript I t as @ transcript I (t + length as) bs"
  by (induction I t as rule: transcript.induct) simp_all

text \<open>The lines of fewer ticks come first.\<close>

lemma shown_transcript:
  assumes fine: "idle_fine I 0 k" and k: "k \<le> 601"
  shows "\<exists>ys. list_all2 shows_line readme (start_lines @ transcript I 0 (ticks k 0 first_clients) @ ys)"
proof -
  let ?ts = "ticks k 0 first_clients" and ?us = "ticks (601 - k) k (clients_after k 0 first_clients)"
  have t: "ticks 601 0 first_clients = ?ts @ ?us" using ticks_add [of k "601 - k" 0 first_clients] k by simp
  have "\<exists>ys. list_all2 item_shown xs ys" for xs
  proof (induction xs)
    case (Cons x xs)
    have "\<exists>y. item_shown x y" by (cases x; hypsubst; unfold item_shown.simps; blast)
    with Cons show ?case by (meson list_all2_Cons)
  qed simp
  then obtain ys where "list_all2 item_shown (items k ?us) ys" by blast
  with transcript_items [of I 0 ?ts] fine have "list_all2 item_shown (items 0 (?ts @ ?us)) (transcript I 0 ?ts @ ys)"
    by (simp add: items_append list_all2_appendI)
  from list_all2_trans [OF item_line_shown readme_items [unfolded t] this]
  have "list_all2 shows_line (take 5 readme @ drop 5 readme) (start_lines @ transcript I 0 ?ts @ ys)"
    by (intro list_all2_appendI readme_start)
  then show ?thesis by auto
qed

lemma shown_all: "idle_fine I 0 601 \<Longrightarrow> list_all2 shows_line readme (start_lines @ transcript I 0 (ticks 601 0 first_clients))"
proof -
  assume "idle_fine I 0 601"
  then have "list_all2 item_shown (items 0 (ticks 601 0 first_clients)) (transcript I 0 (ticks 601 0 first_clients))"
    using transcript_items [of I 0 "ticks 601 0 first_clients"] by simp
  from list_all2_appendI [OF readme_start list_all2_trans [OF item_line_shown readme_items this]] show ?thesis by simp
qed

lemma shown_compare:
  assumes "list_all2 P xs zs" and "prefix out zs \<or> prefix zs out"
  shows "list_all2 P (take (length out) xs) (take (length xs) out)"
proof -
  have len: "length xs = length zs" using assms(1) by (rule list_all2_lengthD)
  show ?thesis
    using assms(2)
  proof
    assume "prefix out zs"
    then obtain ws where "zs = out @ ws" by (auto simp: prefix_def)
    with list_all2_takeI [OF assms(1), of "length out"] len show ?thesis by simp
  next
    assume "prefix zs out"
    then obtain ws where "out = zs @ ws" by (auto simp: prefix_def)
    with assms(1) len show ?thesis by simp
  qed
qed

lemma program_readme:
  assumes "fresh_system S" and "boot S chi clo u i = Inr S0" and "linked code I u i"
    and "user_run code S0 start_users n out S' Us'"
  shows "list_all2 shows_line (take (length out) readme) (take (length readme) out)" and "3177 \<le> n \<Longrightarrow> length readme \<le> length out"
proof -
  from program_transcript(1) [OF assms] obtain k where
    k: "prefix out (start_lines @ transcript I 0 (ticks k 0 first_clients))" "idle_fine I 0 k" by blast
  have "\<exists>zs. list_all2 shows_line readme zs \<and> (prefix out zs \<or> prefix zs out)"
  proof (cases "k \<le> 601")
    case True
    with shown_transcript [OF k(2)] obtain ys where
      "list_all2 shows_line readme (start_lines @ transcript I 0 (ticks k 0 first_clients) @ ys)" by blast
    moreover have "prefix out (start_lines @ transcript I 0 (ticks k 0 first_clients) @ ys)"
      using k(1) prefix_prefix [of out "start_lines @ transcript I 0 (ticks k 0 first_clients)" ys] by simp
    ultimately show ?thesis by blast
  next
    case False
    let ?zs = "start_lines @ transcript I 0 (ticks 601 0 first_clients)"
    have "prefix ?zs (start_lines @ transcript I 0 (ticks k 0 first_clients))"
      using ticks_add [of 601 "k - 601" 0 first_clients] False by (simp add: transcript_append)
    then have "prefix out ?zs \<or> prefix ?zs out" using k(1) by (rule prefix_same_cases [OF _ _, THEN disj_commute [THEN iffD1]])
    moreover have "list_all2 shows_line readme ?zs" using shown_all fine_less [OF k(2)] False by simp
    ultimately show ?thesis by blast
  qed
  then show "list_all2 shows_line (take (length out) readme) (take (length readme) out)" using shown_compare by blast
  assume "3177 \<le> n"
  moreover have "rounds_of (ticks 601 0 first_clients) = 3115"
    using later_ticks(2) [of 388] first_ticks(3) by (simp add: rounds_of_def sum_list_replicate)
  ultimately have "prefix (start_lines @ transcript I 0 (ticks 601 0 first_clients)) out" "idle_fine I 0 601"
    using program_transcript(2) [OF assms, of 601] by simp_all
  with list_all2_lengthD [OF shown_all] show "length readme \<le> length out" by (metis prefix_length_le)
qed

subsection \<open>The program gets there\<close>

definition idle_paced :: "Image \<Rightarrow> nat \<Rightarrow> bool" where
  "idle_paced I n \<longleftrightarrow> metered 0 (sys_clock_boot_time (im_clocks I) 1) (sys_clock_boot_time (im_clocks I) 1) (map (im_idle I) [0..<n])"

lemma metered_append: "metered k r x (as @ bs) \<Longrightarrow> metered k r x as"
  by (induction k r x as rule: metered.induct) auto

lemma idle_rounds_append: "idle_rounds S (as @ bs)
    = bindE (idle_rounds S as) (\<lambda>(S, rs). bindE (idle_rounds S bs) (\<lambda>(S, more). Inr (S, rs @ more)))"
  by (induction S as rule: idle_rounds.induct) (auto simp: bindE_def split: sum.splits prod.splits)

lemma idle_state_rounds: "idle (im_clocks I) idle_zero (map (im_idle I) [0..<n]) = Inr (S, rs) \<Longrightarrow> idle_state I n = idle_enter I n S"
proof (induction n arbitrary: S rs)
  case 0
  then show ?case by (auto simp: idle_def idle_state_def idle_start_def bindE_eq_Inr_iff)
next
  case (Suc n)
  obtain enter reported exit where x: "im_idle I n = (enter, reported, exit)" by (metis prod_cases3)
  from Suc.prems obtain S0 S1 rs1 S2 rs2 where s: "idle_setup (im_clocks I) idle_zero = Inr S0" "idle_rounds S0 (map (im_idle I) [0..<n]) = Inr (S1, rs1)"
    "idle_after_enter S1 enter reported = Inr (S2, rs2)" "S = idle_before_exit S2 exit"
    by (auto simp: idle_def idle_rounds_append x bindE_eq_Inr_iff)
  then have "idle_state I n = idle_enter I n S1" by (intro Suc.IH [of S1 rs1]) (simp add: idle_def)
  with s(3,4) show ?case by (simp add: idle_state_def idle_enter_def idle_again_def x)
qed

lemma idle_goes_on:
  assumes "idle_paced I (Suc n)" and "n < 2 ^ 31 - 1"
  shows "\<exists>p. idle_state I n = Inr p"
proof -
  obtain S rs where "idle (im_clocks I) idle_zero (map (im_idle I) [0..<Suc n]) = Inr (S, rs)"
    using idle_ok [of idle_zero "im_clocks I" "map (im_idle I) [0..<Suc n]"] assms by (auto simp: idle_paced_def idle_zero_def)
  then obtain S1 rs1 p where s: "idle (im_clocks I) idle_zero (map (im_idle I) [0..<n]) = Inr (S1, rs1)" "idle_enter I n S1 = Inr p"
    by (cases "im_idle I n") (auto simp: idle_def idle_rounds_append bindE_eq_Inr_iff idle_enter_def)
  with idle_state_rounds [OF s(1)] show ?thesis by simp
qed

lemma idle_paced_less: "idle_paced I n \<Longrightarrow> m \<le> n \<Longrightarrow> idle_paced I m"
  using metered_append [of 0 _ _ "map (im_idle I) [0..<m]" "map (im_idle I) [m..<n]"] upt_add_eq_append [of 0 m "n - m"]
  by (simp add: idle_paced_def flip: map_append)

text \<open>The program goes on as long as the idle task does: it never stops.\<close>

lemma program_goes_on:
  assumes fresh: "fresh_system S" and boot: "boot S chi clo u i = Inr S0" and link: "linked code I u i"
    and time: "unat (sys_timer_full_count chi clo) < 2 ^ 63" and idle: "idle_paced I n" and n: "n < 2 ^ 31"
  shows "\<exists>out S' Us'. user_run code S0 start_users n out S' Us'"
proof -
  have "\<exists>p. idle_state I j = Inr p" if "j < n" for j
    using idle_goes_on [OF idle_paced_less [OF idle, of "Suc j"]] that n by simp
  then have "\<nexists>e. idle_state I j = Inl e" if "j < n" for j using that by (metis sum.distinct(1))
  with machine_transcript [OF link, of n] obtain out M where
    "u_run code (62 + rounds_of (ticks n 0 first_clients)) [] (boot_machine u i) = Some (out, M)" by auto
  moreover have "n \<le> 62 + rounds_of (ticks n 0 first_clients)" using rounds_grow [of n 0 first_clients] by simp
  ultimately obtain out1 M1 where "u_run code n [] (boot_machine u i) = Some (out1, M1)" using u_run_take by blast
  from run_there [OF fresh boot time this] n show ?thesis by auto
qed

end
