(* ===== verification/Demo_Code.thy ===== *)
theory Demo_Code
  imports Task_Code
begin

text \<open>
  The other tasks of the directory \<^verbatim>\<open>tasks\<close>, which the kernel can be configured to start with instead, as
  programs.  Where C leaves open in which order the arguments of a call are evaluated, they are evaluated from left
  to right; they print nothing.
\<close>

subsection \<open>\<^verbatim>\<open>k1_user_tasks.c\<close>\<close>

definition line_break :: "string \<Rightarrow> string" where
  "line_break s = ln s @ [CHR 0x0A]"

definition tids_line :: "i32 \<Rightarrow> i32 \<Rightarrow> line" where
  "tids_line tid parent = (line_break ''Tid: %d, ParentTid: %d'', [A_int tid, A_int parent])"

definition k1_demo_user_task :: "Statics \<Rightarrow> prog" where
  "k1_demo_user_task g =
     Call [] g MyTid (\<lambda>a g. Call [] g MyParentTid (\<lambda>b g.
     Call [tids_line (an_result a) (an_result b)] g Yield (\<lambda>_ g.
     Call [] g MyTid (\<lambda>a g. Call [] g MyParentTid (\<lambda>b g.
     Call [tids_line (an_result a) (an_result b)] g Exit (\<lambda>_ _. Undefined))))))"

definition k1_priorities :: "i32 list" where "k1_priorities = [5 - 2, 5 - 1, 5 + 1, 5 + 2]"

definition created_line :: "i32 \<Rightarrow> line" where
  "created_line tid = (line_break ''Created: %d'', [A_int tid])"

fun k1_create :: "Image \<Rightarrow> i32 list \<Rightarrow> Statics \<Rightarrow> prog" where
  "k1_create I [] g = Call [(line_break ''FirstUserTask: exiting'', [])] g Exit (\<lambda>_ _. Undefined)"
| "k1_create I (p # ps) g =
     Call [] g (Create p (im_k1_demo I)) (\<lambda>a g. say (created_line (an_result a)) (k1_create I ps g))"

definition k1_first_user_task :: "Image \<Rightarrow> Statics \<Rightarrow> prog" where
  "k1_first_user_task I = k1_create I k1_priorities"

subsection \<open>\<^verbatim>\<open>test_syscall_inside_function.c\<close>\<close>

definition test_id_prog :: "(i32 \<Rightarrow> Statics \<Rightarrow> prog) \<Rightarrow> Statics \<Rightarrow> prog" where
  "test_id_prog rest g =
     Call [] g MyTid (\<lambda>a g. Call [] g MyParentTid (\<lambda>b g. Call [] g MyTid (\<lambda>c g. Call [] g MyParentTid (\<lambda>d g.
     rest ((10 + an_result a + an_result b) * (10 + an_result c - an_result d)) g))))"

definition test_syscall_inside_function :: "Statics \<Rightarrow> prog" where
  "test_syscall_inside_function g =
     say (ln ''Start program'', [])
       (test_id_prog (\<lambda>x g. test_id_prog (\<lambda>y g.
          say (ln ''test tid&pid: %d'', [A_int (x * y)]) (say (ln ''Finishing program'', []) (leave g))) g) g)"

subsection \<open>\<^verbatim>\<open>test_srr.c\<close>\<close>

definition msg_len :: "Statics \<Rightarrow> nat" where
  "msg_len g = nat (sint (st_msg_len g))"

definition task_a :: "Statics \<Rightarrow> prog" where
  "task_a g =
     Call [] g (Receive (msg_len g)) (\<lambda>a g.
     Call [] g (Reply (an_tid a) (take (msg_len g) (char_array 512 ''bye''))) (\<lambda>_ g. leave g))"

definition task_b :: "Image \<Rightarrow> Statics \<Rightarrow> prog" where
  "task_b I g =
     (let time = im_half I (st_receiver_id g)
      in Call [] g (Send (st_receiver_id g) (take (msg_len g) (char_array 512 ''Hello!'')) (msg_len g)) (\<lambda>_ g.
         let delta_time = time 1 - time 0;
             delta_time = delta_time - (time 3 - time 2)
         in say (ln ''Send operation with message size %d took %d microsends'', [A_int (st_msg_len g), A_int (timer_count_to_ms delta_time)])
              (leave g)))"

text \<open>The numbers 1, 3 and 5 are those of the idle task and of the first two tasks \<open>task_b\<close>.\<close>

definition srr_pair :: "Image \<Rightarrow> i32 \<Rightarrow> i32 \<Rightarrow> (Statics \<Rightarrow> prog) \<Rightarrow> Statics \<Rightarrow> prog" where
  "srr_pair I receiver len rest g =
     Call [] (g\<lparr>st_receiver_id := receiver, st_msg_len := len\<rparr>) (Create 8 (im_task_a I)) (\<lambda>_ g.
     Call [] g (Create 8 (im_task_b I)) (\<lambda>_ g. rest g))"

definition test_srr :: "Image \<Rightarrow> Statics \<Rightarrow> prog" where
  "test_srr I g =
     say (ln ''start initial user task'', [])
       (srr_pair I 1 4 (srr_pair I 3 64 (srr_pair I 5 256 leave)) g)"

subsection \<open>\<^verbatim>\<open>test_gic.c\<close>\<close>

text \<open>The measurement error is kept from one call to the next.\<close>

primrec gic_error :: "Image \<Rightarrow> nat \<Rightarrow> u64" where
  "gic_error I 0 = 0"
| "gic_error I (Suc n) = sys_timer_msrmt_error (gic_error I n) (im_error I n)"

definition wait_prog :: "Image \<Rightarrow> nat \<Rightarrow> i32 \<Rightarrow> (Statics \<Rightarrow> prog) \<Rightarrow> Statics \<Rightarrow> prog" where
  "wait_prog I n code rest g =
     Call [(ln ''%d: Start wait'', [A_int code])] g (AwaitEvent 97) (\<lambda>_ g.
     say (ln ''%d: End Wait, time used: %u'', [A_int code, A_long (im_full I (2 * n + 1) - im_full I (2 * n) - gic_error I (Suc n))])
       (rest g))"

definition test_gic :: "Image \<Rightarrow> Statics \<Rightarrow> prog" where
  "test_gic I g =
     say (ln ''Start test_gic'', []) (wait_prog I 0 1 (wait_prog I 1 2 (wait_prog I 2 3 leave)) g)"

text \<open>Tasks of this file that \<^verbatim>\<open>test_gic\<close> no longer creates; the delay loops between their calls do nothing.\<close>

fun subtask_loop :: "nat \<Rightarrow> nat \<Rightarrow> Statics \<Rightarrow> prog" where
  "subtask_loop i 0 g = leave g"
| "subtask_loop i (Suc n) g =
     Call [] g Yield (\<lambda>_ g. Call [] g MyTid (\<lambda>a g.
     say (ln ''%d: %d'', [A_int (an_result a), A_int (word_of_nat i)]) (subtask_loop (i + 1) n g)))"

definition subtask1 :: "Statics \<Rightarrow> prog" where
  "subtask1 g = say (ln ''Start 1'', []) (subtask_loop 0 100 g)"

definition subtask2 :: "Statics \<Rightarrow> prog" where
  "subtask2 g = say (ln ''Start 2'', []) (subtask_loop 0 100 g)"

definition subtask3 :: "Statics \<Rightarrow> prog" where
  "subtask3 g = say (ln ''Start 3'', []) (subtask_loop 0 100 g)"

subsection \<open>\<^verbatim>\<open>task_test_send_receive_result.c\<close>\<close>

text \<open>A string that is printed from a buffer ends with the buffer at the latest.\<close>

definition sender :: "Image \<Rightarrow> Statics \<Rightarrow> prog" where
  "sender I =
     RegisterAs_prog I (im_S1 I) (\<lambda>_. WhoIs_prog I (im_R1_sender I) (\<lambda>to g.
     Call [] g (Send to (char_array 10 ''Hi Friend'') 3) (\<lambda>a g.
     say (ln ''reply from R1: %s (len=%d)'', [A_string (overlay (junk I ''sender'' 0 100) (an_bytes a)), A_int (an_result a)])
       (leave g))))"

definition receiver :: "Image \<Rightarrow> Statics \<Rightarrow> prog" where
  "receiver I =
     RegisterAs_prog I (im_R1 I) (\<lambda>_ g.
     Call [] g (Receive 10) (\<lambda>a g.
     let reply = char_array 19 ''Bye Another Friend''
     in Call [(ln ''received from %d: %s (len=%d)'',
               [A_int (an_tid a), A_string (overlay (junk I ''receiver'' 0 10) (an_bytes a)), A_int (an_result a)])]
          g (Reply (an_tid a) reply) (\<lambda>b g.
        say (ln ''reply to %d: %s (len=%d)'', [A_int (an_tid a), A_string reply, A_int (an_result b)]) (leave g))))"

definition test_send_receive_result :: "Image \<Rightarrow> Statics \<Rightarrow> prog" where
  "test_send_receive_result I g =
     Call [] g (Create 9 (im_name_server I)) (\<lambda>_ g.
     Call [] g (Create 3 (im_sender I)) (\<lambda>_ g.
     Call [] g (Create 3 (im_receiver I)) (\<lambda>_ g. leave g)))"

subsection \<open>\<^verbatim>\<open>name_and_rps_server.c\<close>\<close>

fun rps_create_clients :: "Image \<Rightarrow> nat \<Rightarrow> nat \<Rightarrow> Statics \<Rightarrow> prog" where
  "rps_create_clients I i 0 g = leave g"
| "rps_create_clients I i (Suc n) g =
     Call [] g (Create 7 (im_rps_client I)) (\<lambda>_ g.
     say (ln ''client %lu created'', [A_long (word_of_nat i)]) (rps_create_clients I (i + 1) n g))"

definition name_and_rps_server :: "Image \<Rightarrow> Statics \<Rightarrow> prog" where
  "name_and_rps_server I g =
     Call [(ln ''start initial user task'', [])] g (Create 9 (im_name_server I)) (\<lambda>_ g.
     Call [(ln ''name server created'', [])] g (Create 8 (im_rps_server I)) (\<lambda>_ g.
     say (ln ''rps server created'', []) (rps_create_clients I 0 10 g)))"

end
