(* ===== verification/Demo_Runs.thy ===== *)
theory Demo_Runs
  imports Demo_Code Machine_Execution
begin

text \<open>
  Runs of two demonstration tasks on the kernel: \<^verbatim>\<open>k1_user_tasks.c\<close>, whose tasks run by their
  priorities, and \<^verbatim>\<open>test_syscall_inside_function.c\<close>, in which calls are made within a function.
\<close>

lemmas demo_programs = k1_first_user_task_def k1_priorities_def k1_create.simps k1_demo_user_task_def
  test_syscall_inside_function_def test_id_prog_def leave_def

lemma more_levels: "priority_index (clamp_priority 7) = 7"
  by (simp_all add: clamp_priority_def TASK_PRIORITY_MIN_def TASK_PRIORITY_MAX_def priority_index_def)

definition exiting_line :: line where
  "exiting_line = (line_break ''FirstUserTask: exiting'', [])"

definition k1_lines :: "(task_ptr \<times> line) list" where
  "k1_lines = [(0, created_line 2), (0, created_line 3), (4, tids_line 4 0), (4, tids_line 4 0), (0, created_line 4),
     (5, tids_line 5 0), (5, tids_line 5 0), (0, created_line 5), (0, exiting_line), (3, tids_line 3 0), (3, tids_line 3 0),
     (2, tids_line 2 0), (2, tids_line 2 0)]"

lemma k1_run:
  fixes I :: Image and code :: "u64 \<Rightarrow> Statics \<Rightarrow> prog"
  assumes code: "code u = k1_first_user_task I" "code (im_k1_demo I) = k1_demo_user_task"
  shows "\<exists>M. u_run code 29 [] (boot_machine u i) = Some (k1_lines, M)"
  by (simp add: u_run_numeral demo_programs machine more_levels code boot_machine_def boot_kernel_def k1_lines_def exiting_line_def
      del: One_nat_def list_update.simps(2) u_run.simps(2) 
      cong: Call_cong Blocked_cong Answered_cong)


lemma syscall_run:
  fixes code :: "u64 \<Rightarrow> Statics \<Rightarrow> prog"
  assumes code: "code u = test_syscall_inside_function"
  shows "\<exists>M. u_run code 9 [] (boot_machine u i) = Some ([(0, (ln ''Start program'', [])), (0, (ln ''test tid&pid: %d'', [A_int 9801])),
     (0, (ln ''Finishing program'', []))], M)"
  by (simp add: u_run_numeral demo_programs machine code boot_machine_def boot_kernel_def
      del: One_nat_def list_update.simps(2) u_run.simps(2) 
      cong: Call_cong Blocked_cong Answered_cong)


text \<open>
  In \<^verbatim>\<open>test_srr.c\<close> nobody receives the messages: after 13 rounds every task but the idle task has left or
  waits, and only the first line is printed.
\<close>

lemmas srr_programs = test_srr_def srr_pair_def task_a_def task_b_def msg_len_def Let_def leave_def

lemma high_level: "priority_index (clamp_priority 8) = 8"
  by (simp_all add: clamp_priority_def TASK_PRIORITY_MIN_def TASK_PRIORITY_MAX_def priority_index_def)

lemma length_char_array: "length s \<le> n \<Longrightarrow> length (char_array n s) = n"
  by (simp add: char_array_def ascii_def)

lemma fl_none: "set xs \<subseteq> {d} \<Longrightarrow> fl d xs p = d"
  using nth_mem [of p xs] by (auto simp: fl_def simp del: nth_mem)

lemma srr_run:
  fixes I :: Image and code :: "u64 \<Rightarrow> Statics \<Rightarrow> prog"
  assumes code: "code u = test_srr I" "code (im_task_a I) = task_a" "code (im_task_b I) = task_b I"
  shows "\<exists>M A. u_run code 13 [] (boot_machine u i) = Some ([(0, (ln ''start initial user task'', []))], M)
    \<and> a_schedule (ma_kernel M) = (A, Some 1) \<and> (\<forall>p. a_ready A p = [])"
  by (simp add: u_run_numeral srr_programs machine high_level length_char_array fl_none code boot_machine_def boot_kernel_def
      del: One_nat_def list_update.simps(2) u_run.simps(2)
      cong: Call_cong Blocked_cong Answered_cong)

lemma tids_text:
  assumes k: "k < 2 ^ 31" "j < 2 ^ 31"
  shows "line_text (tids_line (word_of_nat k) (word_of_nat j)) = Inr (ascii ''Tid: '' @ number_text False 10 k @ ascii '', ParentTid: ''
    @ number_text False 10 j @ ascii (line_break []))"
proof -
  let ?ps = "[P_text (ascii ''Tid: ''), P_int False False 0 (word_of_nat k), P_text (ascii '', ParentTid: ''),
     P_int False False 0 (word_of_nat j), P_text (ascii (line_break []))]"
  show ?thesis
    using vs_text_pieces [of ?ps] sint_of_nat_small32 [OF k(1)] sint_of_nat_small32 [OF k(2)]
    by (simp add: line_text_def tids_line_def line_break_def ln_def ascii_def directive_def width_text_def width_ok_def PERCENT_def)
qed

lemma tids_texts: "numeral m < (2 :: nat) ^ 31 \<Longrightarrow> line_text (tids_line (numeral m) 0)
    = Inr (ascii ''Tid: '' @ number_text False 10 (numeral m) @ ascii '', ParentTid: '' @ number_text False 10 0 @ ascii (line_break []))"
  using tids_text [of "numeral m" 0] by simp

lemma created_text:
  assumes k: "k < 2 ^ 31"
  shows "line_text (created_line (word_of_nat k)) = Inr (ascii ''Created: '' @ number_text False 10 k @ ascii (line_break []))"
proof -
  let ?ps = "[P_text (ascii ''Created: ''), P_int False False 0 (word_of_nat k), P_text (ascii (line_break []))]"
  show ?thesis
    using vs_text_pieces [of ?ps] sint_of_nat_small32 [OF k]
    by (simp add: line_text_def created_line_def line_break_def ln_def ascii_def directive_def width_text_def width_ok_def PERCENT_def)
qed

lemma exiting_text: "line_text exiting_line = Inr (ascii (line_break ''FirstUserTask: exiting''))"
  using vs_text_pieces [of "[P_text (ascii (line_break ''FirstUserTask: exiting''))]"]
  by (simp add: line_text_def exiting_line_def line_break_def ln_def ascii_def PERCENT_def)

text \<open>What \<^verbatim>\<open>k1_first_user_task\<close> and its tasks print, each line with its task.\<close>

definition k1_output :: "(task_ptr \<times> string) list" where
  "k1_output = [(0, ''Created: 2''), (0, ''Created: 3''), (4, ''Tid: 4, ParentTid: 0''), (4, ''Tid: 4, ParentTid: 0''),
     (0, ''Created: 4''), (5, ''Tid: 5, ParentTid: 0''), (5, ''Tid: 5, ParentTid: 0''), (0, ''Created: 5''),
     (0, ''FirstUserTask: exiting''), (3, ''Tid: 3, ParentTid: 0''), (3, ''Tid: 3, ParentTid: 0''),
     (2, ''Tid: 2, ParentTid: 0''), (2, ''Tid: 2, ParentTid: 0'')]"

lemma k1_texts: "map (apsnd line_text) k1_lines = map (apsnd (\<lambda>s. Inr (ascii (line_break s)))) k1_output"
  by (simp add: k1_lines_def k1_output_def exiting_text created_text [where k = "numeral m" for m, unfolded of_nat_numeral]
      tids_texts
      number_text_def digits_of.simps line_break_def ascii_def ln_def)

lemma k1_demo_prints:
  assumes fresh: "fresh_system S" and boot: "boot S chi clo u i = Inr S0" 
    and code: "code u = k1_first_user_task I" "code (im_k1_demo I) = k1_demo_user_task"
  shows "user_run code S0 start_users n out S' Us' \<Longrightarrow> 29 \<le> n
      \<Longrightarrow> prefix (map (apsnd (\<lambda>s. Inr (ascii (line_break s)))) k1_output) (map (apsnd line_text) out)"
    and "unat (sys_timer_full_count chi clo) < 2 ^ 63
      \<Longrightarrow> \<exists>out S' Us'. user_run code S0 start_users 29 out S' Us' \<and> map (apsnd line_text) out = map (apsnd (\<lambda>s. Inr (ascii (line_break s)))) k1_output"
proof -
  obtain M where M: "u_run code 29 [] (boot_machine u i) = Some (k1_lines, M)" using k1_run [OF code] by blast
  show "prefix (map (apsnd (\<lambda>s. Inr (ascii (line_break s)))) k1_output) (map (apsnd line_text) out)"
    if "user_run code S0 start_users n out S' Us'" "29 \<le> n"
    unfolding k1_texts [symmetric] using run_prints [OF fresh boot that(1) M that(2)] by (rule map_mono_prefix)
  show "\<exists>out S' Us'. user_run code S0 start_users 29 out S' Us'
      \<and> map (apsnd line_text) out = map (apsnd (\<lambda>s. Inr (ascii (line_break s)))) k1_output"
    if "unat (sys_timer_full_count chi clo) < 2 ^ 63"
    unfolding k1_texts [symmetric] using run_there [OF fresh boot that M] by auto
qed

end
