(* ===== verification/Round_Robin.thy ===== *)
theory Round_Robin
  imports Kernel_Rounds
begin

text \<open>
  Every ready task gets its turn: the rounds of the main loop with the tasks that they run, and the
  number of rounds after which a task has been picked, whatever the other tasks do in theirs.
\<close>

text \<open>The state after the rounds and, for each, the task that was picked and its priority.\<close>

fun kmain_rounds :: "System \<Rightarrow> Trap list \<Rightarrow> (System \<times> (task_ptr \<times> i32) list) res" where
  "kmain_rounds S [] = Inr (S, [])"
| "kmain_rounds S (tr # trs) =
     bindE (schedule (sy_kernel S)) (\<lambda>(K, task).
     case task of
       None \<Rightarrow> Inr (S, [])
     | Some t \<Rightarrow>
         bindE (kmain_step S tr) (\<lambda>(S', _).
         bindE (kmain_rounds S' trs) (\<lambda>(S'', ps). Inr (S'', (t, t_priority (k_tasks K t)) # ps))))"

text \<open>All traps of the rounds are well behaved.\<close>

fun rounds_behave :: "System \<Rightarrow> Trap list \<Rightarrow> bool" where
  "rounds_behave S [] = True"
| "rounds_behave S (tr # trs) = (well_behaved S tr \<and> (case kmain_step S tr of Inr (S', going) \<Rightarrow> rounds_behave S' trs | Inl _ \<Rightarrow> True))"

lemma rounds_total:
  assumes "system_inv S" and "rounds_behave S trs"
  shows "\<exists>S' ps. kmain_rounds S trs = Inr (S', ps) \<and> system_inv S'"
  using assms
proof (induction trs arbitrary: S)
  case (Cons tr trs)
  have ok: "well_behaved S tr" using Cons.prems(2) by simp
  from kmain_step_ok [OF Cons.prems(1) ok] obtain S' g where s: "kmain_step S tr = Inr (S', g)" "system_inv S'" by blast
  with Cons.prems(2) Cons.IH [OF s(2)] have "\<exists>S'' ps. kmain_rounds S' trs = Inr (S'', ps) \<and> system_inv S''" by simp
  moreover have "\<exists>K r. schedule (sy_kernel S) = Inr (K, r)"
    using s(1) by (cases "schedule (sy_kernel S)") (auto simp: kmain_step_def)
  ultimately show ?case using s(1) Cons.prems(1) by (auto split: option.splits)
qed simp

text \<open>The place of a ready task in the queue of its level after the scheduler took one.\<close>

lemma requeue_place:
  assumes "a_ready A j = xs @ t # ys"
  shows "\<exists>ys'. a_ready (a_requeue A) j = xs @ t # ys'"
  using assms by (cases "a_current A") (auto simp: a_requeue_def)

lemma schedule_place:
  assumes inv: "ainv A" and t: "a_ready A j = xs @ t # ys" "j < TASK_PRIORITY_MAX"
  shows "\<exists>B u. a_schedule A = (B, Some u) \<and> (u = t \<or> j < a_prio B u
    \<or> (\<exists>xs' ys'. xs = u # xs' \<and> a_ready B j = xs' @ t # ys'))"
proof -
  let ?R = "a_requeue A"
  from requeue_place [OF t(1)] obtain ys' where p: "a_ready ?R j = xs @ t # ys'" by blast
  have r: "ready_ok ?R" using requeue_idle_inv [OF inv] by (simp add: idle_inv_def)
  have "a_order ?R \<noteq> []" using p t(2) by (auto simp: a_order_def service_order_Nil_iff)
  then obtain u us where o: "a_order ?R = u # us" by (cases "a_order ?R") auto
  note h = order_head [OF o r]
  have s: "a_schedule A = (a_take ?R u, Some u)" by (simp add: a_schedule_def Let_def o)
  have "j \<le> a_prio ?R u"
  proof (rule ccontr)
    assume "\<not> j \<le> a_prio ?R u"
    then have "a_ready ?R j = []" using h(5) t(2) by simp
    with p show False by simp
  qed
  moreover have "u = t \<or> (\<exists>xs' ys'. xs = u # xs' \<and> a_ready (a_take ?R u) j = xs' @ t # ys')" if eq: "j = a_prio ?R u"
  proof -
    have "xs @ t # ys' = u # tl (xs @ t # ys')" using h(4) p eq by simp
    then show ?thesis using p eq by (cases xs) (auto simp: a_take_def)
  qed
  ultimately show ?thesis using s by (auto simp: a_take_def le_less)
qed

lemma rounds_pick:
  assumes "krel (sy_kernel S) A" and "ainv A" and "sy_irq S 97 = Some Handle_timer_1" and "rounds_behave S trs"
    and "j < TASK_PRIORITY_MAX" and "a_ready A j = xs @ t # ys" and "length xs < length trs"
  shows "\<exists>S' ps. kmain_rounds S trs = Inr (S', ps) \<and> ((\<exists>p\<in>set ps. int j < sint (snd p)) \<or> t \<in> fst ` set ps)"
  using assms
proof (induction trs arbitrary: S A xs ys)
  case (Cons tr trs)
  note A = Cons.prems(1,2) and irq = Cons.prems(3) and j = Cons.prems(5)
  have ok: "well_behaved S tr" using Cons.prems(4) by simp
  have inv: "system_inv S" using A irq by (auto simp: system_inv_def kernel_inv_def)
  from schedule_place [OF A(2) Cons.prems(6) j] obtain B u where
    B: "a_schedule A = (B, Some u)" "u = t \<or> j < a_prio B u \<or> (\<exists>xs' ys'. xs = u # xs' \<and> a_ready B j = xs' @ t # ys')" by blast
  from kmain_step_refine [OF A irq ok B(1)] obtain K S1 A1 where
    s: "schedule (sy_kernel S) = Inr (K, Some u)" "kmain_step S tr = Inr (S1, True)" "krel (sy_kernel S1) A1" "ainv A1"
      "a_extends (a_run B u) A1" "sy_irq S1 97 = Some Handle_timer_1" by blast
  have beh: "rounds_behave S1 trs" using Cons.prems(4) s(2) by simp
  have inv1: "system_inv S1" using s(3,4,6) by (auto simp: system_inv_def kernel_inv_def)
  from rounds_total [OF inv1 beh] obtain S2 ps where r: "kmain_rounds S1 trs = Inr (S2, ps)" by blast
  have run: "kmain_rounds S (tr # trs) = Inr (S2, (u, t_priority (k_tasks K u)) # ps)" using s(1,2) r by simp
  from B(2) consider "u = t" | "j < a_prio B u" | xs' ys' where "xs = u # xs'" "a_ready B j = xs' @ t # ys'" by blast
  then show ?case
  proof cases
    case 1
    then show ?thesis unfolding run by auto
  next
    case 2
    have "krel K B \<and> u \<in> set (a_jobs B)"
      using A by (cases rule: schedule_cases) (use B(1) s(1) in auto)
    then have K: "krel K B" "u \<in> set (a_jobs B)" by simp_all
    from task_state_priority [OF K] 2 have "int j < sint (t_priority (k_tasks K u))" by linarith
    then show ?thesis unfolding run by auto
  next
    case 3
    obtain us where "a_ready A1 j = a_ready (a_run B u) j @ us" using s(5) unfolding a_extends_def by blast
    then have "a_ready A1 j = xs' @ t # (ys' @ us)" using 3(2) by (simp add: a_run_def)
    from Cons.IH [OF s(3,4,6) beh j this] Cons.prems(7) 3(1) r show ?thesis unfolding run by auto
  qed
qed simp

lemma ready_task_gets_turn:
  assumes inv: "system_inv S" and t: "live (sy_kernel S) t" "t_state (k_tasks (sy_kernel S) t) = READY"
    and beh: "rounds_behave S trs"
    and n: "card {u. live (sy_kernel S) u \<and> t_state (k_tasks (sy_kernel S) u) = READY
        \<and> t_priority (k_tasks (sy_kernel S) u) = t_priority (k_tasks (sy_kernel S) t)} \<le> length trs"
  shows "\<exists>S' ps. kmain_rounds S trs = Inr (S', ps)
    \<and> (t \<in> fst ` set ps \<or> (\<exists>p\<in>set ps. sint (t_priority (k_tasks (sy_kernel S) t)) < sint (snd p)))"
proof -
  let ?K = "sy_kernel S"
  from inv obtain A where A: "krel ?K A" "ainv A" and irq: "sy_irq S 97 = Some Handle_timer_1"
    by (auto simp: system_inv_def kernel_inv_def)
  then have i: "jobs_ok A" "ready_ok A" by (simp_all add: ainv_def)
  note lv = live_job [OF A]
  let ?j = "a_prio A t"
  have tj: "t \<in> set (a_jobs A)" "a_state A t = READY" using t lv krel_state [OF A(1), of t] by simp_all
  have j: "?j < TASK_PRIORITY_MAX" using i(1) tj(1) by (simp add: jobs_ok_def)
  have mem: "u \<in> set (a_ready A ?j) \<longleftrightarrow> u \<in> set (a_jobs A) \<and> a_state A u = READY \<and> a_prio A u = ?j" for u
    using i(2) j by (simp add: ready_ok_def)
  then obtain xs ys where xs: "a_ready A ?j = xs @ t # ys" using tj by (metis split_list)
  have "set (a_ready A ?j) = {u. live ?K u \<and> t_state (k_tasks ?K u) = READY \<and> t_priority (k_tasks ?K u) = t_priority (k_tasks ?K t)}"
    (is "_ = ?U")
  proof -
    have "t_priority (k_tasks ?K u) = t_priority (k_tasks ?K t) \<longleftrightarrow> a_prio A u = ?j" if "u \<in> set (a_jobs A)" for u
      using task_state_priority [OF A(1) that] task_state_priority [OF A(1) tj(1)] by (metis int_nat_eq signed_word_eqI)
    then show ?thesis using mem lv krel_state [OF A(1)] by auto
  qed
  moreover have "distinct (a_ready A ?j)" using i(2) j by (simp add: ready_ok_def pqs_once_def)
  ultimately have "length (a_ready A ?j) \<le> length trs" using n distinct_card [of "a_ready A ?j"] by simp
  then have "length xs < length trs" using xs by simp
  from rounds_pick [OF A irq beh j xs this] task_state_priority [OF A(1) tj(1)] show ?thesis by (metis int_nat_eq)
qed

end
