(* ===== verification/Scenarios.thy ===== *)
theory Scenarios
  imports Round_Robin
begin

text \<open>
  Concrete runs of the kernel, at which the properties are exercised: the example system is
  booted with an initial task (number 0, priority 5) and the idle task (number 1, priority
  0); the runs then let these two tasks receive, send and reply.
\<close>

definition ex_task :: Task where
  "ex_task = \<lparr>t_x = (\<lambda>_. 0), t_sp = 0, t_spsr = 0, t_pc = 0, t_x30_copy = 0, t_result = 0,
     t_should_pass_result = False, t_tid = 0, t_parent_tid = 0, t_priority = 0, t_state = INITIALIZED,
     t_senders = \<lparr>q_container = replicate 64 0, q_capacity = 0, q_size = 0, q_head = 0, q_tail = 0\<rparr>,
     t_job_node = None, t_memory_block = None, t_next = None\<rparr>"

definition ex_pool :: TaskNodePool where
  "ex_pool = \<lparr>np_available = [], np_size = 0, np_nodes = (\<lambda>_. \<lparr>tn_task = None, tn_prev = None, tn_next = None\<rparr>)\<rparr>"

definition ex_list :: TaskList where
  "ex_list = \<lparr>tl_size = 0, tl_head = None, tl_tail = None\<rparr>"

definition ex_kernel :: Kernel where
  "ex_kernel = \<lparr>k_tasks = (\<lambda>_. ex_task), k_task_pool_ptr = None, k_task_queue = (\<lambda>_. \<lparr>tq_front = None, tq_end = None\<rparr>),
     k_jobq_pool = ex_pool, k_readyq_pool = ex_pool, k_irqq_pool = ex_pool, k_jobq = ex_list,
     k_readyq = \<lparr>pq_size = 0, pq_list = (\<lambda>_. ex_list)\<rparr>, k_irqq = (\<lambda>_. \<lparr>pq_size = 0, pq_list = (\<lambda>_. ex_list)\<rparr>),
     k_task_id_cnt = 0, k_current = None,
     k_memory = \<lparr>mb_base = 0x1000000, mb_used = replicate 64 False, mb_mem = (\<lambda>_. 0)\<rparr>, k_exit_addr = 0x80000\<rparr>"

definition ex_clocks :: SysClocks where
  "ex_clocks = \<lparr>sc_timer = \<lparr>st_CS = 0, st_C = (\<lambda>_. 0)\<rparr>,
     sc_clocks = (\<lambda>_. \<lparr>ck_boot_time = 0, ck_next_tick_time = 0, ck_interval = 0, ck_tick_count = 0\<rparr>)\<rparr>"

definition ex_system :: System where
  "ex_system = \<lparr>sy_gpio = \<lparr>gp_fsel = replicate 6 0, gp_pup_pdn = replicate 4 0\<rparr>,
     sy_aux = \<lparr>ax_enables = 0, ax_spi = replicate 2 \<lparr>sp_cntl0 = 0, sp_cntl1 = 0, sp_tx = [], sp_rx = replicate 11 0\<rparr>\<rparr>,
     sy_kernel = ex_kernel, sy_clocks = ex_clocks,
     sy_gicd = \<lparr>gd_ctl = 0, gd_isenable = (\<lambda>_. 0), gd_icenable = (\<lambda>_. 0), gd_itargets = (\<lambda>_. 0)\<rparr>,
     sy_gicc = \<lparr>gc_ctl = 0, gc_pm = 0, gc_eoi = 0\<rparr>, sy_sync = (\<lambda>_. None), sy_irq = (\<lambda>_. None)\<rparr>"

lemma ex_fresh: "fresh_system ex_system"
  by (simp add: fresh_system_def gpio_inv_def static_tasks_def ex_system_def ex_kernel_def ex_task_def MAX_SENDER_CAPACITY_def)

definition ex_trap :: "u64 \<Rightarrow> (nat \<Rightarrow> u64) \<Rightarrow> mem \<Rightarrow> Trap" where
  "ex_trap esr x m = \<lparr>tr_exc = SYNCHRONOUS_EXCEPTION, tr_esr = esr, tr_intid = 0, tr_chi = 0, tr_clo = 0,
     tr_x = x, tr_sp = 0, tr_spsr = 0, tr_pc = 0, tr_mem = m\<rparr>"

subsection \<open>Letting a task run\<close>

lemma run_step:
  assumes rel: "krel K A" and inv: "ainv A" and sch: "a_schedule A = (A', Some t)"
  shows "\<exists>K'. krel K' (a_run A' t) \<and> ainv (a_run A' t) \<and> running (a_run A' t) t \<and> t_x (k_tasks K' t) = x
    \<and> k_mem K' = m \<and> (\<forall>u. u \<noteq> t \<longrightarrow> t_x (k_tasks K' u) = t_x (k_tasks K u))"
  using rel inv
proof (cases rule: schedule_cases)
  case (none K')
  with schedule_refine [OF rel inv] sch show ?thesis by simp
next
  case (some K1 u B)
  then have [simp]: "B = A'" "u = t" using sch by simp_all
  have ne: "a_state A' t \<noteq> RUNNING" using some(4) by simp
  let ?tr = "ex_trap 0 x m"
  from activate_refine [OF some(2,3) _, of ?tr] ne obtain K2 where
    k2: "activate K1 t ?tr = Inr K2" "krel K2 (a_run A' t)" "t_x (k_tasks K2 t) = x" "k_mem K2 = m"
    by (auto simp: ex_trap_def)
  have "t_x (k_tasks K2 v) = t_x (k_tasks K v)" if v: "v \<noteq> t" for v
    using v activate_context [OF k2(1), of v] schedule_context [of K K1 "Some t" v] some(1)
    by (intro saved_context_x) simp
  then show ?thesis using k2 some(5,6) by auto
qed

subsection \<open>The abstract states of the runs\<close>

definition ex_A0 :: AKernel where
  "ex_A0 = fst (a_create (fst (a_create a_init 5)) 0)"

lemma ex_A0_inv: "ainv ex_A0"
  unfolding ex_A0_def by (intro create_inv ainv_init) (simp_all add: TASK_PRIORITY_MAX_def)

lemma ex_A0_eq: "ex_A0 = \<lparr>a_jobs = [0, 1], a_ready = (\<lambda>_. [])(5 := [0], 0 := [1]), a_irq = (\<lambda>_ _. []),
    a_state = (\<lambda>_. INITIALIZED)(0 := READY, 1 := READY), a_prio = (\<lambda>_. 0)(0 := 5, 1 := 0),
    a_senders = (\<lambda>_. [])(0 := [], 1 := []), a_current = None, a_created = 2\<rparr>"
  by (simp add: ex_A0_def a_create_def a_init_def a_make_ready_def a_set_state_def Let_def MAX_TASK_NUM_def)

lemma order_10:
  "service_order TASK_PRIORITY_MAX C = C 9 @ C 8 @ C 7 @ C 6 @ C 5 @ C 4 @ C 3 @ C 2 @ C 1 @ C 0"
  by (simp add: TASK_PRIORITY_MAX_def numeral_eq_Suc)

lemma ex_schedule_0: "a_schedule ex_A0 = (a_take ex_A0 0, Some 0)"
  by (simp add: a_schedule_def a_requeue_def a_order_def order_10 ex_A0_eq Let_def)

definition ex_A1 :: AKernel where "ex_A1 = a_run (a_take ex_A0 0) 0"

lemma ex_boot: "\<exists>K. krel K ex_A0"
proof -
  from init_kernel_ok [OF ex_fresh, of 0 0] obtain S :: System where rel: "krel (sy_kernel S) a_init" by auto
  have p: "priority_index (clamp_priority INITIAL_PRIORITY) = 5" "priority_index (clamp_priority TASK_PRIORITY_MIN) = 0"
    by (simp_all add: clamp_priority_def INITIAL_PRIORITY_def TASK_PRIORITY_MIN_def TASK_PRIORITY_MAX_def
        priority_index_def)
  from create_task_refine [OF rel ainv_init, of INITIAL_PRIORITY 0 0] p obtain K1 where
    k1: "krel K1 (fst (a_create a_init 5))" by auto
  have "ainv (fst (a_create a_init 5))" by (rule create_inv [OF ainv_init]) (simp add: TASK_PRIORITY_MAX_def)
  from create_task_refine [OF k1 this, of TASK_PRIORITY_MIN 0 0] p show ?thesis by (auto simp: ex_A0_def)
qed

text \<open>Task 0 runs, with the registers \<open>x\<close> and the memory \<open>m\<close>.\<close>

lemma ex_run_0:
  "\<exists>K. krel K ex_A1 \<and> ainv ex_A1 \<and> running ex_A1 0 \<and> t_x (k_tasks K 0) = x \<and> k_mem K = m"
proof -
  from ex_boot obtain K where "krel K ex_A0" by blast
  from run_step [OF this ex_A0_inv ex_schedule_0, of x m] show ?thesis by (auto simp: ex_A1_def)
qed

lemma ex_schedule_1: "\<exists>B. a_schedule ex_A1 = (B, Some 0)"
  by (simp add: a_schedule_def a_requeue_def a_order_def order_10 ex_A1_def ex_A0_eq Let_def)

lemma ex_A1_facts: "a_state ex_A1 1 = READY" "a_jobs ex_A1 = [0, 1]" "a_senders ex_A1 0 = []" "a_senders ex_A1 1 = []"
    "a_state ex_A1 0 = RUNNING"
  by (simp_all add: ex_A1_def ex_A0_eq)

subsection \<open>Task 0 receives, task 1 runs\<close>

definition ex_A2 :: AKernel where "ex_A2 = a_receive ex_A1 0"
definition ex_A3 :: AKernel where "ex_A3 = a_run (a_take ex_A2 1) 1"

lemma ex_schedule_2: "a_schedule ex_A2 = (a_take ex_A2 1, Some 1)"
  by (simp add: a_schedule_def a_requeue_def a_order_def order_10 ex_A2_def a_receive_def ex_A1_def ex_A0_eq Let_def)

lemma ex_waiting:
  "\<exists>K. kernel_inv K \<and> caller K 1 \<and> t_state (k_tasks K 0) = WAITRECEIVE
     \<and> t_x (k_tasks K 0) = x0 \<and> t_x (k_tasks K 1) = x1 \<and> k_mem K = m
     \<and> (ucast (x1 0 :: u64) = (0 :: i32) \<longrightarrow> addressee K 1 = Inr (Some 0))"
proof -
  from ex_run_0 [of x0 m] obtain K1 where
    k1: "krel K1 ex_A1" "ainv ex_A1" "running ex_A1 0" "t_x (k_tasks K1 0) = x0" by auto
  from sys_receive_block [OF k1(1,3) ex_A1_facts(3)] obtain K2 where
    k2: "krel K2 ex_A2" "K2 = upd_task K1 0 (\<lambda>d. d\<lparr>t_state := WAITRECEIVE\<rparr>)" by (auto simp: ex_A2_def)
  have a2: "ainv ex_A2" unfolding ex_A2_def by (rule receive_inv [OF k1(2,3)])
  from run_step [OF k2(1) a2 ex_schedule_2, of x1 m] obtain K where
    k: "krel K ex_A3" "ainv ex_A3" "running ex_A3 1" "t_x (k_tasks K 1) = x1" "k_mem K = m"
    "t_x (k_tasks K 0) = t_x (k_tasks K2 0)" by (auto simp: ex_A3_def)
  have j: "a_jobs ex_A3 = [0, 1]" "a_state ex_A3 0 = WAITRECEIVE"
    by (simp_all add: ex_A3_def ex_A2_def a_receive_def ex_A1_facts) (simp add: ex_A1_def ex_A0_eq)?
  have "addressee K 1 = Inr (Some 0)" if "ucast (x1 0 :: u64) = (0 :: i32)"
    by (rule job_addressee [OF k(1,2)]) (simp_all add: k(4) that j del: One_nat_def)
  moreover have "t_state (k_tasks K 0) = WAITRECEIVE" using krel_state [OF k(1), of 0] j by simp
  moreover have "t_x (k_tasks K 0) = x0" using k(6) k1(4) by (simp add: k2(2))
  ultimately show ?thesis
    using kernel_invI [OF k(1,2)] running_caller [OF k(3,1)] k(4,5) by (intro exI [of _ K]) (simp del: One_nat_def)
qed

subsection \<open>Task 0 sends to task 1, task 1 runs\<close>

definition ex_A2s :: AKernel where "ex_A2s = a_send ex_A1 0 (Some 1)"
definition ex_A3s :: AKernel where "ex_A3s = a_run (a_take ex_A2s 1) 1"

lemma ex_schedule_2s: "a_schedule ex_A2s = (a_take ex_A2s 1, Some 1)"
  by (simp add: a_schedule_def a_requeue_def a_order_def order_10 ex_A2s_def a_send_def ex_A1_def ex_A0_eq Let_def
      MAX_SENDER_CAPACITY_def)

lemma ex_A3s_facts: "a_jobs ex_A3s = [0, 1]" "a_state ex_A3s 0 = WATISEND" "a_senders ex_A3s 1 = [0]" "a_state ex_A3s 1 = RUNNING"
  by (simp_all add: ex_A3s_def ex_A2s_def a_send_def ex_A1_def ex_A0_eq MAX_SENDER_CAPACITY_def)

lemma ex_sent_rel:
  fixes x0 :: "nat \<Rightarrow> u64"
  assumes "ucast (x0 0 :: u64) = (1 :: i32)"
  shows "\<exists>K. krel K ex_A3s \<and> ainv ex_A3s \<and> running ex_A3s 1 \<and> t_x (k_tasks K 1) = x1 \<and> t_x (k_tasks K 0) = x0"
proof -
  from ex_run_0 [of x0 "\<lambda>_. 0"] obtain K1 where
    k1: "krel K1 ex_A1" "ainv ex_A1" "running ex_A1 0" "t_x (k_tasks K1 0) = x0" by auto
  have "addressee K1 0 = Inr (Some 1)"
    by (rule job_addressee [OF k1(1,2)]) (simp_all add: k1(4) assms ex_A1_facts del: One_nat_def)
  then have t: "send_target K1 ex_A1 0 = Some 1" using addressee_target [OF k1(1)] by simp
  have nw: "a_state ex_A1 1 \<noteq> WAITRECEIVE" using ex_A1_facts(1) by simp
  from sys_send_queued [OF k1(1,2,3) t nw] obtain K2 where k2: "sys_send K1 = Inr K2" "krel K2 ex_A2s" by (auto simp: ex_A2s_def)
  have regs: "t_x (k_tasks K2 0) = x0" using saved_context_x [OF sys_send_context [OF k2(1)]] k1(4) by simp
  have a2: "ainv ex_A2s" unfolding ex_A2s_def by (rule send_inv [OF k1(2,3)]) (simp add: ex_A1_facts)
  from run_step [OF k2(2) a2 ex_schedule_2s, of x1 "\<lambda>_. 0"] regs show ?thesis by (auto simp: ex_A3s_def)
qed

lemma ex_sent: "\<exists>K. kernel_inv K \<and> caller K 1 \<and> waiting_senders K 1 = [0]"
proof -
  from ex_sent_rel [of "\<lambda>_. 1" "\<lambda>_. 0"] obtain K where
    k: "krel K ex_A3s" "ainv ex_A3s" "running ex_A3s 1" by auto
  have "waiting_senders K 1 = [0]"
    using krel_task [OF k(1), of 1] by (simp add: task_rel_def waiting_senders_def ex_A3s_facts del: One_nat_def)
  then show ?thesis using kernel_invI [OF k(1,2)] running_caller [OF k(3,1)] by blast
qed

subsection \<open>Task 1 has received the message and runs\<close>

definition ex_A4 :: AKernel where "ex_A4 = a_receive ex_A3s 1"
definition ex_A5 :: AKernel where "ex_A5 = a_run (a_take (a_requeue ex_A4) 1) 1"

lemma ex_A4_facts: "a_jobs ex_A4 = [0, 1]" "a_state ex_A4 = (a_state ex_A3s)(0 := WATIREPLY)" "a_current ex_A4 = Some 1"
  "a_ready ex_A4 = a_ready ex_A3s" "a_prio ex_A4 = a_prio ex_A3s"
  using ex_A3s_facts by (simp_all add: ex_A4_def a_receive_def) (simp add: ex_A3s_def)

lemma ex_schedule_4: "a_schedule ex_A4 = (a_take (a_requeue ex_A4) 1, Some 1)"
  by (simp add: a_schedule_def a_requeue_def a_order_def order_10 Let_def ex_A4_facts ex_A3s_facts)
    (simp add: ex_A3s_def ex_A2s_def a_send_def ex_A1_def ex_A0_eq MAX_SENDER_CAPACITY_def)

lemma ex_replying:
  fixes x1 :: "nat \<Rightarrow> u64"
  assumes "ucast (x1 0 :: u64) = (0 :: i32)" and "ucast (x0 0 :: u64) = (1 :: i32)"
  shows "\<exists>K. kernel_inv K \<and> caller K 1 \<and> t_state (k_tasks K 0) = WATIREPLY \<and> addressee K 1 = Inr (Some 0)
     \<and> t_x (k_tasks K 0) = x0 \<and> t_x (k_tasks K 1) = x1 \<and> k_mem K = m"
proof -
  from ex_sent_rel [of x0 "\<lambda>_. 0"] assms(2) obtain K1 where
    k1: "krel K1 ex_A3s" "ainv ex_A3s" "running ex_A3s 1" "t_x (k_tasks K1 0) = x0" by auto
  from sys_receive_refine [OF k1(1-3)] obtain K2 where r: "sys_receive K1 = Inr K2" "krel K2 ex_A4" by (auto simp: ex_A4_def)
  have k2: "krel K2 ex_A4" "t_x (k_tasks K2 0) = x0" using r(2) saved_context_x [OF sys_receive_context [OF r(1)]] k1(4) by simp_all
  have a4: "ainv ex_A4" unfolding ex_A4_def by (rule receive_inv [OF k1(2,3)])
  from run_step [OF k2(1) a4 ex_schedule_4, of x1 m] obtain K where
    k: "krel K ex_A5" "ainv ex_A5" "running ex_A5 1" "t_x (k_tasks K 1) = x1" "k_mem K = m"
    "t_x (k_tasks K 0) = x0" using k2(2) by (auto simp: ex_A5_def)
  have j: "a_jobs ex_A5 = [0, 1]" "a_state ex_A5 0 = WATIREPLY"
    by (simp_all add: ex_A5_def a_requeue_def ex_A4_facts ex_A3s_facts)
  have "addressee K 1 = Inr (Some 0)" by (rule job_addressee [OF k(1,2)]) (simp_all add: k(4) assms(1) j del: One_nat_def)
  moreover have "t_state (k_tasks K 0) = WATIREPLY" using krel_state [OF k(1), of 0] j by simp
  ultimately show ?thesis using kernel_invI [OF k(1,2)] running_caller [OF k(3,1)] k(4-6) by blast
qed

text \<open>Task 0 runs and names task 1, which is ready.\<close>

lemma ex_first_runs:
  "\<exists>K. kernel_inv K \<and> caller K 0 \<and> t_state (k_tasks K 1) = READY \<and> t_x (k_tasks K 0) = x
     \<and> waiting_senders K 0 = [] \<and> waiting_senders K 1 = []
     \<and> (ucast (x 0) = (1 :: i32) \<longrightarrow> addressee K 0 = Inr (Some 1))
     \<and> (ucast (x 0) = (7 :: i32) \<longrightarrow> addressee K 0 = Inr None)"
proof -
  from ex_run_0 [of x "\<lambda>_. 0"] obtain K where
    k: "krel K ex_A1" "ainv ex_A1" "running ex_A1 0" "t_x (k_tasks K 0) = x" by auto
  have "addressee K 0 = Inr (Some 1)" if "ucast (x 0) = (1 :: i32)"
    by (rule job_addressee [OF k(1,2)]) (simp_all add: k(4) that ex_A1_facts del: One_nat_def)
  moreover have "addressee K 0 = Inr None" if "ucast (x 0) = (7 :: i32)"
    using addressee_target [OF k(1), of 0] that by (simp add: send_target_def a_find_def ex_A1_facts k(4))
  moreover have "waiting_senders K 0 = []" "waiting_senders K 1 = []"
    using krel_task [OF k(1), of 0] krel_task [OF k(1), of 1] by (simp_all add: task_rel_def waiting_senders_def ex_A1_facts del: One_nat_def)
  moreover have "t_state (k_tasks K 1) = READY" using krel_state [OF k(1), of 1] ex_A1_facts by (simp del: One_nat_def)
  ultimately show ?thesis using kernel_invI [OF k(1,2)] running_caller [OF k(3,1)] k(4) by (intro exI [of _ K]) (simp del: One_nat_def)
qed

subsection \<open>The booted system\<close>

lemma ex_boot_system:
  "\<exists>S0. boot ex_system 0 0 0x90000 0xA0000 = Inr S0 \<and> system_inv S0 \<and> krel (sy_kernel S0) ex_A0
     \<and> sy_sync S0 = sy_sync (init_exception_handlers ex_system)
     \<and> ck_next_tick_time (sc_clocks (sy_clocks S0) 1) = 10000 \<and> ck_interval (sc_clocks (sy_clocks S0) 1) = 10000"
proof -
  from init_kernel_ok [OF ex_fresh, of 0 0] obtain S :: System where
    s: "init_kernel ex_system 0 0 = Inr S" "krel (sy_kernel S) a_init" "sy_irq S 97 = Some Handle_timer_1"
    "ck_next_tick_time (sc_clocks (sy_clocks S) 1) = sys_timer_full_count 0 0 + 10000"
    "ck_interval (sc_clocks (sy_clocks S) 1) = 10000" "sy_sync S = sy_sync (init_exception_handlers ex_system)" by auto
  have p: "priority_index (clamp_priority INITIAL_PRIORITY) = 5" "priority_index (clamp_priority TASK_PRIORITY_MIN) = 0"
    by (simp_all add: clamp_priority_def INITIAL_PRIORITY_def TASK_PRIORITY_MIN_def TASK_PRIORITY_MAX_def
        priority_index_def)
  from create_task_refine [OF s(2) ainv_init, of INITIAL_PRIORITY "0x90000" "- 1"] p obtain K1 t1 where
    k1: "create_task (sy_kernel S) INITIAL_PRIORITY 0x90000 (- 1) = Inr (K1, t1)" "krel K1 (fst (a_create a_init 5))" by auto
  have "ainv (fst (a_create a_init 5))" by (rule create_inv [OF ainv_init]) (simp add: TASK_PRIORITY_MAX_def)
  from create_task_refine [OF k1(2) this, of TASK_PRIORITY_MIN "0xA0000" "- 1"] p obtain K2 t2 where
    k2: "create_task K1 TASK_PRIORITY_MIN 0xA0000 (- 1) = Inr (K2, t2)" "krel K2 ex_A0" by (auto simp: ex_A0_def)
  have "boot ex_system 0 0 0x90000 0xA0000 = Inr (S\<lparr>sy_kernel := K2\<rparr>)"
    by (simp add: boot_def s(1) on_kernel_def init_tasks_def k1(1) k2(1))
  then show ?thesis using k2(2) ex_A0_inv s(3-6) by (auto simp: system_inv_def kernel_inv_def sys_timer_full_count_def)
qed

lemma ex_boot_live:
  "\<exists>S. system_inv S \<and> live (sy_kernel S) 0 \<and> t_state (k_tasks (sy_kernel S) 0) = READY"
proof -
  from ex_boot_system obtain S0 :: System where s: "system_inv S0" "krel (sy_kernel S0) ex_A0" by auto
  have j: "jobs_ok ex_A0" "0 \<in> set (a_jobs ex_A0)" "a_state ex_A0 0 = READY"
    using ex_A0_inv by (simp_all add: ainv_def) (simp_all add: ex_A0_eq)
  show ?thesis using s(1) live_iff [OF s(2) j(1), of 0] krel_state [OF s(2) j(2)] j by auto
qed

lemma ex_boot_schedule:
  "\<exists>S K. system_inv S \<and> schedule (sy_kernel S) = Inr (K, Some 0)"
proof -
  from ex_boot_system obtain S0 :: System where s: "system_inv S0" "krel (sy_kernel S0) ex_A0" by auto
  from schedule_refine [OF s(2) ex_A0_inv] s(1) show ?thesis by (auto simp: ex_schedule_0)
qed

text \<open>One round in which the first task takes a fault of its own and goes on.\<close>

lemma ex_one_round:
  "\<exists>S0 S1. boot ex_system 0 0 0x90000 0xA0000 = Inr S0 \<and> reach S0 S1 \<and> live (sy_kernel S1) 0
     \<and> t_state (k_tasks (sy_kernel S1) 0) = RUNNING"
proof -
  from ex_boot_system obtain S0 :: System where
    s: "boot ex_system 0 0 0x90000 0xA0000 = Inr S0" "krel (sy_kernel S0) ex_A0" by auto
  let ?tr = "ex_trap 0 (\<lambda>_. 0) (\<lambda>_. 0)"
  have wb: "well_behaved S0 ?tr"
    by (simp add: well_behaved_def trap_ok_def ex_trap_def SVC_CLASS_def split: sum.splits prod.splits option.splits)
  from schedule_refine [OF s(2) ex_A0_inv] obtain K1 where
    k1: "schedule (sy_kernel S0) = Inr (K1, Some 0)" "krel K1 (a_take ex_A0 0)" by (auto simp: ex_schedule_0)
  have t: "0 \<in> set (a_jobs (a_take ex_A0 0))" "a_state (a_take ex_A0 0) 0 \<noteq> RUNNING"
    by (simp_all add: a_take_def ex_A0_eq)
  from activate_refine [OF k1(2) t, of ?tr] obtain K2 where
    k2: "activate K1 0 ?tr = Inr K2" "krel K2 ex_A1" by (auto simp: ex_A1_def)
  let ?S1 = "S0\<lparr>sy_kernel := K2\<rparr>"
  have "kmain_step S0 ?tr = Inr (?S1, True)"
    by (simp add: kmain_step_def k1(1) on_kernel_def k2(1) handle_current_exception_def)
      (simp add: ex_trap_def handle_synchronous_exception_def SVC_CLASS_def)
  then have r: "reach S0 ?S1" by (rule reach_round [OF reach_start wb])
  have a1: "jobs_ok ex_A1" using ex_run_0 [of "\<lambda>_. 0" "\<lambda>_. 0"] by (auto simp: ainv_def)
  have "live K2 0" using live_iff [OF k2(2) a1] by (simp add: ex_A1_facts)
  moreover have "t_state (k_tasks K2 0) = RUNNING" using krel_state [OF k2(2), of 0] by (simp add: ex_A1_facts)
  ultimately show ?thesis using s(1) r by (intro exI [of _ S0] exI [of _ ?S1]) simp
qed

subsection \<open>Regions of the examples\<close>

lemma regions_disjoint_below:
  assumes "unat a + n \<le> unat b" and "unat b + k \<le> 2 ^ 64"
  shows "regions_disjoint a n b k" and "regions_disjoint b k a n"
proof -
  have "\<not> (in_region x a n \<and> in_region x b k)" for x
  proof
    assume h: "in_region x a n \<and> in_region x b k"
    then have xa: "unat (x - a) < n" and xb: "unat (x - b) < k" by (simp_all add: in_region_def)
    have "unat (a + (x - a)) = unat a + unat (x - a)" using assms xa by (intro unat_add_lem [THEN iffD1]) simp
    moreover have "unat (b + (x - b)) = unat b + unat (x - b)" using assms xb by (intro unat_add_lem [THEN iffD1]) simp
    ultimately show False using xa assms by simp
  qed
  then show "regions_disjoint a n b k" "regions_disjoint b k a n" by (auto simp: regions_disjoint_def)
qed

lemma ex_clean: "clean_transfer 0x300 0x100 0x200 2"
  unfolding clean_transfer_def by (intro conjI regions_disjoint_below) simp_all

subsection \<open>Queues and lists\<close>

lemma ex_ready: "\<exists>s. ready_rep s ((\<lambda>_. [])(2 := [10, 11], 5 := [12]))"
proof -
  let ?t = "\<lambda>t. t < MAX_TASK_NUM"
  have "pqs_once {()} (\<lambda>_ _. [])" by (simp add: pqs_once_def)
  then have s0: "ready_rep (task_node_pool_init p, ptask_queue_init q) (\<lambda>_. [])" for p q
    using pqs_abs_init [of "{()}" "\<lambda>_. ptask_queue_init q" "\<lambda>_. q" p] by (simp add: ready_rep_def)
  have n: "?t 10" "?t 11" "?t 12" "(2 :: nat) < TASK_PRIORITY_MAX" "(5 :: nat) < TASK_PRIORITY_MAX"
    by (simp_all add: MAX_TASK_NUM_def TASK_PRIORITY_MAX_def)
  obtain s0' where s0': "ready_rep s0' (\<lambda>_. [])" using s0 by blast
  obtain s1 where s1: "ready_rep s1 ((\<lambda>_. [])(2 := [10]))" using readyq.push_ok [OF s0' n(1) n(4)] by auto
  obtain s2 where s2: "ready_rep s2 ((\<lambda>_. [])(2 := [10, 11]))" using readyq.push_ok [OF s1 n(2) n(4)] by auto
  show ?thesis using readyq.push_ok [OF s2 n(3) n(5)] by auto
qed

definition ex_node :: "node_ptr option \<Rightarrow> task_ptr \<Rightarrow> node_ptr option \<Rightarrow> TaskNode" where
  "ex_node pv t nx = \<lparr>tn_task = Some t, tn_prev = pv, tn_next = nx\<rparr>"

lemma ex_list: "\<exists>(p :: TaskNodePool) (l :: TaskList). list_rep (np_nodes p) l [4, 5, 6] \<and> np_size p < MAX_TASK_NUM \<and> tn_task (np_nodes p 5) = Some 15"
proof -
  let ?p = "\<lparr>np_available = replicate 64 0, np_size = 0, np_nodes = (\<lambda>_. ex_node None 0 None)(4 := ex_node None 14 (Some 5),
    5 := ex_node (Some 4) 15 (Some 6), 6 := ex_node (Some 5) 16 None)\<rparr>"
  let ?l = "\<lparr>tl_size = 3, tl_head = Some 4, tl_tail = Some 6\<rparr>"
  have "list_rep (np_nodes ?p) ?l [4, 5, 6]" by (simp add: list_rep_def ex_node_def)
  then show ?thesis by (intro exI [of _ ?p] exI [of _ ?l]) (simp add: ex_node_def MAX_TASK_NUM_def)
qed

end
