(* ===== verification/Round_Scenarios.thy ===== *)
theory Round_Scenarios
  imports Scenarios
begin

text \<open>
  Concrete rounds of the main loop after booting: the first task calls \<^verbatim>\<open>Send\<close>, \<^verbatim>\<open>MyTid\<close> or
  \<^verbatim>\<open>AwaitEvent\<close>, the second one receives and replies or is interrupted.
\<close>

definition booted :: "System \<Rightarrow> AKernel \<Rightarrow> bool" where
  "booted S A \<longleftrightarrow> krel (sy_kernel S) A \<and> ainv A \<and> sy_irq S 97 = Some Handle_timer_1
     \<and> sy_sync S = sy_sync (init_exception_handlers ex_system)
     \<and> ck_next_tick_time (sc_clocks (sy_clocks S) 1) = 10000 \<and> ck_interval (sc_clocks (sy_clocks S) 1) = 10000"

lemma booted_inv: "booted S A \<Longrightarrow> system_inv S"
  by (auto simp: booted_def system_inv_def kernel_inv_def)

lemma ex_booted: "\<exists>S0. boot ex_system 0 0 0x90000 0xA0000 = Inr S0 \<and> booted S0 ex_A0"
  using ex_boot_system ex_A0_inv by (auto simp: booted_def system_inv_def)

lemma booted_svc:
  assumes "booted S A"
  shows "svc_call S (ex_trap 0x5400000B x m) H_tid" "svc_call S (ex_trap 0x54000015 x m) H_send"
    "svc_call S (ex_trap 0x54000016 x m) H_receive" "svc_call S (ex_trap 0x54000017 x m) H_reply"
    "svc_call S (ex_trap 0x5400001F x m) H_await_event"
  using assms by (simp_all add: booted_def svc_call_def ex_trap_def SVC_CLASS_def init_exception_handlers_def)

text \<open>A round in which the task that is picked makes a system call.\<close>

lemma svc_scenario:
  assumes S: "booted S A" and sch: "a_schedule A = (B, Some t)" and call: "svc_call S tr h" and C: "ainv C"
    and hnd: "\<And>K. krel K (a_run B t) \<Longrightarrow> ainv (a_run B t) \<Longrightarrow> running (a_run B t) t \<Longrightarrow> t_x (k_tasks K t) = tr_x tr
      \<Longrightarrow> \<exists>K'. run_handler h K = Inr K' \<and> krel K' C \<and> Q K'"
  shows "\<exists>K S'. schedule (sy_kernel S) = Inr (K, Some t) \<and> kmain_step S tr = Inr (S', True) \<and> booted S' C \<and> Q (sy_kernel S')"
proof -
  have A: "krel (sy_kernel S) A" "ainv A" using S by (simp_all add: booted_def)
  from schedule_refine [OF A] sch obtain K where K: "schedule (sy_kernel S) = Inr (K, Some t)" "krel K B" by auto
  have "t \<in> set (a_jobs B) \<and> a_state B t = READY \<and> ainv (a_run B t) \<and> running (a_run B t) t"
    using A by (cases rule: schedule_cases) (use K(1) sch in auto)
  then have B: "t \<in> set (a_jobs B)" "a_state B t = READY" "ainv (a_run B t)" "running (a_run B t) t" by simp_all
  from activate_refine [OF K(2) B(1), of tr] B(2) obtain K2 where
    k2: "activate K t tr = Inr K2" "krel K2 (a_run B t)" "t_x (k_tasks K2 t) = tr_x tr" by auto
  from hnd [OF k2(2) B(3,4) k2(3)] obtain K3 where k3: "run_handler h K2 = Inr K3" "krel K3 C" "Q K3" by blast
  note step = svc_round [OF K(1) k2(1) call k3(1)]
  have "booted (S\<lparr>sy_kernel := K3\<rparr>) C" using S C k3(2) by (simp add: booted_def)
  then show ?thesis using K(1) step k3(3) by (intro exI [of _ K] exI [of _ "S\<lparr>sy_kernel := K3\<rparr>"]) simp
qed

subsection \<open>Task 0 sends to task 1, which receives\<close>

lemma ex_send_round:
  assumes S: "booted S ex_A0" and to: "ucast (x 0 :: u64) = (1 :: i32)"
  shows "\<exists>K S'. schedule (sy_kernel S) = Inr (K, Some 0) \<and> kmain_step S (ex_trap 0x54000015 x m) = Inr (S', True) \<and> booted S' ex_A2s"
proof -
  have a1: "ainv ex_A1" "running ex_A1 0" using ex_run_0 by auto
  have inv: "ainv ex_A2s" unfolding ex_A2s_def by (rule send_inv [OF a1]) (simp add: ex_A1_facts)
  have h: "\<exists>K'. run_handler H_send K = Inr K' \<and> krel K' ex_A2s \<and> True"
    if K: "krel K (a_run (a_take ex_A0 0) 0)" "t_x (k_tasks K 0) = tr_x (ex_trap 0x54000015 x m)" for K
  proof -
    have K': "krel K ex_A1" "t_x (k_tasks K 0) = x" using K by (simp_all add: ex_A1_def ex_trap_def)
    have "addressee K 0 = Inr (Some 1)"
      by (rule job_addressee [OF K'(1) a1(1)]) (simp_all add: K' to ex_A1_facts del: One_nat_def)
    then have t: "send_target K ex_A1 0 = Some 1" using addressee_target [OF K'(1)] by simp
    have "a_state ex_A1 1 \<noteq> WAITRECEIVE" using ex_A1_facts(1) by simp
    from sys_send_queued [OF K'(1) a1 t this] show ?thesis by (auto simp: ex_A2s_def)
  qed
  show ?thesis
    using svc_scenario [where Q = "\<lambda>_. True", OF S ex_schedule_0 booted_svc(2) [OF S, of x m] inv] h by blast
qed

lemma ex_receive_round:
  assumes S: "booted S ex_A2s"
  shows "\<exists>K S'. schedule (sy_kernel S) = Inr (K, Some 1) \<and> kmain_step S (ex_trap 0x54000016 x m) = Inr (S', True) \<and> booted S' ex_A4"
proof -
  have a: "a_run (a_take ex_A2s 1) 1 = ex_A3s" by (simp add: ex_A3s_def)
  have a3: "ainv ex_A3s" "running ex_A3s 1" using ex_sent_rel [of "\<lambda>_. 1"] by auto
  have inv: "ainv ex_A4" unfolding ex_A4_def by (rule receive_inv [OF a3])
  have h: "\<exists>K'. run_handler H_receive K = Inr K' \<and> krel K' ex_A4 \<and> True" if K: "krel K (a_run (a_take ex_A2s 1) 1)" for K
    using sys_receive_refine [OF K [unfolded a] a3] by (auto simp: ex_A4_def)
  show ?thesis
    using svc_scenario [where Q = "\<lambda>_. True", OF S ex_schedule_2s booted_svc(3) [OF S, of x m] inv] h by blast
qed

lemma ex_exchange:
  assumes "ucast (x 0 :: u64) = (1 :: i32)"
  shows "\<exists>S0 K0 S1 S2 K2. boot ex_system 0 0 0x90000 0xA0000 = Inr S0 \<and> system_inv S0
     \<and> schedule (sy_kernel S0) = Inr (K0, Some 0) \<and> svc_call S0 (ex_trap 0x54000015 x m) H_send
     \<and> kmain_step S0 (ex_trap 0x54000015 x m) = Inr (S1, True) \<and> others_run 0 S1 S2
     \<and> schedule (sy_kernel S2) = Inr (K2, Some 1) \<and> svc_call S2 (ex_trap 0x54000017 y m') H_reply
     \<and> t_state (k_tasks (sy_kernel S2) 0) = WATIREPLY"
proof -
  obtain S0 where b: "boot ex_system 0 0 0x90000 0xA0000 = Inr S0" "booted S0 ex_A0" using ex_booted by blast
  from ex_send_round [where x = x and m = m, OF b(2) assms] obtain K0 S1 where
    s1: "schedule (sy_kernel S0) = Inr (K0, Some 0)" "kmain_step S0 (ex_trap 0x54000015 x m) = Inr (S1, True)" "booted S1 ex_A2s"
    by blast
  let ?r = "ex_trap 0x54000016 (\<lambda>_. 0) (\<lambda>_. 0)"
  from ex_receive_round [OF s1(3), of "\<lambda>_. 0" "\<lambda>_. 0"] obtain K1 S2 where
    s2: "schedule (sy_kernel S1) = Inr (K1, Some 1)" "kmain_step S1 ?r = Inr (S2, True)" "booted S2 ex_A4" by blast
  have "well_behaved S1 ?r" by (rule svc_well_behaved [OF booted_svc(3) [OF s1(3)]]) simp
  from others_round [OF others_start s2(1) _ this s2(2), of 0] have o: "others_run 0 S1 S2" by simp
  have A: "krel (sy_kernel S2) ex_A4" "ainv ex_A4" using s2(3) by (simp_all add: booted_def)
  from schedule_refine [OF A] ex_schedule_4 obtain K2 where "schedule (sy_kernel S2) = Inr (K2, Some 1)" by auto
  moreover have "t_state (k_tasks (sy_kernel S2) 0) = WATIREPLY"
    using krel_state [OF A(1), of 0] by (simp add: ex_A4_facts)
  ultimately show ?thesis
    using b(1) booted_inv [OF b(2)] s1(1,2) booted_svc(2) [OF b(2)] booted_svc(4) [OF s2(3)] o by blast
qed

subsection \<open>Task 0 gets a result, then it is interrupted\<close>

definition ex_tick :: "(nat \<Rightarrow> u64) \<Rightarrow> Trap" where
  "ex_tick x = (ex_trap 0 x (\<lambda>_. 0))\<lparr>tr_exc := IRQ, tr_intid := 97, tr_clo := 10050\<rparr>"

lemma ex_tick_ok: "booted S A \<Longrightarrow> tick_ok S (ex_tick x)"
  by (simp add: booted_def tick_ok_def ex_tick_def ex_trap_def sys_timer_full_count_def)

lemma ex_tick_behaves: "booted S A \<Longrightarrow> well_behaved S (ex_tick x)"
  using ex_tick_ok [of "S" A x] by (auto simp: well_behaved_def trap_ok_def ex_tick_def tick_ok_def split: sum.splits option.splits)

lemma ex_tid_round:
  assumes S: "booted S ex_A0"
  shows "\<exists>K S'. schedule (sy_kernel S) = Inr (K, Some 0) \<and> kmain_step S (ex_trap 0x5400000B x m) = Inr (S', True) \<and> booted S' ex_A1
    \<and> passed (k_tasks (sy_kernel S') 0) = (True, 0)"
proof -
  have a1: "ainv ex_A1" "running ex_A1 0" using ex_run_0 by auto
  have h: "\<exists>K'. run_handler H_tid K = Inr K' \<and> krel K' ex_A1 \<and> passed (k_tasks K' 0) = (True, 0)"
    if K: "krel K (a_run (a_take ex_A0 0) 0)" for K
  proof -
    have K': "krel K ex_A1" using K by (simp add: ex_A1_def)
    have "t_tid (k_tasks K 0) = 0" using krel_tid [OF K', of 0] by (simp add: ex_A1_facts)
    moreover have "get_current_task K = Some 0" using running_kernel(1) [OF K' a1(2)] by (simp add: get_current_task_def)
    ultimately have "sys_tid K = Inr (give_result K 0 0)" by (simp add: sys_tid_def)
    then show ?thesis using K' by (auto simp: krel_give_result passed_def)
  qed
  show ?thesis
    using svc_scenario [where Q = "\<lambda>K. passed (k_tasks K 0) = (True, 0)", OF S ex_schedule_0 booted_svc(1) [OF S, of x m] a1(1)] h
    by blast
qed

subsection \<open>Task 0 awaits the timer, task 1 is interrupted\<close>

definition ex_A2w :: AKernel where "ex_A2w = a_await ex_A1 0 97"

lemma ex_A2w_eq: "a_irq ex_A2w 97 = (\<lambda>_. [])(5 := [0])" "a_jobs ex_A2w = [0, 1]" "a_state ex_A2w 0 = AWATIEVENT"
  by (simp_all add: ex_A2w_def a_await_def ex_A1_def ex_A0_eq Let_def)

lemma ex_schedule_2w: "a_schedule ex_A2w = (a_take ex_A2w 1, Some 1)"
  by (simp add: a_schedule_def a_requeue_def a_order_def order_10 ex_A2w_def a_await_def ex_A1_def ex_A0_eq Let_def)

lemma ex_await_round:
  assumes S: "booted S ex_A0" and ev: "ucast (x 0 :: u64) = (97 :: i32)"
  shows "\<exists>K S'. schedule (sy_kernel S) = Inr (K, Some 0) \<and> kmain_step S (ex_trap 0x5400001F x m) = Inr (S', True) \<and> booted S' ex_A2w"
proof -
  have a1: "ainv ex_A1" "running ex_A1 0" using ex_run_0 by auto
  have inv: "ainv ex_A2w" unfolding ex_A2w_def by (rule await_inv [OF a1]) (simp add: NUM_INTERRUPT_def)
  have h: "\<exists>K'. run_handler H_await_event K = Inr K' \<and> krel K' ex_A2w \<and> True"
    if K: "krel K (a_run (a_take ex_A0 0) 0)" "t_x (k_tasks K 0) = tr_x (ex_trap 0x5400001F x m)" for K
  proof -
    have K': "krel K ex_A1" "t_x (k_tasks K 0) = x" using K by (simp_all add: ex_A1_def ex_trap_def)
    from sys_await_event_refine [OF K'(1) a1] show ?thesis by (simp add: K'(2) ev ex_A2w_def)
  qed
  show ?thesis
    using svc_scenario [where Q = "\<lambda>_. True", OF S ex_schedule_0 booted_svc(5) [OF S, of x m] inv] h by blast
qed

lemma ex_waits_for_timer:
  "\<exists>S K. system_inv S \<and> schedule (sy_kernel S) = Inr (K, Some 1) \<and> tick_ok S (ex_tick x) \<and> event_waiters (sy_kernel S) 97 = [0]"
proof -
  obtain S0 where b: "booted S0 ex_A0" using ex_booted by blast
  from ex_await_round [OF b, of "\<lambda>_. 97" "\<lambda>_. 0"] obtain S where s: "booted S ex_A2w" by auto
  then have A: "krel (sy_kernel S) ex_A2w" "ainv ex_A2w" by (simp_all add: booted_def)
  from schedule_refine [OF A] ex_schedule_2w obtain K where "schedule (sy_kernel S) = Inr (K, Some 1)" by auto
  moreover have "event_waiters (sy_kernel S) 97 = [0]"
    using event_waiters_order [OF A(1), of 97] by (simp add: NUM_INTERRUPT_def ex_A2w_eq order_10)
  ultimately show ?thesis using booted_inv [OF s] ex_tick_ok [OF s] by blast
qed

end
