(* ===== verification/Rps_Server.thy ===== *)
theory Rps_Server
  imports Name_Server Memory_Pool Conversions
begin

text \<open>
  The rock-paper-scissors server of \<^verbatim>\<open>rps_server.c\<close> and its clients.  A message queued by the
  server lives in a chunk of its pool and a pointer to it is its address there.  The server asks the name
  server for the number of a task: its call \<open>WhoIs\<close> is the argument \<open>whois\<close> of its step.
\<close>

definition SIGNUP :: u32 where "SIGNUP = 0"
definition PLAY :: u32 where "PLAY = 1"
definition QUIT :: u32 where "QUIT = 2"

definition ABSENT :: u32 where "ABSENT = 0"
definition UNKNOWN :: u32 where "UNKNOWN = 1"
definition ROCK :: u32 where "ROCK = 2"
definition PAPER :: u32 where "PAPER = 3"
definition SCISSORS :: u32 where "SCISSORS = 4"

definition WON :: u32 where "WON = 0"
definition LOST :: u32 where "LOST = 1"
definition TIE :: u32 where "TIE = 2"
definition NO_OPPONENT :: u32 where "NO_OPPONENT = 3"

type_synonym rmsg_ptr = nat

record RPSMsg =
  rm_action :: u32
  rm_play_action :: u32
  rm_name :: key
  rm_opponent :: key
  rm_play_result :: u32
  rm_next :: "rmsg_ptr option"

record RPSMsgQueue =
  rq_front :: "rmsg_ptr option"
  rq_end :: "rmsg_ptr option"
  rq_size :: usize

type_synonym rmsgs = "rmsg_ptr \<Rightarrow> RPSMsg"

definition RPS_MSG_SIZE :: nat where "RPS_MSG_SIZE = 40"

definition rps_msg_queue_init :: "RPSMsgQueue \<Rightarrow> RPSMsgQueue" where
  "rps_msg_queue_init self = self\<lparr>rq_front := None, rq_end := None, rq_size := 0\<rparr>"

definition rps_msg_queue_add :: "rmsgs \<Rightarrow> RPSMsgQueue \<Rightarrow> rmsg_ptr \<Rightarrow> rmsgs \<times> RPSMsgQueue" where
  "rps_msg_queue_add nodes self msg =
     (let nodes = nodes(msg := (nodes msg)\<lparr>rm_next := None\<rparr>);
          (nodes, self) =
            (case rq_end self of
               Some e \<Rightarrow>
                 let nodes = nodes(e := (nodes e)\<lparr>rm_next := Some msg\<rparr>)
                 in (nodes, self\<lparr>rq_end := rm_next (nodes e)\<rparr>)
             | None \<Rightarrow> (nodes, self\<lparr>rq_end := Some msg, rq_front := Some msg\<rparr>))
      in (nodes, self\<lparr>rq_size := rq_size self + 1\<rparr>))"

definition rps_msg_queue_pop :: "rmsgs \<Rightarrow> RPSMsgQueue \<Rightarrow> RPSMsgQueue \<times> rmsg_ptr option" where
  "rps_msg_queue_pop nodes self =
     (let (self, popped) =
        (case rq_front self of
           Some f \<Rightarrow>
             (if rm_next (nodes f) \<noteq> None then self\<lparr>rq_front := rm_next (nodes f)\<rparr>
              else self\<lparr>rq_front := None, rq_end := None\<rparr>, Some f)
         | None \<Rightarrow> (self, None))
      in (self\<lparr>rq_size := rq_size self - 1\<rparr>, popped))"

subsection \<open>The server\<close>

record RpsServer =
  rs_pool :: MemoryPool
  rs_nodes :: rmsgs
  rs_queue :: RPSMsgQueue
  rs_actions :: "u32 list"

type_synonym rps_reply = "i32 \<times> RPSMsg"

definition rps_server_init :: "RpsServer \<Rightarrow> RpsServer res" where
  "rps_server_init S =
     bindE (fold (\<lambda>i r. bindE r (\<lambda>a. updE a i ABSENT)) [0..<64] (Inr (rs_actions S))) (\<lambda>a.
     Inr (S\<lparr>rs_pool := memory_pool_init (rs_pool S), rs_queue := rps_msg_queue_init (rs_queue S), rs_actions := a\<rparr>))"

text \<open>The array of the players' actions is indexed by task numbers, which are signed.\<close>

definition action_index :: "i32 \<Rightarrow> nat res" where
  "action_index tid = (if sint tid < 0 then Inl OutOfBounds else Inr (nat (sint tid)))"

definition get_action :: "RpsServer \<Rightarrow> i32 \<Rightarrow> u32 res" where
  "get_action S tid = bindE (action_index tid) (nthE (rs_actions S))"

definition set_action :: "RpsServer \<Rightarrow> i32 \<Rightarrow> u32 \<Rightarrow> RpsServer res" where
  "set_action S tid a =
     bindE (action_index tid) (\<lambda>i. bindE (updE (rs_actions S) i a) (\<lambda>as. Inr (S\<lparr>rs_actions := as\<rparr>)))"

definition new_rps_msg :: "RpsServer \<Rightarrow> (RPSMsg \<Rightarrow> RPSMsg) \<Rightarrow> (RpsServer \<times> rmsg_ptr) res" where
  "new_rps_msg S fill =
     bindE (memory_pool_allocate (rs_pool S) RPS_MSG_SIZE) (\<lambda>(pool, p).
     bindE (derefE p) (\<lambda>n. Inr (S\<lparr>rs_pool := pool, rs_nodes := (rs_nodes S)(n := fill (rs_nodes S n))\<rparr>, n)))"

definition free_rps_msg :: "RpsServer \<Rightarrow> rmsg_ptr \<Rightarrow> RpsServer res" where
  "free_rps_msg S n = bindE (memory_pool_free (rs_pool S) n) (\<lambda>pool. Inr (S\<lparr>rs_pool := pool\<rparr>))"

definition rps_result :: "key \<Rightarrow> key \<Rightarrow> u32 \<Rightarrow> RPSMsg \<Rightarrow> RPSMsg" where
  "rps_result nm opponent result m = m\<lparr>rm_name := nm, rm_opponent := opponent, rm_play_result := result\<rparr>"

definition rps_signup :: "(key \<Rightarrow> i32) \<Rightarrow> RpsServer \<Rightarrow> RPSMsg \<Rightarrow> (RpsServer \<times> rps_reply list) res" where
  "rps_signup whois S msg =
     bindE (new_rps_msg S (\<lambda>m. msg)) (\<lambda>(S, new_msg).
     let (nodes, queue) = rps_msg_queue_add (rs_nodes S) (rs_queue S) new_msg;
         S = S\<lparr>rs_nodes := nodes, rs_queue := queue\<rparr>
     in bindE (set_action S (whois (rm_name (rs_nodes S new_msg))) UNKNOWN) (\<lambda>S.
     if rq_size (rs_queue S) \<ge> 2 then
       let (queue, p1) = rps_msg_queue_pop (rs_nodes S) (rs_queue S);
           (queue, p2) = rps_msg_queue_pop (rs_nodes S) queue;
           S = S\<lparr>rs_queue := queue\<rparr>
       in bindE (derefE p1) (\<lambda>msg1. bindE (derefE p2) (\<lambda>msg2.
          let nodes = (rs_nodes S)(msg1 := (rs_nodes S msg1)\<lparr>rm_opponent := rm_name (rs_nodes S msg2)\<rparr>);
              nodes = nodes(msg2 := (nodes msg2)\<lparr>rm_opponent := rm_name (nodes msg1)\<rparr>);
              S = S\<lparr>rs_nodes := nodes\<rparr>;
              replies = [(whois (rm_name (nodes msg1)), nodes msg1), (whois (rm_name (nodes msg2)), nodes msg2)]
          in bindE (free_rps_msg S msg1) (\<lambda>S. bindE (free_rps_msg S msg2) (\<lambda>S. Inr (S, replies)))))
     else Inr (S, [])))"

text \<open>The two answers of a finished round.\<close>

definition rps_answer_both :: "RpsServer \<Rightarrow> i32 \<Rightarrow> i32 \<Rightarrow> RPSMsg \<Rightarrow> u32 \<Rightarrow> u32 \<Rightarrow> (RpsServer \<times> rps_reply list) res" where
  "rps_answer_both S p1 p2 msg r1 r2 =
     bindE (new_rps_msg S (rps_result (rm_name msg) (rm_opponent msg) r1)) (\<lambda>(S, msg1).
     let first = (p1, rs_nodes S msg1)
     in bindE (new_rps_msg S (rps_result (rm_opponent msg) (rm_name msg) r2)) (\<lambda>(S, msg2).
     let second = (p2, rs_nodes S msg2)
     in bindE (free_rps_msg S msg1) (\<lambda>S. bindE (free_rps_msg S msg2) (\<lambda>S. Inr (S, [first, second])))))"

definition rps_play :: "(key \<Rightarrow> i32) \<Rightarrow> RpsServer \<Rightarrow> RPSMsg \<Rightarrow> (RpsServer \<times> rps_reply list) res" where
  "rps_play whois S msg =
     (let p1 = whois (rm_name msg);
          p2 = whois (rm_opponent msg)
      in bindE (set_action S p1 (rm_play_action msg)) (\<lambda>S.
      bindE (get_action S p2) (\<lambda>a2.
      if a2 = ABSENT then
        bindE (new_rps_msg S (rps_result (rm_name msg) (rm_opponent msg) NO_OPPONENT)) (\<lambda>(S, msg1).
        let reply = (p1, rs_nodes S msg1)
        in bindE (free_rps_msg S msg1) (\<lambda>S. Inr (S, [reply])))
      else if a2 \<noteq> UNKNOWN then
        bindE (get_action S p1) (\<lambda>a1.
        let d = a1 - a2
        in bindE (if d = 0 then rps_answer_both S p1 p2 msg TIE TIE
                  else if d = 1 \<or> d = - 2 then rps_answer_both S p1 p2 msg WON LOST
                  else if d = 2 \<or> d = - 1 then rps_answer_both S p1 p2 msg LOST WON
                  else Inr (S, [])) (\<lambda>(S, replies).
           bindE (set_action S p1 UNKNOWN) (\<lambda>S.
           bindE (set_action S p2 UNKNOWN) (\<lambda>S. Inr (S, replies)))))
      else Inr (S, []))))"

definition rps_server_step :: "(key \<Rightarrow> i32) \<Rightarrow> RpsServer \<Rightarrow> i32 \<Rightarrow> RPSMsg \<Rightarrow> (RpsServer \<times> rps_reply list) res" where
  "rps_server_step whois S tid msg =
     (if rm_action msg = SIGNUP then rps_signup whois S msg
      else if rm_action msg = PLAY then rps_play whois S msg
      else if rm_action msg = QUIT then
        bindE (set_action S tid ABSENT) (\<lambda>S. Inr (S, [(tid, msg)]))
      else Inr (S, []))"

definition rps_server :: "(key \<Rightarrow> i32) \<Rightarrow> RpsServer \<Rightarrow> (i32 \<times> i32 \<times> RPSMsg) list \<Rightarrow> (RpsServer \<times> rps_reply list) res" where
  "rps_server whois S ms = bindE (rps_server_init S) (\<lambda>S. serve (rps_server_step whois) S ms)"

subsection \<open>The client\<close>

text \<open>
  The client registers a name of its own, signs up, plays three rounds and quits.  Its
  arguments are what its calls return: the number of the server, the results and replies
  of its calls of \<^verbatim>\<open>Send\<close>, and the counter that makes its choices.  The result is the name
  it registers and the messages it sends.
\<close>

definition CLIENT_NAME_PREFIX :: bytes where
  "CLIENT_NAME_PREFIX = [114, 112, 115, 95, 99, 108, 105, 101, 110, 116, 95]" \<comment> \<open>rps\_client\_\<close>

definition rps_client_name :: "i32 \<Rightarrow> key res" where
  "rps_client_name tid =
     bindE (i32_to_cstring tid 10) (\<lambda>buffer.
     let nm = CLIENT_NAME_PREFIX @ butlast buffer
     in if length buffer \<le> 10 \<and> length nm < 20 then Inr nm else Inl OutOfBounds)"

fun rps_rounds :: "nat \<Rightarrow> (nat \<Rightarrow> RPSMsg \<Rightarrow> i32 \<times> RPSMsg) \<Rightarrow> (nat \<Rightarrow> u32) \<Rightarrow> nat \<Rightarrow> key \<Rightarrow> RPSMsg \<Rightarrow> RPSMsg
    \<Rightarrow> (RPSMsg list \<times> RPSMsg) res" where
  "rps_rounds 0 send clo i nm msg reply = Inr ([], msg)"
| "rps_rounds (Suc n) send clo i nm msg reply =
     bindE (get_random_u32 (clo i) 2 5) (\<lambda>a.
     let msg = msg\<lparr>rm_action := PLAY, rm_play_action := a, rm_name := nm, rm_opponent := rm_opponent reply\<rparr>;
         (r, reply') = send i msg
     in bindE (rps_rounds n send clo (i + 1) nm msg reply') (\<lambda>(ms, msg'). Inr (msg # ms, msg')))"

definition rps_client :: "(nat \<Rightarrow> RPSMsg \<Rightarrow> i32 \<times> RPSMsg) \<Rightarrow> (nat \<Rightarrow> u32) \<Rightarrow> i32 \<Rightarrow> RPSMsg \<Rightarrow> (key \<times> RPSMsg list) res" where
  "rps_client send clo tid msg =
     bindE (rps_client_name tid) (\<lambda>nm.
     let msg = msg\<lparr>rm_action := SIGNUP, rm_name := nm\<rparr>;
         (r, reply) = send 0 msg
     in bindE (if r \<noteq> 0 then rps_rounds 3 send clo 1 nm msg reply else Inr ([], msg)) (\<lambda>(ms, last_msg).
        Inr (nm, msg # ms @ [last_msg\<lparr>rm_action := QUIT, rm_name := nm\<rparr>])))"

end
