(* ===== verification/Rps_Facts.thy ===== *)
theory Rps_Facts
  imports Rps_Server
begin

text \<open>
  What the server of \<^verbatim>\<open>rps_server.c\<close> does: its message queue is first-in first-out, sign-ups
  are paired, a round is judged by the rules of the game, every step keeps the server's
  invariant.
\<close>

subsection \<open>The message queue\<close>

fun rchain :: "rmsgs \<Rightarrow> rmsg_ptr option \<Rightarrow> rmsg_ptr list \<Rightarrow> rmsg_ptr option \<Rightarrow> bool" where
  "rchain h p [] q \<longleftrightarrow> p = q"
| "rchain h p (n # ns) q \<longleftrightarrow> p = Some n \<and> rchain h (rm_next (h n)) ns q"

lemma rchain_append: "rchain h p (xs @ ys) q \<longleftrightarrow> (\<exists>r. rchain h p xs r \<and> rchain h r ys q)"
  by (induction xs arbitrary: p) auto

lemma rchain_cong:
  "(\<And>n. n \<in> set ns \<Longrightarrow> rm_next (h' n) = rm_next (h n)) \<Longrightarrow> rchain h' p ns q = rchain h p ns q"
  by (induction ns arbitrary: p) simp_all

definition mq_rep :: "rmsgs \<Rightarrow> RPSMsgQueue \<Rightarrow> rmsg_ptr list \<Rightarrow> bool" where
  "mq_rep h q ns \<longleftrightarrow> rchain h (rq_front q) ns None \<and> distinct ns
     \<and> rq_end q = (if ns = [] then None else Some (last ns)) \<and> rq_size q = word_of_nat (length ns)"

lemma mq_rep_cong: "(\<And>n. n \<in> set ns \<Longrightarrow> rm_next (h' n) = rm_next (h n)) \<Longrightarrow> mq_rep h' q ns = mq_rep h q ns"
  unfolding mq_rep_def using rchain_cong [of ns h' h] by auto

lemma rps_msg_queue_init_ok: "mq_rep h (rps_msg_queue_init q) []"
  by (simp add: mq_rep_def rps_msg_queue_init_def)

lemma rps_msg_queue_add_ok:
  assumes rep: "mq_rep h q ns" and n: "n \<notin> set ns"
  shows "\<exists>h' q'. rps_msg_queue_add h q n = (h', q') \<and> mq_rep h' q' (ns @ [n])
    \<and> (\<forall>m. h' m = (h m)\<lparr>rm_next := rm_next (h' m)\<rparr>)"
proof (cases ns rule: rev_cases)
  case Nil
  with rep show ?thesis by (simp add: mq_rep_def rps_msg_queue_add_def)
next
  case (snoc ms e)
  let ?h = "h(n := (h n)\<lparr>rm_next := None\<rparr>, e := (h e)\<lparr>rm_next := Some n\<rparr>)"
  let ?q = "q\<lparr>rq_end := Some n, rq_size := rq_size q + 1\<rparr>"
  have d: "e \<notin> set ms" "e \<noteq> n" "n \<notin> set ms" using rep n snoc by (auto simp: mq_rep_def)
  have "rchain h (rq_front q) ms (Some e)" using rep snoc by (auto simp: mq_rep_def rchain_append)
  then have "rchain ?h (rq_front q) ms (Some e)" using d by (subst rchain_cong [where h = h]) auto
  then have "rchain ?h (rq_front q) (ns @ [n]) None" using d snoc by (auto simp: rchain_append)
  moreover have "rps_msg_queue_add h q n = (?h, ?q)"
    using rep snoc d by (auto simp: rps_msg_queue_add_def mq_rep_def Let_def fun_eq_iff)
  moreover have "?h m = (h m)\<lparr>rm_next := rm_next (?h m)\<rparr>" for m by simp
  ultimately show ?thesis using rep n by (auto simp: mq_rep_def)
qed

lemma rps_msg_queue_pop_ok:
  assumes "mq_rep h q (n # ns)"
  shows "\<exists>q'. rps_msg_queue_pop h q = (q', Some n) \<and> mq_rep h q' ns"
  using assms by (cases ns) (simp_all add: mq_rep_def rps_msg_queue_pop_def)

subsection \<open>The server's data\<close>

definition owned :: "RpsServer \<Rightarrow> rmsg_ptr set \<Rightarrow> bool" where
  "owned S X \<longleftrightarrow> memory_pool_inv (rs_pool S) \<and> X \<subseteq> chunk_addrs \<and> free_chunks (rs_pool S) = chunk_addrs - X"

definition player :: "i32 \<Rightarrow> bool" where
  "player tid \<longleftrightarrow> 0 \<le> sint tid \<and> sint tid < 64"

definition action_of :: "RpsServer \<Rightarrow> i32 \<Rightarrow> u32" where
  "action_of S tid = rs_actions S ! nat (sint tid)"

definition put_action :: "i32 \<Rightarrow> u32 \<Rightarrow> u32 list \<Rightarrow> u32 list" where
  "put_action tid a as = as[nat (sint tid) := a]"

lemma length_put_action [simp]: "length (put_action tid a as) = length as"
  by (simp add: put_action_def)

lemma player_index: "player tid \<Longrightarrow> \<not> sint tid < 0 \<and> nat (sint tid) < 64"
  by (auto simp: player_def)

lemma set_action_ok [simp]:
  "player tid \<Longrightarrow> length (rs_actions S) = 64 \<Longrightarrow> set_action S tid a = Inr (S\<lparr>rs_actions := put_action tid a (rs_actions S)\<rparr>)"
  using player_index [of tid] by (simp add: set_action_def action_index_def put_action_def)

lemma get_action_ok [simp]:
  "player tid \<Longrightarrow> length (rs_actions S) = 64 \<Longrightarrow> get_action S tid = Inr (action_of S tid)"
  using player_index [of tid] by (simp add: get_action_def action_index_def action_of_def)

lemma action_of_put [simp]:
  assumes "player t" and "player t'" and "length (rs_actions S) = 64"
  shows "action_of (S\<lparr>rs_actions := put_action t a (rs_actions S)\<rparr>) t' = (if t' = t then a else action_of S t')"
proof (cases "t' = t")
  case False
  then have "sint t' \<noteq> sint t" by (metis signed_word_eqI)
  then have "nat (sint t') \<noteq> nat (sint t)" using assms(1,2) eq_nat_nat_iff unfolding player_def by blast
  with False show ?thesis by (simp add: action_of_def put_action_def)
qed (use assms in \<open>simp add: action_of_def put_action_def player_index\<close>)

lemma new_rps_msg_ok:
  assumes own: "owned S X" and room: "card X < 512"
  shows "\<exists>p n. new_rps_msg S f = Inr (S\<lparr>rs_pool := p, rs_nodes := (rs_nodes S)(n := f (rs_nodes S n))\<rparr>, n)
    \<and> n \<notin> X \<and> owned (S\<lparr>rs_pool := p, rs_nodes := (rs_nodes S)(n := f (rs_nodes S n))\<rparr>) (insert n X)"
proof -
  have o: "memory_pool_inv (rs_pool S)" "X \<subseteq> chunk_addrs" "free_chunks (rs_pool S) = chunk_addrs - X"
    using own by (simp_all add: owned_def)
  have "card (chunk_addrs - X) = card chunk_addrs - card X"
    using o(2) finite_chunk_addrs finite_subset by (intro card_Diff_subset) auto
  then have "0 < mp_unused_top (rs_pool S)" using room card_free_chunks [OF o(1)] o(3)
    by (simp add: card_chunk_addrs MEMORY_POOL_CHUNKS_def MEMORY_POOL_SIZE_def MEMORY_POOL_CHUNK_SIZE_def)
  from memory_pool_allocate_ok [OF o(1) _ this, of RPS_MSG_SIZE] obtain p n where
    p: "memory_pool_allocate (rs_pool S) RPS_MSG_SIZE = Inr (p, Some n)" "memory_pool_inv p"
      "n \<in> free_chunks (rs_pool S)" "free_chunks p = free_chunks (rs_pool S) - {n}"
    by (auto simp: RPS_MSG_SIZE_def MEMORY_POOL_CHUNK_SIZE_def)
  then have "n \<notin> X" "n \<in> chunk_addrs" "free_chunks p = chunk_addrs - insert n X" using o(3) by auto
  with p(1,2) o(2) show ?thesis
    by (intro exI [of _ p] exI [of _ n]) (simp add: new_rps_msg_def owned_def)
qed

lemma free_rps_msg_ok:
  assumes own: "owned S X" and n: "n \<in> X"
  shows "\<exists>p. free_rps_msg S n = Inr (S\<lparr>rs_pool := p\<rparr>) \<and> owned (S\<lparr>rs_pool := p\<rparr>) (X - {n})"
proof -
  have o: "memory_pool_inv (rs_pool S)" "X \<subseteq> chunk_addrs" "free_chunks (rs_pool S) = chunk_addrs - X"
    using own by (simp_all add: owned_def)
  from o n have a: "n \<in> chunk_addrs" "n \<notin> free_chunks (rs_pool S)" by auto
  from memory_pool_free_ok [OF o(1) a] obtain p where
    p: "memory_pool_free (rs_pool S) n = Inr p" "memory_pool_inv p" "free_chunks p = insert n (free_chunks (rs_pool S))"
    by blast
  have "free_chunks p = chunk_addrs - (X - {n})" using p(3) o(2,3) n by auto
  with p(1,2) o(2) show ?thesis by (intro exI [of _ p]) (auto simp: free_rps_msg_def owned_def)
qed

text \<open>The players who wait for an opponent.\<close>

definition rps_rep :: "RpsServer \<Rightarrow> rmsg_ptr list \<Rightarrow> bool" where
  "rps_rep S ns \<longleftrightarrow> mq_rep (rs_nodes S) (rs_queue S) ns \<and> owned S (set ns) \<and> length (rs_actions S) = 64"

definition rps_waiting :: "RpsServer \<Rightarrow> key option" where
  "rps_waiting S = map_option (\<lambda>n. rm_name (rs_nodes S n)) (rq_front (rs_queue S))"

definition rps_inv :: "RpsServer \<Rightarrow> bool" where
  "rps_inv S \<longleftrightarrow> (\<exists>ns. rps_rep S ns \<and> length ns \<le> 1)"

lemma rps_init_ok:
  assumes "length (mp_unused (rs_pool S)) = MEMORY_POOL_CHUNKS" and "length (rs_actions S) = 64"
  shows "\<exists>S'. rps_server_init S = Inr S' \<and> rps_inv S' \<and> rps_waiting S' = None
    \<and> rs_actions S' = replicate 64 ABSENT"
  using memory_pool_init_ok [OF assms(1)] fill_loop [of 64 "rs_actions S" ABSENT] assms(2) rps_msg_queue_init_ok
  by (auto simp: rps_server_init_def rps_inv_def rps_rep_def owned_def rps_waiting_def rps_msg_queue_init_def
      mq_rep_def simp del: upt_Suc intro!: exI [of _ "[]"])

subsection \<open>Playing\<close>

lemma rps_answer_both_ok:
  assumes own: "owned S X" and room: "card X < 511"
  shows "\<exists>S' m1 m2. rps_answer_both S p1 p2 msg r1 r2 = Inr (S', [(p1, rps_result (rm_name msg) (rm_opponent msg) r1 m1),
        (p2, rps_result (rm_opponent msg) (rm_name msg) r2 m2)])
    \<and> owned S' X \<and> rs_queue S' = rs_queue S \<and> rs_actions S' = rs_actions S
    \<and> (\<forall>n\<in>X. rs_nodes S' n = rs_nodes S n)"
proof -
  let ?f = "rps_result (rm_name msg) (rm_opponent msg) r1" and ?g = "rps_result (rm_opponent msg) (rm_name msg) r2"
  from new_rps_msg_ok [OF own, of ?f] room obtain p1' n1 where
    a: "new_rps_msg S ?f = Inr (S\<lparr>rs_pool := p1', rs_nodes := (rs_nodes S)(n1 := ?f (rs_nodes S n1))\<rparr>, n1)"
      "n1 \<notin> X" "owned (S\<lparr>rs_pool := p1', rs_nodes := (rs_nodes S)(n1 := ?f (rs_nodes S n1))\<rparr>) (insert n1 X)" by auto
  let ?S1 = "S\<lparr>rs_pool := p1', rs_nodes := (rs_nodes S)(n1 := ?f (rs_nodes S n1))\<rparr>"
  have "finite X" using own finite_chunk_addrs by (auto simp: owned_def intro: finite_subset)
  then have "card (insert n1 X) < 512" using room a(2) by simp
  from new_rps_msg_ok [OF a(3) this, of ?g] obtain p2' n2 where
    b: "new_rps_msg ?S1 ?g = Inr (?S1\<lparr>rs_pool := p2', rs_nodes := (rs_nodes ?S1)(n2 := ?g (rs_nodes ?S1 n2))\<rparr>, n2)"
      "n2 \<notin> insert n1 X"
      "owned (?S1\<lparr>rs_pool := p2', rs_nodes := (rs_nodes ?S1)(n2 := ?g (rs_nodes ?S1 n2))\<rparr>) (insert n2 (insert n1 X))" by blast
  let ?S2 = "?S1\<lparr>rs_pool := p2', rs_nodes := (rs_nodes ?S1)(n2 := ?g (rs_nodes ?S1 n2))\<rparr>"
  from free_rps_msg_ok [OF b(3), of n1] obtain p3 where
    c: "free_rps_msg ?S2 n1 = Inr (?S2\<lparr>rs_pool := p3\<rparr>)" "owned (?S2\<lparr>rs_pool := p3\<rparr>) (insert n2 (insert n1 X) - {n1})" by blast
  have X1: "insert n2 (insert n1 X) - {n1} = insert n2 X" using a(2) b(2) by auto
  from free_rps_msg_ok [OF c(2) [unfolded X1], of n2] obtain p4 where
    d: "free_rps_msg (?S2\<lparr>rs_pool := p3\<rparr>) n2 = Inr (?S2\<lparr>rs_pool := p3\<rparr>\<lparr>rs_pool := p4\<rparr>)"
      "owned (?S2\<lparr>rs_pool := p3\<rparr>\<lparr>rs_pool := p4\<rparr>) (insert n2 X - {n2})" by blast
  have X2: "insert n2 X - {n2} = X" using b(2) by auto
  have "rps_answer_both S p1 p2 msg r1 r2 = Inr (?S2\<lparr>rs_pool := p3\<rparr>\<lparr>rs_pool := p4\<rparr>,
      [(p1, ?f (rs_nodes S n1)), (p2, ?g (rs_nodes ?S1 n2))])"
    unfolding rps_answer_both_def a(1) bindE_Inr prod.case Let_def b(1) c(1) d(1) by simp
  then show ?thesis
    using d(2) X2 a(2) b(2) by (intro exI conjI) (assumption | auto)+
qed

text \<open>The rules of the game.\<close>

definition beats :: "u32 \<Rightarrow> u32 \<Rightarrow> bool" where
  "beats a b \<longleftrightarrow> (a = ROCK \<and> b = SCISSORS) \<or> (a = PAPER \<and> b = ROCK) \<or> (a = SCISSORS \<and> b = PAPER)"

definition verdict :: "u32 \<Rightarrow> u32 \<Rightarrow> u32" where
  "verdict a b = (if beats a b then WON else if beats b a then LOST else TIE)"

definition gesture :: "u32 \<Rightarrow> bool" where
  "gesture a \<longleftrightarrow> a = ROCK \<or> a = PAPER \<or> a = SCISSORS"

lemmas rps_codes = ROCK_def PAPER_def SCISSORS_def ABSENT_def UNKNOWN_def WON_def LOST_def TIE_def NO_OPPONENT_def
  SIGNUP_def PLAY_def QUIT_def

lemma judge_table:
  assumes "gesture a" and "gesture b"
  shows "(if a - b = 0 then F TIE TIE else if a - b = 1 \<or> a - b = - 2 then F WON LOST
    else if a - b = 2 \<or> a - b = - 1 then F LOST WON else G) = F (verdict a b) (verdict b a)"
  using assms by (auto simp: gesture_def verdict_def beats_def rps_codes)

lemma rps_rep_frame:
  assumes "rps_rep S ns" and "owned S' (set ns)" and "rs_queue S' = rs_queue S" and "length (rs_actions S') = 64"
    and "\<forall>n\<in>set ns. rs_nodes S' n = rs_nodes S n"
  shows "rps_rep S' ns \<and> rps_waiting S' = rps_waiting S"
proof -
  have "mq_rep (rs_nodes S') (rs_queue S') ns"
    using assms mq_rep_cong [of ns "rs_nodes S'" "rs_nodes S" "rs_queue S"] by (auto simp: rps_rep_def)
  moreover have "rps_waiting S' = rps_waiting S"
    using assms by (cases ns) (auto simp: rps_waiting_def rps_rep_def mq_rep_def)
  ultimately show ?thesis using assms by (simp add: rps_rep_def)
qed

lemma rps_rep_card: "rps_rep S ns \<Longrightarrow> length ns \<le> 1 \<Longrightarrow> card (set ns) \<le> 1"
  using card_length [of ns] by linarith

lemma rps_rep_actions [simp]: "length as = 64 \<Longrightarrow> rps_rep S ns \<Longrightarrow> rps_rep (S\<lparr>rs_actions := as\<rparr>) ns"
  by (simp add: rps_rep_def owned_def)

lemma rps_waiting_actions [simp]: "rps_waiting (S\<lparr>rs_actions := as\<rparr>) = rps_waiting S"
  by (simp add: rps_waiting_def)

text \<open>What a step leaves of the queue.\<close>

definition rps_kept :: "RpsServer \<Rightarrow> rmsg_ptr list \<Rightarrow> RpsServer \<Rightarrow> bool" where
  "rps_kept S ns S' \<longleftrightarrow> rps_rep S' ns \<and> rps_waiting S' = rps_waiting S"

lemma rps_kept_actions: "rps_kept S ns S' \<Longrightarrow> length as = 64 \<Longrightarrow> rps_kept S ns (S'\<lparr>rs_actions := as\<rparr>)"
  by (simp add: rps_kept_def)

lemma rps_kept_length: "rps_kept S ns S' \<Longrightarrow> length (rs_actions S') = 64"
  by (simp add: rps_kept_def rps_rep_def)

lemma answer_both_kept:
  assumes "rps_rep S ns" and "length ns \<le> 1"
  shows "\<exists>S' m1 m2. rps_answer_both S p1 p2 msg r1 r2 = Inr (S', [(p1, rps_result (rm_name msg) (rm_opponent msg) r1 m1),
        (p2, rps_result (rm_opponent msg) (rm_name msg) r2 m2)])
    \<and> rps_kept S ns S' \<and> rs_actions S' = rs_actions S"
proof -
  have own: "owned S (set ns)" "card (set ns) < 511" "length (rs_actions S) = 64"
    using assms(1) rps_rep_card [OF assms] by (simp_all add: rps_rep_def)
  from rps_answer_both_ok [OF own(1,2), of p1 p2 msg r1 r2] obtain S' m1 m2 where
    "rps_answer_both S p1 p2 msg r1 r2 = Inr (S', [(p1, rps_result (rm_name msg) (rm_opponent msg) r1 m1),
        (p2, rps_result (rm_opponent msg) (rm_name msg) r2 m2)])"
    "owned S' (set ns)" "rs_queue S' = rs_queue S" "rs_actions S' = rs_actions S" "\<forall>n\<in>set ns. rs_nodes S' n = rs_nodes S n"
    by blast
  moreover from this have "rps_kept S ns S'"
    unfolding rps_kept_def by (intro rps_rep_frame [OF assms(1)]) (simp_all add: own(3))
  ultimately show ?thesis by blast
qed

lemma answer_one_kept:
  assumes rep: "rps_rep S ns" and ns: "length ns \<le> 1"
  shows "\<exists>S1 S2 n. new_rps_msg S f = Inr (S1, n) \<and> rs_nodes S1 n = f (rs_nodes S n) \<and> free_rps_msg S1 n = Inr S2
    \<and> rps_kept S ns S2 \<and> rs_actions S2 = rs_actions S"
proof -
  have own: "owned S (set ns)" "card (set ns) < 512" "length (rs_actions S) = 64"
    using rep rps_rep_card [OF assms] by (simp_all add: rps_rep_def)
  from new_rps_msg_ok [OF own(1,2), of f] obtain p n where
    a: "new_rps_msg S f = Inr (S\<lparr>rs_pool := p, rs_nodes := (rs_nodes S)(n := f (rs_nodes S n))\<rparr>, n)" "n \<notin> set ns"
      "owned (S\<lparr>rs_pool := p, rs_nodes := (rs_nodes S)(n := f (rs_nodes S n))\<rparr>) (insert n (set ns))" by blast
  let ?S1 = "S\<lparr>rs_pool := p, rs_nodes := (rs_nodes S)(n := f (rs_nodes S n))\<rparr>"
  from free_rps_msg_ok [OF a(3), of n] a(2) obtain p' where
    b: "free_rps_msg ?S1 n = Inr (?S1\<lparr>rs_pool := p'\<rparr>)" "owned (?S1\<lparr>rs_pool := p'\<rparr>) (set ns)" by auto
  have "rps_kept S ns (?S1\<lparr>rs_pool := p'\<rparr>)"
    unfolding rps_kept_def using a(2) own(3) by (intro rps_rep_frame [OF rep b(2)]) auto
  with a(1) b(1) show ?thesis by (intro exI conjI) (assumption | simp)+
qed

lemma rps_play_waits:
  assumes rep: "rps_rep S ns" and pl: "player (whois (rm_name msg))" "player (whois (rm_opponent msg))"
    and ne: "whois (rm_name msg) \<noteq> whois (rm_opponent msg)"
    and u: "action_of S (whois (rm_opponent msg)) = UNKNOWN"
  shows "rps_play whois S msg
    = Inr (S\<lparr>rs_actions := put_action (whois (rm_name msg)) (rm_play_action msg) (rs_actions S)\<rparr>, [])"
proof -
  have "length (rs_actions S) = 64" using rep by (simp add: rps_rep_def)
  then show ?thesis using pl u ne [symmetric] by (simp add: rps_play_def rps_codes)
qed

lemma rps_play_absent:
  assumes rep: "rps_rep S ns" and ns: "length ns \<le> 1"
    and pl: "player (whois (rm_name msg))" "player (whois (rm_opponent msg))"
    and ne: "whois (rm_name msg) \<noteq> whois (rm_opponent msg)"
    and u: "action_of S (whois (rm_opponent msg)) = ABSENT"
  shows "\<exists>S' m. rps_play whois S msg
      = Inr (S', [(whois (rm_name msg), rps_result (rm_name msg) (rm_opponent msg) NO_OPPONENT m)])
    \<and> rps_kept S ns S' \<and> rs_actions S' = put_action (whois (rm_name msg)) (rm_play_action msg) (rs_actions S)"
proof -
  let ?S = "S\<lparr>rs_actions := put_action (whois (rm_name msg)) (rm_play_action msg) (rs_actions S)\<rparr>"
  have len: "length (rs_actions S) = 64" using rep by (simp add: rps_rep_def)
  have rep': "rps_rep ?S ns" using rep len by simp
  from answer_one_kept [OF rep' ns, of "rps_result (rm_name msg) (rm_opponent msg) NO_OPPONENT"] obtain S1 S2 n where
    s: "new_rps_msg ?S (rps_result (rm_name msg) (rm_opponent msg) NO_OPPONENT) = Inr (S1, n)"
      "rs_nodes S1 n = rps_result (rm_name msg) (rm_opponent msg) NO_OPPONENT (rs_nodes ?S n)"
      "free_rps_msg S1 n = Inr S2" "rps_kept ?S ns S2" "rs_actions S2 = rs_actions ?S" by blast
  have "rps_play whois S msg
      = Inr (S2, [(whois (rm_name msg), rps_result (rm_name msg) (rm_opponent msg) NO_OPPONENT (rs_nodes ?S n))])"
    using len pl u ne [symmetric] s(1,2,3) by (simp add: rps_play_def)
  with s(4,5) show ?thesis by (auto simp: rps_kept_def)
qed

lemma rps_play_judged:
  assumes rep: "rps_rep S ns" and ns: "length ns \<le> 1"
    and pl: "player (whois (rm_name msg))" "player (whois (rm_opponent msg))"
    and ne: "whois (rm_name msg) \<noteq> whois (rm_opponent msg)"
    and g: "gesture (rm_play_action msg)" "gesture (action_of S (whois (rm_opponent msg)))"
  shows "\<exists>S' m1 m2. rps_play whois S msg
      = Inr (S', [(whois (rm_name msg), rps_result (rm_name msg) (rm_opponent msg)
            (verdict (rm_play_action msg) (action_of S (whois (rm_opponent msg)))) m1),
          (whois (rm_opponent msg), rps_result (rm_opponent msg) (rm_name msg)
            (verdict (action_of S (whois (rm_opponent msg))) (rm_play_action msg)) m2)])
    \<and> rps_kept S ns S' \<and> rs_actions S' = put_action (whois (rm_opponent msg)) UNKNOWN
         (put_action (whois (rm_name msg)) UNKNOWN (rs_actions S))"
proof -
  let ?p1 = "whois (rm_name msg)" and ?p2 = "whois (rm_opponent msg)"
  let ?a1 = "rm_play_action msg" and ?a2 = "action_of S ?p2"
  let ?S = "S\<lparr>rs_actions := put_action ?p1 ?a1 (rs_actions S)\<rparr>"
  have len: "length (rs_actions S) = 64" using rep by (simp add: rps_rep_def)
  have rep': "rps_rep ?S ns" using rep len by simp
  from answer_both_kept [OF rep' ns, of ?p1 ?p2 msg "verdict ?a1 ?a2" "verdict ?a2 ?a1"] obtain S' m1 m2 where
    s: "rps_answer_both ?S ?p1 ?p2 msg (verdict ?a1 ?a2) (verdict ?a2 ?a1)
        = Inr (S', [(?p1, rps_result (rm_name msg) (rm_opponent msg) (verdict ?a1 ?a2) m1),
            (?p2, rps_result (rm_opponent msg) (rm_name msg) (verdict ?a2 ?a1) m2)])"
      "rps_kept ?S ns S'" "rs_actions S' = rs_actions ?S" by blast
  have acts: "action_of ?S ?p2 = ?a2" "action_of ?S ?p1 = ?a1" using pl ne [symmetric] len by simp_all
  have g2: "?a2 \<noteq> ABSENT" "?a2 \<noteq> UNKNOWN" using g(2) by (auto simp: gesture_def rps_codes)
  note judged = judge_table [OF g, of "rps_answer_both ?S ?p1 ?p2 msg" "Inr (?S, [])"]
  let ?as = "put_action ?p2 UNKNOWN (put_action ?p1 UNKNOWN (put_action ?p1 ?a1 (rs_actions S)))"
  have l: "length (rs_actions S') = 64" using s(3) len by simp
  have "rps_play whois S msg = bindE (rps_answer_both ?S ?p1 ?p2 msg (verdict ?a1 ?a2) (verdict ?a2 ?a1))
      (\<lambda>(S, replies). bindE (set_action S ?p1 UNKNOWN) (\<lambda>S. bindE (set_action S ?p2 UNKNOWN) (\<lambda>S. Inr (S, replies))))"
    unfolding judged [symmetric] using len pl acts g2 by (simp add: rps_play_def Let_def)
  also have "\<dots> = Inr (S'\<lparr>rs_actions := ?as\<rparr>, [(?p1, rps_result (rm_name msg) (rm_opponent msg) (verdict ?a1 ?a2) m1),
            (?p2, rps_result (rm_opponent msg) (rm_name msg) (verdict ?a2 ?a1) m2)])"
    using s(1,3) l pl by simp
  finally have "rps_play whois S msg = \<dots>" .
  moreover have "?as = put_action ?p2 UNKNOWN (put_action ?p1 UNKNOWN (rs_actions S))"
    by (simp add: put_action_def)
  moreover have "rps_kept S ns (S'\<lparr>rs_actions := ?as\<rparr>)"
    using s(2) len by (simp add: rps_kept_def)
  ultimately show ?thesis by (intro exI conjI) (assumption | simp)+
qed

lemma rps_play_total:
  assumes rep: "rps_rep S ns" and ns: "length ns \<le> 1"
    and pl: "player (whois (rm_name msg))" "player (whois (rm_opponent msg))"
  shows "\<exists>S' rs. rps_play whois S msg = Inr (S', rs) \<and> rps_kept S ns S'"
proof -
  let ?p1 = "whois (rm_name msg)" and ?p2 = "whois (rm_opponent msg)"
  let ?S = "S\<lparr>rs_actions := put_action ?p1 (rm_play_action msg) (rs_actions S)\<rparr>"
  have len: "length (rs_actions S) = 64" using rep by (simp add: rps_rep_def)
  have rep': "rps_rep ?S ns" using rep len by simp
  have kept: "rps_kept S ns S'" if "rps_kept ?S ns S'" for S' using that by (simp add: rps_kept_def)
  have self: "rps_kept ?S ns ?S" using rep' by (simp add: rps_kept_def)
  let ?a1 = "action_of ?S ?p1" and ?a2 = "action_of ?S ?p2"
  consider "?a2 = ABSENT" | "?a2 = UNKNOWN" | "?a2 \<noteq> ABSENT" "?a2 \<noteq> UNKNOWN" by blast
  then show ?thesis
  proof cases
    case 1
    from answer_one_kept [OF rep' ns, of "rps_result (rm_name msg) (rm_opponent msg) NO_OPPONENT"] obtain S1 S2 n where
      "new_rps_msg ?S (rps_result (rm_name msg) (rm_opponent msg) NO_OPPONENT) = Inr (S1, n)"
      "free_rps_msg S1 n = Inr S2" "rps_kept ?S ns S2" by blast
    then show ?thesis using len pl 1 kept by (simp add: rps_play_def)
  next
    case 2
    then show ?thesis using len pl kept [OF self] by (simp add: rps_play_def rps_codes)
  next
    case 3
    let ?judge = "if ?a1 - ?a2 = 0 then rps_answer_both ?S ?p1 ?p2 msg TIE TIE
      else if ?a1 - ?a2 = 1 \<or> ?a1 - ?a2 = - 2 then rps_answer_both ?S ?p1 ?p2 msg WON LOST
      else if ?a1 - ?a2 = 2 \<or> ?a1 - ?a2 = - 1 then rps_answer_both ?S ?p1 ?p2 msg LOST WON
      else Inr (?S, [])"
    have both: "\<exists>S' rs. rps_answer_both ?S ?p1 ?p2 msg r1 r2 = Inr (S', rs) \<and> rps_kept ?S ns S'" for r1 r2
      using answer_both_kept [OF rep' ns, of ?p1 ?p2 msg r1 r2] by blast
    have "\<exists>S' rs. ?judge = Inr (S', rs) \<and> rps_kept ?S ns S'"
      using both [of TIE TIE] both [of WON LOST] both [of LOST WON] self by (simp only: split: if_split) blast
    then obtain S' rs where j: "?judge = Inr (S', rs)" "rps_kept ?S ns S'" by blast
    let ?as = "put_action ?p2 UNKNOWN (put_action ?p1 UNKNOWN (rs_actions S'))"
    have l: "length (rs_actions S') = 64" using j(2) by (rule rps_kept_length)
    have "rps_play whois S msg = bindE ?judge
        (\<lambda>(S, replies). bindE (set_action S ?p1 UNKNOWN) (\<lambda>S. bindE (set_action S ?p2 UNKNOWN) (\<lambda>S. Inr (S, replies))))"
      using len pl 3 by (simp add: rps_play_def Let_def)
    also have "\<dots> = Inr (S'\<lparr>rs_actions := ?as\<rparr>, rs)" unfolding j(1) using l pl by simp
    finally have "rps_play whois S msg = \<dots>" .
    moreover have "rps_kept S ns (S'\<lparr>rs_actions := ?as\<rparr>)" using kept [OF j(2)] l by (simp add: rps_kept_actions)
    ultimately show ?thesis by blast
  qed
qed

subsection \<open>Signing up\<close>

lemma rps_signup_first:
  assumes rep: "rps_rep S []" and pl: "player (whois (rm_name msg))"
  shows "\<exists>S' n. rps_signup whois S msg = Inr (S', []) \<and> rps_rep S' [n] \<and> rps_waiting S' = Some (rm_name msg)
    \<and> rs_actions S' = put_action (whois (rm_name msg)) UNKNOWN (rs_actions S)"
proof -
  have own: "owned S {}" "mq_rep (rs_nodes S) (rs_queue S) []" "length (rs_actions S) = 64"
    using rep by (simp_all add: rps_rep_def)
  from new_rps_msg_ok [OF own(1), of "\<lambda>m. msg"] obtain p n where
    a: "new_rps_msg S (\<lambda>m. msg) = Inr (S\<lparr>rs_pool := p, rs_nodes := (rs_nodes S)(n := msg)\<rparr>, n)"
      "owned (S\<lparr>rs_pool := p, rs_nodes := (rs_nodes S)(n := msg)\<rparr>) {n}" by auto
  have q: "mq_rep ((rs_nodes S)(n := msg)) (rs_queue S) []" using own(2) by (simp add: mq_rep_def)
  from rps_msg_queue_add_ok [OF q, of n] obtain h' q' where
    b: "rps_msg_queue_add ((rs_nodes S)(n := msg)) (rs_queue S) n = (h', q')" "mq_rep h' q' [n]"
      "\<And>m. h' m = (((rs_nodes S)(n := msg)) m)\<lparr>rm_next := rm_next (h' m)\<rparr>" by auto
  have nm: "rm_name (h' n) = rm_name msg" using arg_cong [OF b(3) [of n], of rm_name] by simp
  have sz: "\<not> 2 \<le> rq_size q'" "rq_front q' = Some n" using b(2) by (simp_all add: mq_rep_def word_le_nat_alt)
  let ?S = "S\<lparr>rs_pool := p, rs_nodes := h', rs_queue := q',
    rs_actions := put_action (whois (rm_name msg)) UNKNOWN (rs_actions S)\<rparr>"
  have "rps_signup whois S msg = Inr (?S, [])"
    using a(1) b(1) nm sz pl own(3) by (simp add: rps_signup_def)
  moreover have "rps_rep ?S [n]" using b(2) a(2) own(3) by (simp add: rps_rep_def owned_def)
  moreover have "rps_waiting ?S = Some (rm_name msg)" using sz nm by (simp add: rps_waiting_def)
  ultimately show ?thesis by (intro exI conjI) (assumption | simp)+
qed

lemma rps_signup_second:
  assumes rep: "rps_rep S [w]" and pl: "player (whois (rm_name msg))" and wait: "rps_waiting S = Some other"
  shows "\<exists>S' m1 m2. rps_signup whois S msg = Inr (S', [(whois other, m1), (whois (rm_name msg), m2)])
    \<and> rm_name m1 = other \<and> rm_opponent m1 = rm_name msg \<and> rm_name m2 = rm_name msg \<and> rm_opponent m2 = other
    \<and> rps_rep S' [] \<and> rs_actions S' = put_action (whois (rm_name msg)) UNKNOWN (rs_actions S)"
proof -
  have own: "owned S {w}" "mq_rep (rs_nodes S) (rs_queue S) [w]" "length (rs_actions S) = 64"
    using rep by (simp_all add: rps_rep_def)
  have other: "rm_name (rs_nodes S w) = other" using wait own(2) by (simp add: rps_waiting_def mq_rep_def)
  from new_rps_msg_ok [OF own(1), of "\<lambda>m. msg"] obtain p n where
    a: "new_rps_msg S (\<lambda>m. msg) = Inr (S\<lparr>rs_pool := p, rs_nodes := (rs_nodes S)(n := msg)\<rparr>, n)" "n \<noteq> w"
      "owned (S\<lparr>rs_pool := p, rs_nodes := (rs_nodes S)(n := msg)\<rparr>) {n, w}" by auto
  have q: "mq_rep ((rs_nodes S)(n := msg)) (rs_queue S) [w]" "n \<notin> set [w]"
    using own(2) a(2) by (simp_all add: mq_rep_def)
  from rps_msg_queue_add_ok [OF q] obtain h' q' where
    b: "rps_msg_queue_add ((rs_nodes S)(n := msg)) (rs_queue S) n = (h', q')" "mq_rep h' q' [w, n]"
      "\<And>m. h' m = (((rs_nodes S)(n := msg)) m)\<lparr>rm_next := rm_next (h' m)\<rparr>" by auto
  have nm: "rm_name (h' n) = rm_name msg" "rm_name (h' w) = other"
    using arg_cong [OF b(3) [of n], of rm_name] arg_cong [OF b(3) [of w], of rm_name] a(2) other by simp_all
  have sz: "rq_size q' = 2" using b(2) by (simp add: mq_rep_def)
  from rps_msg_queue_pop_ok [OF b(2)] obtain q1 where q1: "rps_msg_queue_pop h' q' = (q1, Some w)" "mq_rep h' q1 [n]" by blast
  from rps_msg_queue_pop_ok [OF q1(2)] obtain q2 where q2: "rps_msg_queue_pop h' q1 = (q2, Some n)" "mq_rep h' q2 []" by blast
  let ?as = "put_action (whois (rm_name msg)) UNKNOWN (rs_actions S)"
  let ?h1 = "h'(w := (h' w)\<lparr>rm_opponent := rm_name msg\<rparr>)"
  let ?h2 = "?h1(n := (h' n)\<lparr>rm_opponent := other\<rparr>)"
  let ?S1 = "S\<lparr>rs_pool := p, rs_actions := ?as, rs_queue := q2, rs_nodes := ?h2\<rparr>"
  have "owned ?S1 {n, w}" using a(3) by (simp add: owned_def)
  from free_rps_msg_ok [OF this, of w] a(2) obtain p1 where
    f1: "free_rps_msg ?S1 w = Inr (?S1\<lparr>rs_pool := p1\<rparr>)" "owned (?S1\<lparr>rs_pool := p1\<rparr>) ({n, w} - {w})" by auto
  have X: "{n, w} - {w} = {n}" using a(2) by auto
  from free_rps_msg_ok [OF f1(2) [unfolded X], of n] obtain p2 where
    f2: "free_rps_msg (?S1\<lparr>rs_pool := p1\<rparr>) n = Inr (?S1\<lparr>rs_pool := p1\<rparr>\<lparr>rs_pool := p2\<rparr>)"
      "owned (?S1\<lparr>rs_pool := p1\<rparr>\<lparr>rs_pool := p2\<rparr>) {}" by auto
  have "rps_signup whois S msg = Inr (?S1\<lparr>rs_pool := p1\<rparr>\<lparr>rs_pool := p2\<rparr>,
      [(whois other, (h' w)\<lparr>rm_opponent := rm_name msg\<rparr>), (whois (rm_name msg), (h' n)\<lparr>rm_opponent := other\<rparr>)])"
    using a(1,2) b(1) nm sz pl own(3) q1(1) q2(1) f1(1) f2(1) by (simp add: rps_signup_def Let_def)
  moreover have "rps_rep (?S1\<lparr>rs_pool := p1\<rparr>\<lparr>rs_pool := p2\<rparr>) []"
    using q2(2) f2(2) own(3) by (simp add: rps_rep_def mq_rep_def)
  ultimately show ?thesis using nm by (intro exI conjI) (assumption | simp)+
qed

subsection \<open>A step of the server\<close>

definition rps_ok :: "(key \<Rightarrow> i32) \<Rightarrow> i32 \<Rightarrow> RPSMsg \<Rightarrow> bool" where
  "rps_ok whois tid msg \<longleftrightarrow>
     (rm_action msg = SIGNUP \<or> rm_action msg = PLAY \<longrightarrow> player (whois (rm_name msg)))
     \<and> (rm_action msg = PLAY \<longrightarrow> player (whois (rm_opponent msg)))
     \<and> (rm_action msg = QUIT \<longrightarrow> player tid)"

lemma rps_step_ok:
  assumes inv: "rps_inv S" and ok: "rps_ok whois tid msg"
  shows "\<exists>S' rs. rps_server_step whois S tid msg = Inr (S', rs) \<and> rps_inv S'"
proof -
  obtain ns where rep: "rps_rep S ns" "length ns \<le> 1" using inv by (auto simp: rps_inv_def)
  have len: "length (rs_actions S) = 64" using rep(1) by (simp add: rps_rep_def)
  have pl: "rm_action msg = QUIT \<Longrightarrow> player tid" "rm_action msg = SIGNUP \<or> rm_action msg = PLAY \<Longrightarrow> player (whois (rm_name msg))"
    "rm_action msg = PLAY \<Longrightarrow> player (whois (rm_opponent msg))"
    using ok by (auto simp: rps_ok_def)
  consider "rm_action msg = SIGNUP" | "rm_action msg = PLAY" | "rm_action msg = QUIT"
    | "rm_action msg \<notin> {SIGNUP, PLAY, QUIT}" by blast
  then show ?thesis
  proof cases
    case 1
    then have step: "rps_server_step whois S tid msg = rps_signup whois S msg" by (simp add: rps_server_step_def)
    show ?thesis
    proof (cases ns)
      case Nil
      then show ?thesis using rps_signup_first [of S whois msg] rep(1) pl(2) 1 step by (fastforce simp: rps_inv_def)
    next
      case (Cons w ws)
      with rep have w: "rps_rep S [w]" by simp
      then have "rps_waiting S = Some (rm_name (rs_nodes S w))" by (simp add: rps_waiting_def rps_rep_def mq_rep_def)
      from rps_signup_second [where whois = whois and msg = msg, OF w _ this] pl(2) 1 step show ?thesis by (fastforce simp: rps_inv_def)
    qed
  next
    case 2
    then have "rps_server_step whois S tid msg = rps_play whois S msg" by (simp add: rps_server_step_def rps_codes)
    with rps_play_total [OF rep, of whois msg, OF pl(2,3)] 2 rep(2) show ?thesis by (auto simp: rps_inv_def rps_kept_def)
  next
    case 3
    then have "rps_server_step whois S tid msg = Inr (S\<lparr>rs_actions := put_action tid ABSENT (rs_actions S)\<rparr>, [(tid, msg)])"
      using len pl(1) 3 by (simp add: rps_server_step_def rps_codes)
    moreover have "rps_rep (S\<lparr>rs_actions := put_action tid ABSENT (rs_actions S)\<rparr>) ns" using rep(1) len by simp
    ultimately show ?thesis using rep(2) unfolding rps_inv_def by blast
  next
    case 4
    then show ?thesis using inv by (simp add: rps_server_step_def)
  qed
qed

interpretation rps: server "rps_server_step whois" "\<lambda>n. rps_inv" "rps_ok whois" "\<lambda>msg. 0" for whois
  by unfold_locales (rule rps_step_ok)

subsection \<open>The same facts over the server's step\<close>

lemma rps_invD:
  assumes "rps_inv S"
  obtains ns where "rps_rep S ns" and "length ns \<le> 1" and "rps_waiting S = (case ns of [] \<Rightarrow> None | n # _ \<Rightarrow> Some (rm_name (rs_nodes S n)))"
proof -
  from assms obtain ns where ns: "rps_rep S ns" "length ns \<le> 1" by (auto simp: rps_inv_def)
  then have "rps_waiting S = (case ns of [] \<Rightarrow> None | n # _ \<Rightarrow> Some (rm_name (rs_nodes S n)))"
    by (cases ns) (auto simp: rps_waiting_def rps_rep_def mq_rep_def)
  with ns that show ?thesis by blast
qed

lemma rps_kept_inv: "rps_kept S ns S' \<Longrightarrow> length ns \<le> 1 \<Longrightarrow> rps_inv S' \<and> rps_waiting S' = rps_waiting S"
  by (auto simp: rps_kept_def rps_inv_def)

lemma rps_step_judged:
  assumes inv: "rps_inv S" and act: "rm_action msg = PLAY"
    and p: "p1 = whois (rm_name msg)" "p2 = whois (rm_opponent msg)" "player p1" "player p2" "p1 \<noteq> p2"
    and g: "gesture (rm_play_action msg)" "gesture (action_of S p2)"
  shows "\<exists>S' m1 m2. rps_server_step whois S tid msg = Inr (S',
        [(p1, rps_result (rm_name msg) (rm_opponent msg) (verdict (rm_play_action msg) (action_of S p2)) m1),
         (p2, rps_result (rm_opponent msg) (rm_name msg) (verdict (action_of S p2) (rm_play_action msg)) m2)])
    \<and> rps_inv S' \<and> rps_waiting S' = rps_waiting S
    \<and> rs_actions S' = put_action p2 UNKNOWN (put_action p1 UNKNOWN (rs_actions S))"
proof -
  from inv obtain ns where ns: "rps_rep S ns" "length ns \<le> 1" by (rule rps_invD)
  have "rps_server_step whois S tid msg = rps_play whois S msg" using act by (simp add: rps_server_step_def rps_codes)
  with rps_play_judged [where whois = whois and msg = msg, OF ns] p g rps_kept_inv [OF _ ns(2)] show ?thesis by fastforce
qed

lemma rps_step_waits:
  assumes inv: "rps_inv S" and act: "rm_action msg = PLAY"
    and p: "p1 = whois (rm_name msg)" "p2 = whois (rm_opponent msg)" "player p1" "player p2" "p1 \<noteq> p2"
    and u: "action_of S p2 = UNKNOWN"
  shows "rps_server_step whois S tid msg = Inr (S\<lparr>rs_actions := put_action p1 (rm_play_action msg) (rs_actions S)\<rparr>, [])"
proof -
  from inv obtain ns where ns: "rps_rep S ns" "length ns \<le> 1" by (rule rps_invD)
  have "rps_server_step whois S tid msg = rps_play whois S msg" using act by (simp add: rps_server_step_def rps_codes)
  with rps_play_waits [where whois = whois and msg = msg, OF ns(1)] p u show ?thesis by simp
qed

lemma rps_step_first:
  assumes inv: "rps_inv S" "rps_waiting S = None" and act: "rm_action msg = SIGNUP" and pl: "player (whois (rm_name msg))"
  shows "\<exists>S'. rps_server_step whois S tid msg = Inr (S', []) \<and> rps_inv S' \<and> rps_waiting S' = Some (rm_name msg)"
proof -
  from inv(1) obtain ns where ns: "rps_rep S ns" "length ns \<le> 1"
    "rps_waiting S = (case ns of [] \<Rightarrow> None | n # _ \<Rightarrow> Some (rm_name (rs_nodes S n)))" by (rule rps_invD)
  then have "ns = []" using inv(2) by (simp split: list.splits)
  from rps_signup_first [where whois = whois and msg = msg, OF ns(1) [unfolded this] pl] obtain S' n where
    "rps_signup whois S msg = Inr (S', [])" "rps_rep S' [n]" "rps_waiting S' = Some (rm_name msg)" by blast
  moreover from this(2) have "rps_inv S'" unfolding rps_inv_def by (intro exI [of _ "[n]"]) simp
  ultimately show ?thesis using act by (simp add: rps_server_step_def)
qed

lemma rps_step_second:
  assumes inv: "rps_inv S" "rps_waiting S = Some other" and act: "rm_action msg = SIGNUP" and pl: "player (whois (rm_name msg))"
  shows "\<exists>S' m1 m2. rps_server_step whois S tid msg = Inr (S', [(whois other, m1), (whois (rm_name msg), m2)])
    \<and> rm_name m1 = other \<and> rm_opponent m1 = rm_name msg \<and> rm_name m2 = rm_name msg \<and> rm_opponent m2 = other
    \<and> rps_inv S' \<and> rps_waiting S' = None"
proof -
  from inv(1) obtain ns where ns: "rps_rep S ns" "length ns \<le> 1"
    "rps_waiting S = (case ns of [] \<Rightarrow> None | n # _ \<Rightarrow> Some (rm_name (rs_nodes S n)))" by (rule rps_invD)
  with inv(2) obtain w where "ns = [w]" by (cases ns) auto
  from rps_signup_second [where whois = whois and msg = msg, OF ns(1) [unfolded this] pl inv(2)] obtain S' m1 m2 where
    s: "rps_signup whois S msg = Inr (S', [(whois other, m1), (whois (rm_name msg), m2)])"
    "rm_name m1 = other" "rm_opponent m1 = rm_name msg" "rm_name m2 = rm_name msg" "rm_opponent m2 = other"
    "rps_rep S' []" by blast
  then have "rps_inv S'" "rps_waiting S' = None" by (auto simp: rps_inv_def rps_waiting_def rps_rep_def mq_rep_def)
  with s act show ?thesis by (simp add: rps_server_step_def)
qed

lemma rps_serves:
  assumes "length (mp_unused (rs_pool S)) = MEMORY_POOL_CHUNKS" and "length (rs_actions S) = 64"
    and "\<forall>m\<in>set ms. nonempty m \<and> (case m of (len, tid, msg) \<Rightarrow> rps_ok whois tid msg)"
  shows "\<exists>S' rs. rps_server whois S ms = Inr (S', rs) \<and> rps_inv S'"
proof -
  obtain S0 where s0: "rps_server_init S = Inr S0" "rps_inv S0" using rps_init_ok [OF assms(1,2)] by blast
  have "rps.accepts whois m" if "m \<in> set ms" for m using assms(3) that by (simp add: rps.accepts_def)
  from rps.serves [where whois = whois and ms = ms, OF s0(2) this] s0(1) show ?thesis by (simp add: rps_server_def)
qed

end
