(* ===== verification/Server_Scenarios.thy ===== *)
theory Server_Scenarios
  imports Clock_Server Rps_Facts
begin

text \<open>
  Concrete states of the servers, for the examples that show the properties at work.
\<close>

definition ex_pool :: MemoryPool where
  "ex_pool = \<lparr>mp_data = (\<lambda>_. 0), mp_unused = replicate 512 0, mp_unused_top = 0\<rparr>"

definition ex_clock :: ClockServer where
  "ex_clock = \<lparr>cs_pool = ex_pool, cs_nodes = (\<lambda>_. \<lparr>dn_tid = 0, dn_delay = 0, dn_next = None\<rparr>),
     cs_queue = \<lparr>dq_front = None, dq_end = None, dq_size = 0\<rparr>, cs_ticks = 0\<rparr>"

lemma ex_pool_length [simp]: "length (mp_unused ex_pool) = MEMORY_POOL_CHUNKS"
  by (simp add: ex_pool_def MEMORY_POOL_CHUNKS_def MEMORY_POOL_SIZE_def MEMORY_POOL_CHUNK_SIZE_def)

lemma ex_clock_init:
  "\<exists>S. clock_inv S \<and> clock_waiting S = [] \<and> cs_ticks S = 0"
  using clock_init_ok [of ex_clock] by (auto simp: ex_clock_def)

text \<open>Any number of tasks up to 512 that all wait for the first tick.\<close>

lemma ex_clock_many:
  "n \<le> 512 \<Longrightarrow> \<exists>S. clock_inv S \<and> clock_waiting S = replicate n (4, 1) \<and> cs_ticks S = 0"
proof (induction n)
  case (Suc n)
  then obtain S where s: "clock_inv S" "clock_waiting S = replicate n (4, 1)" "cs_ticks S = 0" by auto
  have "cs_ticks S < cm_ticks \<lparr>cm_action = DELAY_UNTIL, cm_ticks = 1\<rparr>" "length (clock_waiting S) < 512"
    using s Suc.prems by simp_all
  from clock_delay_ok [OF s(1) this, of 4] s(2,3) show ?case
    by (auto simp: place_def takeWhile_replicate dropWhile_replicate replicate_append_same)
qed (use ex_clock_init in auto)

lemma ex_clock_one: "\<exists>S. clock_inv S \<and> clock_waiting S = [(4, 1)] \<and> cs_ticks S = 0"
  using ex_clock_many [of 1] by simp

lemma ex_clock_full: "\<exists>S. clock_inv S \<and> length (clock_waiting S) = 512 \<and> cs_ticks S = 0"
proof -
  obtain S where "clock_inv S" "clock_waiting S = replicate 512 (4, 1)" "cs_ticks S = 0"
    using ex_clock_many [of 512] by auto
  then show ?thesis by (intro exI [of _ S]) simp
qed

subsection \<open>Names\<close>

definition ex_names :: NameServer where
  "ex_names = \<lparr>ns_table = \<lparr>ht_size = 0, ht_data = replicate 64 0, ht_used = replicate 64 True\<rparr>, name_server_tid = 0\<rparr>"

lemma ex_names_length [simp]: "length (ht_data (ns_table ex_names)) = 64" "length (ht_used (ns_table ex_names)) = 64"
  by (simp_all add: ex_names_def)

text \<open>The names \<^verbatim>\<open>a\<close> and \<^verbatim>\<open>!\<close> share a slot, \<^verbatim>\<open>a\<close> and \<^verbatim>\<open>b\<close> do not.\<close>

lemma ex_slots: "slot_of [97] = slot_of [33]" "slot_of [97] \<noteq> slot_of [98]"
  by (simp_all add: slot_of_def hash_table_djb2_def push_bit_eq_mult)

lemma ex_table: "\<exists>t. ht_inv t \<and> hash_table_lookup t [97] = None"
  using hash_table_init_ok [of "ns_table ex_names"] by auto

lemma ex_collision:
  "\<exists>S'. name_server ex_names 1 [(24, 5, \<lparr>nm_action = REGISTER_AS, nm_name = [97], nm_tid = 5\<rparr>),
        (24, 6, \<lparr>nm_action = REGISTER_AS, nm_name = [33], nm_tid = 6\<rparr>), (24, 6, \<lparr>nm_action = WHO_IS, nm_name = [33], nm_tid = 6\<rparr>)]
      = Inr (S', [(5, \<lparr>nm_action = REGISTER_AS, nm_name = [97], nm_tid = 5\<rparr>),
        (6, \<lparr>nm_action = REGISTER_AS, nm_name = [33], nm_tid = 6\<rparr>), (6, \<lparr>nm_action = WHO_IS, nm_name = [33], nm_tid = 5\<rparr>)])"
proof -
  let ?a = "\<lparr>nm_action = REGISTER_AS, nm_name = [97], nm_tid = 5\<rparr>"
  let ?b = "\<lparr>nm_action = REGISTER_AS, nm_name = [33], nm_tid = 6\<rparr>"
  let ?q = "\<lparr>nm_action = WHO_IS, nm_name = [33], nm_tid = 6\<rparr>"
  obtain S0 where s0: "name_server_init ex_names 1 = Inr S0" "names_good 0 S0" "\<And>nm. registered S0 nm = None"
    using name_init_ok [OF ex_names_length] by blast
  obtain S1 where s1: "name_server_step S0 5 ?a = Inr (S1, [(5, answer S0 ?a)])" "names_good 0 S1"
    "\<And>nm. registered S1 nm = (if nm_action ?a = REGISTER_AS \<and> slot_of nm = slot_of (nm_name ?a) \<and> registered S0 (nm_name ?a) = None
       then Some 5 else registered S0 nm)" using name_step_ok [OF s0(2), of 5 ?a] by blast
  have r1: "registered S1 [33] = Some 5" using ex_slots(1) s0(3) by (simp add: s1(3))
  obtain S2 where s2: "name_server_step S1 6 ?b = Inr (S2, [(6, answer S1 ?b)])" "names_good 0 S2"
    "\<And>nm. registered S2 nm = (if nm_action ?b = REGISTER_AS \<and> slot_of nm = slot_of (nm_name ?b) \<and> registered S1 (nm_name ?b) = None
       then Some 6 else registered S1 nm)" using name_step_ok [OF s1(2), of 6 ?b] by blast
  have r2: "registered S2 [33] = Some 5" using r1 by (simp add: s2(3))
  obtain S3 where "name_server_step S2 6 ?q = Inr (S3, [(6, answer S2 ?q)])"
    using name_step_ok [OF s2(2), of 6 ?q] by blast
  moreover have "answer S0 ?a = ?a" "answer S1 ?b = ?b" "answer S2 ?q = ?q\<lparr>nm_tid := 5\<rparr>"
    using r2 by (simp_all add: answer_def)
  ultimately show ?thesis using s0(1) s1(1) s2(1) by (simp add: name_server_def)
qed

subsection \<open>Games\<close>

definition ex_rps_msg :: "u32 \<Rightarrow> u32 \<Rightarrow> key \<Rightarrow> key \<Rightarrow> RPSMsg" where
  "ex_rps_msg action play nm opp = \<lparr>rm_action = action, rm_play_action = play, rm_name = nm, rm_opponent = opp,
     rm_play_result = 0, rm_next = None\<rparr>"

lemma ex_rps_msg_simps [simp]:
  "rm_action (ex_rps_msg a p n q) = a" "rm_play_action (ex_rps_msg a p n q) = p"
  "rm_name (ex_rps_msg a p n q) = n" "rm_opponent (ex_rps_msg a p n q) = q"
  by (simp_all add: ex_rps_msg_def)

definition ex_rps :: RpsServer where
  "ex_rps = \<lparr>rs_pool = ex_pool, rs_nodes = (\<lambda>_. ex_rps_msg 0 0 [] []), rs_queue = \<lparr>rq_front = None, rq_end = None, rq_size = 0\<rparr>,
     rs_actions = replicate 64 0\<rparr>"

text \<open>Two players: the one whose name starts with \<^verbatim>\<open>a\<close> is task 2, the other is task 3.\<close>

definition ex_whois :: "key \<Rightarrow> i32" where
  "ex_whois nm = (if nm = [97] then 2 else 3)"

lemma ex_players [simp]: "player (ex_whois nm)" "ex_whois [97] = 2" "ex_whois [98] = 3"
  by (simp_all add: ex_whois_def player_def)

lemma ex_player_23: "player 2" "player 3" "player (ex_whois nm)"
  by (simp_all add: player_def ex_whois_def)

lemma ex_rps_init: "\<exists>S. rps_inv S \<and> rps_waiting S = None \<and> rs_actions S = replicate 64 ABSENT"
  using rps_init_ok [of ex_rps] by (auto simp: ex_rps_def)

lemma rps_inv_none: "rps_inv S \<Longrightarrow> rps_waiting S = None \<Longrightarrow> rps_rep S []"
  by (auto simp: rps_inv_def rps_waiting_def rps_rep_def mq_rep_def le_Suc_eq length_Suc_conv)

text \<open>Player \<^verbatim>\<open>b\<close> has signed up and shown a rock.\<close>

lemma ex_rps_shown:
  "\<exists>S. rps_inv S \<and> rps_waiting S = None \<and> action_of S 3 = ROCK"
proof -
  obtain S where s: "rps_inv S" "rps_waiting S = None" "rs_actions S = replicate 64 ABSENT" using ex_rps_init by blast
  let ?S = "S\<lparr>rs_actions := put_action 3 ROCK (rs_actions S)\<rparr>"
  have rep: "rps_rep S []" by (rule rps_inv_none [OF s(1,2)])
  then have "rps_rep ?S []" by (simp add: rps_rep_def owned_def)
  then have "rps_inv ?S" by (auto simp: rps_inv_def)
  moreover have "action_of ?S 3 = ROCK" by (simp add: action_of_def put_action_def s(3))
  ultimately show ?thesis using s(2) by (intro exI [of _ ?S]) simp
qed

end
