(* ===== verification/Program_Scenarios.thy ===== *)
theory Program_Scenarios
  imports Program_Output Demo_Runs Round_Scenarios Server_Scenarios
begin

text \<open>A concrete image and the programs at its addresses, on which the theorems about whole programs are tried.\<close>

definition ex_image :: Image where
  "ex_image = \<lparr>im_name_server = 0x81000, im_clock_server = 0x82000, im_clock_server_tick = 0x83000, im_rps_server = 0x84000,
     im_rps_client = 0x85000, im_k1_demo = 0x86000, im_k3_client = 0x87000, im_task_a = 0x88000, im_task_b = 0x89000,
     im_sender = 0x8A000, im_receiver = 0x8B000, im_string = (\<lambda>_. ascii ''clock_server''), im_clock_name = 0xB0000,
     im_clock_name_k3 = 0xB0010, im_S1 = 0, im_R1 = 0, im_R1_sender = 0, im_junk = (\<lambda>_ _ _. 0), im_names = ex_names,
     im_clock = ex_clock, im_clocks = ex_clocks, im_idle = (\<lambda>n. let t = word_of_nat (10000 * (n + 1)) in (t, t, t)),
     im_half = (\<lambda>_ _. 0), im_full = (\<lambda>_. 0), im_error = (\<lambda>_ _. (0, 0))\<rparr>"

definition ex_code :: "(Image \<Rightarrow> Statics \<Rightarrow> prog) \<Rightarrow> u64 \<Rightarrow> Statics \<Rightarrow> prog" where
  "ex_code initial_task a =
     (if a = 0x90000 then initial_task ex_image
      else if a = 0xA0000 then idle_prog ex_image
      else if a = 0x81000 then name_server_prog ex_image
      else if a = 0x82000 then clock_server_prog ex_image
      else if a = 0x83000 then clock_server_tick_prog ex_image
      else if a = 0x86000 then k1_demo_user_task
      else if a = 0x87000 then k3_client ex_image
      else (\<lambda>_. Undefined))"

lemma ex_linked: "linked (ex_code k3_first_user_task) ex_image 0x90000 0xA0000"
  by (simp add: linked_def config_def ex_code_def ex_image_def ex_names_def ex_clock_def)

lemma ex_k1_code: "ex_code (\<lambda>I. k1_first_user_task I) 0x90000 = k1_first_user_task ex_image"
  "ex_code (\<lambda>I. k1_first_user_task I) (im_k1_demo ex_image) = k1_demo_user_task"
  by (simp_all add: ex_code_def ex_image_def)

lemma ex_paced_from: "n \<le> 4000 \<Longrightarrow> k \<le> n \<Longrightarrow> begun \<le> word_of_nat (10000 * k)
    \<Longrightarrow> metered (int k) begun (word_of_nat (10000 * k)) (map (im_idle ex_image) [k..<n])"
proof (induction "n - k" arbitrary: k begun)
  case (Suc j)
  then have k: "k < n" "j = n - Suc k" "Suc k \<le> n" by simp_all
  let ?t = "word_of_nat (10000 * Suc k) :: u64" and ?s = "word_of_nat (10000 * k) :: u64"
  have u: "unat ?s = 10000 * k" "unat ?t = 10000 * Suc k"
    using k(1) Suc.prems(1) by (intro unat_of_nat_small64; simp)+
  have le: "?s \<le> ?t" unfolding word_le_nat_alt u by simp
  have "?t - ?s = 10000" by simp
  with longer_period [OF Suc.prems(3) le] have "10000 \<le> ?t - begun" by simp
  then have far: "100 \<le> ?t - begun" by (simp add: word_le_nat_alt)
  have x: "im_idle ex_image k = (?t, ?t, ?t)" by (simp add: ex_image_def Let_def)
  have "(if c then ?t else begun) \<le> ?t" for c
    using order_trans [OF Suc.prems(3) le] by (cases c) (simp_all only: if_True if_False order_refl)
  then have "(if int k mod 50 = 0 then ?t else begun) \<le> ?t" .
  from Suc.hyps(1) [OF k(2) Suc.prems(1) k(3) this] k(1) x far le show ?case
    by (simp add: upt_conv_Cons add.commute del: of_nat_mult mult_Suc_right)
qed simp

lemma ex_paced: "idle_paced ex_image 3177"
  using ex_paced_from [of 3177 0 0] by (simp add: idle_paced_def sys_clock_boot_time_def ex_image_def ex_clocks_def)

lemma ex_boots: "\<exists>S0. boot ex_system 0 0 0x90000 0xA0000 = Inr S0"
  using boot_ok [OF ex_fresh] by blast

lemma ex_program_run:
  "\<exists>S0 out S' Us'. boot ex_system 0 0 0x90000 0xA0000 = Inr S0
     \<and> user_run (ex_code k3_first_user_task) S0 start_users 3177 out S' Us'"
proof -
  obtain S0 where b: "boot ex_system 0 0 0x90000 0xA0000 = Inr S0" using ex_boots by blast
  from program_goes_on [OF ex_fresh b ex_linked _ ex_paced] b show ?thesis by (auto simp: sys_timer_full_count_def)
qed

end
