(* ===== verification/Task_Calls.thy ===== *)
theory Task_Calls
  imports Machine_Execution
begin

text \<open>
  The first task and its clients by themselves: the lines and calls of a program, given the answers to its calls.
  Unlike in the runs of the whole program, the messages of the clients come in any order here.
\<close>

subsection \<open>Traces\<close>

fun trace :: "answer list \<Rightarrow> prog \<Rightarrow> (line list \<times> call) list" where
  "trace as Undefined = []"
| "trace [] (Call out g c k) = [(out, c)]"
| "trace (a # as) (Call out g c k) = (out, c) # trace as (k a g)"

definition is_tid :: "i32 \<Rightarrow> bool" where
  "is_tid t \<longleftrightarrow> 0 \<le> sint t \<and> sint t < 64"

lemma tid_index: "is_tid t \<Longrightarrow> nat (sint t) < 64 \<and> \<not> sint t < 0"
  unfolding is_tid_def by auto

lemma tid_index_inj: "is_tid t \<Longrightarrow> is_tid u \<Longrightarrow> nat (sint t) = nat (sint u) \<longleftrightarrow> t = u"
  unfolding is_tid_def by (metis eq_nat_nat_iff signed_word_eqI)

subsection \<open>The first task\<close>

text \<open>The table after the calls of \<^verbatim>\<open>Create\<close>.\<close>

fun index_clients :: "nat option list \<Rightarrow> nat \<Rightarrow> i32 list \<Rightarrow> nat option list" where
  "index_clients idx i [] = idx"
| "index_clients idx i (t # ts) = index_clients (idx[nat (sint t) := Some i]) (i + 1) ts"

lemma create_trace:
  assumes "\<forall>t\<in>set ts. is_tid t" and "length ts = length ps"
  shows "trace (map (\<lambda>t. Answer t 0 []) ts @ as) (k3_create_clients I idx i ps rest g)
    = map (\<lambda>p. ([], Create p (im_k3_client I))) ps @ trace as (rest (index_clients idx i ts) g)"
  using assms(2,1)
proof (induction ts ps arbitrary: idx i rule: list_induct2)
  case (Cons t ts p ps)
  then show ?case by (auto simp: is_tid_def)
qed simp

lemma index_row:
  assumes "\<forall>t\<in>set ts. is_tid t" and "distinct ts" and "length idx = 64"
  shows "length (index_clients idx i ts) = 64 \<and> (\<forall>k < length ts. k3_row (index_clients idx i ts) (ts ! k) = Some (i + k))
    \<and> (\<forall>t. is_tid t \<and> t \<notin> set ts \<longrightarrow> k3_row (index_clients idx i ts) t = k3_row idx t)"
  using assms
proof (induction ts arbitrary: idx i)
  case (Cons t ts)
  let ?idx = "idx[nat (sint t) := Some i]"
  have t: "nat (sint t) < 64" "\<not> sint t < 0" using Cons.prems(1) tid_index by auto
  note IH = Cons.IH [of ?idx "i + 1"]
  have "k3_row ?idx u = (if u = t then Some i else k3_row idx u)" if "is_tid u" for u
    using that tid_index_inj [OF that, of t] Cons.prems t by (auto simp: k3_row_def is_tid_def nth_list_update)
  with IH Cons.prems show ?case by (auto simp: nth_Cons split: nat.split)
qed simp

lemma serve_trace:
  assumes "\<forall>a\<in>set received. k3_row idx (an_tid a) = Some (row (an_tid a)) \<and> row (an_tid a) < 4" and "length done = length received"
  shows "trace (concat (map2 (\<lambda>a b. [a, b]) received done)) (k3_serve_clients idx (length received) g)
    = concat (map (\<lambda>a. [([], Receive K3_MSG), ([], Reply (an_tid a) (k3_msg (client_delays ! row (an_tid a)) (client_nums ! row (an_tid a))))]) received)
      @ [([], Exit)]"
  using assms(2) [symmetric] assms(1) by (induction received "done" rule: list_induct2) (simp_all add: leave_def)

lemma first_task_trace:
  assumes tids: "length tids = 4" "distinct tids" "\<forall>t\<in>set tids. is_tid t"
    and received: "length received = 4" "an_tid ` set received = set tids" "length done = 4"
  shows "\<exists>row. (\<forall>k<4. row (tids ! k) = k)
    \<and> trace (a0 # a1 # map (\<lambda>t. Answer t 0 []) tids @ concat (map2 (\<lambda>a b. [a, b]) received done)) (k3_first_user_task I g)
      = ([], Create 5 (im_name_server I)) # ([], Create 5 (im_clock_server I)) # map (\<lambda>p. ([], Create p (im_k3_client I))) client_priorities
        @ concat (map (\<lambda>a. [([], Receive K3_MSG), ([], Reply (an_tid a) (k3_msg (client_delays ! row (an_tid a)) (client_nums ! row (an_tid a))))]) received)
        @ [([], Exit)]"
proof -
  let ?idx = "index_clients (replicate 64 None) 0 tids"
  define row where "row t = the (k3_row ?idx t)" for t :: i32
  have r: "k3_row ?idx (tids ! k) = Some k" if "k < 4" for k
    using index_row [OF tids(3,2), of "replicate 64 None" 0] that tids(1) by simp
  then have row: "\<forall>k<4. row (tids ! k) = k" by (simp add: row_def)
  have "\<forall>a\<in>set received. k3_row ?idx (an_tid a) = Some (row (an_tid a)) \<and> row (an_tid a) < 4"
  proof
    fix a assume "a \<in> set received"
    then have "an_tid a \<in> set tids" using received(2) by blast
    then obtain k where "k < 4" "an_tid a = tids ! k" using tids(1) by (metis in_set_conv_nth)
    with r row show "k3_row ?idx (an_tid a) = Some (row (an_tid a)) \<and> row (an_tid a) < 4" by simp
  qed
  from serve_trace [OF this, of "done" g] received(1,3) row
    create_trace [OF tids(3), of client_priorities "concat (map2 (\<lambda>a b. [a, b]) received done)" I "replicate 64 None" 0
      "\<lambda>client_idx g. k3_serve_clients client_idx 4 g" g] tids(1)
  show ?thesis by (intro exI [of _ row]) (simp add: k3_first_user_task_def client_priorities_def)
qed

subsection \<open>A client\<close>

lemma client_loop_trace:
  assumes "0 \<le> sint d" and "length as = unat n"
  shows "trace as (k3_client_loop t srv d n g) = map (\<lambda>i. ([client_line t d (n - word_of_nat i)], Send srv (clock_msg DELAY d) CLOCK_MSG)) [0..<unat n]
    @ [([], Exit)]"
  using assms(2)
proof (induction as arbitrary: n g)
  case Nil
  then have "n = 0" by (simp add: unat_eq_0)
  then show ?case by (simp add: k3_client_loop_step leave_def)
next
  case (Cons a as)
  then have "n \<noteq> 0" by auto
  then have n: "n \<noteq> 0" "unat n = Suc (unat (n - 1))" by (simp_all add: unat_minus_one [of n] word_unat_eq_iff)
  have "[0..<unat n] = 0 # map Suc [0..<unat (n - 1)]"
    unfolding n(2) by (simp add: upt_conv_Cons map_Suc_upt del: upt_Suc)
  with Cons n assms(1) show ?case by (simp add: k3_client_loop_step comp_def algebra_simps)
qed

text \<open>
  A client of number \<open>t\<close> whose message is answered with a delay and a number, and that is told the number \<open>srv\<close>
  of the clock server, prints and delays exactly that often.
\<close>

lemma client_trace:
  assumes "0 \<le> sint d" and "length as = unat n"
  shows "trace ([Answer t 0 [], Answer parent 0 [], Answer 8 0 (k3_msg d n), Answer t 0 [],
        Answer 24 0 (put32 16 srv (name_msg I ''WhoIs'' WHO_IS (im_clock_name_k3 I) t))] @ as) (k3_client I g)
    = [([], MyTid), ([], MyParentTid), ([], Send parent (junk I ''k3_client'' t K3_MSG) K3_MSG), ([], MyTid),
       ([], Send (st_name_server_tid g) (name_msg I ''WhoIs'' WHO_IS (im_clock_name_k3 I) t) NAME_MSG)]
      @ map (\<lambda>i. ([client_line t d (n - word_of_nat i)], Send srv (clock_msg DELAY d) CLOCK_MSG)) [0..<unat n] @ [([], Exit)]"
  using client_loop_trace [OF assms, of t srv g] by (simp add: k3_client_def WhoIs_prog_def Let_def K3_MSG_def)

end
