(* ===== verification/Demo_Exchange.thy ===== *)
theory Demo_Exchange
  imports Demo_Code Machine_Execution
begin

text \<open>
  The run of \<^verbatim>\<open>task_test_send_receive_result.c\<close>: two tasks find each other by name and exchange a message and a
  reply that is longer than its buffer.  The lengths that the calls return are those of the bytes that were copied.
\<close>

subsection \<open>Names in different slots\<close>

lemma register_other:
  assumes good: "names_good n S" and fresh: "registered S (im_string I nm) = None" and slot: "slot_of k \<noteq> slot_of (im_string I nm)"
  shows "registered (after (name_step I S t (name_msg I fn REGISTER_AS nm v))) k = registered S k"
proof -
  let ?m = "\<lparr>nm_action = REGISTER_AS, nm_name = im_string I nm, nm_tid = v\<rparr>"
  from name_step_ok [OF good, of t ?m n] obtain S' where "name_server_step S t ?m = Inr (S', [(t, answer S ?m)])"
    "\<forall>nm. registered S' nm =
         (if nm_action ?m = REGISTER_AS \<and> slot_of nm = slot_of (nm_name ?m) \<and> registered S (nm_name ?m) = None
          then Some t else registered S nm)" by blast
  then show ?thesis using slot by (simp add: name_step_def)
qed

lemma slots_differ: "slot_of (ascii ''R1'') \<noteq> slot_of (ascii ''S1'')"
  by (simp add: slot_of_def hash_table_djb2_def ascii_def)

subsection \<open>The run\<close>

lemmas exchange_programs = test_send_receive_result_def sender_def receiver_def name_server_prog_def serve_prog_step
  RegisterAs_prog_def WhoIs_prog_def NAME_MSG_def leave_def Let_def

lemma top_level: "priority_index (clamp_priority 9) = 9"
  by (simp add: clamp_priority_def TASK_PRIORITY_MIN_def TASK_PRIORITY_MAX_def priority_index_def)

lemma exchange_arrays: "char_array 10 ''Hi Friend'' = ascii ''Hi Friend'' @ [0]"
  "char_array 19 ''Bye Another Friend'' = ascii ''Bye Another Friend'' @ [0]"
  by (simp_all add: char_array_def ascii_def)

lemma exchange_rounds:
  fixes I :: Image and code :: "u64 \<Rightarrow> Statics \<Rightarrow> prog"
  assumes code: "code u = test_send_receive_result I" "code (im_name_server I) = name_server_prog I"
    "code (im_sender I) = sender I" "code (im_receiver I) = receiver I"
  assumes names: "name_server_init (im_names I) 2 = Inr N0"
    "name_step I N0 3 (name_msg I ''RegisterAs'' REGISTER_AS (im_S1 I) 3)
       = Inr (N1, [], [(3, put32 16 3 (name_msg I ''RegisterAs'' REGISTER_AS (im_S1 I) 3))])"
    "name_step I N1 4 (name_msg I ''RegisterAs'' REGISTER_AS (im_R1 I) 4)
       = Inr (N2, [], [(4, put32 16 4 (name_msg I ''RegisterAs'' REGISTER_AS (im_R1 I) 4))])"
    "name_step I N2 3 (name_msg I ''WhoIs'' WHO_IS (im_R1_sender I) 3)
       = Inr (N2, [], [(3, put32 16 4 (name_msg I ''WhoIs'' WHO_IS (im_R1_sender I) 3))])"
  shows "\<exists>M. u_run code 25 [] (boot_machine u i) = Some (
     [(4, (ln ''received from %d: %s (len=%d)'', [A_int 3, A_string (ascii ''Hi Friend'' @ [0]), A_int 10])),
      (3, (ln ''reply from R1: %s (len=%d)'', [A_string (overlay (junk I ''sender'' 0 100) (ascii ''Bye'')), A_int 3])),
      (4, (ln ''reply to %d: %s (len=%d)'', [A_int 3, A_string (ascii ''Bye Another Friend'' @ [0]), A_int 3]))], M)"
  by (simp add: u_run_numeral exchange_programs machine top_level exchange_arrays ascii_def code names boot_machine_def boot_kernel_def
      fitting_def
      del: One_nat_def list_update.simps(2) u_run.simps(2)
      cong: Call_cong Blocked_cong Answered_cong RegisterAs_cong WhoIs_cong)

lemma exchange_run:
  assumes code: "code u = test_send_receive_result I" "code (im_name_server I) = name_server_prog I"
    "code (im_sender I) = sender I" "code (im_receiver I) = receiver I"
    and strings: "im_string I (im_S1 I) = ascii ''S1''" "im_string I (im_R1 I) = ascii ''R1''" "im_string I (im_R1_sender I) = ascii ''R1''"
    and arrays: "length (ht_data (ns_table (im_names I))) = 64" "length (ht_used (ns_table (im_names I))) = 64"
  shows "\<exists>M. u_run code 25 [] (boot_machine u i) = Some (
     [(4, (ln ''received from %d: %s (len=%d)'', [A_int 3, A_string (ascii ''Hi Friend'' @ [0]), A_int 10])),
      (3, (ln ''reply from R1: %s (len=%d)'', [A_string (overlay (junk I ''sender'' 0 100) (ascii ''Bye'')), A_int 3])),
      (4, (ln ''reply to %d: %s (len=%d)'', [A_int 3, A_string (ascii ''Bye Another Friend'' @ [0]), A_int 3]))], M)"
proof -
  obtain N0 where n0: "name_server_init (im_names I) 2 = Inr N0" "names_good 0 N0" "\<And>nm. registered N0 nm = None"
    using name_init_ok [OF arrays, of 2 0] by blast
  note r1 = register_step [where I = I and nm = "im_S1 I" and fn = "''RegisterAs''" and t = 3 and v = 3, OF n0(2) n0(3)]
  let ?N1 = "after (name_step I N0 3 (name_msg I ''RegisterAs'' REGISTER_AS (im_S1 I) 3))"
  have "registered ?N1 (im_string I (im_R1 I)) = None"
    using register_other [where I = I and nm = "im_S1 I", OF n0(2) n0(3)] slots_differ strings n0(3) by simp
  note r2 = register_step [where I = I and nm = "im_R1 I" and fn = "''RegisterAs''" and t = 4 and v = 4, OF r1(3) this]
  note who = who_is_step [where I = I and nm = "im_R1_sender I" and fn = "''WhoIs''", OF r2(3)]
  show ?thesis
    by (rule exchange_rounds [OF code n0(1) r1(1) r2(1) who]) (use r2(2) strings in simp)
qed

text \<open>On the kernel.\<close>

lemma exchange_prints:
  assumes fresh: "fresh_system S" and boot: "boot S chi clo u i = Inr S0" and time: "unat (sys_timer_full_count chi clo) < 2 ^ 63"
    and code: "code u = test_send_receive_result I" "code (im_name_server I) = name_server_prog I"
      "code (im_sender I) = sender I" "code (im_receiver I) = receiver I"
    and strings: "im_string I (im_S1 I) = ascii ''S1''" "im_string I (im_R1 I) = ascii ''R1''" "im_string I (im_R1_sender I) = ascii ''R1''"
    and arrays: "length (ht_data (ns_table (im_names I))) = 64" "length (ht_used (ns_table (im_names I))) = 64"
  shows "\<exists>S' Us'. user_run code S0 start_users 25
     [(4, (ln ''received from %d: %s (len=%d)'', [A_int 3, A_string (ascii ''Hi Friend'' @ [0]), A_int 10])),
      (3, (ln ''reply from R1: %s (len=%d)'', [A_string (overlay (junk I ''sender'' 0 100) (ascii ''Bye'')), A_int 3])),
      (4, (ln ''reply to %d: %s (len=%d)'', [A_int 3, A_string (ascii ''Bye Another Friend'' @ [0]), A_int 3]))] S' Us'"
proof -
  note m = exchange_run [OF code strings arrays, of i]
  then show ?thesis using run_there [OF fresh boot time] by fastforce
qed

end
