(* ===== verification/Memory_Safety.thy ===== *)
theory Memory_Safety
  imports User_Relation Round_Scenarios
begin

text \<open>
  The kernel copies messages with the lengths and to the addresses that the calls name, which the code does
  not check.  \<open>U\<close> is the memory of the tasks: everything but the kernel's own code and data.  A careful trap is
  a well-behaved one whose buffers have a length that is not negative and lie in \<open>U\<close>.  As long as the tasks
  make careful traps, the kernel writes only into \<open>U\<close>, so that its own data, which the model keeps apart from
  the memory of the messages, is indeed not touched.
\<close>

subsection \<open>Careful traps\<close>

definition user_buffer :: "u64 set \<Rightarrow> u64 \<Rightarrow> i32 \<Rightarrow> bool" where
  "user_buffer U a len \<longleftrightarrow> 0 \<le> sint len \<and> lies_in a (nat (sint len)) U"

text \<open>The buffers that a call names in its registers.\<close>

fun buffers_ok :: "u64 set \<Rightarrow> sync_handler \<Rightarrow> (nat \<Rightarrow> u64) \<Rightarrow> bool" where
  "buffers_ok U H_send x \<longleftrightarrow> user_buffer U (x 1) (ucast (x 2)) \<and> user_buffer U (x 3) (ucast (x 4))"
| "buffers_ok U H_receive x \<longleftrightarrow> lies_in (x 0) 4 U \<and> user_buffer U (x 1) (ucast (x 2))"
| "buffers_ok U H_reply x \<longleftrightarrow> user_buffer U (x 1) (ucast (x 2))"
| "buffers_ok U h x \<longleftrightarrow> True"

text \<open>A task that replies to itself has no reply buffer.\<close>

definition careful :: "u64 set \<Rightarrow> System \<Rightarrow> Trap \<Rightarrow> bool" where
  "careful U S tr \<longleftrightarrow> well_behaved S tr
     \<and> (\<forall>h. svc_call S tr h \<longrightarrow> buffers_ok U h (tr_x tr)
          \<and> (h = H_reply \<longrightarrow> (\<forall>K t. schedule (sy_kernel S) = Inr (K, Some t) \<longrightarrow> ucast (tr_x tr 0) \<noteq> t_tid (k_tasks K t))))"

inductive careful_reach :: "u64 set \<Rightarrow> System \<Rightarrow> System \<Rightarrow> bool" for U :: "u64 set" and S0 :: System where
  careful_start: "careful_reach U S0 S0"
| careful_round: "careful_reach U S0 S \<Longrightarrow> careful U S tr \<Longrightarrow> kmain_step S tr = Inr (S', True) \<Longrightarrow> careful_reach U S0 S'"

text \<open>The 64 stack blocks lie in the memory of the tasks.\<close>

definition blocks_in :: "u64 set \<Rightarrow> Kernel \<Rightarrow> bool" where
  "blocks_in U K \<longleftrightarrow> (\<forall>i<MEMORY_BLOCK_MAX_NUM. lies_in (block_addr (k_memory K) i) MEMORY_BLOCK_SIZE U)"

subsection \<open>Where a copy writes\<close>

definition writes_in :: "u64 set \<Rightarrow> mem \<Rightarrow> mem \<Rightarrow> bool" where
  "writes_in U m m' \<longleftrightarrow> (\<forall>a. a \<notin> U \<longrightarrow> m' a = m a)"

lemma writes_in_refl [simp]: "writes_in U m m"
  by (simp add: writes_in_def)

lemma writes_in_trans: "writes_in U m m1 \<Longrightarrow> writes_in U m1 m2 \<Longrightarrow> writes_in U m m2"
  by (simp add: writes_in_def)

lemma memcpy_loop_outside: "\<not> in_region x d n \<Longrightarrow> memcpy_loop n m d s x = m x"
proof (induction n arbitrary: m d s)
  case (Suc n)
  then have "x \<noteq> d" "\<not> in_region x (d + 1) n" by (auto simp: in_region_Suc)
  with Suc.IH show ?case by simp
qed simp

lemma writes_store_int: "lies_in a 4 U \<Longrightarrow> writes_in U m (store_int m a v)"
  by (auto simp: writes_in_def lies_in_def intro!: store_int_other)

text \<open>The length that is copied is not larger than that of the buffer.\<close>

lemma writes_memcpy:
  assumes dst: "user_buffer U d lt" and pos: "0 \<le> sint lf"
  shows "writes_in U m (memcpy m d s (scast (exchange_length lf lt)))"
proof -
  let ?l = "exchange_length lf lt"
  have le: "0 \<le> sint ?l" "sint ?l \<le> sint lt" using assms by (auto simp: exchange_length_def user_buffer_def)
  have "unat (scast ?l :: u64) = nat (sint ?l)"
    by (rule nonneg_length [OF le(1)])
  moreover have "lies_in d (nat (sint ?l)) U"
    using dst le by (auto simp: user_buffer_def intro: lies_in_less nat_mono)
  ultimately show ?thesis
    by (auto simp: writes_in_def memcpy_def lies_in_def intro!: memcpy_loop_outside)
qed

subsection \<open>The buffers of the waiting tasks\<close>

text \<open>The buffers that other tasks' calls may still use, named by the registers of the task that waits.\<close>

fun waits_ok :: "u64 set \<Rightarrow> (nat \<Rightarrow> u64) \<Rightarrow> TaskState \<Rightarrow> bool" where
  "waits_ok U x WATISEND \<longleftrightarrow> buffers_ok U H_send x"
| "waits_ok U x WATIREPLY \<longleftrightarrow> user_buffer U (x 3) (ucast (x 4))"
| "waits_ok U x WAITRECEIVE \<longleftrightarrow> buffers_ok U H_receive x"
| "waits_ok U x s \<longleftrightarrow> True"

definition all_wait_ok :: "u64 set \<Rightarrow> Kernel \<Rightarrow> AKernel \<Rightarrow> bool" where
  "all_wait_ok U K A \<longleftrightarrow> (\<forall>u\<in>set (a_jobs A). waits_ok U (t_x (k_tasks K u)) (a_state A u))"

definition buffers_inv :: "u64 set \<Rightarrow> Kernel \<Rightarrow> bool" where
  "buffers_inv U K \<longleftrightarrow> blocks_in U K \<and> (\<forall>u. live K u \<longrightarrow> waits_ok U (t_x (k_tasks K u)) (t_state (k_tasks K u)))"

lemma all_wait_live:
  assumes "krel K A" and "ainv A"
  shows "all_wait_ok U K A \<longleftrightarrow> (\<forall>u. live K u \<longrightarrow> waits_ok U (t_x (k_tasks K u)) (t_state (k_tasks K u)))"
  using live_job [OF assms] krel_state [OF assms(1)] by (auto simp: all_wait_ok_def)

text \<open>A handler that leaves the registers alone keeps this when it does so for the tasks whose state it changes.\<close>

lemma all_wait_step:
  assumes ok: "all_wait_ok U K A" and x: "\<And>u. u \<in> set (a_jobs A) \<Longrightarrow> t_x (k_tasks K' u) = t_x (k_tasks K u)"
    and new: "\<And>u. u \<in> set (a_jobs A') \<Longrightarrow> u \<notin> set (a_jobs A) \<or> a_state A' u \<noteq> a_state A u
        \<Longrightarrow> waits_ok U (t_x (k_tasks K' u)) (a_state A' u)"
  shows "all_wait_ok U K' A'"
  using assms unfolding all_wait_ok_def by metis

lemma send_careful:
  assumes rel: "krel K A" and inv: "ainv A" and run: "running A c" and ok: "all_wait_ok U K A"
    and x: "buffers_ok U H_send (t_x (k_tasks K c))" and k: "sys_send K = Inr K'"
  shows "writes_in U (k_mem K) (k_mem K') \<and> all_wait_ok U K' (a_send A c (send_target K A c))"
proof -
  let ?B = "a_send A c (send_target K A c)"
  have same: "t_x (k_tasks K' u) = t_x (k_tasks K u)" for u by (rule saved_context_x [OF sys_send_context [OF k]])
  have "all_wait_ok U K' ?B"
  proof (rule all_wait_step [OF ok same])
    fix u assume "u \<in> set (a_jobs ?B)" "u \<notin> set (a_jobs A) \<or> a_state ?B u \<noteq> a_state A u"
    then show "waits_ok U (t_x (k_tasks K' u)) (a_state ?B u)"
      using x same by (auto simp: a_send_def a_set_state_def split: option.splits if_splits)
  qed
  moreover have "writes_in U (k_mem K) (k_mem K')"
  proof (cases "send_target K A c")
    case None
    with sys_send_missing [OF rel run] k show ?thesis by simp
  next
    case (Some r)
    show ?thesis
    proof (cases "a_state A r = WAITRECEIVE")
      case False
      with sys_send_queued [OF rel inv run Some] k show ?thesis by simp
    next
      case True
      have "r \<in> set (a_jobs A)" using a_find_Some Some by (auto simp: send_target_def)
      with ok True have "lies_in (t_x (k_tasks K r) 0) 4 U" "user_buffer U (t_x (k_tasks K r) 1) (ucast (t_x (k_tasks K r) 2))"
        by (auto simp: all_wait_ok_def)
      moreover have "0 \<le> sint (ucast (t_x (k_tasks K c) 2) :: i32)" using x by (simp add: user_buffer_def)
      ultimately show ?thesis
        using sys_send_waiting [OF rel inv run Some True] k writes_in_trans [OF writes_store_int writes_memcpy] by auto
    qed
  qed
  ultimately show ?thesis by blast
qed

lemma receive_careful:
  assumes rel: "krel K A" and inv: "ainv A" and run: "running A c" and ok: "all_wait_ok U K A"
    and x: "buffers_ok U H_receive (t_x (k_tasks K c))" and k: "sys_receive K = Inr K'"
  shows "writes_in U (k_mem K) (k_mem K') \<and> all_wait_ok U K' (a_receive A c)"
proof -
  have same: "t_x (k_tasks K' u) = t_x (k_tasks K u)" for u by (rule saved_context_x [OF sys_receive_context [OF k]])
  show ?thesis
  proof (cases "a_senders A c")
    case Nil
    have "all_wait_ok U K' (a_receive A c)"
      by (rule all_wait_step [OF ok same]) (use Nil x same in \<open>auto simp: a_receive_def a_set_state_def split: if_splits\<close>)
    with sys_receive_block [OF rel run Nil] k show ?thesis by auto
  next
    case (Cons s ss)
    have s: "s \<in> set (a_jobs A)" "a_state A s = WATISEND"
      using inv run Cons by (auto simp: ainv_def senders_ok_def running_def)
    with ok have sb: "user_buffer U (t_x (k_tasks K s) 1) (ucast (t_x (k_tasks K s) 2))"
      "user_buffer U (t_x (k_tasks K s) 3) (ucast (t_x (k_tasks K s) 4))" by (auto simp: all_wait_ok_def)
    have "all_wait_ok U K' (a_receive A c)"
      by (rule all_wait_step [OF ok same]) (use Cons sb same in \<open>auto simp: a_receive_def a_set_state_def split: if_splits\<close>)
    moreover have "lies_in (t_x (k_tasks K c) 0) 4 U" "user_buffer U (t_x (k_tasks K c) 1) (ucast (t_x (k_tasks K c) 2))"
      "0 \<le> sint (ucast (t_x (k_tasks K s) 2) :: i32)" using x sb(1) by (simp_all add: user_buffer_def)
    ultimately show ?thesis
      using sys_receive_take [OF rel inv run Cons] k writes_in_trans [OF writes_store_int writes_memcpy] by auto
  qed
qed

lemma running_unique_job: "ainv A \<Longrightarrow> running A c \<Longrightarrow> t \<in> set (a_jobs A) \<Longrightarrow> a_state A t = RUNNING \<Longrightarrow> t = c"
  unfolding ainv_def current_ok_def running_def by fastforce

lemma reply_careful:
  assumes rel: "krel K A" and inv: "ainv A" and run: "running A c" and ok: "all_wait_ok U K A"
    and x: "buffers_ok U H_reply (t_x (k_tasks K c))" and other: "ucast (t_x (k_tasks K c) 0) \<noteq> t_tid (k_tasks K c)"
    and target: "reply_target_ok A (send_target K A c)" and k: "sys_reply K = Inr K'"
  shows "writes_in U (k_mem K) (k_mem K') \<and> all_wait_ok U K' (a_reply A (send_target K A c))"
proof -
  have same: "t_x (k_tasks K' u) = t_x (k_tasks K u)" for u by (rule saved_context_x [OF sys_reply_context [OF k]])
  have "all_wait_ok U K' (a_reply A (send_target K A c))"
    by (rule all_wait_step [OF ok same]) (auto simp: a_reply_def a_make_ready_def a_set_state_def Let_def split: option.splits if_splits)
  moreover have "writes_in U (k_mem K) (k_mem K')"
  proof (cases "send_target K A c")
    case None
    with reply_find [OF rel run] k show ?thesis by simp
  next
    case (Some s)
    have s: "s \<in> set (a_jobs A)" "ucast (t_x (k_tasks K c) 0) = (word_of_nat s :: i32)"
      using a_find_Some Some by (auto simp: send_target_def)
    have c: "c \<in> set (a_jobs A)" using run by (simp add: running_def)
    have "s \<noteq> c" using s(2) krel_tid [OF rel c] other by auto
    then have "a_state A s \<noteq> RUNNING" using running_unique_job [OF inv run s(1)] by blast
    with target Some have w: "a_state A s = WATIREPLY" by (auto simp: reply_target_ok_def)
    with ok s(1) have "user_buffer U (t_x (k_tasks K s) 3) (ucast (t_x (k_tasks K s) 4))" by (auto simp: all_wait_ok_def)
    moreover have "0 \<le> sint (ucast (t_x (k_tasks K c) 2) :: i32)" using x by (simp add: user_buffer_def)
    ultimately show ?thesis using sys_reply_waiting [OF rel inv run Some w] k writes_memcpy by auto
  qed
  ultimately show ?thesis by blast
qed

lemma create_careful:
  assumes rel: "krel K A" and inv: "ainv A" and run: "running A c" and ok: "all_wait_ok U K A" and k: "sys_create K = Inr K'"
  shows "k_mem K' = k_mem K \<and> mem_base K' = mem_base K \<and> (\<exists>p. krel K' (fst (a_create A p)) \<and> ainv (fst (a_create A p))
    \<and> all_wait_ok U K' (fst (a_create A p)))"
proof -
  let ?p = "priority_index (clamp_priority (ucast (t_x (k_tasks K c) 0)))"
  from running_kernel [OF rel run] k obtain K1 r where
    k1: "create_task K (ucast (t_x (k_tasks K c) 0)) (t_x (k_tasks K c) 1) (t_tid (k_tasks K c)) = Inr (K1, r)"
      "k_mem K' = k_mem K1" "mem_base K' = mem_base K1"
    by (auto simp: sys_create_def bindE_eq_Inr_iff Let_def split: option.splits)
  have job: "u \<noteq> a_created A \<and> k_task_pool_ptr K \<noteq> Some u" if "u \<in> set (a_jobs A)" for u
  proof -
    have "a_created A \<noteq> u" using fresh_job [of A] inv that by (auto simp: ainv_def)
    then show ?thesis using rel by (auto simp: krel_def free_rel_def)
  qed
  have keep: "k_mem K1 = k_mem K \<and> mem_base K1 = mem_base K"
    using create_task_keeps [OF k1(1), of c] job running_kernel(3) [OF rel run] by (simp add: keeps_def)
  have same: "t_x (k_tasks K' u) = t_x (k_tasks K u)" if "u \<in> set (a_jobs A)" for u
    using saved_context_x [OF sys_create_context [OF k]] job [OF that] by blast
  have "all_wait_ok U K' (fst (a_create A ?p))"
  proof (rule all_wait_step [OF ok same])
    fix u assume "u \<in> set (a_jobs (fst (a_create A ?p)))" "u \<notin> set (a_jobs A) \<or> a_state (fst (a_create A ?p)) u \<noteq> a_state A u"
    then show "waits_ok U (t_x (k_tasks K' u)) (a_state (fst (a_create A ?p)) u)"
      by (cases "a_created A < MAX_TASK_NUM") (auto simp: a_create_spawn a_create_def Let_def split: if_splits)
  qed
  moreover have "krel K' (fst (a_create A ?p))" using sys_create_refine [OF rel inv run] k by auto
  moreover have "ainv (fst (a_create A ?p))" by (rule create_inv [OF inv priority_index_less [OF clamp_priority_valid]])
  ultimately show ?thesis using keep k1(2,3) by metis
qed

lemma exit_careful:
  assumes rel: "krel K A" and inv: "ainv A" and run: "running A c" and ok: "all_wait_ok U K A"
    and blocks: "blocks_in U K" and k: "sys_exit K = Inr K'"
  shows "writes_in U (k_mem K) (k_mem K') \<and> mem_base K' = mem_base K \<and> krel K' (a_exit A c) \<and> ainv (a_exit A c)
    \<and> all_wait_ok U K' (a_exit A c)"
proof -
  have dist: "distinct (a_jobs A)" using inv by (simp add: ainv_def jobs_ok_def)
  have cur: "k_current K = Some c" using running_kernel [OF rel run] by simp
  have same: "t_x (k_tasks K' u) = t_x (k_tasks K u)" if "u \<noteq> c" for u
    using saved_context_x [OF sys_exit_context [OF k, of u]] cur that by simp
  have wait: "all_wait_ok U K' (a_exit A c)"
    using ok dist same by (auto simp: all_wait_ok_def a_exit_def)
  have j: "c \<in> set (a_jobs A)" using run by (simp add: running_def)
  with rel obtain i where i: "t_memory_block (k_tasks K c) = Some i" "i < MEMORY_BLOCK_MAX_NUM"
    by (auto simp: krel_def blocks_rel_def)
  from k cur i have m: "k_mem K' = zero_range (k_mem K) (block_addr (k_memory K) i) MEMORY_BLOCK_SIZE" "mem_base K' = mem_base K"
    by (auto simp: sys_exit_def remove_current_task_def memory_free_block_def bindE_eq_Inr_iff Let_def k_mem_def mem_base_def
        split: prod.splits option.splits if_splits)
  have "lies_in (block_addr (k_memory K) i) MEMORY_BLOCK_SIZE U" using blocks i(2) by (simp add: blocks_in_def)
  then have "writes_in U (k_mem K) (k_mem K')"
    by (auto simp: writes_in_def lies_in_def m(1) zero_range_at MEMORY_BLOCK_SIZE_def)
  then show ?thesis using wait m(2) remove_current_refine [OF rel inv run] exit_inv [OF inv run] k by (auto simp: sys_exit_def)
qed

lemma await_careful:
  assumes rel: "krel K A" and inv: "ainv A" and run: "running A c" and ok: "all_wait_ok U K A"
    and await: "await_ok K" and k: "sys_await_event K = Inr K'"
  shows "k_mem K' = k_mem K \<and> mem_base K' = mem_base K \<and> (\<exists>i. krel K' (a_await A c i) \<and> ainv (a_await A c i)
    \<and> all_wait_ok U K' (a_await A c i))"
proof -
  let ?i = "sint (ucast (t_x (k_tasks K c) 0) :: i32)"
  have i: "0 \<le> ?i" "?i < 1022" using await running_kernel [OF rel run] by (simp_all add: await_ok_def Let_def)
  then have "nat ?i < NUM_INTERRUPT" by (simp add: NUM_INTERRUPT_def nat_less_iff)
  then have "ainv (a_await A c (nat ?i))" using await_inv [OF inv run] by simp
  moreover have same: "t_x (k_tasks K' u) = t_x (k_tasks K u)" for u by (rule saved_context_x [OF sys_await_event_context [OF k]])
  then have "all_wait_ok U K' (a_await A c (nat ?i))"
    by (intro all_wait_step [OF ok]) (auto simp: a_await_def a_set_state_def Let_def split: if_splits)
  ultimately show ?thesis
    using sys_await_event_refine [OF rel inv run i] sys_await_event_keeps [OF k] k by (auto simp: keeps_def)
qed

subsection \<open>One round\<close>

lemma mem_base_blocks: "mem_base K' = mem_base K \<Longrightarrow> blocks_in U K' = blocks_in U K"
  by (simp add: blocks_in_def block_addr_def mem_base_def)

definition kept :: "u64 set \<Rightarrow> Kernel \<Rightarrow> Kernel \<Rightarrow> bool" where
  "kept U K K' \<longleftrightarrow> writes_in U (k_mem K) (k_mem K') \<and> mem_base K' = mem_base K
     \<and> (\<exists>A. krel K' A \<and> ainv A \<and> all_wait_ok U K' A)"

lemma keptI:
  assumes "writes_in U (k_mem K) (k_mem K')" and "mem_base K' = mem_base K" and "krel K' A" and "ainv A" and "all_wait_ok U K' A"
  shows "kept U K K'"
  using assms by (auto simp: kept_def)

lemma handler_careful:
  assumes rel: "krel K A" and inv: "ainv A" and run: "running A c" and wait: "all_wait_ok U K A" and blocks: "blocks_in U K"
    and ok: "call_ok h K" and x: "buffers_ok U h (t_x (k_tasks K c))"
    and other: "h = H_reply \<longrightarrow> ucast (t_x (k_tasks K c) 0) \<noteq> t_tid (k_tasks K c)" and k: "run_handler h K = Inr K'"
  shows "kept U K K'"
proof (cases h)
  case H_create
  with create_careful [OF rel inv run wait] k show ?thesis by (auto intro: keptI)
next
  case H_yield
  with k rel inv wait show ?thesis by (auto simp: sys_yield_def intro: keptI)
next
  case H_exit
  with exit_careful [OF rel inv run wait blocks] k show ?thesis by (auto intro: keptI)
next
  case H_tid
  then have "K' = give_result K c (word_of_nat c)" using sys_tid_refine [OF rel inv run] k by simp
  then show ?thesis using rel inv wait by (intro keptI [where A = A]) (simp_all add: krel_give_result all_wait_ok_def)
next
  case H_parent_tid
  then have "K' = give_result K c (scast (t_parent_tid (k_tasks K c)))"
    using running_kernel [OF rel run] k by (simp add: sys_parent_tid_def)
  then show ?thesis using rel inv wait by (intro keptI [where A = A]) (simp_all add: krel_give_result all_wait_ok_def)
next
  case H_send
  then have s: "sys_send K = Inr K'" "buffers_ok U H_send (t_x (k_tasks K c))" using k x by simp_all
  have recv: "\<forall>r. send_target K A c = Some r \<longrightarrow> r \<in> set (a_jobs A)" using a_find_Some by (auto simp: send_target_def)
  show ?thesis
    using send_careful [OF rel inv run wait s(2,1)] sys_send_refine [OF rel inv run] send_inv [OF inv run recv] s(1) sys_send_base [OF s(1)]
    by (intro keptI) auto
next
  case H_receive
  then have s: "sys_receive K = Inr K'" "buffers_ok U H_receive (t_x (k_tasks K c))" using k x by simp_all
  show ?thesis
    using receive_careful [OF rel inv run wait s(2,1)] sys_receive_refine [OF rel inv run] receive_inv [OF inv run] s(1) sys_receive_base [OF s(1)]
    by (intro keptI) auto
next
  case H_reply
  then have s: "sys_reply K = Inr K'" "buffers_ok U H_reply (t_x (k_tasks K c))" "ucast (t_x (k_tasks K c) 0) \<noteq> t_tid (k_tasks K c)"
    using k x other by simp_all
  have t: "reply_target_ok A (send_target K A c)" using reply_ok_target [OF rel run] ok H_reply by simp
  show ?thesis
    using reply_careful [OF rel inv run wait s(2,3) t s(1)] sys_reply_refine [OF rel inv run t] reply_inv [OF inv run t] s(1) sys_reply_base [OF s(1)]
    by (intro keptI) auto
next
  case H_await_event
  with await_careful [OF rel inv run wait] ok k show ?thesis by (auto intro: keptI)
qed

lemma schedule_state:
  assumes "a_schedule A = (B, r)"
  shows "a_jobs B = a_jobs A \<and> (a_state B u = a_state A u \<or> a_state B u = READY)"
  using assms by (auto simp: a_schedule_def a_requeue_def a_take_def a_make_ready_def a_set_state_def Let_def
      split: list.splits option.splits if_splits)

text \<open>The state in which the picked task has trapped.\<close>

lemma trapped_careful:
  assumes inv: "system_inv S" and buf: "buffers_inv U (sy_kernel S)" and sch: "schedule (sy_kernel S) = Inr (K, Some t)"
  obtains B K2 where "activate K t tr = Inr K2" "krel K2 (a_run B t)" "ainv (a_run B t)" "running (a_run B t) t"
    "k_mem K2 = tr_mem tr" "mem_base K2 = mem_base (sy_kernel S)" "all_wait_ok U K2 (a_run B t)" "t_x (k_tasks K2 t) = tr_x tr"
    "t_tid (k_tasks K2 t) = t_tid (k_tasks K t)"
proof -
  from scheduled_task [OF inv sch, of tr] obtain A B K2 where a:
    "krel (sy_kernel S) A" "ainv A" "a_schedule A = (B, Some t)" "krel K B" "activate K t tr = Inr K2"
    "krel K2 (a_run B t)" "ainv (a_run B t)" "running (a_run B t) t" "k_mem K2 = tr_mem tr" by metis
  have wait: "all_wait_ok U (sy_kernel S) A" using buf all_wait_live [OF a(1,2)] by (simp add: buffers_inv_def)
  have same: "t_x (k_tasks K2 u) = t_x (k_tasks (sy_kernel S) u)" if "u \<noteq> t" for u
    by (rule saved_context_x) (simp add: activate_context [OF a(5)] schedule_context [OF sch] that)
  have "all_wait_ok U K2 (a_run B t)"
    unfolding all_wait_ok_def
  proof
    fix u assume "u \<in> set (a_jobs (a_run B t))"
    then have u: "u \<in> set (a_jobs A)" using schedule_state [OF a(3)] by (simp add: a_run_def)
    show "waits_ok U (t_x (k_tasks K2 u)) (a_state (a_run B t) u)"
      using wait u same [of u] schedule_state [OF a(3), of u] by (cases "u = t") (auto simp: all_wait_ok_def a_run_def)
  qed
  moreover have "mem_base K2 = mem_base (sy_kernel S)"
    using activate_runner(4) [OF a(5)] schedule_keeps [OF sch] by (simp add: keeps_def)
  moreover have "t_tid (k_tasks K2 t) = t_tid (k_tasks K t)"
    using krel_tid [OF a(6), of t] krel_tid [OF a(4), of t] a(8) by (simp add: running_def a_run_def)
  ultimately show thesis using that a(5-9) activate_runner(5) [OF a(5)] by blast
qed

lemma buffers_inv_kept:
  assumes "kept U K K'" and "blocks_in U K"
  shows "buffers_inv U K'"
proof -
  from assms(1) obtain A where A: "krel K' A" "ainv A" "all_wait_ok U K' A" and "mem_base K' = mem_base K" by (auto simp: kept_def)
  then show ?thesis using assms(2) all_wait_live [OF A(1,2)] by (simp add: buffers_inv_def mem_base_blocks [of K' K])
qed

lemma round_careful:
  assumes inv: "system_inv S" and buf: "buffers_inv U (sy_kernel S)" and ok: "careful U S tr" and step: "kmain_step S tr = Inr (S', g)"
  shows "writes_in U (if g then tr_mem tr else k_mem (sy_kernel S)) (k_mem (sy_kernel S')) \<and> (g \<longrightarrow> buffers_inv U (sy_kernel S'))"
proof -
  obtain K r where sch: "schedule (sy_kernel S) = Inr (K, r)" using schedule_total [OF inv] by blast
  show ?thesis
  proof (cases r)
    case None
    with sch step have "g = False" "S' = S\<lparr>sy_kernel := K\<rparr>" by (auto simp: kmain_step_def)
    moreover have "k_mem K = k_mem (sy_kernel S)" using schedule_keeps [OF sch] by simp
    ultimately show ?thesis by simp
  next
    case (Some t)
    note sch = sch [unfolded Some]
    from trapped_careful [OF inv buf sch, of tr] obtain B K2 where a:
      "activate K t tr = Inr K2" "krel K2 (a_run B t)" "ainv (a_run B t)" "running (a_run B t) t" "k_mem K2 = tr_mem tr"
      "mem_base K2 = mem_base (sy_kernel S)" "all_wait_ok U K2 (a_run B t)" "t_x (k_tasks K2 t) = tr_x tr"
      "t_tid (k_tasks K2 t) = t_tid (k_tasks K t)" by metis
    have g: "g" and h: "handle_current_exception (S\<lparr>sy_kernel := K2\<rparr>) tr = Inr S'"
      using kmain_step_unfold [OF sch a(1) step] by simp_all
    have blocks: "blocks_in U K2" using buf mem_base_blocks [OF a(6)] by (simp add: buffers_inv_def)
    have same: "kept U K2 K2" by (rule keptI [OF _ refl a(2,3,7)]) simp
    have trap: "trap_ok (S\<lparr>sy_kernel := K2\<rparr>) tr" using ok sch a(1) by (simp add: careful_def well_behaved_def)
    have "kept U K2 (sy_kernel S')"
    proof (cases "tr_exc tr")
      case SYNCHRONOUS_EXCEPTION
      show ?thesis
      proof (cases "\<exists>c. svc_call S tr c")
        case False
        with SYNCHRONOUS_EXCEPTION trap have "(ucast (drop_bit 26 (tr_esr tr)) :: u8) \<noteq> SVC_CLASS"
          by (auto simp: trap_ok_def svc_call_def split: option.splits if_splits)
        with SYNCHRONOUS_EXCEPTION h have "S' = S\<lparr>sy_kernel := K2\<rparr>"
          by (simp add: handle_current_exception_def handle_synchronous_exception_def)
        with same show ?thesis by simp
      next
        case True
        then obtain c where c: "svc_call S tr c" by blast
        with SYNCHRONOUS_EXCEPTION h have r: "run_handler c K2 = Inr (sy_kernel S')"
          by (auto simp: svc_call_def handle_current_exception_def handle_synchronous_exception_def on_kernel_def bindE_eq_Inr_iff Let_def)
        from trap c have "call_ok c K2" by (simp add: trap_ok_def svc_call_def)
        moreover have "buffers_ok U c (t_x (k_tasks K2 t))" "c = H_reply \<longrightarrow> ucast (t_x (k_tasks K2 t) 0) \<noteq> t_tid (k_tasks K2 t)"
          using ok c sch a(8,9) by (auto simp: careful_def)
        ultimately show ?thesis using handler_careful [OF a(2-4,7) blocks _ _ _ r] by blast
      qed
    next
      case IRQ
      from irq_handled [OF h this] have w: "wake_up_irq_blocked_tasks K2 (sint (tr_intid tr)) = Inr (sy_kernel S')" by simp
      from trap IRQ have i: "tr_intid tr = 97" by (simp add: trap_ok_def tick_ok_def)
      then have r: "krel (sy_kernel S') (a_wake (a_run B t) 97)" using wake_refine [OF a(2,3), of 97] w by auto
      have "ainv (a_wake (a_run B t) 97)" using wake_inv [OF a(3,4)] by (simp add: NUM_INTERRUPT_def)
      moreover have "t_x (k_tasks (sy_kernel S') u) = t_x (k_tasks K2 u)" for u by (rule saved_context_x [OF wake_context [OF w]])
      then have "all_wait_ok U (sy_kernel S') (a_wake (a_run B t) 97)"
        by (intro all_wait_step [OF a(7)])
          (auto simp: a_wake_def a_make_ready_def a_set_state_def Let_def split: list.splits if_splits)
      ultimately show ?thesis using r wake_keeps [OF w] by (intro keptI) (simp_all add: keeps_def)
    qed
    then show ?thesis using g a(5) buffers_inv_kept [OF _ blocks] by (simp add: kept_def)
  qed
qed

subsection \<open>Every state that careful rounds reach\<close>

lemma careful_reach_inv:
  assumes "careful_reach U S0 S" and "system_inv S0" and "buffers_inv U (sy_kernel S0)"
  shows "system_inv S \<and> buffers_inv U (sy_kernel S)"
  using assms
proof (induction rule: careful_reach.induct)
  case (careful_round S tr S')
  then have ih: "system_inv S" "buffers_inv U (sy_kernel S)" by simp_all
  have "well_behaved S tr" using careful_round.hyps(2) by (simp add: careful_def)
  from kmain_step_ok [OF ih(1) this] round_careful [OF ih careful_round.hyps(2,3)] careful_round.hyps(3) show ?case by auto
qed simp

text \<open>Booting leaves the blocks where they are, and afterwards nobody waits.\<close>

lemma init_scheduler_base [simp]: "mem_base (init_scheduler K) = mem_base K"
  by (simp add: mem_base_def init_scheduler_def task_queue_init_def Let_def)

lemma init_kernel_kernel:
  assumes "init_kernel S chi clo = Inr S'"
  shows "sy_kernel S' = init_scheduler ((sy_kernel S)\<lparr>k_memory := memory_init (k_memory (sy_kernel S))\<rparr>)"
  using assms unfolding init_kernel_def bindE_eq_Inr_iff Let_def
  by (elim exE conjE) (auto simp: init_exception_handlers_def bindE_eq_Inr_iff split: prod.splits)

lemma init_kernel_base:
  assumes "init_kernel S chi clo = Inr S'"
  shows "mem_base (sy_kernel S') = mem_base (sy_kernel S)"
  unfolding init_kernel_kernel [OF assms] by (simp add: mem_base_def [of "_\<lparr>k_memory := _\<rparr>"]) (simp add: mem_base_def memory_init_def)

lemma create_task_base: "create_task K p f par = Inr (K', r) \<Longrightarrow> mem_base K' = mem_base K"
  using create_task_keeps [of K p f par K' r "Suc (the (k_task_pool_ptr K))"] by (cases "k_task_pool_ptr K") (auto simp: keeps_def)

lemma boot_base: "boot S chi clo u i = Inr S0 \<Longrightarrow> mem_base (sy_kernel S0) = mem_base (sy_kernel S)"
  by (auto simp: boot_def on_kernel_def init_tasks_def bindE_eq_Inr_iff dest!: init_kernel_base create_task_base)

lemma boot_buffers:
  assumes fresh: "fresh_system S" and blocks: "blocks_in U (sy_kernel S)" and boot: "boot S chi clo u i = Inr S0"
  shows "system_inv S0 \<and> buffers_inv U (sy_kernel S0)"
proof -
  from init_kernel_ok [OF fresh, of chi clo] obtain S1 where
    s1: "init_kernel S chi clo = Inr S1" "krel (sy_kernel S1) a_init" by blast
  from init_tasks_ok [OF s1(2), of u i] obtain K A where
    k: "init_tasks (sy_kernel S1) u i = Inr K" "krel K A" "ainv A" "a_jobs A = [0, 1]" "a_state A 0 = READY" "a_state A 1 = READY" by blast
  have "S0 = S1\<lparr>sy_kernel := K\<rparr>" using boot by (simp add: boot_def s1(1) on_kernel_def k(1))
  moreover have "all_wait_ok U K A" using k(4-6) by (simp add: all_wait_ok_def)
  moreover have "system_inv S0" using boot_ok [OF fresh, of chi clo u i] boot by auto
  moreover have "blocks_in U (sy_kernel S0)" using blocks mem_base_blocks [OF boot_base [OF boot]] by simp
  ultimately show ?thesis using all_wait_live [OF k(2,3)] by (simp add: buffers_inv_def)
qed

lemma careful_rounds:
  assumes "fresh_system S" and "blocks_in U (sy_kernel S)" and "boot S chi clo u i = Inr S0"
    and "careful_reach U S0 S1" and "careful U S1 tr"
  shows "\<exists>S2 going. kmain_step S1 tr = Inr (S2, going)
    \<and> (\<forall>a. a \<notin> U \<longrightarrow> k_mem (sy_kernel S2) a = (if going then tr_mem tr a else k_mem (sy_kernel S1) a))"
proof -
  from boot_buffers [OF assms(1-3)] have "system_inv S0" "buffers_inv U (sy_kernel S0)" by simp_all
  from careful_reach_inv [OF assms(4) this] have i: "system_inv S1" "buffers_inv U (sy_kernel S1)" by simp_all
  have "well_behaved S1 tr" using assms(5) by (simp add: careful_def)
  from kmain_step_ok [OF i(1) this] obtain S2 g where s: "kmain_step S1 tr = Inr (S2, g)" by blast
  from round_careful [OF i assms(5) s] s show ?thesis by (auto simp: writes_in_def)
qed

text \<open>
  The lengths have to be so: a negative one that is copied is as long as the whole memory but for 2 GB.
\<close>

lemma negative_length_copies:
  assumes "sint (exchange_length lf lt) < 0"
  shows "2 ^ 64 - 2 ^ 31 \<le> unat (scast (exchange_length lf lt) :: u64)"
proof -
  define l where "l = sint (exchange_length lf lt)"
  have l: "- (2 ^ 31) \<le> l" "l < 0" using assms sint_ge [of "exchange_length lf lt"] by (simp_all add: l_def)
  have "uint (scast (exchange_length lf lt) :: u64) = l mod 2 ^ 64"
    unfolding scast_eq uint_word_of_int l_def by simp
  also have "\<dots> = (l + 2 ^ 64) mod 2 ^ 64" by simp
  also have "\<dots> = l + 2 ^ 64" by (rule mod_pos_pos_trivial) (use l in simp_all)
  finally have "2 ^ 64 - 2 ^ 31 \<le> uint (scast (exchange_length lf lt) :: u64)" using l by simp
  from nat_mono [OF this] show ?thesis by simp
qed

subsection \<open>A concrete memory\<close>

text \<open>The blocks of the example system: 64 MB from the address of the array on.\<close>

definition ex_user :: "u64 set" where
  "ex_user = {a. in_region a 0x1000000 0x4000000}"

lemma region_in:
  assumes "a = b + word_of_nat k" and "k + n \<le> l" and "l < 2 ^ 64"
  shows "lies_in a n {x. in_region x b l}"
proof -
  have "unat (x - b) < l" if x: "unat (x - a) < n" for x
  proof -
    have "x - b = word_of_nat (k + unat (x - a))" using assms(1) by (simp add: algebra_simps)
    then have "unat (x - b) = k + unat (x - a)" using x assms(2,3) by (simp only: unat_of_nat_small64)
    with x assms(2) show ?thesis by simp
  qed
  then show ?thesis by (simp add: lies_in_def in_region_def)
qed

lemma ex_blocks: "blocks_in ex_user (sy_kernel ex_system)"
proof -
  have "lies_in (block_addr (k_memory (sy_kernel ex_system)) i) MEMORY_BLOCK_SIZE ex_user" if "i < 64" for i
    unfolding ex_user_def
    by (rule region_in [where k = "i * MEMORY_BLOCK_SIZE"])
      (use that in \<open>simp_all add: block_addr_def ex_system_def ex_kernel_def MEMORY_BLOCK_SIZE_def\<close>)
  then show ?thesis by (simp add: blocks_in_def MEMORY_BLOCK_MAX_NUM_def)
qed

text \<open>The initial task sends two bytes to task 1, with room for 16 bytes of the reply; task 1 receives them.\<close>

definition ex_send_regs :: "nat \<Rightarrow> u64" where
  "ex_send_regs = (\<lambda>_. 0)(0 := 1, 1 := 0x10FFF00, 2 := 2, 3 := 0x10FFE00, 4 := 16)"

definition ex_send :: Trap where
  "ex_send = ex_trap 0x54000015 ex_send_regs (\<lambda>_. 7)"

definition ex_receive :: Trap where
  "ex_receive = ex_trap 0x54000016 ((\<lambda>_. 0)(0 := 0x11FFF00, 1 := 0x11FFE00, 2 := 16)) (\<lambda>_. 7)"

lemma ex_careful:
  assumes b: "booted S A"
  shows "careful ex_user S ex_send" "careful ex_user S ex_receive"
proof -
  have s: "svc_call S ex_send h \<longleftrightarrow> h = H_send" "svc_call S ex_receive h \<longleftrightarrow> h = H_receive" for h
    using booted_svc(2,3) [OF b] by (auto simp: svc_call_def ex_send_def ex_receive_def)
  have "lies_in 0x10FFF00 2 ex_user" "lies_in 0x10FFE00 16 ex_user" "lies_in 0x11FFF00 4 ex_user" "lies_in 0x11FFE00 16 ex_user"
    unfolding ex_user_def
    by (rule region_in [where k = "0xFFF00"], simp_all) (rule region_in [where k = "0xFFE00"], simp_all,
      rule region_in [where k = "0x1FFF00"], simp_all, rule region_in [where k = "0x1FFE00"], simp_all)
  then have "buffers_ok ex_user H_send (tr_x ex_send)" "buffers_ok ex_user H_receive (tr_x ex_receive)"
    by (simp_all add: ex_send_def ex_send_regs_def ex_receive_def ex_trap_def user_buffer_def)
  moreover have "well_behaved S ex_send" "well_behaved S ex_receive"
    using svc_well_behaved [of S ex_send H_send] svc_well_behaved [of S ex_receive H_receive] s by simp_all
  ultimately show "careful ex_user S ex_send" "careful ex_user S ex_receive" using s by (simp_all add: careful_def)
qed

lemma ex_careful_rounds:
  "\<exists>S0 S1. boot ex_system 0 0 0x90000 0xA0000 = Inr S0 \<and> careful_reach ex_user S0 S1 \<and> booted S1 ex_A2s \<and> S1 \<noteq> S0"
proof -
  from ex_booted obtain S0 where b: "boot ex_system 0 0 0x90000 0xA0000 = Inr S0" "booted S0 ex_A0" by blast
  have "ucast (ex_send_regs 0) = (1 :: i32)" by (simp add: ex_send_regs_def)
  from ex_send_round [where x = ex_send_regs, OF b(2) this] obtain S1 where
    s: "kmain_step S0 ex_send = Inr (S1, True)" "booted S1 ex_A2s" unfolding ex_send_def by blast
  have "t_state (k_tasks (sy_kernel S0) 0) = READY" using krel_state [of "sy_kernel S0" ex_A0 0] b(2) by (simp add: booted_def ex_A0_eq)
  moreover have "t_state (k_tasks (sy_kernel S1) 0) = WATISEND"
    using krel_state [of "sy_kernel S1" ex_A2s 0] s(2) by (simp add: booted_def ex_A2s_def a_send_def ex_A1_def ex_A0_eq MAX_SENDER_CAPACITY_def)
  ultimately have "S1 \<noteq> S0" by auto
  with careful_round [OF careful_start ex_careful(1) [OF b(2)] s(1)] b(1) s(2) show ?thesis by blast
qed

end
