(* ===== verification/Spec2Isabelle.thy ===== *)
theory Spec2Isabelle
  imports Program_Scenarios Task_Calls Demo_Exchange Memory_Safety
begin

text \<open>
  A verified model of a small real-time kernel for the Raspberry Pi 4: tasks with fixed
  priorities, synchronous messages (\<^verbatim>\<open>Send\<close>, \<^verbatim>\<open>Receive\<close>, \<^verbatim>\<open>Reply\<close>), a tick interrupt, three
  server tasks and the drivers of the console.  Definitions keep the names of the C code.

  \<^bold>\<open>How the program works.\<close>  \<^verbatim>\<open>main\<close> initialises the drivers, the interrupt controller and the
  kernel and enters \<^verbatim>\<open>kmain\<close>: pick a task (\<^verbatim>\<open>schedule\<close>), run it until it traps (\<^verbatim>\<open>activate\<close>),
  handle the trap (\<^verbatim>\<open>handle_current_exception\<close>), until no task is ready.  A trap is a system
  call, which reads its arguments from the saved registers of the caller, or an interrupt of
  the timer, which wakes the first of the tasks that await it.  All kernel data is static: a pool of
  descriptors, one of list nodes, one of stack blocks.

  \<^bold>\<open>Conventions\<close> (\<open>Prelude\<close>).  A piece of code that can stop, by a failed assertion, a null
  pointer, an array overrun, an undefined arithmetic operation or an endless loop, yields
  \<open>Inl\<close> of a \<open>fault\<close>; machine integers are words of their width; structures are records, pointers
  into a static pool are indices, null is \<open>None\<close>; the memory that messages are copied through is
  a function from 64-bit addresses to bytes.

  \<^bold>\<open>Theories and sources\<close> (under \<^verbatim>\<open>src/src\<close> unless said otherwise)
  \<^item> \<open>Ring_Queue\<close>: \<^verbatim>\<open>queue.c\<close>, the ring buffer of waiting senders.  \<open>Task\<close>: \<^verbatim>\<open>task.c\<close>,
    \<^verbatim>\<open>task.h\<close>, \<^verbatim>\<open>config.h\<close>.
  \<^item> \<open>Task_List\<close> and \<open>Prio_Queue\<close>: \<^verbatim>\<open>task_queue.c\<close>, the node pool, the doubly linked lists, the
    priority queues.
  \<^item> \<open>Utilities\<close> and \<open>Conversions\<close>: \<^verbatim>\<open>utilities.c\<close>, byte loops, numbers and strings.
    \<open>Memory\<close>: \<^verbatim>\<open>memory.c\<close>, stack blocks.  \<open>Memory_Pool\<close>: \<^verbatim>\<open>memory_pool.c\<close>, chunks.
  \<^item> \<open>Scheduler\<close>: \<^verbatim>\<open>task_scheduler.c\<close>, its static data as the record \<open>Kernel\<close>.
    \<open>Message_Passing\<close>: \<^verbatim>\<open>message_passing.c\<close>, \<^verbatim>\<open>kernel_syscall.c\<close>, \<^verbatim>\<open>sys_await_event\<close>.
  \<^item> \<open>Timer\<close>: \<^verbatim>\<open>timer.c\<close>.  \<open>Interrupt\<close>: \<^verbatim>\<open>interrupt.c\<close>.  \<open>Kernel\<close>: \<^verbatim>\<open>exception.c\<close>,
    \<^verbatim>\<open>init_kernel.c\<close>, \<^verbatim>\<open>kernel.c\<close>, \<^verbatim>\<open>main.c\<close>.
  \<^item> \<open>Server_Loop\<close>: the loop that the servers share.  \<open>Delay_Queue\<close> and \<open>Clock_Server\<close>:
    \<^verbatim>\<open>clock_server.c\<close>.  \<open>Hash_Table\<close>: \<^verbatim>\<open>hash_table.c\<close>.  \<open>Name_Server\<close>: \<^verbatim>\<open>name_server.c\<close>.
    \<open>Rps_Server\<close> and \<open>Rps_Facts\<close>: \<^verbatim>\<open>rps_server.c\<close>.
  \<^item> \<open>Spi\<close>, \<open>Uart\<close> and \<open>Uart_Facts\<close>: \<^verbatim>\<open>rpi.c\<close> with the constants of \<^verbatim>\<open>bcm2711.h\<close>.
    \<open>Printf\<close> and \<open>Printf_Facts\<close>: \<^verbatim>\<open>printf.c\<close> as \<^verbatim>\<open>printf.h\<close> configures it.
    \<open>Number_Text\<close>: the text of numbers that both printers share.  \<open>Printers\<close>: the two printers compared.
    \<open>Idle\<close>: \<^verbatim>\<open>tasks/idle.c\<close>.
  \<^item> \<open>Task_Program\<close>: programs of tasks, which print lines and make the calls of \<^verbatim>\<open>syscall.h\<close>, and their
    runs on the kernel (\<open>user_run\<close>): in each round the trap is the call that the program of the picked task makes, with its
    arguments in the registers and its buffers in the stack block of the task (\<open>plays\<close>).
    \<open>Task_Code\<close>: the servers and their notifier with their start-up, \<^verbatim>\<open>RegisterAs\<close>, \<^verbatim>\<open>WhoIs\<close> and
    \<^verbatim>\<open>Delay\<close>, the idle task and \<^verbatim>\<open>tasks/k3_user_tasks.c\<close> as programs.  \<open>Demo_Code\<close>: the other tasks of
    \<^verbatim>\<open>tasks\<close>.  What the compiler, the linker and the hardware decide is the record \<open>Image\<close>.
  \<^item> \<open>Interfaces\<close>: the contracts between components as locales (\<open>bounded_fifo\<close>, \<open>allocator\<close>,
    \<open>level_queue\<close>); \<open>Server_Loop\<close> and \<open>Hash_Table\<close> hold those of the servers (\<open>server\<close>, \<open>registry\<close>).
    Each is interpreted on the model of the code in the theory that provides it.
  \<^item> \<open>Kernel_Spec\<close>: the abstract kernel.  \<open>Scheduler_Refine\<close>, \<open>Message_Refine\<close>: the code
    implements it.  \<open>Message_Facts\<close>: the bytes and results of the calls.  \<open>Kernel_Safety\<close>: the main
    loop as a transition system.  \<open>Kernel_View\<close>: the facts of the abstract kernel read off the descriptors and queues.
    \<open>Saved_Context\<close>, \<open>Kernel_Rounds\<close>, \<open>Round_Robin\<close>: what rounds leave of a task, the rounds of the calls, and
    the turns of the ready tasks.  \<open>Memory_Safety\<close>: with buffers in the memory of the tasks, the kernel writes nowhere
    else.  \<open>Scenarios\<close>, \<open>Round_Scenarios\<close>, \<open>Server_Scenarios\<close>: concrete runs.
  \<^item> \<open>User_Machine\<close>: the abstract machine that programs see, with messages as lists of bytes.  \<open>Task_Part\<close>,
    \<open>User_Relation\<close>, \<open>User_Refine\<close>: the kernel implements it.  \<open>Machine_Runs\<close>: runs of the two compared; every
    round of the machine can be made by the kernel.  \<open>Machine_Boot\<close>: after booting.
  \<^item> \<open>Machine_Execution\<close>, \<open>Server_Steps\<close>: executing programs on the machine.  \<open>Program_Start\<close>, \<open>Program_Ticks\<close>,
    \<open>Program_Transcript\<close>, \<open>Program_Output\<close>: the configured program (\<^verbatim>\<open>config.c\<close>) from its start to the
    last client.  \<open>Task_Calls\<close>: the first task and a client by themselves, the messages in any order.
    \<open>Demo_Runs\<close>, \<open>Demo_Exchange\<close>: the runs of four demonstration programs.  \<open>Program_Scenarios\<close>: a
    concrete image.

  \<^bold>\<open>What the lemmas show.\<close>  Each data structure has a representation predicate (\<open>pool_rep\<close>,
  \<open>ready_rep\<close>, \<open>memory_inv\<close>, \<open>ht_inv\<close> and so on) that every operation keeps, and an abstract
  view on which the operation is described.  \<open>krel\<close> relates the concrete kernel to \<open>AKernel\<close>, whose
  invariant \<open>ainv\<close> ties the queues to the states of the tasks (\<open>kernel_inv\<close>: related to some state
  with the invariant).  Booting establishes it, every call and every round of the main loop
  keeps it and succeeds, if the traps are well behaved (\<open>Kernel_Safety\<close>); the traps that are not,
  and stop the kernel, are shown as well.  The model keeps the kernel's data apart from the memory of the messages, so that a copy
  cannot overwrite it.  In the machine this is so for careful traps, whose buffers lie in the memory of the tasks and
  have no negative length (\<open>Memory_Safety\<close>: the invariant \<open>buffers_inv\<close> holds the buffers of the waiting tasks, and no round writes outside);
  the facts about all well-behaved traps are to be read with this in mind, since the code does not check a buffer.  \<open>machine_rel\<close> relates the kernel and the places of the programs to the
  abstract machine: a task's registers and buffers hold what the machine says is its answer, whatever other tasks have
  done in between.  With it the whole program is executed on the machine: its start round by round, then tick by tick with an
  invariant (\<open>scene\<close>) that holds the clients' remaining delays against the clock server's queue, and its output is
  the one of \<^verbatim>\<open>README.md\<close> but for the measured numbers of the idle task.  The servers keep their invariants on every sequence
  of messages within their stated limits (the clock server as long as never more than 512 tasks wait, however many ticks come), and what they answer is characterised.  The drivers
  put the stated transfers on the bus.

  \<^bold>\<open>Bounds and fuel.\<close>  The job list has 64 entries at most, so \<open>find_job\<close> has fuel 65.  The delay queue
  of the clock server has 512 nodes at most (its chunk pool), so its walks have fuel 513.  A number
  of 64 bits has at most 64 digits.  A transfer sends a byte in each round, so its fuel is their number;
  a string print either copies a byte or takes a word from the bus in each round; the loop over a format
  takes a byte of it in each round.  Programs are codatatypes and need no fuel; the configured one is started after 62 rounds of
  the main loop, its last client leaves after 213 ticks or 1175 further rounds, 1237 in all, and the output of the documentation
  ends with 601 ticks, 3177 rounds in all.  A loop that
  outruns its fuel yields \<open>Inl Diverges\<close>, and the theorems show the result \<open>Inr\<close> where it ends.

  \<^bold>\<open>Parameters.\<close>  The registers and the memory a task leaves at a trap; the readings of the counter,
  in the order of the reads; the words that come from the serial bus; in the servers' clients the
  result of \<^verbatim>\<open>Send\<close>, in the game server that of \<^verbatim>\<open>WhoIs\<close> (in the programs of tasks the kernel answers); the
  \<open>Image\<close> of a program.

  \<^bold>\<open>Not modelled.\<close>  The assembly (boot, saving and restoring registers, standby, the call stubs); its
  effect on the saved registers is the record \<open>Trap\<close>.  The floating-point and \<^verbatim>\<open>long long\<close> parts of
  \<^verbatim>\<open>printf.c\<close>, which \<^verbatim>\<open>printf.h\<close> switches off; the debug output of the modelled code; the delay
  loops of the drivers.  Interrupts in the midst of a program: the kernel's own theorems allow them at
  any time, but in the runs of programs the ticks come only where a program stands by, as the idle task does; a print that a tick
  interrupts, and a register that an interrupt loses (\<open>interrupted_task_loses_register\<close>), are not in these runs.  A message to a server of another size
  than its structure.  The game server is modelled by itself, not as a program.  The tests that run on the host.
\<close>

section \<open>The kernel as a whole\<close>

text \<open>C1. Safety of the main loop.  Let \<open>U\<close> be the memory of the tasks, with the 64 stack blocks in it.  From a freshly booted
  system, after any number of rounds with careful traps, the next round with a careful trap completes: no assertion fails, no
  null pointer is followed, no array is left, and no list walk runs for ever.  And the kernel writes nothing outside of \<open>U\<close>:
  there the memory is as the trap left it, however long the messages are that it copies.  A trap is careful when it is well
  behaved (a call that exists, a reply only to a task that waits for it, an event that exists, a tick in time) and when the
  buffers of a \<^verbatim>\<open>Send\<close>, \<^verbatim>\<open>Receive\<close> or \<^verbatim>\<open>Reply\<close> have lengths that are not negative and lie in \<open>U\<close>,
  which the code does not check.\<close>

theorem kernel_rounds_never_fault:
  assumes "fresh_system S" and "blocks_in U (sy_kernel S)" and "boot S chi clo u i = Inr S0"
    and "careful_reach U S0 S1" and "careful U S1 tr"
  shows "\<exists>S2 going. kmain_step S1 tr = Inr (S2, going)
    \<and> (\<forall>a. a \<notin> U \<longrightarrow> k_mem (sy_kernel S2) a = (if going then tr_mem tr a else k_mem (sy_kernel S1) a))"
  by (rule careful_rounds [OF assms])

theorem kernel_rounds_never_fault_witness:
  "\<exists>S0 S1 S2. boot ex_system 0 0 0x90000 0xA0000 = Inr S0 \<and> careful_reach ex_user S0 S1 \<and> S1 \<noteq> S0
     \<and> kmain_step S1 ex_receive = Inr (S2, True) \<and> k_mem (sy_kernel S2) 0x80000 = 7"
proof -
  from ex_careful_rounds obtain S0 S1 where s: "boot ex_system 0 0 0x90000 0xA0000 = Inr S0" "careful_reach ex_user S0 S1"
    "booted S1 ex_A2s" "S1 \<noteq> S0" by blast
  have out: "0x80000 \<notin> ex_user" by (simp add: ex_user_def in_region_def)
  from kernel_rounds_never_fault [OF ex_fresh ex_blocks s(1,2) ex_careful(2) [OF s(3)]] obtain S2 going where
    r: "kmain_step S1 ex_receive = Inr (S2, going)"
    "k_mem (sy_kernel S2) 0x80000 = (if going then tr_mem ex_receive 0x80000 else k_mem (sy_kernel S1) 0x80000)" using out by blast
  moreover obtain S' where "kmain_step S1 ex_receive = Inr (S', True)"
    using ex_receive_round [OF s(3)] unfolding ex_receive_def by blast
  moreover have "tr_mem ex_receive 0x80000 = 7" by (simp add: ex_receive_def ex_trap_def)
  ultimately have "S' = S2" "going" "k_mem (sy_kernel S2) 0x80000 = 7" by auto
  with r s show ?thesis by auto
qed

text \<open>C7. Booting succeeds and establishes the invariant of the kernel: the queues, the pools,
  the descriptors and the stack blocks represent an abstract kernel that satisfies its
  invariant, and the handler of the timer interrupt is installed.  The console is set up: its pins,
  the bus, and both serial lines, whose registers get exactly the values of \<open>uart_setup\<close> in that order.\<close>

theorem boot_establishes_invariant:
  assumes "fresh_system S"
  shows "\<exists>S'. boot S chi clo u i = Inr S' \<and> kernel_inv (sy_kernel S') \<and> sy_irq S' 97 = Some Handle_timer_1
    \<and> console_set S S'"
  using boot_ok [OF assms, of chi clo u i] by (simp add: system_inv_def)

theorem boot_establishes_invariant_witness:
  "\<exists>S'. boot ex_system 5 7 0x90000 0xA0000 = Inr S' \<and> kernel_inv (sy_kernel S')"
  using boot_establishes_invariant [OF ex_fresh, of 5 7 "0x90000" "0xA0000"] by blast

text \<open>C8. In every reachable state a live task is marked as running only if it is the current
  task, so at most one task is marked as running.\<close>

theorem reachable_running_is_current:
  assumes "fresh_system S" and "boot S chi clo u i = Inr S0" and "reach S0 S1"
    and "live (sy_kernel S1) t" and "t_state (k_tasks (sy_kernel S1) t) = RUNNING"
  shows "k_current (sy_kernel S1) = Some t"
proof -
  have "system_inv S0" using boot_ok [OF assms(1), of chi clo u i] assms(2) by auto
  from running_unique [OF reach_inv [OF assms(3) this] assms(4,5)] show ?thesis .
qed

theorem reachable_running_is_current_witness:
  "\<exists>S0 S1. boot ex_system 0 0 0x90000 0xA0000 = Inr S0 \<and> reach S0 S1 \<and> k_current (sy_kernel S1) = Some 0"
proof -
  from ex_one_round obtain S0 S1 where s: "boot ex_system 0 0 0x90000 0xA0000 = Inr S0" "reach S0 S1"
    "live (sy_kernel S1) 0" "t_state (k_tasks (sy_kernel S1) 0) = RUNNING" by blast
  from reachable_running_is_current [OF ex_fresh s] s(1,2) show ?thesis by blast
qed

text \<open>C12. The scheduler never fails.  It makes the running task ready and changes the state of no other task, so a blocked one
  stays blocked; no task begins, ends or changes its priority.  It returns no task, which ends the main loop, if every live
  task is blocked, and otherwise a live task that was ready or running, of the highest priority of all these.\<close>

theorem schedule_picks_highest_priority:
  assumes "system_inv S"
  shows "\<exists>K r. schedule (sy_kernel S) = Inr (K, r)
    \<and> (\<forall>v. live K v = live (sy_kernel S) v)
    \<and> (\<forall>v. live (sy_kernel S) v \<longrightarrow> t_priority (k_tasks K v) = t_priority (k_tasks (sy_kernel S) v)
         \<and> t_state (k_tasks K v) = (if t_state (k_tasks (sy_kernel S) v) = RUNNING then READY else t_state (k_tasks (sy_kernel S) v)))
    \<and> (case r of
         None \<Rightarrow> \<forall>v. live (sy_kernel S) v \<longrightarrow> \<not> runnable (t_state (k_tasks (sy_kernel S) v))
       | Some t \<Rightarrow> live (sy_kernel S) t \<and> runnable (t_state (k_tasks (sy_kernel S) t))
           \<and> (\<forall>v. live (sy_kernel S) v \<and> runnable (t_state (k_tasks (sy_kernel S) v))
                \<longrightarrow> sint (t_priority (k_tasks (sy_kernel S) v)) \<le> sint (t_priority (k_tasks (sy_kernel S) t))))"
  by (rule schedule_effect [OF assms])

theorem schedule_picks_highest_priority_witness:
  "\<exists>(S::System) K. schedule (sy_kernel S) = Inr (K, Some 0) \<and> live (sy_kernel S) 0 \<and> t_state (k_tasks K 0) = READY"
proof -
  from ex_boot_schedule obtain S :: System and K where s: "system_inv S" "schedule (sy_kernel S) = Inr (K, Some 0)" by blast
  from schedule_picks_highest_priority [OF s(1)] s(2) show ?thesis
    by (intro exI [of _ S] exI [of _ K]) (auto simp: runnable_def)
qed

text \<open>C13. Round robin, so no ready task starves among its equals: as many rounds after a moment at which a task is ready
  as there are ready tasks of its priority, it has been picked, or a task of a higher priority has; whatever the tasks do in
  their rounds (yield, send, create, exit, be interrupted), as long as their traps are well behaved.\<close>

theorem ready_task_gets_its_turn:
  assumes "system_inv S" and "live (sy_kernel S) t" and "t_state (k_tasks (sy_kernel S) t) = READY" and "rounds_behave S trs"
    and "card {u. live (sy_kernel S) u \<and> t_state (k_tasks (sy_kernel S) u) = READY
        \<and> t_priority (k_tasks (sy_kernel S) u) = t_priority (k_tasks (sy_kernel S) t)} \<le> length trs"
  shows "\<exists>S' ps. kmain_rounds S trs = Inr (S', ps)
    \<and> (t \<in> fst ` set ps \<or> (\<exists>p\<in>set ps. sint (t_priority (k_tasks (sy_kernel S) t)) < sint (snd p)))"
  by (rule ready_task_gets_turn [OF assms])

theorem ready_task_gets_its_turn_witness:
  "\<exists>S S' p. live (sy_kernel S) 0 \<and> kmain_rounds S [ex_tick (\<lambda>_. 0)] = Inr (S', [(0, p)])"
proof -
  obtain S where b: "booted S ex_A0" using ex_booted by blast
  then have A: "krel (sy_kernel S) ex_A0" "ainv ex_A0" by (simp_all add: booted_def)
  have lv: "live (sy_kernel S) u \<longleftrightarrow> u = 0 \<or> u = 1" for u using live_job [OF A, of u] by (auto simp: ex_A0_eq)
  have t0: "t_state (k_tasks (sy_kernel S) 0) = READY" using krel_state [OF A(1), of 0] by (simp add: ex_A0_eq)
  have "t_priority (k_tasks (sy_kernel S) 1) \<noteq> t_priority (k_tasks (sy_kernel S) 0)"
    using task_state_priority [OF A(1), of 0] task_state_priority [OF A(1), of 1] by (auto simp: ex_A0_eq)
  with lv t0 have U: "{u. live (sy_kernel S) u \<and> t_state (k_tasks (sy_kernel S) u) = READY
        \<and> t_priority (k_tasks (sy_kernel S) u) = t_priority (k_tasks (sy_kernel S) 0)} = {0}" by auto
  have beh: "rounds_behave S [ex_tick (\<lambda>_. 0)]"
    using ex_tick_behaves [OF b] by (simp split: sum.splits prod.splits)
  from ready_task_gets_its_turn [OF booted_inv [OF b] _ t0 beh, unfolded U] lv obtain S' ps where
    r: "kmain_rounds S [ex_tick (\<lambda>_. 0)] = Inr (S', ps)" by auto
  from schedule_refine [OF A] ex_schedule_0 obtain K where "schedule (sy_kernel S) = Inr (K, Some 0)" by auto
  with r have "\<exists>p. ps = [(0, p)]" by (auto simp: bindE_eq_Inr_iff)
  with r lv show ?thesis by blast
qed

text \<open>C9. In every reachable state the data of the kernel is well typed (\<open>kernel_typed\<close>): a live task's descriptor is one of
  the 64, holds its own number, a priority from 0 to 9, a stack block in use that no other live task has and its own node
  of the job list, and the senders it keeps are fewer than 64 live tasks that wait to send; the current task is live; the ready
  queue holds live ready tasks, and the queue of an interrupt live tasks that await it.\<close>

theorem reachable_kernel_is_typed:
  assumes "fresh_system S" and "boot S chi clo u i = Inr S0" and "reach S0 S1"
  shows "kernel_typed (sy_kernel S1)"
proof -
  have "system_inv S0" using boot_ok [OF assms(1), of chi clo u i] assms(2) by auto
  from reach_inv [OF assms(3) this] show ?thesis by (intro kernel_typed_ok) (simp add: system_inv_def)
qed

theorem reachable_kernel_is_typed_witness:
  "\<exists>S0 S1. boot ex_system 0 0 0x90000 0xA0000 = Inr S0 \<and> reach S0 S1 \<and> live (sy_kernel S1) 0
     \<and> descriptor_typed (sy_kernel S1) 0 \<and> t_state (k_tasks (sy_kernel S1) 0) = RUNNING"
proof -
  from ex_one_round obtain S0 S1 where s: "boot ex_system 0 0 0x90000 0xA0000 = Inr S0" "reach S0 S1"
    "live (sy_kernel S1) 0" "t_state (k_tasks (sy_kernel S1) 0) = RUNNING" by blast
  from reachable_kernel_is_typed [OF ex_fresh s(1,2)] s show ?thesis unfolding kernel_typed_def by blast
qed

text \<open>C10. A task goes on where it trapped: after the round of its trap, and however many rounds of other tasks, the task is
  live, its saved registers, stack pointer, status and program counter are those of the trap, and it starts with them, but
  for a result in the first register.\<close>

theorem task_resumes_where_it_trapped:
  assumes "system_inv S" and "schedule (sy_kernel S) = Inr (K, Some t)" and "well_behaved S tr"
    and "\<not> exits S tr" and "kmain_step S tr = Inr (S1, True)" and "others_run t S1 S2"
  shows "live (sy_kernel S2) t \<and> saved_context (k_tasks (sy_kernel S2) t) = trap_context tr
    \<and> saved_context (pass_result (k_tasks (sy_kernel S2) t))
      = (if t_should_pass_result (k_tasks (sy_kernel S2) t)
         then ((tr_x tr)(0 := t_result (k_tasks (sy_kernel S2) t)), snd (trap_context tr)) else trap_context tr)"
  by (rule resumed_context [OF assms])

theorem task_resumes_where_it_trapped_witness:
  "\<exists>S0 S1 S2. boot ex_system 0 0 0x90000 0xA0000 = Inr S0
     \<and> kmain_step S0 (ex_trap 0x54000015 ((\<lambda>_. 0)(0 := 1, 19 := 77)) (\<lambda>_. 0)) = Inr (S1, True)
     \<and> others_run 0 S1 S2 \<and> t_state (k_tasks (sy_kernel S2) 0) = WATIREPLY \<and> t_x (k_tasks (sy_kernel S2) 0) 19 = 77"
proof -
  let ?x = "(\<lambda>_. 0)(0 := 1, 19 := 77) :: nat \<Rightarrow> u64"
  let ?tr = "ex_trap 0x54000015 ?x (\<lambda>_. 0)"
  have to: "ucast (?x 0) = (1 :: i32)" by simp
  from ex_exchange [where x = ?x and m = "\<lambda>_. 0", OF to] obtain S0 K0 S1 S2 where
    s: "boot ex_system 0 0 0x90000 0xA0000 = Inr S0" "system_inv S0" "schedule (sy_kernel S0) = Inr (K0, Some 0)"
      "svc_call S0 ?tr H_send" "kmain_step S0 ?tr = Inr (S1, True)" "others_run 0 S1 S2"
      "t_state (k_tasks (sy_kernel S2) 0) = WATIREPLY" by blast
  have "well_behaved S0 ?tr" "\<not> exits S0 ?tr" using svc_well_behaved [OF s(4)] svc_stays [OF s(4)] by simp_all
  from task_resumes_where_it_trapped [OF s(2,3) this s(5,6)] have "t_x (k_tasks (sy_kernel S2) 0) = ?x"
    by (simp add: saved_context_def trap_context_def ex_trap_def)
  with s show ?thesis by (intro exI [of _ S0] exI [of _ S1] exI [of _ S2]) simp
qed

text \<open>C11. But an interrupted task does not: nothing clears the mark that a result is to be passed, so a task that ever made
  a call with a result and is interrupted goes on with that old result in its first register, whatever it held.\<close>

theorem interrupted_task_loses_register:
  assumes "system_inv S" and "schedule (sy_kernel S) = Inr (K, Some t)" and "t_should_pass_result (k_tasks (sy_kernel S) t)"
    and "tr_exc tr = IRQ" and "well_behaved S tr" and "kmain_step S tr = Inr (S1, True)"
  shows "t_x (k_tasks (sy_kernel S1) t) = tr_x tr
    \<and> t_x (pass_result (k_tasks (sy_kernel S1) t)) = (tr_x tr)(0 := t_result (k_tasks (sy_kernel S) t))"
proof -
  have "\<not> exits S tr" using assms(4) by (simp add: exits_def)
  from resumed_context [OF assms(1,2,5) this assms(6) others_start] interrupted_result [OF assms(1,2,4,6)] assms(3)
  show ?thesis by (simp add: saved_context_def trap_context_def passed_def)
qed

theorem interrupted_task_loses_register_witness:
  "\<exists>S S1. kmain_step S (ex_tick ((\<lambda>_. 0)(0 := 5))) = Inr (S1, True) \<and> t_x (k_tasks (sy_kernel S1) 0) 0 = 5
     \<and> t_x (pass_result (k_tasks (sy_kernel S1) 0)) 0 = 0"
proof -
  let ?tr = "ex_tick ((\<lambda>_. 0)(0 := 5))"
  obtain S0 where "booted S0 ex_A0" using ex_booted by blast
  from ex_tid_round [OF this, of "\<lambda>_. 0" "\<lambda>_. 0"] obtain S where
    b: "booted S ex_A1" and p: "passed (k_tasks (sy_kernel S) 0) = (True, 0)" by blast
  then have A: "krel (sy_kernel S) ex_A1" "ainv ex_A1" by (simp_all add: booted_def)
  from schedule_refine [OF A] ex_schedule_1 obtain K where K: "schedule (sy_kernel S) = Inr (K, Some 0)" by auto
  note wb = ex_tick_behaves [OF b, of "(\<lambda>_. 0)(0 := 5)"]
  from kmain_step_ok [OF booted_inv [OF b] wb] K obtain S1 where s1: "kmain_step S ?tr = Inr (S1, True)"
    by (auto simp: kmain_step_def bindE_eq_Inr_iff)
  have f: "t_should_pass_result (k_tasks (sy_kernel S) 0)" "tr_exc ?tr = IRQ" using p by (simp_all add: passed_def ex_tick_def)
  from interrupted_task_loses_register [OF booted_inv [OF b] K f wb s1] s1 p show ?thesis
    by (intro exI [of _ S] exI [of _ S1]) (simp add: passed_def ex_tick_def ex_trap_def)
qed

section \<open>Whole programs\<close>

text \<open>C3. The kernel runs programs as the abstract machine of \<open>User_Machine\<close> does, in which messages are lists of bytes and
  there are no registers, addresses or buffers: from a booted system, whatever code the tasks have, when the machine makes
  \<open>n\<close> rounds and prints \<open>ls\<close>, the kernel has a run of \<open>n\<close> rounds in which every trap is the call that the program of the
  picked task makes, and every such run prints \<open>ls\<close> and leaves every task with what the machine gives it.  The rounds are fewer
  than 2^32, and the counter of the timer is below 2^63 at boot.  A timer interrupt is taken only where a program stands by
  (\<open>Standby\<close>, as the idle task does, or any task at a point at which nothing is live in the register that an interrupt
  loses, see C11); a task that is interrupted elsewhere is not in these runs.\<close>

theorem kernel_runs_programs:
  assumes "fresh_system S" and "boot S chi clo u i = Inr S0" and "unat (sys_timer_full_count chi clo) < 2 ^ 63"
    and "u_run code n [] (boot_machine u i) = Some (ls, M)" and "n < 2 ^ 32"
  shows "(\<exists>S' Us'. user_run code S0 start_users n ls S' Us')
    \<and> (\<forall>out S' Us'. user_run code S0 start_users n out S' Us' \<longrightarrow> out = ls \<and> machine_rel Us' (sy_kernel S') M)"
  using run_there [OF assms] run_machine [OF _ _ _ assms(4)] booted_machine [OF assms(1,2)] by blast

theorem kernel_runs_programs_witness:
  "\<exists>S0 S' Us'. boot ex_system 0 0 0x90000 0xA0000 = Inr S0
     \<and> user_run (ex_code (\<lambda>_. test_syscall_inside_function)) S0 start_users 9
         [(0, (ln ''Start program'', [])), (0, (ln ''test tid&pid: %d'', [A_int 9801])), (0, (ln ''Finishing program'', []))] S' Us'"
proof -
  obtain S0 where b: "boot ex_system 0 0 0x90000 0xA0000 = Inr S0" using ex_boots by blast
  have "ex_code (\<lambda>_. test_syscall_inside_function) 0x90000 = test_syscall_inside_function" by (simp add: ex_code_def)
  from syscall_run [of "ex_code (\<lambda>_. test_syscall_inside_function)", OF this, of "0xA0000"] obtain M where m: "u_run (ex_code (\<lambda>_. test_syscall_inside_function)) 9 []
      (boot_machine 0x90000 0xA0000) = Some ([(0, (ln ''Start program'', [])), (0, (ln ''test tid&pid: %d'', [A_int 9801])),
        (0, (ln ''Finishing program'', []))], M)" by blast
  from kernel_runs_programs [OF ex_fresh b _ m] b show ?thesis by (simp add: sys_timer_full_count_def)
qed

text \<open>C4. The program that the kernel is configured to start prints what \<^verbatim>\<open>README.md\<close> says: in every run from a booted
  system in which the tasks make the calls of their programs and the ticks of the timer come in the idle task's standby only, the
  lines are, in this order, the 52 lines of the section \<^verbatim>\<open>Output\<close> as far as the run has come, and all of them after
  3177 rounds; whatever the addresses of the image, the contents of uninitialised memory and the readings of the timer are.  (A tick in
  the midst of a print interrupts it; \<^verbatim>\<open>README.md\<close> says under \<^verbatim>\<open>Limitations\<close> that such a print might
  look corrupted.  Runs with such ticks are not in the claim.)  Of the
  idle task's reports only the percentages are left open, which are measured.  The lines of the servers and the clients are
  complete after 1237 rounds, and nothing is added to them later.\<close>

theorem program_prints_readme:
  assumes "fresh_system S" and "boot S chi clo u i = Inr S0" and "linked code I u i"
    and "user_run code S0 start_users n out S' Us'"
  shows "list_all2 shows_line (take (length out) readme) (take (length readme) out)
    \<and> (3177 \<le> n \<longrightarrow> length readme \<le> length out)
    \<and> prefix (printed out) (map (\<lambda>s. Inr (ascii (ln s))) readme_lines)
    \<and> (1237 \<le> n \<longrightarrow> printed out = map (\<lambda>s. Inr (ascii (ln s))) readme_lines)"
  using program_output [OF assms] program_readme [OF assms] unfolding readme_texts_def by blast

theorem program_prints_readme_witness:
  "\<exists>S0 out S' Us'. user_run (ex_code k3_first_user_task) S0 start_users 3177 out S' Us'
     \<and> list_all2 shows_line readme (take 52 out) \<and> printed out = map (\<lambda>s. Inr (ascii (ln s))) readme_lines"
proof -
  obtain S0 out S' Us' where r: "boot ex_system 0 0 0x90000 0xA0000 = Inr S0"
    "user_run (ex_code k3_first_user_task) S0 start_users 3177 out S' Us'" using ex_program_run by blast
  have "length readme = 52" by (simp add: readme_def)
  with program_prints_readme [OF ex_fresh r(1) ex_linked r(2)] r(2) show ?thesis by fastforce
qed

text \<open>C5. And it goes on: when the idle task's readings of the timer do not run backwards and at least 100 microseconds pass between
  two reports (\<open>idle_paced\<close>: otherwise a report divides by zero), the
  program has runs of any number of rounds below 2^31, so nothing in it or in the kernel ever stops it; in particular it gets to
  the end of the output of \<^verbatim>\<open>README.md\<close>, when all clients have registered, been answered, delayed as often as
  they were told and left, and the idle task has made its report before the 600th tick.\<close>

theorem program_keeps_running:
  assumes "fresh_system S" and "boot S chi clo u i = Inr S0" and "linked code I u i"
    and "unat (sys_timer_full_count chi clo) < 2 ^ 63" and "idle_paced I n" and "n < 2 ^ 31"
  shows "\<exists>out S' Us'. user_run code S0 start_users n out S' Us'
    \<and> (3177 \<le> n \<longrightarrow> list_all2 shows_line readme (take (length readme) out))"
proof -
  from program_goes_on [OF assms] obtain out S' Us' where r: "user_run code S0 start_users n out S' Us'" by blast
  from program_readme [OF assms(1-3) r] have "3177 \<le> n \<longrightarrow> list_all2 shows_line readme (take (length readme) out)" by auto
  with r show ?thesis by blast
qed

theorem program_keeps_running_witness:
  "\<exists>S0 out S' Us'. boot ex_system 0 0 0x90000 0xA0000 = Inr S0
     \<and> user_run (ex_code k3_first_user_task) S0 start_users 3177 out S' Us' \<and> list_all2 shows_line readme (take 52 out)"
proof -
  obtain S0 where b: "boot ex_system 0 0 0x90000 0xA0000 = Inr S0" using ex_boots by blast
  have z: "unat (sys_timer_full_count 0 0) < 2 ^ 63" by (simp add: sys_timer_full_count_def)
  have "length readme = 52" by (simp add: readme_def)
  with program_keeps_running [OF ex_fresh b ex_linked z ex_paced] b show ?thesis by auto
qed

text \<open>C6. Tasks run by their priorities.  When the kernel is configured with \<^verbatim>\<open>k1_user_tasks.c\<close> instead, a task of a
  higher priority than its creator runs to its end before the creation returns, one of a lower priority only when the creator
  has left, the higher one first: within 29 rounds exactly the lines \<open>k1_output\<close> are printed, each by its task, and this run exists.\<close>

theorem k1_tasks_run_by_priority:
  assumes "fresh_system S" and "boot S chi clo u i = Inr S0" and "unat (sys_timer_full_count chi clo) < 2 ^ 63"
    and "code u = k1_first_user_task I" and "code (im_k1_demo I) = k1_demo_user_task"
  shows "(\<exists>out S' Us'. user_run code S0 start_users 29 out S' Us'
        \<and> map (apsnd line_text) out = map (apsnd (\<lambda>s. Inr (ascii (line_break s)))) k1_output)
    \<and> (\<forall>n out S' Us'. user_run code S0 start_users n out S' Us' \<and> 29 \<le> n
        \<longrightarrow> prefix (map (apsnd (\<lambda>s. Inr (ascii (line_break s)))) k1_output) (map (apsnd line_text) out))"
  using k1_demo_prints [OF assms(1,2,4,5)] assms(3) by blast

theorem k1_tasks_run_by_priority_witness:
  "\<exists>S0 out S' Us'. boot ex_system 0 0 0x90000 0xA0000 = Inr S0
     \<and> user_run (ex_code (\<lambda>I. k1_first_user_task I)) S0 start_users 29 out S' Us' \<and> length out = 13"
proof -
  obtain S0 where b: "boot ex_system 0 0 0x90000 0xA0000 = Inr S0" using ex_boots by blast
  have z: "unat (sys_timer_full_count 0 0) < 2 ^ 63" by (simp add: sys_timer_full_count_def)
  have "length k1_output = 13" by (simp add: k1_output_def)
  with k1_tasks_run_by_priority [OF ex_fresh b z ex_k1_code] b show ?thesis by (metis length_map)
qed

section \<open>Message passing\<close>

text \<open>C14. Sending to a task that waits in Receive: the first bytes of the message (as many as
  both lengths allow) appear in the receiver's buffer, the sender's number is stored at the
  receiver's pointer, the receiver becomes ready with that length as its result, the sender
  blocks until the reply, and the invariant of the kernel is kept.\<close>

theorem send_delivers_message:
  assumes "kernel_inv K" and "caller K c" and "addressee K c = Inr (Some r)"
    and "t_state (k_tasks K r) = WAITRECEIVE"
    and "n = nat (min (sint (ucast (t_x (k_tasks K c) 2) :: i32)) (sint (ucast (t_x (k_tasks K r) 2) :: i32)))"
    and "0 \<le> sint (ucast (t_x (k_tasks K c) 2) :: i32)" "0 \<le> sint (ucast (t_x (k_tasks K r) 2) :: i32)"
    and "clean_transfer (t_x (k_tasks K r) 0) (t_x (k_tasks K r) 1) (t_x (k_tasks K c) 1) n"
  shows "\<exists>K'. sys_send K = Inr K' \<and> kernel_inv K'
    \<and> read_bytes (k_mem K') (t_x (k_tasks K r) 1) n = read_bytes (k_mem K) (t_x (k_tasks K c) 1) n
    \<and> load_int (k_mem K') (t_x (k_tasks K r) 0) = word_of_nat c
    \<and> t_state (k_tasks K' r) = READY \<and> t_result (k_tasks K' r) = word_of_nat n
    \<and> t_state (k_tasks K' c) = WATIREPLY"
  by (rule send_bytes [OF assms])

theorem send_delivers_message_witness:
  "\<exists>K K'. sys_send K = Inr K' \<and> read_bytes (k_mem K) 0x200 2 = [104, 105]
     \<and> read_bytes (k_mem K') 0x100 2 = [104, 105] \<and> load_int (k_mem K') 0x300 = 1
     \<and> t_state (k_tasks K' 0) = READY \<and> t_result (k_tasks K' 0) = 2 \<and> t_state (k_tasks K' 1) = WATIREPLY"
proof -
  let ?x0 = "(\<lambda>_. 0)(0 := 0x300, 1 := 0x100, 2 := 16) :: nat \<Rightarrow> u64"
  let ?x1 = "(\<lambda>_. 0)(0 := 0, 1 := 0x200, 2 := 2) :: nat \<Rightarrow> u64"
  let ?m = "(\<lambda>_. 0)(0x200 := 104, 0x201 := 105) :: mem"
  from ex_waiting [of ?x0 ?x1 ?m] obtain K where k: "kernel_inv K" "caller K 1" "t_state (k_tasks K 0) = WAITRECEIVE"
    "t_x (k_tasks K 0) = ?x0" "t_x (k_tasks K 1) = ?x1" "k_mem K = ?m" "addressee K 1 = Inr (Some 0)" by auto
  have two: "(2::nat) = nat (min (sint (ucast (t_x (k_tasks K 1) 2) :: i32)) (sint (ucast (t_x (k_tasks K 0) 2) :: i32)))"
    by (simp add: k(4,5) del: One_nat_def)
  have clean: "clean_transfer (t_x (k_tasks K 0) 0) (t_x (k_tasks K 0) 1) (t_x (k_tasks K 1) 1) 2"
    unfolding k(4,5) by (simp add: ex_clean)
  from send_delivers_message [OF k(1,2,7,3) two _ _ clean] obtain K' where
    "sys_send K = Inr K'" "read_bytes (k_mem K') 0x100 2 = read_bytes (k_mem K) 0x200 2" "load_int (k_mem K') 0x300 = 1"
    "t_state (k_tasks K' 0) = READY" "t_result (k_tasks K' 0) = 2" "t_state (k_tasks K' 1) = WATIREPLY"
    unfolding k(4,5) by auto
  moreover have "read_bytes (k_mem K) 0x200 2 = [104, 105]" unfolding k(6) by (simp add: read_bytes_def numeral_eq_Suc)
  ultimately show ?thesis by auto
qed

text \<open>C15. Receiving when senders wait: the oldest one is taken from the queue, its number and as
  many bytes of its message as both lengths allow are copied (a byte loop over the memory
  after the number was stored), the receiver goes on with the length as its result, and the
  sender now waits for the reply; the other senders keep their order.\<close>

theorem receive_takes_oldest_sender:
  assumes "kernel_inv K" and "caller K c" and "waiting_senders K c = e # es"
  shows "\<exists>K' s len. sys_receive K = Inr K' \<and> kernel_inv K' \<and> e = word_of_nat s
    \<and> t_state (k_tasks K s) = WATISEND
    \<and> len = exchange_length (ucast (t_x (k_tasks K s) 2)) (ucast (t_x (k_tasks K c) 2))
    \<and> k_mem K' = memcpy (store_int (k_mem K) (t_x (k_tasks K c) 0) (word_of_nat s))
         (t_x (k_tasks K c) 1) (t_x (k_tasks K s) 1) (scast len)
    \<and> t_result (k_tasks K' c) = scast len \<and> t_should_pass_result (k_tasks K' c)
    \<and> t_state (k_tasks K' c) = RUNNING \<and> t_state (k_tasks K' s) = WATIREPLY \<and> waiting_senders K' c = es"
  by (rule receive_oldest [OF assms])

theorem receive_takes_oldest_sender_witness:
  "\<exists>K K'. waiting_senders K 1 = [0] \<and> sys_receive K = Inr K' \<and> waiting_senders K' 1 = []
     \<and> t_state (k_tasks K' 1) = RUNNING"
proof -
  from ex_sent obtain K where k: "kernel_inv K" "caller K 1" "waiting_senders K 1 = [0]" by blast
  from receive_takes_oldest_sender [OF k] obtain K' where
    "sys_receive K = Inr K'" "waiting_senders K' 1 = []" "t_state (k_tasks K' 1) = RUNNING" by blast
  with k(3) show ?thesis by blast
qed

text \<open>C16. Replying to a task that waits for the reply: the bytes of the reply (as many as both
  lengths allow) appear in its reply buffer, it becomes ready with that length as the result
  of its Send, and the replying task goes on with the same result.\<close>

theorem reply_delivers_and_wakes:
  assumes "kernel_inv K" and "caller K c" and "addressee K c = Inr (Some s)"
    and "t_state (k_tasks K s) = WATIREPLY"
    and "n = nat (min (sint (ucast (t_x (k_tasks K c) 2) :: i32)) (sint (ucast (t_x (k_tasks K s) 4) :: i32)))"
    and "0 \<le> sint (ucast (t_x (k_tasks K c) 2) :: i32)" "0 \<le> sint (ucast (t_x (k_tasks K s) 4) :: i32)"
    and "regions_disjoint (t_x (k_tasks K s) 3) n (t_x (k_tasks K c) 1) n"
  shows "\<exists>K'. sys_reply K = Inr K' \<and> kernel_inv K'
    \<and> read_bytes (k_mem K') (t_x (k_tasks K s) 3) n = read_bytes (k_mem K) (t_x (k_tasks K c) 1) n
    \<and> t_state (k_tasks K' s) = READY \<and> t_result (k_tasks K' s) = word_of_nat n
    \<and> t_state (k_tasks K' c) = RUNNING \<and> t_result (k_tasks K' c) = word_of_nat n
    \<and> t_should_pass_result (k_tasks K' s) \<and> t_should_pass_result (k_tasks K' c)"
  by (rule reply_bytes [OF assms])

theorem reply_delivers_and_wakes_witness:
  "\<exists>K K'. sys_reply K = Inr K' \<and> read_bytes (k_mem K') 0x100 2 = read_bytes (k_mem K) 0x200 2
     \<and> k_mem K 0x201 = 105 \<and> t_state (k_tasks K' 0) = READY \<and> t_result (k_tasks K' 0) = 2"
proof -
  let ?x0 = "(\<lambda>_. 0)(0 := 1, 3 := 0x100, 4 := 2) :: nat \<Rightarrow> u64"
  let ?x1 = "(\<lambda>_. 0)(0 := 0, 1 := 0x200, 2 := 5) :: nat \<Rightarrow> u64"
  let ?m = "(\<lambda>_. 0)(0x200 := 104, 0x201 := 105) :: mem"
  from ex_replying [of ?x1 ?x0 ?m] obtain K where k: "kernel_inv K" "caller K 1" "t_state (k_tasks K 0) = WATIREPLY"
    "addressee K 1 = Inr (Some 0)" "t_x (k_tasks K 0) = ?x0" "t_x (k_tasks K 1) = ?x1" "k_mem K = ?m" by auto
  have two: "(2::nat) = nat (min (sint (ucast (t_x (k_tasks K 1) 2) :: i32)) (sint (ucast (t_x (k_tasks K 0) 4) :: i32)))"
    by (simp add: k(5,6) del: One_nat_def)
  have clean: "regions_disjoint (t_x (k_tasks K 0) 3) 2 (t_x (k_tasks K 1) 1) 2"
    unfolding k(5,6) by (simp add: regions_disjoint_below)
  from reply_delivers_and_wakes [OF k(1,2,4,3) two _ _ clean] obtain K' where
    "sys_reply K = Inr K'" "read_bytes (k_mem K') 0x100 2 = read_bytes (k_mem K) 0x200 2"
    "t_state (k_tasks K' 0) = READY" "t_result (k_tasks K' 0) = 2"
    unfolding k(5,6) by auto
  moreover have "k_mem K 0x201 = 105" by (simp add: k(7))
  ultimately show ?thesis by auto
qed

text \<open>C17. The whole exchange as the sender sees it, over the rounds of the main loop: it traps with \<^verbatim>\<open>Send\<close>, any rounds of
  other tasks follow, one of which has taken the message, and a task replies to it.  Then the first bytes of the reply, as many
  as both lengths allow, are in the buffer that the sender named in its call, the sender is ready, and it goes on with the
  registers of its call and the length in the first one.\<close>

theorem reply_completes_send:
  assumes "system_inv S0" and "schedule (sy_kernel S0) = Inr (K0, Some c)" and "svc_call S0 tr0 H_send"
    and "kmain_step S0 tr0 = Inr (S1, True)" and "others_run c S1 S2"
    and "schedule (sy_kernel S2) = Inr (K2, Some r)" and "svc_call S2 tr H_reply"
    and "ucast (tr_x tr 0) = (word_of_nat c :: i32)" and "t_state (k_tasks (sy_kernel S2) c) = WATIREPLY"
    and "n = nat (min (sint (ucast (tr_x tr 2) :: i32)) (sint (ucast (tr_x tr0 4) :: i32)))"
    and "0 \<le> sint (ucast (tr_x tr 2) :: i32)" "0 \<le> sint (ucast (tr_x tr0 4) :: i32)"
    and "regions_disjoint (tr_x tr0 3) n (tr_x tr 1) n"
  shows "\<exists>S3. kmain_step S2 tr = Inr (S3, True) \<and> system_inv S3
    \<and> read_bytes (k_mem (sy_kernel S3)) (tr_x tr0 3) n = read_bytes (tr_mem tr) (tr_x tr 1) n
    \<and> t_state (k_tasks (sy_kernel S3) c) = READY
    \<and> saved_context (pass_result (k_tasks (sy_kernel S3) c)) = ((tr_x tr0)(0 := word_of_nat n), snd (trap_context tr0))"
  by (rule send_completed [OF assms])

theorem reply_completes_send_witness:
  "\<exists>S0 S1 S2 S3. boot ex_system 0 0 0x90000 0xA0000 = Inr S0
     \<and> kmain_step S0 (ex_trap 0x54000015 ((\<lambda>_. 0)(0 := 1, 3 := 0x100, 4 := 2)) (\<lambda>_. 0)) = Inr (S1, True) \<and> others_run 0 S1 S2
     \<and> kmain_step S2 (ex_trap 0x54000017 ((\<lambda>_. 0)(0 := 0, 1 := 0x200, 2 := 5)) ((\<lambda>_. 0)(0x200 := 104, 0x201 := 105))) = Inr (S3, True)
     \<and> read_bytes (k_mem (sy_kernel S3)) 0x100 2 = [104, 105] \<and> t_x (pass_result (k_tasks (sy_kernel S3) 0)) 0 = 2"
proof -
  let ?x0 = "(\<lambda>_. 0)(0 := 1, 3 := 0x100, 4 := 2) :: nat \<Rightarrow> u64"
  let ?x1 = "(\<lambda>_. 0)(0 := 0, 1 := 0x200, 2 := 5) :: nat \<Rightarrow> u64"
  let ?m = "(\<lambda>_. 0)(0x200 := 104, 0x201 := 105) :: mem"
  let ?ts = "ex_trap 0x54000015 ?x0 (\<lambda>_. 0)" and ?tr = "ex_trap 0x54000017 ?x1 ?m"
  have to: "ucast (?x0 0) = (1 :: i32)" by simp
  from ex_exchange [where x = ?x0 and m = "\<lambda>_. 0" and y = ?x1 and m' = ?m, OF to] obtain S0 K0 S1 S2 K2 where
    s: "boot ex_system 0 0 0x90000 0xA0000 = Inr S0" "system_inv S0" "schedule (sy_kernel S0) = Inr (K0, Some 0)"
      "svc_call S0 ?ts H_send" "kmain_step S0 ?ts = Inr (S1, True)" "others_run 0 S1 S2"
      "schedule (sy_kernel S2) = Inr (K2, Some 1)" "svc_call S2 ?tr H_reply" "t_state (k_tasks (sy_kernel S2) 0) = WATIREPLY"
    by blast
  have x: "tr_x ?ts = ?x0" "tr_x ?tr = ?x1" "tr_mem ?tr = ?m" by (simp_all add: ex_trap_def)
  have n: "(2 :: nat) = nat (min (sint (ucast (tr_x ?tr 2) :: i32)) (sint (ucast (tr_x ?ts 4) :: i32)))" unfolding x by simp
  have clean: "regions_disjoint (tr_x ?ts 3) 2 (tr_x ?tr 1) 2" unfolding x by (simp add: regions_disjoint_below)
  have c: "ucast (tr_x ?tr 0) = (word_of_nat 0 :: i32)" "0 \<le> sint (ucast (tr_x ?tr 2) :: i32)" "0 \<le> sint (ucast (tr_x ?ts 4) :: i32)"
    unfolding x by simp_all
  have b: "read_bytes (tr_mem ?tr) (tr_x ?tr 1) 2 = [104, 105]"
    unfolding x by (simp add: read_bytes_def upt_rec numeral_2_eq_2)
  from reply_completes_send [OF s(2-8) c(1) s(9) n c(2,3) clean] obtain S3 where
    s3: "kmain_step S2 ?tr = Inr (S3, True)" "read_bytes (k_mem (sy_kernel S3)) (tr_x ?ts 3) 2 = read_bytes (tr_mem ?tr) (tr_x ?tr 1) 2"
      "saved_context (pass_result (k_tasks (sy_kernel S3) 0)) = ((tr_x ?ts)(0 := word_of_nat 2), snd (trap_context ?ts))"
    by blast
  have "read_bytes (k_mem (sy_kernel S3)) 0x100 2 = [104, 105]" using s3(2) unfolding b x(1) by simp
  moreover from s3(3) have "t_x (pass_result (k_tasks (sy_kernel S3) 0)) 0 = 2" by (simp add: saved_context_def)
  ultimately show ?thesis using s(1,5,6) s3(1) by blast
qed

text \<open>C18. Sending to a task that does not wait in Receive: while fewer than 63 senders wait, the
  caller joins the end of the receiver's queue and blocks, and no memory changes; when 63
  wait, nothing changes but the caller's result, which is -2.\<close>

theorem send_queues_or_refuses:
  assumes "kernel_inv K" and "caller K c" and "addressee K c = Inr (Some r)"
    and "t_state (k_tasks K r) \<noteq> WAITRECEIVE"
  shows "(length (waiting_senders K r) < 63 \<longrightarrow>
      (\<exists>K'. sys_send K = Inr K' \<and> kernel_inv K' \<and> k_mem K' = k_mem K \<and> t_state (k_tasks K' c) = WATISEND
         \<and> waiting_senders K' r = waiting_senders K r @ [word_of_nat c]))
    \<and> (length (waiting_senders K r) = 63 \<longrightarrow> sys_send K = Inr (give_result K c (- 2)))"
  using send_queues [OF assms] send_full [OF assms] by blast

theorem send_queues_or_refuses_witness:
  "\<exists>K K'. waiting_senders K 1 = [] \<and> sys_send K = Inr K' \<and> waiting_senders K' 1 = [0] \<and> t_state (k_tasks K' 0) = WATISEND"
proof -
  from ex_first_runs [of "\<lambda>_. 1"] obtain K where k: "kernel_inv K" "caller K 0" "t_state (k_tasks K 1) = READY"
    "waiting_senders K 1 = []" "addressee K 0 = Inr (Some 1)" by auto
  have "t_state (k_tasks K 1) \<noteq> WAITRECEIVE" by (simp only: k(3)) simp
  from send_queues_or_refuses [OF k(1,2,5) this] k(4) obtain K' where
    "sys_send K = Inr K'" "waiting_senders K' 1 = [0]" "t_state (k_tasks K' 0) = WATISEND" by auto
  with k(4) show ?thesis by blast
qed

text \<open>C19. Two calls stop the whole kernel at a failed assertion: a Reply to a task that is ready
  (it does not wait for a reply), and awaiting an event number below 0 or from 1022 on.\<close>

theorem calls_that_halt_the_kernel:
  assumes "kernel_inv K" and "caller K c"
  shows "(addressee K c = Inr (Some s) \<and> t_state (k_tasks K s) = READY \<longrightarrow> sys_reply K = Inl Assertion)
    \<and> (sint (ucast (t_x (k_tasks K c) 0) :: i32) < 0 \<or> 1022 \<le> sint (ucast (t_x (k_tasks K c) 0) :: i32)
        \<longrightarrow> sys_await_event K = Inl Assertion)"
  using reply_to_ready_halts [OF assms] await_unknown_halts [OF assms] by blast

theorem calls_that_halt_the_kernel_witness:
  "\<exists>K K'. kernel_inv K \<and> caller K 0 \<and> sys_reply K = Inl Assertion \<and> kernel_inv K' \<and> sys_await_event K' = Inl Assertion"
proof -
  from ex_first_runs [of "\<lambda>_. 1"] obtain K where k: "kernel_inv K" "caller K 0" "addressee K 0 = Inr (Some 1)"
    "t_state (k_tasks K 1) = READY" by auto
  from ex_first_runs [of "\<lambda>_. 2000"] obtain K' where k': "kernel_inv K'" "caller K' 0" "t_x (k_tasks K' 0) = (\<lambda>_. 2000)" by auto
  have "1022 \<le> sint (ucast (t_x (k_tasks K' 0) 0) :: i32)" by (simp add: k'(3))
  with calls_that_halt_the_kernel [OF k(1,2), of 1] calls_that_halt_the_kernel [OF k'(1,2)] k k'(1,2) show ?thesis by blast
qed

text \<open>C2. The kernel refines its abstract specification: from a kernel that represents an abstract
  state which satisfies the invariant, with a running task, each of the nine system calls, the scheduler and the waking of
  a task that awaits an interrupt succeed, with a kernel that represents the result of the abstract operation (a \<^verbatim>\<open>Reply\<close>
  where its addressee waits for one, is the caller itself or does not exist, \<^verbatim>\<open>AwaitEvent\<close> where the number of the event is in range).
  \<^verbatim>\<open>Yield\<close>, \<^verbatim>\<open>MyTid\<close> and \<^verbatim>\<open>MyParentTid\<close> change nothing in it; the latter two pass the number
  and the parent's number as the result.\<close>

theorem kernel_refines_specification:
  assumes "krel K A" and "ainv A" and "running A c"
  shows "(\<exists>K'. sys_send K = Inr K' \<and> krel K' (a_send A c (send_target K A c)))
    \<and> (\<exists>K'. sys_receive K = Inr K' \<and> krel K' (a_receive A c))
    \<and> (reply_target_ok A (send_target K A c) \<longrightarrow> (\<exists>K'. sys_reply K = Inr K' \<and> krel K' (a_reply A (send_target K A c))))
    \<and> (\<exists>K'. sys_create K = Inr K' \<and> krel K' (fst (a_create A (priority_index (clamp_priority (ucast (t_x (k_tasks K c) 0)))))))
    \<and> (\<exists>K'. sys_exit K = Inr K' \<and> krel K' (a_exit A c))
    \<and> (0 \<le> e \<and> e < 1022 \<and> e = sint (ucast (t_x (k_tasks K c) 0) :: i32)
         \<longrightarrow> (\<exists>K'. sys_await_event K = Inr K' \<and> krel K' (a_await A c (nat e))))
    \<and> (\<exists>K'. sys_yield K = Inr K' \<and> krel K' A)
    \<and> (\<exists>K'. sys_tid K = Inr K' \<and> krel K' A \<and> passed (k_tasks K' c) = (True, word_of_nat c))
    \<and> (\<exists>K'. sys_parent_tid K = Inr K' \<and> krel K' A \<and> passed (k_tasks K' c) = (True, scast (t_parent_tid (k_tasks K c))))
    \<and> (\<exists>K'. schedule K = Inr (K', snd (a_schedule A)) \<and> krel K' (fst (a_schedule A)))
    \<and> (0 \<le> i \<and> i < 1022 \<longrightarrow> (\<exists>K'. wake_up_irq_blocked_tasks K i = Inr K' \<and> krel K' (a_wake A (nat i))))"
  using call_results [OF assms] sys_send_refine [OF assms] sys_receive_refine [OF assms] sys_reply_refine [OF assms]
    sys_create_refine [OF assms] sys_await_event_refine [OF assms] schedule_refine [OF assms(1,2)]
    wake_refine [OF assms(1,2), of i] by blast

theorem kernel_refines_specification_witness:
  "\<exists>K A K' K''. krel K A \<and> running A 0 \<and> sys_receive K = Inr K' \<and> krel K' (a_receive A 0)
     \<and> sys_await_event K = Inr K'' \<and> krel K'' (a_await A 0 97)"
proof -
  from ex_run_0 [of "\<lambda>_. 97" "\<lambda>_. 0"] obtain K where k: "krel K ex_A1" "ainv ex_A1" "running ex_A1 0" "t_x (k_tasks K 0) = (\<lambda>_. 97)"
    by blast
  then have "97 = sint (ucast (t_x (k_tasks K 0) 0) :: i32)" by simp
  with kernel_refines_specification [OF k(1-3), of 97 0] k(1,3) show ?thesis by auto
qed

text \<open>C20. Creating a task: while fewer than 64 tasks have ever been created, the new task gets the
  next number, which is the caller's result, is ready, and has the priority that was asked for, brought into the
  range from 0 to 9 (0 for a lower one, 9 for a higher one); after the 64th creation every further one returns -1, however many
  tasks have exited.\<close>

theorem create_numbers_tasks:
  assumes "kernel_inv K" and "caller K c"
  shows "\<exists>K'. sys_create K = Inr K' \<and> kernel_inv K'
    \<and> (if unat (k_task_id_cnt K) < 64
       then t_result (k_tasks K' c) = ucast (k_task_id_cnt K) \<and> k_task_id_cnt K' = k_task_id_cnt K + 1
         \<and> t_state (k_tasks K' (unat (k_task_id_cnt K))) = READY
         \<and> sint (t_priority (k_tasks K' (unat (k_task_id_cnt K)))) = max 0 (min 9 (sint (ucast (t_x (k_tasks K c) 0) :: i32)))
       else t_result (k_tasks K' c) = - 1 \<and> k_task_id_cnt K' = k_task_id_cnt K)"
  using create_numbers [OF assms] unfolding sint_clamp_priority [symmetric] by (elim exE conjE) (auto split: if_splits)

theorem create_numbers_tasks_witness: "\<exists>K K'. caller K 0 \<and> sys_create K = Inr K' \<and> kernel_inv K'"
proof -
  from ex_first_runs [of "\<lambda>_. 3"] obtain K where k: "kernel_inv K" "caller K 0" by auto
  from create_numbers_tasks [OF k] k(2) show ?thesis by blast
qed

section \<open>The clock server\<close>

text \<open>C21. A tick: the server answers the notifier first, then exactly the waiting tasks whose
  wake-up time is the new time, in the order of the queue, each with the new time; it
  forgets them, keeps the others in order, and keeps its invariant (all that wait are in order of
  their times, and none of them is due).\<close>

theorem clock_tick_wakes_due:
  assumes "clock_inv S" and "cm_action msg = TICK"
  shows "\<exists>S'. clock_server_step S tid msg
      = Inr (S', (tid, msg) # map (\<lambda>e. (fst e, msg\<lparr>cm_ticks := cs_ticks S + 1\<rparr>)) (filter (due_at (cs_ticks S + 1)) (clock_waiting S)))
    \<and> clock_inv S' \<and> cs_ticks S' = cs_ticks S + 1
    \<and> clock_waiting S' = filter (\<lambda>e. \<not> due_at (cs_ticks S + 1) e) (clock_waiting S)"
  by (rule clock_tick_ok [OF assms])

theorem clock_tick_wakes_due_witness:
  "\<exists>S S'. clock_waiting S = [(4, 1)] \<and> clock_server_step S 9 \<lparr>cm_action = TICK, cm_ticks = 0\<rparr>
     = Inr (S', [(9, \<lparr>cm_action = TICK, cm_ticks = 0\<rparr>), (4, \<lparr>cm_action = TICK, cm_ticks = 1\<rparr>)]) \<and> clock_waiting S' = []"
proof -
  from ex_clock_one obtain S where s: "clock_inv S" "clock_waiting S = [(4, 1)]" "cs_ticks S = 0" by blast
  have "cm_action \<lparr>cm_action = TICK, cm_ticks = 0\<rparr> = TICK" by simp
  from clock_tick_wakes_due [OF s(1) this, of 9] s(2,3) show ?thesis by (auto simp: due_at_def)
qed

text \<open>C22. A task that asks to be woken at a later time is not answered but queued: behind all
  the waiting tasks with the same or an earlier time and before all with a later one, while
  fewer than 512 tasks wait.  A time that is not later is answered at once.\<close>

theorem clock_delay_queues_in_order:
  assumes "clock_inv S" and "length (clock_waiting S) < 512" and "cm_action msg = DELAY_UNTIL"
  shows "if cs_ticks S < cm_ticks msg
    then \<exists>S'. clock_server_step S tid msg = Inr (S', []) \<and> clock_inv S' \<and> cs_ticks S' = cs_ticks S
      \<and> clock_waiting S' = takeWhile (\<lambda>e. snd e \<le> cm_ticks msg) (clock_waiting S)
          @ (tid, cm_ticks msg) # dropWhile (\<lambda>e. snd e \<le> cm_ticks msg) (clock_waiting S)
    else clock_server_step S tid msg = Inr (S, [(tid, msg)])"
proof -
  have "clock_server_step S tid msg = clock_delay_until S tid msg" using assms(3) by (simp add: clock_server_step_def)
  then show ?thesis
    using clock_delay_ok [OF assms(1) _ assms(2), of msg tid] by (simp add: clock_delay_until_def not_less place_def)
qed

theorem clock_delay_queues_in_order_witness:
  "\<exists>S S'. clock_waiting S = [(4, 1)] \<and> clock_server_step S 6 \<lparr>cm_action = DELAY_UNTIL, cm_ticks = 1\<rparr> = Inr (S', [])
     \<and> clock_waiting S' = [(4, 1), (6, 1)]"
proof -
  from ex_clock_one obtain S where s: "clock_inv S" "clock_waiting S = [(4, 1)]" "cs_ticks S = 0" by blast
  have "length (clock_waiting S) < 512" "cm_action \<lparr>cm_action = DELAY_UNTIL, cm_ticks = 1\<rparr> = DELAY_UNTIL"
    using s(2) by simp_all
  from clock_delay_queues_in_order [OF s(1) this, of 6] s show ?thesis by auto
qed

text \<open>C23. Every delay ends: the server handles any sequence of messages that are not empty, as long as its pool has room
  for every task that has to wait (\<open>delays_fit\<close>: fewer than 512 tasks wait whenever one more has to; this is so when the waiting
  tasks and the delays of the sequence are at most 512, however many ticks come, \<open>few_delays_fit\<close>) and the counter of ticks does not
  wrap.  Its time is the number of ticks received, and every task that waited at the start or was made to wait by a
  message of the sequence has been answered with its own wake-up time if that time has come, and still waits otherwise.\<close>

theorem clock_delays_end:
  assumes "clock_inv S" and "delays_fit (cs_ticks S) (clock_waiting S) ms"
    and "\<forall>m\<in>set ms. nonempty m" and "unat (cs_ticks S) + tick_count ms < 2 ^ 32"
  shows "\<exists>S' rs. serve clock_server_step S ms = Inr (S', rs) \<and> clock_inv S'
    \<and> unat (cs_ticks S') = unat (cs_ticks S) + tick_count ms
    \<and> (\<forall>e\<in>set (clock_waiting S) \<union> set (delays_asked (cs_ticks S) ms).
         if snd e \<le> cs_ticks S' then answered rs e else e \<in> set (clock_waiting S'))"
  by (rule clock_run_ok [OF assms])

text \<open>A task waits already; another one delays for 600 ticks, and 600 ticks come.\<close>

theorem clock_delays_end_witness:
  "\<exists>S S' rs. clock_waiting S = [(4, 1)]
     \<and> serve clock_server_step S ((8, 7, \<lparr>cm_action = DELAY, cm_ticks = 600\<rparr>) # replicate 600 (8, 9, \<lparr>cm_action = TICK, cm_ticks = 0\<rparr>))
        = Inr (S', rs)
     \<and> answered rs (4, 1) \<and> answered rs (7, 600)"
proof -
  let ?d = "\<lparr>cm_action = DELAY, cm_ticks = 600\<rparr> :: ClockServerMsg" and ?t = "\<lparr>cm_action = TICK, cm_ticks = 0\<rparr> :: ClockServerMsg"
  let ?ms = "(8, 7, ?d) # replicate 600 (8, 9, ?t) :: (i32 \<times> i32 \<times> ClockServerMsg) list"
  from ex_clock_one obtain S where s: "clock_inv S" "clock_waiting S = [(4, 1)]" "cs_ticks S = 0" by blast
  have c: "tick_count ?ms = 600" by (simp add: tick_count_def)
  have "clk.room_for ?ms = 1" by (simp add: clk.room_for_def clock_needs_def sum_list_replicate)
  then have fit: "delays_fit (cs_ticks S) (clock_waiting S) ?ms" by (intro few_delays_fit) (simp add: s(2))
  have "\<forall>m\<in>set ?ms. nonempty m" "unat (cs_ticks S) + tick_count ?ms < 2 ^ 32" using s c by (auto simp: nonempty_def)
  from clock_delays_end [OF s(1) fit this] obtain S' rs where r: "serve clock_server_step S ?ms = Inr (S', rs)"
    "unat (cs_ticks S') = 600" "\<forall>e\<in>set (clock_waiting S) \<union> set (delays_asked (cs_ticks S) ?ms).
         if snd e \<le> cs_ticks S' then answered rs e else e \<in> set (clock_waiting S')"
    unfolding c s(3) by auto
  have "must_wait 0 ?d" "wakes_at 0 ?d = 600" by (simp_all add: must_wait_def wakes_at_def)
  then have "(7, 600) \<in> set (delays_asked (cs_ticks S) ?ms)" by (simp add: s(3))
  moreover have "1 \<le> cs_ticks S'" "600 \<le> cs_ticks S'" using r(2) by (simp_all add: word_le_nat_alt)
  ultimately have "answered rs (4, 1)" "answered rs (7, 600)" using r(3) s(2) by force+
  with r(1) s(2) show ?thesis by blast
qed

text \<open>C24. When 512 tasks wait the pool is exhausted: the next delay makes the server follow a
  null pointer.\<close>

theorem clock_server_overrun:
  assumes "clock_inv S" and "length (clock_waiting S) = 512" and "cs_ticks S < cm_ticks msg"
    and "cm_action msg = DELAY_UNTIL"
  shows "clock_server_step S tid msg = Inl NullDeref"
  using clock_delay_full [OF assms(1,3,2)] assms(4) by (simp add: clock_server_step_def)

theorem clock_server_overrun_witness:
  "\<exists>S. length (clock_waiting S) = 512 \<and> clock_server_step S 3 \<lparr>cm_action = DELAY_UNTIL, cm_ticks = 7\<rparr> = Inl NullDeref"
proof -
  from ex_clock_full obtain S where s: "clock_inv S" "length (clock_waiting S) = 512" "cs_ticks S = 0" by blast
  have "cs_ticks S < cm_ticks \<lparr>cm_action = DELAY_UNTIL, cm_ticks = 7\<rparr>"
    "cm_action \<lparr>cm_action = DELAY_UNTIL, cm_ticks = 7\<rparr> = DELAY_UNTIL" using s(3) by simp_all
  from clock_server_overrun [OF s(1,2) this] s(2) show ?thesis by blast
qed

section \<open>The name server\<close>

text \<open>C25. After any sequence of messages, a question for a name is answered with the task that
  was the first to register a name of the same hash slot, and with -1 if there was none: a
  registration is never overwritten, and every message has been answered once.\<close>

theorem name_first_registration_counts:
  assumes "length (ht_data (ns_table S)) = 64" and "length (ht_used (ns_table S)) = 64"
    and "\<forall>m\<in>set ms. nonempty m" and "len \<noteq> 0" and "nm_action msg = WHO_IS"
  shows "\<exists>S' rs. name_server S my_tid (ms @ [(len, tid, msg)])
      = Inr (S', rs @ [(tid, msg\<lparr>nm_tid := case first_registrant ms (nm_name msg) of None \<Rightarrow> - 1 | Some t \<Rightarrow> t\<rparr>)])
    \<and> length rs = length ms"
  by (rule names_query [OF assms(1,2) _ assms(4,5)]) (use assms(3) in blast)

theorem name_first_registration_counts_witness:
  "\<exists>S' rs. name_server ex_names 1 [(24, 5, \<lparr>nm_action = REGISTER_AS, nm_name = [97], nm_tid = 5\<rparr>),
        (24, 6, \<lparr>nm_action = REGISTER_AS, nm_name = [97], nm_tid = 6\<rparr>), (24, 7, \<lparr>nm_action = WHO_IS, nm_name = [97], nm_tid = 7\<rparr>)]
      = Inr (S', rs @ [(7, \<lparr>nm_action = WHO_IS, nm_name = [97], nm_tid = 5\<rparr>)]) \<and> length rs = 2"
proof -
  let ?ms = "[(24, 5, \<lparr>nm_action = REGISTER_AS, nm_name = [97], nm_tid = 5\<rparr>),
        (24, 6, \<lparr>nm_action = REGISTER_AS, nm_name = [97], nm_tid = 6\<rparr>)] :: (i32 \<times> i32 \<times> NameServerMsg) list"
  have ms: "\<forall>m\<in>set ?ms. nonempty m" and one: "(24 :: i32) \<noteq> 0" by (simp_all add: nonempty_def)
  have first: "first_registrant ?ms [97] = Some 5" by (simp add: first_registrant_def registers_def)
  have "nm_action \<lparr>nm_action = WHO_IS, nm_name = [97], nm_tid = 7\<rparr> = WHO_IS" by simp
  from name_first_registration_counts [OF ex_names_length ms one this, of 1 7] first
  show ?thesis by (simp add: numeral_2_eq_2)
qed

section \<open>The rock-paper-scissors server\<close>

text \<open>C26. A round: when the second of two players shows a gesture, both are answered, each with
  its own name, its opponent and the verdict of the rules of the game from its own side;
  both are ready for the next round and the queue of sign-ups is untouched.\<close>

theorem rps_round_is_judged:
  assumes "rps_inv S" and "rm_action msg = PLAY" and "p1 = whois (rm_name msg)" and "p2 = whois (rm_opponent msg)"
    and "player p1" and "player p2" and "p1 \<noteq> p2" and "gesture (rm_play_action msg)" and "gesture (action_of S p2)"
  shows "\<exists>S' m1 m2. rps_server_step whois S tid msg = Inr (S',
        [(p1, rps_result (rm_name msg) (rm_opponent msg) (verdict (rm_play_action msg) (action_of S p2)) m1),
         (p2, rps_result (rm_opponent msg) (rm_name msg) (verdict (action_of S p2) (rm_play_action msg)) m2)])
    \<and> rps_inv S' \<and> rps_waiting S' = rps_waiting S
    \<and> rs_actions S' = put_action p2 UNKNOWN (put_action p1 UNKNOWN (rs_actions S))"
  by (rule rps_step_judged [OF assms])

theorem rps_round_is_judged_witness:
  "\<exists>S S' m1 m2. action_of S 3 = ROCK \<and> rps_server_step ex_whois S 2 (ex_rps_msg PLAY PAPER [97] [98])
     = Inr (S', [(2, rps_result [97] [98] WON m1), (3, rps_result [98] [97] LOST m2)])"
proof -
  obtain S where s: "rps_inv S" "action_of S 3 = ROCK" using ex_rps_shown by blast
  have v: "verdict PAPER ROCK = WON" "verdict ROCK PAPER = LOST" "gesture PAPER" "gesture ROCK"
    by (simp_all add: verdict_def beats_def gesture_def rps_codes)
  have p: "(2 :: i32) = ex_whois (rm_name (ex_rps_msg PLAY PAPER [97] [98]))"
    "(3 :: i32) = ex_whois (rm_opponent (ex_rps_msg PLAY PAPER [97] [98]))" "player 2" "player 3" "(2 :: i32) \<noteq> 3"
    by (simp_all add: player_def)
  have "rm_action (ex_rps_msg PLAY PAPER [97] [98]) = PLAY" "gesture (rm_play_action (ex_rps_msg PLAY PAPER [97] [98]))"
    "gesture (action_of S 3)" using s(2) v(3,4) by simp_all
  from rps_round_is_judged [OF s(1) this(1) p this(2,3), of 2] s(2) v(1,2) show ?thesis by auto
qed

text \<open>C27. Signing up: a player who finds nobody waiting waits unanswered; the next one is paired
  with it, and both are answered with the name of the other as their opponent.\<close>

theorem rps_signups_are_paired:
  assumes "rps_inv S" and "rm_action msg = SIGNUP" and "player (whois (rm_name msg))"
  shows "case rps_waiting S of
      None \<Rightarrow> \<exists>S'. rps_server_step whois S tid msg = Inr (S', []) \<and> rps_inv S' \<and> rps_waiting S' = Some (rm_name msg)
    | Some other \<Rightarrow> \<exists>S' m1 m2. rps_server_step whois S tid msg = Inr (S', [(whois other, m1), (whois (rm_name msg), m2)])
        \<and> rm_name m1 = other \<and> rm_opponent m1 = rm_name msg \<and> rm_name m2 = rm_name msg \<and> rm_opponent m2 = other
        \<and> rps_inv S' \<and> rps_waiting S' = None"
  using rps_step_first [where tid = tid and whois = whois and msg = msg, OF assms(1) _ assms(2,3)]
    rps_step_second [where tid = tid and whois = whois and msg = msg, OF assms(1) _ assms(2,3)]
  by (cases "rps_waiting S") simp_all

theorem rps_signups_are_paired_witness:
  "\<exists>S S'. rps_waiting S = None \<and> rps_server_step ex_whois S 2 (ex_rps_msg SIGNUP 0 [97] []) = Inr (S', [])
     \<and> rps_waiting S' = Some [97]"
proof -
  obtain S where s: "rps_inv S" "rps_waiting S = None" using ex_rps_init by blast
  have "rm_action (ex_rps_msg SIGNUP 0 [97] []) = SIGNUP" "player (ex_whois (rm_name (ex_rps_msg SIGNUP 0 [97] [])))" by (simp_all add: ex_player_23)
  from rps_signups_are_paired [where msg = "ex_rps_msg SIGNUP 0 [97] []" and whois = ex_whois and tid = 2, OF s(1) this] s(2) show ?thesis by auto
qed

text \<open>C28. As long as the names that the server looks up have numbers from 0 to 63 (the player's at a sign-up, both players' in a
  round) and so have the tasks that quit, the server handles every sequence of messages: its pool is never exhausted, its array
  never left, and at most one player waits for an opponent.\<close>

theorem rps_server_never_faults:
  assumes "length (mp_unused (rs_pool S)) = MEMORY_POOL_CHUNKS" and "length (rs_actions S) = 64"
    and "\<forall>m\<in>set ms. nonempty m \<and> (case m of (len, tid, msg) \<Rightarrow> rps_ok whois tid msg)"
  shows "\<exists>S' rs. rps_server whois S ms = Inr (S', rs) \<and> rps_inv S'"
  by (rule rps_serves [OF assms])

theorem rps_server_never_faults_witness:
  "\<exists>S' rs. rps_server ex_whois ex_rps [(40, 2, ex_rps_msg SIGNUP 0 [97] []), (40, 3, ex_rps_msg SIGNUP 0 [98] []),
     (40, 2, ex_rps_msg PLAY ROCK [97] [98]), (40, 3, ex_rps_msg QUIT 0 [98] [])] = Inr (S', rs)"
proof -
  let ?ms = "[(40, 2, ex_rps_msg SIGNUP 0 [97] []), (40, 3, ex_rps_msg SIGNUP 0 [98] []),
     (40, 2, ex_rps_msg PLAY ROCK [97] [98]), (40, 3, ex_rps_msg QUIT 0 [98] [])] :: (i32 \<times> i32 \<times> RPSMsg) list"
  have "length (mp_unused (rs_pool ex_rps)) = MEMORY_POOL_CHUNKS" "length (rs_actions ex_rps) = 64" by (simp_all add: ex_rps_def)
  moreover have "\<forall>m\<in>set ?ms. nonempty m \<and> (case m of (len, tid, msg) \<Rightarrow> rps_ok ex_whois tid msg)"
    by (simp add: nonempty_def rps_ok_def ex_player_23)
  ultimately show ?thesis using rps_server_never_faults by blast
qed

section \<open>The data structures of the kernel\<close>

text \<open>C29. The ring buffer of a task is first-in first-out: elements pushed into an empty buffer, up
  to one less than its capacity, come out in the same order and leave it empty.\<close>

theorem ring_buffer_is_fifo:
  assumes "queue_inv q" and "queue_cont q = []" and "length es \<le> q_capacity q - 1"
  shows "\<exists>q' q''. senders.enq_all q es = Inr q' \<and> senders.deq_n q' (length es) = Inr (q'', es)
    \<and> queue_inv q'' \<and> queue_cont q'' = []"
  by (rule senders.fifo_order [OF assms])

theorem ring_buffer_is_fifo_witness:
  "\<exists>q q' q''. queue_inv q \<and> senders.enq_all q [7, 8, 9] = Inr q' \<and> senders.deq_n q' 3 = Inr (q'', [7, 8, 9])"
proof -
  let ?q = "queue_init \<lparr>q_container = [], q_capacity = 0, q_size = 0, q_head = 0, q_tail = 0\<rparr> (replicate 4 0) 4"
  have q: "queue_inv ?q" "queue_cont ?q = []" "length [7, 8, 9 :: u64] \<le> q_capacity ?q - 1"
    using queue_init_inv [of 4 "replicate 4 0" "\<lparr>q_container = [], q_capacity = 0, q_size = 0, q_head = 0, q_tail = 0\<rparr>"]
    by simp_all
  from ring_buffer_is_fifo [OF q] q(1) show ?thesis by (auto simp: numeral_3_eq_3)
qed

text \<open>C30. The stack blocks handed out and not given back are pairwise different, they come from the
  free ones, and exactly as many can be handed out as are free; freeing a block clears all of its bytes and none outside
  it, and makes it available again.\<close>

theorem stack_blocks_are_distinct:
  assumes "memory_inv M"
  shows "(if n \<le> card (free_blocks M)
    then \<exists>M' bs. stack_blocks.alloc_n M n = Some (M', bs) \<and> memory_inv M' \<and> distinct bs \<and> length bs = n
      \<and> set bs \<subseteq> free_blocks M \<and> free_blocks M' = free_blocks M - set bs
    else stack_blocks.alloc_n M n = None)
    \<and> (\<forall>i<MEMORY_BLOCK_MAX_NUM. \<exists>M'. memory_free_block M (Some i) = Inr M' \<and> memory_inv M' \<and> free_blocks M' = insert i (free_blocks M)
      \<and> (\<forall>x. mb_mem M' x = (if in_region x (block_addr M i) MEMORY_BLOCK_SIZE then 0 else mb_mem M x)))"
proof
  show "if n \<le> card (free_blocks M)
    then \<exists>M' bs. stack_blocks.alloc_n M n = Some (M', bs) \<and> memory_inv M' \<and> distinct bs \<and> length bs = n
      \<and> set bs \<subseteq> free_blocks M \<and> free_blocks M' = free_blocks M - set bs
    else stack_blocks.alloc_n M n = None"
  proof (cases "n \<le> card (free_blocks M)")
    case True
    then obtain M' bs where a: "stack_blocks.alloc_n M n = Some (M', bs)"
      using stack_blocks.alloc_n_exact [OF assms] by force
    from stack_blocks.alloc_n_distinct [OF assms a] a True show ?thesis by auto
  next
    case False
    then show ?thesis using stack_blocks.alloc_n_exact [OF assms, of n] by (cases "stack_blocks.alloc_n M n") auto
  qed
next
  show "\<forall>i<MEMORY_BLOCK_MAX_NUM. \<exists>M'. memory_free_block M (Some i) = Inr M' \<and> memory_inv M' \<and> free_blocks M' = insert i (free_blocks M)
      \<and> (\<forall>x. mb_mem M' x = (if in_region x (block_addr M i) MEMORY_BLOCK_SIZE then 0 else mb_mem M x))"
  proof (intro allI impI)
    fix i assume "i < MEMORY_BLOCK_MAX_NUM"
    from memory_free_block_ok [OF assms this] obtain M' where
      "memory_free_block M (Some i) = Inr M'" "memory_inv M'" "free_blocks M' = insert i (free_blocks M)"
      "mb_mem M' = zero_range (mb_mem M) (block_addr M i) MEMORY_BLOCK_SIZE" by (auto simp: MEMORY_BLOCK_SIZE_def)
    then show "\<exists>M'. memory_free_block M (Some i) = Inr M' \<and> memory_inv M' \<and> free_blocks M' = insert i (free_blocks M)
      \<and> (\<forall>x. mb_mem M' x = (if in_region x (block_addr M i) MEMORY_BLOCK_SIZE then 0 else mb_mem M x))"
      by (intro exI [of _ M']) (simp add: zero_range_at MEMORY_BLOCK_SIZE_def)
  qed
qed

theorem stack_blocks_are_distinct_witness:
  "\<exists>M M' bs M''. memory_inv M \<and> stack_blocks.alloc_n M 64 = Some (M', bs) \<and> distinct bs \<and> stack_blocks.alloc_n M 65 = None
     \<and> memory_free_block M (Some 0) = Inr M'' \<and> mb_mem M'' 0x90010 = 0 \<and> mb_mem M'' 0x8FFFF = 7"
proof -
  let ?M = "\<lparr>mb_base = 0x90000, mb_used = replicate 64 False, mb_mem = (\<lambda>_. 7)\<rparr>"
  have M: "memory_inv ?M" "(0 :: nat) < MEMORY_BLOCK_MAX_NUM" by (simp_all add: memory_inv_def MEMORY_BLOCK_MAX_NUM_def)
  have f: "card (free_blocks ?M) = 64"
  proof -
    have "free_blocks ?M = {0..<64}" by (auto simp: free_blocks_def)
    then show ?thesis by simp
  qed
  from stack_blocks_are_distinct [OF M(1)] M(2) obtain M'' where m: "memory_free_block ?M (Some 0) = Inr M''"
    "\<And>x. mb_mem M'' x = (if in_region x (block_addr ?M 0) MEMORY_BLOCK_SIZE then 0 else mb_mem ?M x)" by blast
  have c: "mb_mem M'' 0x90010 = 0" "mb_mem M'' 0x8FFFF = 7"
    by (simp_all add: m(2) in_region_def block_addr_def MEMORY_BLOCK_SIZE_def
        unsigned_minus_1_eq_mask mask_eq_exp_minus_1)
  from stack_blocks_are_distinct [OF M(1), of 64] f obtain M' bs where "stack_blocks.alloc_n ?M 64 = Some (M', bs)" "distinct bs"
    by auto
  moreover from stack_blocks_are_distinct [OF M(1), of 65] f have "stack_blocks.alloc_n ?M 65 = None" by simp
  ultimately show ?thesis using m(1) c M(1) by blast
qed

section \<open>Numbers and strings\<close>

text \<open>C37. Writing a number in decimal and reading it back yields the number, for every unsigned
  number and for every signed one but the smallest, whose negation overflows in the writer.\<close>

theorem decimal_round_trip:
  "(\<exists>s. u32_to_cstring n 10 = Inr (s @ [0]) \<and> cstring_to_u32 (Some s) = Inr n)
   \<and> (if sint i = - (2 ^ 31) then i32_to_cstring i 10 = Inl Overflow
      else \<exists>s. i32_to_cstring i 10 = Inr (s @ [0]) \<and> cstring_to_i32 (Some s) = Inr i)"
proof (cases "sint i = - (2 ^ 31)")
  case True
  then have "i \<noteq> 0" by auto
  with True u32_round_trip [of n] show ?thesis by (auto simp: i32_to_cstring_def)
next
  case False
  then show ?thesis using u32_round_trip [of n] i32_round_trip [of i] by auto
qed

text \<open>C38. Writing a 64-bit number in a base from 2 to 36: the string consists of digits of the
  base, denotes the number, has no leading zero, and ends with a null byte; the loop ends
  within 64 steps.\<close>

theorem number_is_written_in_base:
  assumes "2 \<le> base" and "base \<le> 36" and "number \<noteq> 0"
  shows "\<exists>s. u64_to_cstring number base = Inr (s @ [0]) \<and> string_of_base (uint base) s
    \<and> string_value (uint base) s = uint number \<and> char_digit (hd s) \<noteq> 0"
  using u64_to_cstring_ok [OF assms] by blast

theorem number_is_written_in_base_witness:
  "\<exists>s. u64_to_cstring 0x1F4 16 = Inr (s @ [0]) \<and> string_value 16 s = 500"
  using number_is_written_in_base [of 16 "0x1F4"] by auto

section \<open>The console and the tasks of the system\<close>

text \<open>C32. A transfer on the serial bus that receives as many bytes as it sends is full duplex: the device
  sees exactly the bytes sent, in one transfer that ends with its last word, three bytes to a
  word, and the caller gets exactly the bytes the device answers; no further word is taken.\<close>

theorem spi_transfer_is_full_duplex:
  assumes "s \<noteq> []" and "length t = length s" and "sp_rx spi = answer_words t @ rest"
  shows "\<exists>ws. spi_send_recv spi s (length s) = Inr (spi\<lparr>sp_tx := sp_tx spi @ ws, sp_rx := rest\<rparr>, t)
    \<and> transfers [] ws = [s] \<and> length ws = (length s + 2) div 3"
proof -
  obtain ws where ws: "spi_send_recv spi s (length s) = Inr (spi\<lparr>sp_tx := sp_tx spi @ ws, sp_rx := rest\<rparr>, t)" "carries ws s"
    using spi_exchange_ok [OF assms] by blast
  with transfers_carries [OF ws(2), of "[]"] carries_length [OF ws(2)] show ?thesis by auto
qed

definition ex_spi :: "u32 list \<Rightarrow> SPI" where
  "ex_spi rx = \<lparr>sp_cntl0 = 0, sp_cntl1 = 0, sp_tx = [], sp_rx = rx\<rparr>"

theorem spi_transfer_is_full_duplex_witness:
  "\<exists>S. spi_send_recv (ex_spi (answer_words [9, 8, 7, 6] @ [5])) [1, 2, 3, 4] (length [1, 2, 3, 4 :: u8]) = Inr (S, [9, 8, 7, 6])
     \<and> sp_rx S = [5] \<and> transfers [] (sp_tx S) = [[1, 2, 3, 4]]"
proof -
  let ?spi = "ex_spi (answer_words [9, 8, 7, 6] @ [5])"
  have "[1, 2, 3, 4 :: u8] \<noteq> []" "length [9, 8, 7, 6 :: u8] = length [1, 2, 3, 4 :: u8]" "sp_rx ?spi = answer_words [9, 8, 7, 6] @ [5]"
    "sp_tx ?spi = []" by (simp_all add: ex_spi_def)
  with spi_transfer_is_full_duplex [of "[1, 2, 3, 4]" "[9, 8, 7, 6]" ?spi "[5]"] show ?thesis by fastforce
qed

text \<open>C31. Printing a string on a line transmits exactly its bytes, in order.  It goes in rounds, each a
  read of the room and a transfer with a chunk that together with its header byte is no longer than
  the room read, so the line's buffer of bytes is never overrun; the loop ends when the line always has
  room for two bytes, after at most two words from the bus for each byte.\<close>

theorem uart_puts_transmits:
  assumes "2 * max 1 (length buffer) \<le> length (sp_rx spi)" and "\<forall>w\<in>set (sp_rx spi). 2 \<le> level w" and "ch < 2"
  shows "\<exists>ps ws xs. uart_puts spi ch buffer = Inr (spi\<lparr>sp_tx := sp_tx spi @ ws, sp_rx := xs\<rparr>)
    \<and> sp_rx spi = concat (map round_words ps) @ xs \<and> transfers [] ws = concat (map (round_transfers ch) ps)
    \<and> (\<forall>p\<in>set ps. round_fits p) \<and> sent ch (transfers [] ws) = buffer"
proof -
  obtain ps ws xs where r: "uart_puts spi ch buffer = Inr (spi\<lparr>sp_tx := sp_tx spi @ ws, sp_rx := xs\<rparr>)"
    "sp_rx spi = concat (map round_words ps) @ xs" "\<forall>vs. transfers [] (ws @ vs) = concat (map (round_transfers ch) ps) @ transfers [] vs"
    "concat (map round_chunk ps) = buffer" "\<forall>p\<in>set ps. round_fits p"
    using uart_puts_ok [OF assms(1,2), of ch] by blast
  have "transfers [] ws = concat (map (round_transfers ch) ps)" using spec [OF r(3), of "[]"] by simp
  with r sent_rounds [OF assms(3), of ps] show ?thesis
    by (intro exI [of _ ps] exI [of _ ws] exI [of _ xs]) simp
qed

theorem uart_puts_transmits_witness:
  "\<exists>S. uart_puts (ex_spi [3, 3, 3, 3, 3, 3]) 1 [72, 105, 33] = Inr S \<and> sent 1 (transfers [] (sp_tx S)) = [72, 105, 33]"
proof -
  have "2 * max 1 (length [72, 105, 33 :: u8]) \<le> length (sp_rx (ex_spi [3, 3, 3, 3, 3, 3]))"
    "\<forall>w\<in>set (sp_rx (ex_spi [3, 3, 3, 3, 3, 3])). 2 \<le> level w" by (simp_all add: ex_spi_def)
  from uart_puts_transmits [OF this, of 1] show ?thesis by (auto simp: ex_spi_def)
qed

text \<open>C35. The two printers are equivalent: for a format made of plain text and of the directives of \<^verbatim>\<open>uart_printf\<close>,
  which are \<^verbatim>\<open>%s\<close>, \<^verbatim>\<open>%c\<close>, \<^verbatim>\<open>%d\<close>, \<^verbatim>\<open>%u\<close>, \<^verbatim>\<open>%p\<close> and
  \<^verbatim>\<open>%%\<close>, with the same arguments, \<^verbatim>\<open>uart_printf\<close> and \<^verbatim>\<open>printf\<close> transmit the same bytes, the text of
  the pieces, although one writes numbers into a buffer and prints strings in chunks and the other passes on single
  characters; only a pointer is different: \<^verbatim>\<open>printf\<close> writes zeros in front of the same digits, up to 16.  There are no
  null characters in the text and the strings, and the smallest signed number is excluded, which \<^verbatim>\<open>uart_printf\<close> cannot write.\<close>

theorem printers_are_equivalent:
  assumes "\<forall>p\<in>set ps. shared_piece p" and "fmt = concat (map piece_format ps)" and "args = concat (map piece_args ps)"
    and "2 * (length (concat (map printf_text ps)) + length ps) \<le> length (sp_rx spi)" and "\<forall>w\<in>set (sp_rx spi). 2 \<le> level w"
  shows "\<exists>ws n ws' n'. uart_printf spi 0 fmt args = Inr (spi\<lparr>sp_tx := sp_tx spi @ ws, sp_rx := drop n (sp_rx spi)\<rparr>)
    \<and> printf spi fmt (map printf_arg args) = Inr (spi\<lparr>sp_tx := sp_tx spi @ ws', sp_rx := drop n' (sp_rx spi)\<rparr>,
        word_of_nat (length (concat (map printf_text ps))))
    \<and> sent 0 (transfers [] ws) = concat (map piece_text ps) \<and> sent 0 (transfers [] ws') = concat (map printf_text ps)
    \<and> ((\<forall>p\<in>set ps. \<forall>a. p \<noteq> Ptr a) \<longrightarrow> sent 0 (transfers [] ws') = sent 0 (transfers [] ws))"
proof -
  have "map printf_text ps = map piece_text ps" if "\<forall>p\<in>set ps. \<forall>a. p \<noteq> Ptr a" using that printf_text_same by simp
  with printers_equal [OF assms] show ?thesis by fastforce
qed

theorem printers_are_equivalent_witness:
  "\<exists>S S'. uart_printf (ex_spi (replicate 60 9)) 0 [110, 61, 37, 100, 64, 37, 112] [Va_int (- 42), Va_pointer 0xBEE] = Inr S
     \<and> printf (ex_spi (replicate 60 9)) [110, 61, 37, 100, 64, 37, 112] [A_int (- 42), A_long 0xBEE] = Inr (S', 22)
     \<and> sent 0 (transfers [] (sp_tx S)) = [110, 61, 45, 52, 50, 64, 66, 69, 69]
     \<and> sent 0 (transfers [] (sp_tx S')) = [110, 61, 45, 52, 50, 64] @ replicate 13 48 @ [66, 69, 69]"
proof -
  let ?ps = "[Text [110, 61], Dec (- 42), Text [64], Ptr 0xBEE]"
  have t: "concat (map piece_text ?ps) = [110, 61, 45, 52, 50, 64, 66, 69, 69]"
    "concat (map printf_text ?ps) = [110, 61, 45, 52, 50, 64] @ replicate 13 48 @ [66, 69, 69]"
    by (simp_all add: number_text_def digits_of.simps MINUS_def)
  have f: "[110, 61, 37, 100, 64, 37, 112] = concat (map piece_format ?ps)" "[Va_int (- 42), Va_pointer 0xBEE] = concat (map piece_args ?ps)"
    by (simp_all add: PERCENT_def)
  have ok: "\<forall>p\<in>set ?ps. shared_piece p" by (simp add: PERCENT_def)
  have room: "2 * (length (concat (map printf_text ?ps)) + length ?ps) \<le> length (sp_rx (ex_spi (replicate 60 9)))"
    "\<forall>w\<in>set (sp_rx (ex_spi (replicate 60 9))). 2 \<le> level w" unfolding t by (simp_all add: ex_spi_def)
  from printers_are_equivalent [OF ok f room, unfolded t] show ?thesis by (auto simp: ex_spi_def)
qed

text \<open>C33. The kernel's own \<^verbatim>\<open>printf\<close>: for a format made of plain text and of directives for signed, unsigned,
  hexadecimal, long, character, string and pointer arguments, with width, left alignment and zero padding, the
  text put out is the one of the pieces, which is a function of the numbers' digits; and if the line always has room,
  the console transmits exactly these bytes (but for null bytes) and the length of the text is returned.\<close>

theorem printf_prints_format:
  assumes "\<forall>p\<in>set ps. pf_ok p" and "out = concat (map pf_text ps)"
    and "2 * length out \<le> length (sp_rx spi)" and "\<forall>w\<in>set (sp_rx spi). 2 \<le> level w"
  shows "\<exists>ws n. printf spi (concat (map pf_format ps)) (concat (map pf_args ps))
      = Inr (spi\<lparr>sp_tx := sp_tx spi @ ws, sp_rx := drop n (sp_rx spi)\<rparr>, word_of_nat (length out))
    \<and> sent 0 (transfers [] ws) = filter (\<lambda>c. c \<noteq> 0) out"
  using printf_ok [OF vs_text_pieces [OF assms(1)]] assms(2-4) by blast

theorem printf_prints_format_witness:
  "\<exists>S. printf (ex_spi (replicate 20 4)) [120, 61, 37, 48, 52, 120, 37, 45, 51, 100, 46] [A_int 0xBEE, A_int (- 7)] = Inr (S, 10)
     \<and> sent 0 (transfers [] (sp_tx S)) = [120, 61, 48, 98, 101, 101, 45, 55, 32, 46]"
proof -
  let ?ps = "[P_text [120, 61], P_hex False False True 4 0xBEE, P_int True False 3 (- 7), P_text [46]]"
  have f: "concat (map pf_format ?ps) = [120, 61, 37, 48, 52, 120, 37, 45, 51, 100, 46]"
    "concat (map pf_args ?ps) = [A_int 0xBEE, A_int (- 7)]"
    by (simp_all add: directive_def width_text_def number_text_def digits_of.simps PERCENT_def)
  have o: "[120, 61, 48, 98, 101, 101, 45, 55, 32, 46] = concat (map pf_text ?ps)"
    by (simp add: padded_def number_text_def digits_of.simps MINUS_def SPACE_def)
  have "\<forall>p\<in>set ?ps. pf_ok p" by (simp add: PERCENT_def width_ok_def)
  from printf_prints_format [OF this o, of "ex_spi (replicate 20 4)", unfolded f] show ?thesis by (auto simp: ex_spi_def)
qed

text \<open>C34. Printing into a buffer never writes behind the given count: the buffer gets the longest prefix of the text
  that fits, then a null byte, everything behind is as it was (all of it for a count of zero), and the length of
  the whole text is returned.\<close>

theorem snprintf_respects_count:
  assumes "\<forall>p\<in>set ps. pf_ok p" and "unat maxlen \<le> length buf"
  shows "snprintf (Some buf) maxlen (concat (map pf_format ps)) (concat (map pf_args ps)) = Inr (Some
    (if maxlen = 0 then buf
     else let s = take (unat maxlen - 1) (concat (map pf_text ps)) in s @ [0] @ drop (length s + 1) buf),
     word_of_nat (length (concat (map pf_text ps))))"
  by (rule snprintf_ok [OF vs_text_pieces [OF assms(1)] assms(2)])

theorem snprintf_respects_count_witness:
  "\<exists>b. snprintf (Some [1, 2, 3, 4, 5, 6]) 4 [37, 117, 33] [A_int 12345] = Inr (Some b, 6) \<and> b = [49, 50, 51, 0, 5, 6]"
proof -
  let ?ps = "[P_uns False False 0 12345, P_text [33]]"
  have f: "concat (map pf_format ?ps) = [37, 117, 33]" "concat (map pf_args ?ps) = [A_int 12345]"
    "concat (map pf_text ?ps) = [49, 50, 51, 52, 53, 33]"
    by (simp_all add: directive_def width_text_def padded_def number_text_def digits_of.simps PERCENT_def)
  have "\<forall>p\<in>set ?ps. pf_ok p" by (simp add: PERCENT_def width_ok_def)
  from snprintf_respects_count [OF this, of 4 "[1, 2, 3, 4, 5, 6]", unfolded f] show ?thesis by (simp add: Let_def)
qed

text \<open>C36. The idle task's report: the readings of the timer do not run backwards, and from one report to the entry of the
  round of the next one (from the boot time to the entry of the first round) at least 100 microseconds pass (\<open>metered\<close>), by whose
  hundredth the code divides.  Then every 50th round from the first on reports, no other does, no division fails, and each
  reported share of the time spent outside the task is at most 100 percent where the period was ten milliseconds or
  longer, and at most 199 percent, by rounding, where it was shorter.\<close>

theorem idle_reports_percentages:
  assumes "id_execution_time S = 0" and "metered 0 (sys_clock_boot_time clocks 1) (sys_clock_boot_time clocks 1) rounds"
    and "length rounds < 2 ^ 31"
  shows "\<exists>S' rs. idle clocks S rounds = Inr (S', rs)
    \<and> map (\<lambda>r. sint (fst r)) rs = filter (\<lambda>k. k mod 50 = 0) [0..int (length rounds) - 1]
    \<and> list_all2 (\<lambda>d r. snd r \<le> 199 \<and> (10000 \<le> d \<longrightarrow> snd r \<le> 100))
        (report_periods 0 (sys_clock_boot_time clocks 1) rounds) rs"
  using idle_ok [OF assms] unfolding share_fits_def .

theorem idle_reports_percentages_witness:
  "\<exists>S' r. idle ex_clocks idle_zero [(10500, 14510, 14520), (20100, 20100, 20900)] = Inr (S', [r]) \<and> sint (fst r) = 0 \<and> snd r \<le> 100"
proof -
  let ?rs = "[(10500, 14510, 14520), (20100, 20100, 20900)] :: (u64 \<times> u64 \<times> u64) list"
  have b: "sys_clock_boot_time ex_clocks 1 = 0" by (simp add: sys_clock_boot_time_def ex_clocks_def)
  have "metered 0 0 0 ?rs" by simp
  moreover have "[0..1 :: int] = [0, 1]" by (simp add: upto.simps)
  moreover have "report_periods 0 0 ?rs = [10500]" by simp
  ultimately show ?thesis
    using idle_reports_percentages [of idle_zero ex_clocks ?rs, unfolded b] by (auto simp: idle_zero_def list_all2_Cons1)
qed

section \<open>Time and interrupts\<close>

text \<open>C39. The tick clock does not drift: however late each tick is handled, after any number of
  ticks the next one is due at the boot time plus a whole number of intervals, the ticks are
  counted, and the comparator holds the low half of the next time.\<close>

theorem tick_clock_does_not_drift:
  assumes "sys_clock_init S clock_id interval chi clo = Inr S0" and "clock_ticks S0 clock_id rs = Inr S'"
  shows "ck_next_tick_time (sc_clocks S' clock_id)
      = sys_timer_full_count chi clo + word_of_nat (length rs + 1) * scast interval
    \<and> ck_tick_count (sc_clocks S' clock_id) = word_of_nat (length rs)
    \<and> st_C (sc_timer S') clock_id = ucast (ck_next_tick_time (sc_clocks S' clock_id))"
  by (rule clock_no_drift [OF assms])

theorem tick_clock_does_not_drift_witness:
  "\<exists>S0 S'. sys_clock_init ex_clocks 1 10000 0 500 = Inr S0 \<and> clock_ticks S0 1 [(0, 10700), (0, 20900)] = Inr S'
     \<and> ck_next_tick_time (sc_clocks S' 1) = 30500"
proof -
  obtain S0 where s0: "sys_clock_init ex_clocks 1 10000 0 500 = Inr S0" "ck_next_tick_time (sc_clocks S0 1) = 10500"
    "ck_interval (sc_clocks S0 1) = 10000"
    by (simp add: sys_clock_init_def sys_timer_set_comparator_def sys_timer_full_count_def del: One_nat_def)
  obtain S' where s': "clock_ticks S0 1 [(0, 10700), (0, 20900)] = Inr S'"
    using s0(2,3) by (simp add: sys_clock_notify_tick_def sys_timer_clear_match_def sys_timer_set_comparator_def
        sys_timer_full_count_def Let_def del: One_nat_def)
  from tick_clock_does_not_drift [OF s0(1) s'] s0(1) s' show ?thesis
    by (auto simp: sys_timer_full_count_def)
qed

text \<open>C40. The round of a timer interrupt: the clock is moved on by its interval, the comparator is set to the next tick, the end of
  the interrupt is signalled, and of the tasks that await the event the first one, in the order of priority and arrival,
  becomes ready, and only this one; no other task changes its state, and the memory is as the interrupted task left it.\<close>

theorem timer_interrupt_wakes_first_waiter:
  assumes "system_inv S" and "schedule (sy_kernel S) = Inr (K, Some t)" and "tr_exc tr = IRQ" and "tick_ok S tr"
    and "event_waiters (sy_kernel S) 97 = ws"
  shows "\<exists>S'. kmain_step S tr = Inr (S', True) \<and> system_inv S' \<and> k_mem (sy_kernel S') = tr_mem tr
    \<and> ck_next_tick_time (sc_clocks (sy_clocks S') 1)
        = ck_next_tick_time (sc_clocks (sy_clocks S) 1) + scast (ck_interval (sc_clocks (sy_clocks S) 1))
    \<and> ck_tick_count (sc_clocks (sy_clocks S') 1) = ck_tick_count (sc_clocks (sy_clocks S) 1) + 1
    \<and> st_C (sc_timer (sy_clocks S')) 1 = ucast (ck_next_tick_time (sc_clocks (sy_clocks S') 1))
    \<and> gc_eoi (sy_gicc S') = 97 \<and> event_waiters (sy_kernel S') 97 = tl ws
    \<and> (ws \<noteq> [] \<longrightarrow> t_state (k_tasks (sy_kernel S') (hd ws)) = READY \<and> hd ws \<in> set (ready_tasks (sy_kernel S')))
    \<and> (\<forall>u. live K u \<and> u \<noteq> t \<and> u \<notin> set (take 1 ws) \<longrightarrow> t_state (k_tasks (sy_kernel S') u) = t_state (k_tasks K u))"
  by (rule timer_round [OF assms])

theorem timer_interrupt_wakes_first_waiter_witness:
  "\<exists>S S'. event_waiters (sy_kernel S) 97 = [0] \<and> kmain_step S (ex_tick (\<lambda>_. 0)) = Inr (S', True)
     \<and> event_waiters (sy_kernel S') 97 = [] \<and> t_state (k_tasks (sy_kernel S') 0) = READY"
proof -
  from ex_waits_for_timer [of "\<lambda>_. 0"] obtain S :: System and K where
    s: "system_inv S" "schedule (sy_kernel S) = Inr (K, Some 1)" "tick_ok S (ex_tick (\<lambda>_. 0))" "event_waiters (sy_kernel S) 97 = [0]"
    by blast
  have "tr_exc (ex_tick (\<lambda>_. 0)) = IRQ" by (simp add: ex_tick_def)
  from timer_interrupt_wakes_first_waiter [OF s(1,2) this s(3,4)] obtain S' where
    "kmain_step S (ex_tick (\<lambda>_. 0)) = Inr (S', True)" "event_waiters (sy_kernel S') 97 = []"
    "t_state (k_tasks (sy_kernel S') 0) = READY" by auto
  with s(4) show ?thesis by blast
qed

end
